(* ===== verification/E2_Prelude.thy ===== *)
theory E2_Prelude
  imports Main "HOL-Library.Word"
begin

unbundle bit_operations_syntax

text \<open>
  Shared vocabulary of the development: machine types of the C sources, the byte
  representation of machine words in both host byte orders, the view of a byte
  buffer as an array of words (which \<^verbatim>\<open>generic/sha1.c\<close> and \<^verbatim>\<open>generic/sha2.c\<close> obtain by
  pointer casts), copying into a buffer, and hexadecimal rendering of byte strings.

  The collections \<open>mem_simps\<close> (buffers and copies) and \<open>byte_simps\<close> (words and
  bytes) are the rewrite sets the component theories build on.
\<close>

section \<open>Types and rewrite collections\<close>

named_theorems mem_simps \<open>copying into and reading from byte buffers\<close>
named_theorems byte_simps \<open>words and their byte representation\<close>

type_synonym byte = "8 word"
type_synonym u32 = "32 word"
type_synonym u64 = "64 word"

text \<open>The value of the C macro \<^verbatim>\<open>BYTE_ORDER\<close> of the host the code is compiled for.\<close>

datatype byte_order = LITTLE_ENDIAN | BIG_ENDIAN

section \<open>Words as bytes\<close>

definition be_word :: "byte list \<Rightarrow> 'a::len word" where
  "be_word bs = foldl (\<lambda>w b. push_bit 8 w OR ucast b) 0 bs"

definition be_bytes :: "nat \<Rightarrow> 'a::len word \<Rightarrow> byte list" where
  "be_bytes n w = map (\<lambda>i. ucast (drop_bit (8 * (n - 1 - i)) w)) [0..<n]"

text \<open>A word stored in the memory of a host: most significant byte first or last.\<close>

definition host_word :: "byte_order \<Rightarrow> byte list \<Rightarrow> 'a::len word" where
  "host_word bo bs = (case bo of LITTLE_ENDIAN \<Rightarrow> be_word (rev bs) | BIG_ENDIAN \<Rightarrow> be_word bs)"

definition host_bytes :: "byte_order \<Rightarrow> nat \<Rightarrow> 'a::len word \<Rightarrow> byte list" where
  "host_bytes bo n w = (case bo of LITTLE_ENDIAN \<Rightarrow> rev (be_bytes n w) | BIG_ENDIAN \<Rightarrow> be_bytes n w)"

lemma be_word_snoc: "be_word (bs @ [b]) = push_bit 8 (be_word bs) OR ucast b"
  by (simp add: be_word_def)

lemma length_be_bytes [simp]: "length (be_bytes n w) = n"
  by (simp add: be_bytes_def)

lemma length_host_bytes [simp]: "length (host_bytes bo n w) = n"
  by (cases bo) (simp_all add: host_bytes_def)

lemma bit_be_word:
  "bit (be_word bs :: 'a::len word) k \<longleftrightarrow>
     k < LENGTH('a) \<and> k < 8 * length bs \<and> bit (bs ! (length bs - 1 - k div 8)) (k mod 8)"
proof (induction bs arbitrary: k rule: rev_induct)
  case Nil
  then show ?case by (simp add: be_word_def)
next
  case (snoc b bs)
  show ?case
  proof (cases "k < 8")
    case True
    then show ?thesis by (auto simp: be_word_snoc bit_simps nth_append)
  next
    case False
    then obtain m where k: "k = m + 8" by (metis le_add_diff_inverse2 not_less)
    have d: "k div 8 = Suc (m div 8)" "k mod 8 = m mod 8" using k by simp_all
    have "\<not> bit b k" using False bit_imp_le_length [of b k] by auto
    then show ?thesis
      using d k by (auto simp: be_word_snoc bit_simps snoc.IH nth_append)
  qed
qed

lemma length_concat_be: "length (concat (map (be_bytes n) ws)) = n * length ws"
  by (induction ws) simp_all

lemma bit_be_bytes:
  "i < n \<Longrightarrow> bit (be_bytes n w ! i) k \<longleftrightarrow> k < 8 \<and> bit w (8 * (n - 1 - i) + k)"
  by (simp add: be_bytes_def bit_simps)

lemma be_word_be_bytes:
  fixes w :: "'a::len word"
  assumes "8 * n = LENGTH('a)"
  shows "be_word (be_bytes n w) = w"
proof (rule bit_word_eqI)
  fix k assume "k < LENGTH('a)"
  then have k: "k < 8 * n" using assms by simp
  then have d: "k div 8 < n" by auto
  then have "8 * (n - 1 - (n - 1 - k div 8)) + k mod 8 = k" by simp
  then show "bit (be_word (be_bytes n w) :: 'a word) k = bit w k"
    using k d assms by (auto simp: bit_be_word bit_be_bytes)
qed

lemma be_bytes_be_word:
  assumes "length bs = n" "8 * n \<le> LENGTH('a::len)"
  shows "be_bytes n (be_word bs :: 'a word) = bs"
proof (rule nth_equalityI)
  show "length (be_bytes n (be_word bs :: 'a word)) = length bs" using assms by simp
next
  fix i assume "i < length (be_bytes n (be_word bs :: 'a word))"
  then have i: "i < n" by simp
  show "be_bytes n (be_word bs :: 'a word) ! i = bs ! i"
  proof (rule bit_word_eqI)
    fix k assume k: "k < LENGTH(8)"
    have "(8 * (n - 1 - i) + k) div 8 = n - 1 - i" "(8 * (n - 1 - i) + k) mod 8 = k"
      and "8 * (n - 1 - i) + k < 8 * n" using i k by auto
    then show "bit (be_bytes n (be_word bs :: 'a word) ! i) k = bit (bs ! i) k"
      using i k assms by (simp add: bit_be_word bit_be_bytes)
  qed
qed

lemma host_word_host_bytes:
  fixes w :: "'a::len word"
  assumes "8 * n = LENGTH('a)"
  shows "host_word bo (host_bytes bo n w) = w"
  by (cases bo) (simp_all add: host_word_def host_bytes_def be_word_be_bytes [OF assms])

lemma host_bytes_host_word:
  assumes "length bs = n" "8 * n \<le> LENGTH('a::len)"
  shows "host_bytes bo n (host_word bo bs :: 'a word) = bs"
  using assms
  by (cases bo) (simp_all add: host_word_def host_bytes_def be_bytes_be_word)

section \<open>Copying into buffers\<close>

text \<open>
  \<open>mem_copy buf off src\<close> is the content of \<open>buf\<close> after \<^verbatim>\<open>memcpy(&buf[off], src, n)\<close> with
  \<open>n\<close> the length of \<open>src\<close>. A copy past the end makes the list longer, so a buffer that
  keeps its length through an operation was never overrun.
\<close>

definition mem_copy :: "'a list \<Rightarrow> nat \<Rightarrow> 'a list \<Rightarrow> 'a list" where
  "mem_copy buf off src = take off buf @ src @ drop (off + length src) buf"

lemma length_mem_copy [mem_simps]:
  "off + length src \<le> length buf \<Longrightarrow> length (mem_copy buf off src) = length buf"
  by (simp add: mem_copy_def)

lemma length_mem_copy_iff:
  "off \<le> length buf \<Longrightarrow> length (mem_copy buf off src) = length buf \<longleftrightarrow> off + length src \<le> length buf"
  by (auto simp: mem_copy_def)

lemma take_mem_copy_upto [mem_simps]:
  "off \<le> length buf \<Longrightarrow> take (off + length src) (mem_copy buf off src) = take off buf @ src"
  by (simp add: mem_copy_def)

lemma take_mem_copy_below:
  "n \<le> off \<Longrightarrow> off \<le> length buf \<Longrightarrow> take n (mem_copy buf off src) = take n buf"
  by (simp add: mem_copy_def min_absorb1)

lemma mem_copy_fill [mem_simps]:
  "off + length src = length buf \<Longrightarrow> mem_copy buf off src = take off buf @ src"
  by (simp add: mem_copy_def)

lemma mem_copy_0 [mem_simps]: "mem_copy buf 0 src = src @ drop (length src) buf"
  by (simp add: mem_copy_def)

lemma mem_copy_empty [mem_simps]: "mem_copy buf off [] = buf"
  by (simp add: mem_copy_def)

lemma take_Suc_update [mem_simps]: "u < length xs \<Longrightarrow> take (Suc u) (xs[u := x]) = take u xs @ [x]"
  by (simp add: take_Suc_conv_app_nth)

lemma pad_one_block:
  assumes "length buf = N" "u < N" "Suc u + z \<le> N"
  shows "take (Suc u + z) (mem_copy (buf[u := 0x80]) (Suc u) (replicate z 0)) = take u buf @ 0x80 # replicate z (0::byte)"
  using assms take_mem_copy_upto [of "Suc u" "buf[u := 0x80]" "replicate z 0"] by (simp add: mem_simps)

section \<open>A byte buffer as an array of words\<close>

definition load_word :: "byte_order \<Rightarrow> nat \<Rightarrow> byte list \<Rightarrow> nat \<Rightarrow> 'a::len word" where
  "load_word bo n buf j = host_word bo (take n (drop (n * j) buf))"

definition store_word :: "byte_order \<Rightarrow> nat \<Rightarrow> byte list \<Rightarrow> nat \<Rightarrow> 'a::len word \<Rightarrow> byte list" where
  "store_word bo n buf j w = mem_copy buf (n * j) (host_bytes bo n w)"

text \<open>
  The contract of a fixed array of \<open>cnt\<close> words: what the compression functions rely on
  when they use a byte buffer as their message schedule.
\<close>

locale word_array =
  fixes get :: "'b \<Rightarrow> nat \<Rightarrow> 'w"
    and put :: "'b \<Rightarrow> nat \<Rightarrow> 'w \<Rightarrow> 'b"
    and wf :: "'b \<Rightarrow> bool"
    and cnt :: nat
  assumes get_put: "wf b \<Longrightarrow> i < cnt \<Longrightarrow> j < cnt \<Longrightarrow> get (put b i w) j = (if i = j then w else get b j)"
    and wf_put: "wf b \<Longrightarrow> i < cnt \<Longrightarrow> wf (put b i w)"
begin

definition words :: "'b \<Rightarrow> 'w list" where
  "words b = map (get b) [0..<cnt]"

lemma length_words [simp]: "length (words b) = cnt"
  by (simp add: words_def)

lemma words_nth: "j < cnt \<Longrightarrow> words b ! j = get b j"
  by (simp add: words_def)

lemma words_put: "wf b \<Longrightarrow> i < cnt \<Longrightarrow> words (put b i w) = (words b)[i := w]"
  by (rule nth_equalityI) (auto simp: words_nth get_put nth_list_update)

end

lemma load_store_word:
  fixes w :: "'a::len word"
  assumes n: "8 * n = LENGTH('a)" and len: "length buf = n * c" and i: "i < c" and j: "j < c"
  shows "load_word bo n (store_word bo n buf i w) j = (if i = j then w else load_word bo n buf j)"
proof -
  have fit: "n * i + n \<le> length buf" "n * j + n \<le> length buf"
    using mult_le_mono2 [of "Suc i" c n] mult_le_mono2 [of "Suc j" c n] i j len by auto
  consider "j < i" | "j = i" | "i < j" by linarith
  then show ?thesis
  proof cases
    case 1
    then have "n * j + n \<le> n * i" using mult_le_mono2 [of "Suc j" i n] by simp
    then have "take n (drop (n * j) (take (n * i) buf)) = take n (drop (n * j) buf)"
      by (simp add: take_drop min_def)
    then show ?thesis
      using 1 fit \<open>n * j + n \<le> n * i\<close> by (simp add: load_word_def store_word_def mem_copy_def)
  next
    case 2
    then show ?thesis
      using fit by (simp add: load_word_def store_word_def mem_copy_def host_word_host_bytes [OF n])
  next
    case 3
    then have le: "n * i + n \<le> n * j" using mult_le_mono2 [of "Suc i" j n] by simp
    have "drop (n * j) (take (n * i) buf @ host_bytes bo n w @ drop (n * i + n) buf) = drop (n * j) buf"
      using le fit 3 by (simp add: add.commute)
    then show ?thesis
      using 3 by (simp add: load_word_def store_word_def mem_copy_def)
  qed
qed

lemma length_store_word:
  "length buf = n * c \<Longrightarrow> i < c \<Longrightarrow> length (store_word bo n buf i w) = n * c"
  using mult_le_mono2 [of "Suc i" c n] by (simp add: store_word_def length_mem_copy)

interpretation buf32: word_array "load_word bo 4 :: byte list \<Rightarrow> nat \<Rightarrow> u32" "store_word bo 4"
  "\<lambda>b. length b = 64" 16 for bo
  using load_store_word [where 'a = 32 and n = 4 and c = 16] length_store_word [where n = 4 and c = 16]
  by unfold_locales auto

interpretation buf64: word_array "load_word bo 8 :: byte list \<Rightarrow> nat \<Rightarrow> u64" "store_word bo 8"
  "\<lambda>b. length b = 128" 16 for bo
  using load_store_word [where 'a = 64 and n = 8 and c = 16] length_store_word [where n = 8 and c = 16]
  by unfold_locales auto

section \<open>Indices\<close>

lemma and_15_mod [byte_simps]: "(n::nat) AND 15 = n mod 16"
proof -
  have "n AND mask 4 = n mod 16" by (simp add: take_bit_eq_mod flip: take_bit_eq_mask)
  moreover have "mask 4 = (15::nat)" by (simp add: mask_eq_exp_minus_1)
  ultimately show ?thesis by simp
qed

section \<open>Hexadecimal rendering\<close>

text \<open>
  The digit table and the digit loop of \<^verbatim>\<open>SHA256_End\<close>, \<^verbatim>\<open>SHA384_End\<close>, \<^verbatim>\<open>SHA512_End\<close>
  (\<^verbatim>\<open>generic/sha2.c\<close>) and \<^verbatim>\<open>lsha1_final\<close> (\<^verbatim>\<open>generic/lsha.c\<close>), which all read
  \<^verbatim>\<open>hexdigits[(d & 0xf0) >> 4]\<close> and then \<^verbatim>\<open>hexdigits[d & 0x0f]\<close>.
\<close>

definition sha2_hex_digits :: string where
  "sha2_hex_digits = ''0123456789abcdef''"

primrec hex_loop :: "byte list \<Rightarrow> string" where
  "hex_loop [] = []"
| "hex_loop (d # ds) =
     sha2_hex_digits ! unat (drop_bit 4 (d AND 0xf0)) #
     sha2_hex_digits ! unat (d AND 0x0f) # hex_loop ds"

text \<open>
  The characters written and the offset where the loop leaves the pointer \<^verbatim>\<open>buffer\<close>, which
  the \<^verbatim>\<open>SHA*_End\<close> functions return.
\<close>

definition hex_store :: "byte list \<Rightarrow> string \<times> nat" where
  "hex_store ds = (hex_loop ds, length (hex_loop ds))"

text \<open>Reading a digit back.\<close>

definition hex_val :: "char \<Rightarrow> nat" where
  "hex_val c = (case List.find (\<lambda>i. sha2_hex_digits ! i = c) [0..<16] of None \<Rightarrow> 16 | Some i \<Rightarrow> i)"

fun unhex :: "string \<Rightarrow> byte list" where
  "unhex (h # l # cs) = of_nat (16 * hex_val h + hex_val l) # unhex cs"
| "unhex _ = []"

lemma length_hex_loop [simp]: "length (hex_loop ds) = 2 * length ds"
  by (induction ds) auto

lemma hex_val_digit: "i < 16 \<Longrightarrow> hex_val (sha2_hex_digits ! i) = i"
proof -
  have "\<forall>i \<in> set [0..<16]. hex_val (sha2_hex_digits ! i) = i" by code_simp
  then show "i < 16 \<Longrightarrow> hex_val (sha2_hex_digits ! i) = i" by simp
qed

lemma byte_nibbles:
  fixes d :: byte
  shows "unat (drop_bit 4 (d AND 0xf0)) = unat d div 16" "unat (d AND 0x0f) = unat d mod 16"
proof -
  have "drop_bit 4 (d AND 0xf0) = drop_bit 4 d"
  proof (rule bit_word_eqI)
    fix n assume "n < LENGTH(8)"
    then have "n = 0 \<or> n = 1 \<or> n = 2 \<or> n = 3 \<or> n = 4 \<or> n = 5 \<or> n = 6 \<or> n = 7" by auto
    then show "bit (drop_bit 4 (d AND 0xf0)) n = bit (drop_bit 4 d) n"
      using bit_imp_le_length [of d "n + 4"] by (auto simp: bit_simps)
  qed
  then show "unat (drop_bit 4 (d AND 0xf0)) = unat d div 16"
    by (simp only: unat_drop_bit_eq) (simp add: drop_bit_eq_div)
  have "d AND 0x0f = d AND mask 4" by (simp add: mask_eq_exp_minus_1)
  then show "unat (d AND 0x0f) = unat d mod 16"
    by (simp add: take_bit_eq_mod unat_mod flip: take_bit_eq_mask)
qed

lemma unhex_hex_loop [simp]: "unhex (hex_loop ds) = ds"
proof (induction ds)
  case (Cons d ds)
  have "unat d div 16 < 16" using unsigned_less [of d, where 'a = nat] by auto
  then have "hex_val (sha2_hex_digits ! (unat d div 16)) = unat d div 16"
    and "hex_val (sha2_hex_digits ! (unat d mod 16)) = unat d mod 16"
    by (simp_all add: hex_val_digit)
  then have "of_nat (16 * hex_val (sha2_hex_digits ! (unat d div 16)) +
      hex_val (sha2_hex_digits ! (unat d mod 16))) = d"
    by simp
  then show ?case using Cons by (simp only: hex_loop.simps byte_nibbles unhex.simps)
qed simp

lemma hex_loop_inj: "hex_loop xs = hex_loop ys \<Longrightarrow> xs = ys"
  using unhex_hex_loop by metis

end
