(* ===== verification/Md_Stream.thy ===== *)
theory Md_Stream
  imports E2_Prelude
begin

text \<open>
  The interface that the SHA contexts of \<^verbatim>\<open>generic/sha1.c\<close> and \<^verbatim>\<open>generic/sha2.c\<close> share:
  a context absorbs a message in chunks of any size, buffers what does not fill a
  block, and closes the message with a padding block. The block iteration, the padding
  and the hash of a whole message are specified here once; the locales \<open>md_stream\<close> and
  \<open>md_digest\<close> state what an update and a final operation promise, and derive that
  hashing in chunks is hashing the concatenation. Each hash theory interprets them on
  its own operations.

  The second half treats the sixteen-word circular message schedule that all the
  compression functions use in place of the full schedule of the standard.
\<close>

section \<open>Block iteration and padding\<close>

function md_blocks :: "nat \<Rightarrow> ('h \<Rightarrow> 'a list \<Rightarrow> 'h) \<Rightarrow> 'h \<Rightarrow> 'a list \<Rightarrow> 'h \<times> 'a list" where
  "md_blocks n f h xs =
     (if n = 0 \<or> length xs < n then (h, xs) else md_blocks n f (f h (take n xs)) (drop n xs))"
  by pat_completeness auto
termination
  by (relation "measure (\<lambda>(n, f, h, xs). length xs)") auto

declare md_blocks.simps [simp del]

text \<open>The padding of FIPS 180-4: a one bit, zeros up to the length field, the length field.\<close>

definition md_pad :: "nat \<Rightarrow> nat \<Rightarrow> byte list \<Rightarrow> byte list" where
  "md_pad n m lf = 0x80 # replicate ((2 * n - 1 - length lf - m mod n) mod n) 0 @ lf"

definition md_hash ::
  "nat \<Rightarrow> ('h \<Rightarrow> byte list \<Rightarrow> 'h) \<Rightarrow> 'h \<Rightarrow> (nat \<Rightarrow> byte list) \<Rightarrow> ('h \<Rightarrow> 'o) \<Rightarrow> byte list \<Rightarrow> 'o" where
  "md_hash n f iv lf out msg =
     out (fst (md_blocks n f iv (msg @ md_pad n (length msg) (lf (length msg)))))"

primrec feed_all :: "('c \<Rightarrow> byte list \<Rightarrow> 'e + 'c) \<Rightarrow> 'c \<Rightarrow> byte list list \<Rightarrow> 'e + 'c" where
  "feed_all upd c [] = Inr c"
| "feed_all upd c (d # ds) = (case upd c d of Inl e \<Rightarrow> Inl e | Inr c' \<Rightarrow> feed_all upd c' ds)"

text \<open>A context that has absorbed a message: the invariant at its length and the view after it.\<close>

definition md_absorbed ::
  "nat \<Rightarrow> ('h \<Rightarrow> byte list \<Rightarrow> 'h) \<Rightarrow> 'h \<Rightarrow> ('c \<Rightarrow> 'h \<times> byte list) \<Rightarrow> (nat \<Rightarrow> 'c \<Rightarrow> bool) \<Rightarrow> byte list \<Rightarrow> 'c \<Rightarrow> bool" where
  "md_absorbed n f iv view invar msg c \<longleftrightarrow> invar (length msg) c \<and> view c = md_blocks n f iv msg"

lemma md_blocks_short: "length xs < n \<Longrightarrow> md_blocks n f h xs = (h, xs)"
  by (simp add: md_blocks.simps)

lemma md_blocks_block:
  "0 < n \<Longrightarrow> length x = n \<Longrightarrow> md_blocks n f h (x @ ys) = md_blocks n f (f h x) ys"
  by (simp add: md_blocks.simps [of n f h "x @ ys"])

lemma md_blocks_one: "0 < n \<Longrightarrow> length x = n \<Longrightarrow> md_blocks n f h x = (f h x, [])"
  using md_blocks_block [of n x f h "[]"] by (simp add: md_blocks_short)

lemma md_blocks_append:
  assumes "0 < n"
  shows "md_blocks n f h (xs @ ys) =
    md_blocks n f (fst (md_blocks n f h xs)) (snd (md_blocks n f h xs) @ ys)"
proof (induction n f h xs rule: md_blocks.induct)
  case (1 n f h xs)
  show ?case
  proof (cases "n = 0 \<or> length xs < n")
    case True
    then show ?thesis by (auto simp: md_blocks.simps [of n f h xs])
  next
    case False
    then have "md_blocks n f h (xs @ ys) = md_blocks n f (f h (take n xs)) (drop n xs @ ys)"
      and "md_blocks n f h xs = md_blocks n f (f h (take n xs)) (drop n xs)"
      by (simp_all add: md_blocks.simps [of n f h "xs @ ys"] md_blocks.simps [of n f h xs])
    with 1 False show ?thesis by simp
  qed
qed

lemma md_blocks_rest_length:
  "0 < n \<Longrightarrow> length (snd (md_blocks n f h xs)) = length xs mod n"
proof (induction n f h xs rule: md_blocks.induct)
  case (1 n f h xs)
  then show ?case
    by (cases "length xs < n") (auto simp: md_blocks.simps [of n f h xs] le_mod_geq)
qed

lemma md_blocks_keeps:
  "(\<And>h x. P h \<Longrightarrow> P (f h x)) \<Longrightarrow> P h \<Longrightarrow> P (fst (md_blocks n f h xs))"
proof (induction n f h xs rule: md_blocks.induct)
  case (1 n f h xs)
  then show ?case by (auto simp: md_blocks.simps [of n f h xs])
qed

text \<open>The padded message consists of whole blocks.\<close>

lemma md_pad_length:
  assumes "0 < n" "length lf < n"
  shows "(m + length (md_pad n m lf)) mod n = 0"
proof -
  let ?l = "length lf"
  have b: "?l + m mod n \<le> 2 * n - 1" using assms mod_less_divisor [of n m] by linarith
  have "(m + length (md_pad n m lf)) mod n =
      (m + 1 + ?l + (2 * n - 1 - ?l - m mod n) mod n) mod n"
    by (simp add: md_pad_def ac_simps)
  also have "\<dots> = (m + 1 + ?l + (2 * n - 1 - ?l - m mod n)) mod n"
    by (rule mod_add_right_eq)
  also have "\<dots> = (m mod n + (1 + ?l + (2 * n - 1 - ?l - m mod n))) mod n"
    by (simp only: mod_add_left_eq add.assoc)
  also have "\<dots> = (m mod n + 1 + ?l + (2 * n - 1 - ?l - m mod n)) mod n"
    by (simp only: add.assoc)
  also have "m mod n + 1 + ?l + (2 * n - 1 - ?l - m mod n) = 2 * n"
    using b assms by linarith
  finally show ?thesis by simp
qed

section \<open>Buffering input into blocks\<close>

text \<open>The \<^verbatim>\<open>data\<close> argument of a transform: the context's own buffer or other memory.\<close>

datatype data_src = Ctx_buffer | Data "byte list"

fun data_mem :: "data_src \<Rightarrow> byte list \<Rightarrow> byte list" where
  "data_mem Ctx_buffer buf = buf"
| "data_mem (Data d) buf = d"

text \<open>
  The update operations of all the hashes have the same shape: complete a partly filled
  buffer and transform it, transform the whole blocks of the rest in place, keep what is
  left. \<open>blk_update\<close> is that shape over the pair of chaining value and buffer, with the
  number \<open>u\<close> of buffered bytes given.
\<close>

function blk_whole ::
  "nat \<Rightarrow> ('h \<times> byte list \<Rightarrow> data_src \<Rightarrow> 'h \<times> byte list) \<Rightarrow> 'h \<times> byte list \<Rightarrow> byte list \<Rightarrow> 'h \<times> byte list" where
  "blk_whole n tr s d =
     (if 0 < n \<and> n \<le> length d then blk_whole n tr (tr s (Data (take n d))) (drop n d)
      else (fst s, mem_copy (snd s) 0 d))"
  by pat_completeness auto
termination
  by (relation "measure (\<lambda>(n, tr, s, d). length d)") auto

declare blk_whole.simps [simp del]

lemma blk_whole_short: "length d < n \<Longrightarrow> blk_whole n tr s d = (fst s, mem_copy (snd s) 0 d)"
  by (simp add: blk_whole.simps)

definition blk_update ::
  "nat \<Rightarrow> ('h \<times> byte list \<Rightarrow> data_src \<Rightarrow> 'h \<times> byte list) \<Rightarrow> nat \<Rightarrow> 'h \<times> byte list \<Rightarrow> byte list \<Rightarrow> 'h \<times> byte list" where
  "blk_update n tr u s d =
     (if 0 < u then
        if n - u \<le> length d then
          blk_whole n tr (tr (fst s, mem_copy (snd s) u (take (n - u) d)) Ctx_buffer) (drop (n - u) d)
        else (fst s, mem_copy (snd s) u d)
      else blk_whole n tr s d)"

locale block_transform =
  fixes n :: nat
    and f :: "'h \<Rightarrow> byte list \<Rightarrow> 'h"
    and tr :: "'h \<times> byte list \<Rightarrow> data_src \<Rightarrow> 'h \<times> byte list"
    and wf :: "'h \<Rightarrow> bool"
  assumes n_pos: "0 < n"
    and tr_chain: "wf (fst s) \<Longrightarrow> length (snd s) = n \<Longrightarrow> length (data_mem p (snd s)) = n \<Longrightarrow>
      fst (tr s p) = f (fst s) (data_mem p (snd s))"
    and tr_wf: "wf (fst s) \<Longrightarrow> length (snd s) = n \<Longrightarrow> length (data_mem p (snd s)) = n \<Longrightarrow>
      wf (fst (tr s p)) \<and> length (snd (tr s p)) = n"
begin

lemma blk_whole_spec:
  fixes d :: "byte list"
  assumes "wf (fst s)" "length (snd s) = n"
  defines "s' \<equiv> blk_whole n tr s d"
  shows "wf (fst s') \<and> length (snd s') = n \<and>
    (fst s', take (length d mod n) (snd s')) = md_blocks n f (fst s) d"
  unfolding s'_def using n_pos tr_chain tr_wf assms(1,2)
proof (induction n tr s d rule: blk_whole.induct)
  case (1 n tr s d)
  show ?case
  proof (cases "n \<le> length d")
    case True
    let ?s = "tr s (Data (take n d))"
    have len: "length (data_mem (Data (take n d)) (snd s)) = n" using True by simp
    have ih: "wf (fst (blk_whole n tr ?s (drop n d))) \<and> length (snd (blk_whole n tr ?s (drop n d))) = n \<and>
        (fst (blk_whole n tr ?s (drop n d)), take (length (drop n d) mod n) (snd (blk_whole n tr ?s (drop n d)))) =
        md_blocks n f (fst ?s) (drop n d)"
      using True 1(2-) 1(4) [OF 1(5,6) len] by (intro 1(1)) auto
    have step: "blk_whole n tr s d = blk_whole n tr ?s (drop n d)"
      using True 1(2) by (simp add: blk_whole.simps [of n tr s d])
    have md: "md_blocks n f (fst s) d = md_blocks n f (fst ?s) (drop n d)"
      using True 1(2) 1(3) [OF 1(5,6) len] by (simp add: md_blocks.simps [of n f "fst s" d])
    have "length (drop n d) mod n = length d mod n" using True by (simp add: le_mod_geq)
    then show ?thesis using ih unfolding step md by simp
  next
    case False
    then show ?thesis
      using 1 by (simp add: blk_whole.simps [of n tr s d] mem_simps md_blocks_short)
  qed
qed

text \<open>
  Buffering is exact: the new chaining value and the bytes left in the buffer are what
  the block iteration makes of the bytes buffered before followed by the input.
\<close>

lemma blk_update_spec:
  fixes d :: "byte list"
  assumes s: "wf (fst s)" "length (snd s) = n" and u: "u < n"
  defines "s' \<equiv> blk_update n tr u s d"
  shows "wf (fst s') \<and> length (snd s') = n \<and>
    (fst s', take ((u + length d) mod n) (snd s')) = md_blocks n f (fst s) (take u (snd s) @ d)"
proof -
  consider "u = 0" | "0 < u" "length d < n - u" | "0 < u" "n - u \<le> length d" by linarith
  then show ?thesis
  proof cases
    case 1
    then show ?thesis using blk_whole_spec [OF s, of d] by (simp add: s'_def blk_update_def)
  next
    case 2
    then have "s' = (fst s, mem_copy (snd s) u d)" by (simp add: s'_def blk_update_def)
    then show ?thesis using 2 s u by (simp add: mem_simps md_blocks_short)
  next
    case 3
    let ?blk = "take u (snd s) @ take (n - u) d"
    let ?s = "tr (fst s, ?blk) Ctx_buffer"
    have blk: "mem_copy (snd s) u (take (n - u) d) = ?blk" "length ?blk = n"
      using 3 s u by (simp_all add: mem_simps)
    have ws: "wf (fst ?s)" "length (snd ?s) = n" and ch: "fst ?s = f (fst s) ?blk"
      using tr_wf [of "(fst s, ?blk)" Ctx_buffer] tr_chain [of "(fst s, ?blk)" Ctx_buffer] s(1) blk(2)
      by simp_all
    have eq: "s' = blk_whole n tr ?s (drop (n - u) d)"
      using 3 blk(1) by (simp add: s'_def blk_update_def)
    have "md_blocks n f (fst s) (?blk @ drop (n - u) d) = md_blocks n f (fst ?s) (drop (n - u) d)"
      unfolding ch by (rule md_blocks_block [OF n_pos blk(2)])
    then have md: "md_blocks n f (fst s) (take u (snd s) @ d) = md_blocks n f (fst ?s) (drop (n - u) d)"
      by simp
    have "u + length d = length (drop (n - u) d) + n" using 3 u by simp
    then have "(u + length d) mod n = length (drop (n - u) d) mod n" by (simp only: mod_add_self2)
    then show ?thesis using blk_whole_spec [OF ws, of "drop (n - u) d"] unfolding eq md by simp
  qed
qed

end

section \<open>The contract of a streaming hash context\<close>

locale md_stream =
  fixes n :: nat
    and f :: "'h \<Rightarrow> byte list \<Rightarrow> 'h"
    and iv :: 'h
    and init :: 'c
    and upd :: "'c \<Rightarrow> byte list \<Rightarrow> 'e + 'c"
    and view :: "'c \<Rightarrow> 'h \<times> byte list"
    and invar :: "nat \<Rightarrow> 'c \<Rightarrow> bool"
    and ok :: "byte list \<Rightarrow> bool"
  assumes n_pos: "0 < n"
    and init_invar: "invar 0 init"
    and init_view: "view init = (iv, [])"
    and upd_spec: "invar m c \<Longrightarrow> ok d \<Longrightarrow>
      \<exists>c'. upd c d = Inr c' \<and> invar (m + length d) c' \<and>
           view c' = md_blocks n f (fst (view c)) (snd (view c) @ d)"
begin

lemma feed_all_spec:
  "invar m c \<Longrightarrow> list_all ok ds \<Longrightarrow> snd (view c) = r \<Longrightarrow> length r < n \<Longrightarrow>
   \<exists>c'. feed_all upd c ds = Inr c' \<and> invar (m + length (concat ds)) c' \<and>
        view c' = md_blocks n f (fst (view c)) (r @ concat ds)"
proof (induction ds arbitrary: m c r)
  case Nil
  then show ?case by (auto simp: md_blocks_short intro: prod_eqI)
next
  case (Cons d ds)
  from Cons.prems obtain c' where c': "upd c d = Inr c'" "invar (m + length d) c'"
      "view c' = md_blocks n f (fst (view c)) (r @ d)"
    using upd_spec [of m c d] by auto
  have "length (snd (view c')) < n"
    using n_pos by (simp add: c'(3) md_blocks_rest_length)
  from Cons.IH [OF c'(2) _ refl this] Cons.prems(2) obtain c'' where
    "feed_all upd c' ds = Inr c''" "invar (m + length d + length (concat ds)) c''"
    "view c'' = md_blocks n f (fst (view c')) (snd (view c') @ concat ds)"
    by auto
  then show ?case
    using c' md_blocks_append [OF n_pos, of f "fst (view c)" "r @ d" "concat ds"]
    by (simp add: add.assoc)
qed

lemma feed_init:
  assumes "list_all ok ds"
  shows "\<exists>c. feed_all upd init ds = Inr c \<and> invar (length (concat ds)) c \<and>
    view c = md_blocks n f iv (concat ds)"
  using feed_all_spec [OF init_invar assms, of "[]"] n_pos by (simp add: init_view)

lemma absorbed_init: "md_absorbed n f iv view invar [] init"
  using n_pos by (simp add: md_absorbed_def init_invar init_view md_blocks_short)

lemma absorbed_upd:
  assumes "md_absorbed n f iv view invar msg c" "ok d"
  shows "\<exists>c'. upd c d = Inr c' \<and> md_absorbed n f iv view invar (msg @ d) c'"
  using upd_spec [of "length msg" c d] assms md_blocks_append [OF n_pos, of f iv msg d]
  by (auto simp: md_absorbed_def)

text \<open>How the input is cut into chunks does not matter to the view of the context.\<close>

lemma feed_chunking:
  assumes "list_all ok ds" "list_all ok es" "concat ds = concat es"
    and "feed_all upd init ds = Inr c" "feed_all upd init es = Inr c'"
  shows "view c = view c'"
  using feed_init [OF assms(1)] feed_init [OF assms(2)] assms(3-5) by auto

end

locale md_digest = md_stream n f iv init upd view invar ok
  for n :: nat and f :: "'h \<Rightarrow> byte list \<Rightarrow> 'h" and iv :: 'h and init :: 'c
    and upd :: "'c \<Rightarrow> byte list \<Rightarrow> 'e + 'c" and view :: "'c \<Rightarrow> 'h \<times> byte list"
    and invar :: "nat \<Rightarrow> 'c \<Rightarrow> bool" and ok :: "byte list \<Rightarrow> bool" +
  fixes fin :: "'c \<Rightarrow> 'o"
    and lf :: "nat \<Rightarrow> byte list"
    and out :: "'h \<Rightarrow> 'o"
  assumes fin_spec: "invar m c \<Longrightarrow> fin c =
    out (fst (md_blocks n f (fst (view c)) (snd (view c) @ md_pad n m (lf m))))"
begin

lemma absorbed_fin: "md_absorbed n f iv view invar msg c \<Longrightarrow> fin c = md_hash n f iv lf out msg"
  using fin_spec [of "length msg" c] md_blocks_append [OF n_pos, of f iv msg]
  by (simp add: md_absorbed_def md_hash_def)

text \<open>Feeding any chunking of a message and closing it gives the hash of the message.\<close>

lemma stream_hash:
  assumes "list_all ok ds"
  shows "\<exists>c. feed_all upd init ds = Inr c \<and> fin c = md_hash n f iv lf out (concat ds)"
  using feed_init [OF assms] absorbed_fin [of "concat ds"] by (auto simp: md_absorbed_def)

end

section \<open>Circular message schedule\<close>

text \<open>
  \<open>circ_inv W t ws\<close>: the sixteen-word array \<open>ws\<close> holds the schedule words
  \<open>W (t - 16), \<dots>, W (t - 1)\<close>, word \<open>s\<close> at index \<open>s mod 16\<close>.
\<close>

definition circ_inv :: "(nat \<Rightarrow> 'w) \<Rightarrow> nat \<Rightarrow> 'w list \<Rightarrow> bool" where
  "circ_inv W t ws \<longleftrightarrow> length ws = 16 \<and> (\<forall>s < t. t \<le> s + 16 \<longrightarrow> ws ! (s mod 16) = W s)"

lemma circ_inv_read: "circ_inv W t ws \<Longrightarrow> s < t \<Longrightarrow> t \<le> s + 16 \<Longrightarrow> ws ! (s mod 16) = W s"
  by (simp add: circ_inv_def)

lemma circ_inv_0: "length ws = 16 \<Longrightarrow> circ_inv W 0 ws"
  by (simp add: circ_inv_def)

lemma circ_inv_step:
  assumes "circ_inv W t ws"
  shows "circ_inv W (Suc t) (ws[t mod 16 := W t])"
  unfolding circ_inv_def
proof (intro conjI allI impI)
  show "length (ws[t mod 16 := W t]) = 16" using assms by (simp add: circ_inv_def)
next
  fix s assume s: "s < Suc t" "Suc t \<le> s + 16"
  show "ws[t mod 16 := W t] ! (s mod 16) = W s"
  proof (cases "s = t")
    case True
    then show ?thesis using assms by (simp add: circ_inv_def)
  next
    case False
    have "s mod 16 \<noteq> t mod 16"
    proof
      assume eq: "s mod 16 = t mod 16"
      have "16 dvd t - s" using mod_eq_dvd_iff_nat [of s t 16] eq s by (metis less_Suc_eq_le)
      then have "16 \<le> t - s" using s False by (intro dvd_imp_le) simp_all
      then show False using s by linarith
    qed
    then show ?thesis using s False assms by (auto simp: circ_inv_def)
  qed
qed

text \<open>
  The reads of the code: at step \<open>t\<close> the index \<open>(t + k) AND 15\<close> holds the word
  \<open>16 - k\<close> steps back.
\<close>

lemma circ_inv_back:
  assumes "circ_inv W t ws" "16 \<le> t" "k < 16"
  shows "ws ! ((t + k) mod 16) = W (t + k - 16)"
proof -
  have "(t + k) mod 16 = (t + k - 16) mod 16" using assms(2) by (simp add: le_mod_geq)
  then show ?thesis using circ_inv_read [OF assms(1), of "t + k - 16"] assms by simp
qed

end
