(* ===== verification/Sha2_Core.thy ===== *)
theory Sha2_Core
  imports Md_Stream
begin

text \<open>
  What the SHA-256 and the SHA-384/512 halves of \<^verbatim>\<open>generic/sha2.c\<close> have in common: the
  logical functions that are macros at both widths, the eight working registers, the
  origin of a data block (caller's memory, or the context's own buffer, which the
  compression function overwrites while it reads it), and the compression function of
  FIPS 180-4 with its full message schedule as the reference the code is compared with.

  The locale \<open>sha2_loops\<close> states what one iteration of the two loops of a transform does
  to registers and buffer, and proves that the loops compute the reference compression.
\<close>

section \<open>Macros and registers\<close>

definition R_shr :: "nat \<Rightarrow> 'a::len word \<Rightarrow> 'a word" where
  "R_shr b x = drop_bit b x"

definition S32 :: "nat \<Rightarrow> u32 \<Rightarrow> u32" where
  "S32 b x = (drop_bit b x OR push_bit (32 - b) x)"

definition S64 :: "nat \<Rightarrow> u64 \<Rightarrow> u64" where
  "S64 b x = (drop_bit b x OR push_bit (64 - b) x)"

definition Ch :: "'a::len word \<Rightarrow> 'a word \<Rightarrow> 'a word \<Rightarrow> 'a word" where
  "Ch x y z = ((x AND y) XOR ((NOT x) AND z))"

definition Maj :: "'a::len word \<Rightarrow> 'a word \<Rightarrow> 'a word \<Rightarrow> 'a word" where
  "Maj x y z = ((x AND y) XOR (x AND z) XOR (y AND z))"

text \<open>Byte reversal, used on little-endian hosts.\<close>

definition REVERSE32 :: "u32 \<Rightarrow> u32" where
  "REVERSE32 w =
     (let tmp = w;
          tmp = (drop_bit 16 tmp OR push_bit 16 tmp)
      in (drop_bit 8 (tmp AND 0xff00ff00) OR push_bit 8 (tmp AND 0x00ff00ff)))"

definition REVERSE64 :: "u64 \<Rightarrow> u64" where
  "REVERSE64 w =
     (let tmp = w;
          tmp = (drop_bit 32 tmp OR push_bit 32 tmp);
          tmp = (drop_bit 8 (tmp AND 0xff00ff00ff00ff00) OR push_bit 8 (tmp AND 0x00ff00ff00ff00ff))
      in (drop_bit 16 (tmp AND 0xffff0000ffff0000) OR push_bit 16 (tmp AND 0x0000ffff0000ffff)))"

text \<open>The working variables \<open>a\<close> to \<open>h\<close> of a transform.\<close>

datatype 'w regs = Regs 'w 'w 'w 'w 'w 'w 'w 'w

definition regs_of :: "'w list \<Rightarrow> 'w regs" where
  "regs_of H = Regs (H ! 0) (H ! 1) (H ! 2) (H ! 3) (H ! 4) (H ! 5) (H ! 6) (H ! 7)"

fun regs_list :: "'w regs \<Rightarrow> 'w list" where
  "regs_list (Regs a b c d e f g h) = [a, b, c, d, e, f, g, h]"

text \<open>Faults of the pointer-level entry points: a failed \<^verbatim>\<open>assert()\<close>, or an access outside an object.\<close>

datatype c_fault = Assertion_failed | Overrun

section \<open>The reference compression function\<close>

fun sha2_W :: "('a::len word \<Rightarrow> 'a word) \<Rightarrow> ('a word \<Rightarrow> 'a word) \<Rightarrow> (nat \<Rightarrow> 'a word) \<Rightarrow> nat \<Rightarrow> 'a word" where
  "sha2_W s0 s1 M t =
     (if t < 16 then M t
      else s1 (sha2_W s0 s1 M (t - 2)) + sha2_W s0 s1 M (t - 7) +
           s0 (sha2_W s0 s1 M (t - 15)) + sha2_W s0 s1 M (t - 16))"

declare sha2_W.simps [simp del]

fun sha2_step :: "('a::len word \<Rightarrow> 'a word) \<Rightarrow> ('a word \<Rightarrow> 'a word) \<Rightarrow> 'a word \<Rightarrow> 'a word \<Rightarrow> 'a word regs \<Rightarrow> 'a word regs" where
  "sha2_step S0 S1 k w (Regs a b c d e f g h) =
     (let T1 = h + S1 e + Ch e f g + k + w; T2 = S0 a + Maj a b c
      in Regs (T1 + T2) a b c (d + T1) e f g)"

definition sha2_rounds ::
  "nat \<Rightarrow> 'a::len word list \<Rightarrow> ('a word \<Rightarrow> 'a word) \<Rightarrow> ('a word \<Rightarrow> 'a word) \<Rightarrow> (nat \<Rightarrow> 'a word) \<Rightarrow> 'a word regs \<Rightarrow> 'a word regs" where
  "sha2_rounds n K S0 S1 W r = fold (\<lambda>t. sha2_step S0 S1 (K ! t) (W t)) [0..<n] r"

definition sha2_compress ::
  "nat \<Rightarrow> 'a::len word list \<Rightarrow> ('a word \<Rightarrow> 'a word) \<Rightarrow> ('a word \<Rightarrow> 'a word) \<Rightarrow>
   ('a word \<Rightarrow> 'a word) \<Rightarrow> ('a word \<Rightarrow> 'a word) \<Rightarrow> (nat \<Rightarrow> 'a word) \<Rightarrow> 'a word list \<Rightarrow> 'a word list" where
  "sha2_compress n K S0 S1 s0 s1 M H =
     map2 (+) H (regs_list (sha2_rounds n K S0 S1 (sha2_W s0 s1 M) (regs_of H)))"

lemma length_regs_list [simp]: "length (regs_list r) = 8"
  by (cases r) simp

lemma length_sha2_compress [simp]:
  "length H = 8 \<Longrightarrow> length (sha2_compress n K S0 S1 s0 s1 M H) = 8"
  by (simp add: sha2_compress_def)

text \<open>The schedule depends on the sixteen words of the block only.\<close>

lemma sha2_W_cong: "(\<And>j. j < 16 \<Longrightarrow> M j = M' j) \<Longrightarrow> sha2_W s0 s1 M t = sha2_W s0 s1 M' t"
proof (induction s0 s1 M t rule: sha2_W.induct)
  case (1 s0 s1 M t)
  show ?case
  proof (cases "t < 16")
    case True
    then show ?thesis using "1.prems" by (simp add: sha2_W.simps [of s0 s1 _ t])
  next
    case False
    then have "sha2_W s0 s1 M u = sha2_W s0 s1 M' u" if "u \<in> {t - 2, t - 7, t - 15, t - 16}" for u
      using that "1.IH" "1.prems" by blast
    with False show ?thesis by (simp add: sha2_W.simps [of s0 s1 _ t])
  qed
qed

lemma sha2_compress_cong:
  "(\<And>j. j < 16 \<Longrightarrow> M j = M' j) \<Longrightarrow>
   sha2_compress n K S0 S1 s0 s1 M H = sha2_compress n K S0 S1 s0 s1 M' H"
  unfolding sha2_compress_def using sha2_W_cong [of M M'] by presburger

section \<open>Byte reversal\<close>

lemma upt_32: "[0..<32] =
   [0, 1, 2, 3, 4, 5, 6, 7, 8, 9, 10, 11, 12, 13, 14, 15,
    16, 17, 18, 19, 20, 21, 22, 23, 24, 25, 26, 27, 28, 29, 30, 31]"
  by code_simp

lemma upt_64: "[0..<64] =
   [0, 1, 2, 3, 4, 5, 6, 7, 8, 9, 10, 11, 12, 13, 14, 15,
    16, 17, 18, 19, 20, 21, 22, 23, 24, 25, 26, 27, 28, 29, 30, 31,
    32, 33, 34, 35, 36, 37, 38, 39, 40, 41, 42, 43, 44, 45, 46, 47,
    48, 49, 50, 51, 52, 53, 54, 55, 56, 57, 58, 59, 60, 61, 62, 63]"
  by code_simp

lemma bit_REVERSE32:
  assumes "k < 32"
  shows "bit (REVERSE32 w) k = bit w (8 * (3 - k div 8) + k mod 8)"
proof -
  have hi: "bit w n = False" if "32 \<le> n" for n using that bit_imp_le_length [of w n] by auto
  have "\<forall>k \<in> set [0..<32]. bit (REVERSE32 w) k = bit w (8 * (3 - k div 8) + k mod 8)"
    unfolding upt_32 by (simp add: REVERSE32_def Let_def bit_simps hi) (simp add: eval_nat_numeral)
  then show ?thesis using assms by simp
qed

lemma bit_REVERSE64:
  assumes "k < 64"
  shows "bit (REVERSE64 w) k = bit w (8 * (7 - k div 8) + k mod 8)"
proof -
  have hi: "bit w n = False" if "64 \<le> n" for n using that bit_imp_le_length [of w n] by auto
  have "\<forall>k \<in> set [0..<64]. bit (REVERSE64 w) k = bit w (8 * (7 - k div 8) + k mod 8)"
    unfolding upt_64 by (simp add: REVERSE64_def Let_def bit_simps hi) (simp add: eval_nat_numeral)
  then show ?thesis using assms by simp
qed

lemma REVERSE32_be_word:
  assumes "length bs = 4"
  shows "REVERSE32 (be_word bs) = be_word (rev bs)"
proof (rule bit_word_eqI)
  fix k assume "k < LENGTH(32)"
  then have k: "k < 32" by simp
  then have "k div 8 < 4" by auto
  then have "(8 * (3 - k div 8) + k mod 8) div 8 = 3 - k div 8"
    and "(8 * (3 - k div 8) + k mod 8) mod 8 = k mod 8"
    and "8 * (3 - k div 8) + k mod 8 < 32" by auto
  with k assms show "bit (REVERSE32 (be_word bs)) k = bit (be_word (rev bs) :: u32) k"
    by (simp add: bit_REVERSE32 bit_be_word rev_nth)
qed

lemma REVERSE64_be_word:
  assumes "length bs = 8"
  shows "REVERSE64 (be_word bs) = be_word (rev bs)"
proof (rule bit_word_eqI)
  fix k assume "k < LENGTH(64)"
  then have k: "k < 64" by simp
  then have "k div 8 < 8" by auto
  then have "(8 * (7 - k div 8) + k mod 8) div 8 = 7 - k div 8"
    and "(8 * (7 - k div 8) + k mod 8) mod 8 = k mod 8"
    and "8 * (7 - k div 8) + k mod 8 < 64" by auto
  with k assms show "bit (REVERSE64 (be_word bs)) k = bit (be_word (rev bs) :: u64) k"
    by (simp add: bit_REVERSE64 bit_be_word rev_nth)
qed

text \<open>
  Reading a word in host order and reversing it on a little-endian host is reading it in
  network order, and the other way round for writing.
\<close>

definition net32 :: "byte_order \<Rightarrow> u32 \<Rightarrow> u32" where
  "net32 bo w = (if bo = LITTLE_ENDIAN then REVERSE32 w else w)"

definition net64 :: "byte_order \<Rightarrow> u64 \<Rightarrow> u64" where
  "net64 bo w = (if bo = LITTLE_ENDIAN then REVERSE64 w else w)"

lemma net32_host_word: "length bs = 4 \<Longrightarrow> net32 bo (host_word bo bs) = be_word bs"
  by (cases bo) (simp_all add: net32_def host_word_def REVERSE32_be_word)

lemma net64_host_word: "length bs = 8 \<Longrightarrow> net64 bo (host_word bo bs) = be_word bs"
  by (cases bo) (simp_all add: net64_def host_word_def REVERSE64_be_word)

lemma host_bytes_net32: "host_bytes bo 4 (net32 bo w) = be_bytes 4 w"
proof -
  have w: "w = be_word (be_bytes 4 w)" by (simp add: be_word_be_bytes)
  show ?thesis
    by (cases bo, subst w)
      (simp_all add: net32_def host_bytes_def REVERSE32_be_word be_bytes_be_word)
qed

lemma host_bytes_net64: "host_bytes bo 8 (net64 bo w) = be_bytes 8 w"
proof -
  have w: "w = be_word (be_bytes 8 w)" by (simp add: be_word_be_bytes)
  show ?thesis
    by (cases bo, subst w)
      (simp_all add: net64_def host_bytes_def REVERSE64_be_word be_bytes_be_word)
qed

section \<open>Counting bits\<close>

lemma unat_bits_to_bytes: "unat (drop_bit 3 (of_nat (8 * m) :: u64)) = m mod 2 ^ 61"
proof -
  have "unat (drop_bit 3 (of_nat (8 * m) :: u64)) = unat (of_nat (8 * m) :: u64) div 8"
    by (simp only: unat_drop_bit_eq) (simp add: drop_bit_eq_div)
  also have "\<dots> = (8 * m mod (8 * 2 ^ 61)) div 8"
    by (simp only: unat_of_nat) simp
  also have "\<dots> = m mod 2 ^ 61" 
    by (simp only: mult_mod_right [symmetric])
  finally show ?thesis .
qed

lemma mod_2p61_mod: "(m::nat) mod 2 ^ 61 mod 64 = m mod 64" "(m::nat) mod 2 ^ 61 mod 128 = m mod 128"
  by (rule mod_mod_cancel, simp)+

lemma push_bit_3_of_nat: "push_bit 3 (of_nat k :: u64) = of_nat (8 * k)"
  by (simp add: push_bit_eq_mult)

lemma of_nat_le_u64:
  "a < 2 ^ 64 \<Longrightarrow> b < 2 ^ 64 \<Longrightarrow> (of_nat a :: u64) \<le> of_nat b \<longleftrightarrow> a \<le> b"
  by (simp add: word_le_nat_alt unat_of_nat)

lemma unat_of_nat_u64: "a < 2 ^ 64 \<Longrightarrow> unat (of_nat a :: u64) = a"
  by (simp add: unat_of_nat)

text \<open>
  A count kept in two words, least significant first, as the number of twice their width:
  the bit counts of \<^verbatim>\<open>SHA512_CTX\<close> and \<^verbatim>\<open>SHA1_CTX\<close>.
\<close>

fun dword :: "'a::len word \<times> 'a word \<Rightarrow> 'b::len word" where
  "dword (w0, w1) = of_nat (unat w0 + 2 ^ LENGTH('a) * unat w1)"

lemma dword_high_add:
  fixes w0 w1 k :: "'a::len word"
  assumes "LENGTH('b::len) = 2 * LENGTH('a)"
  shows "(dword (w0, w1 + k) :: 'b word) = dword (w0, w1) + of_nat (2 ^ LENGTH('a) * unat k)"
proof -
  have "unat (w1 + k) = (unat w1 + unat k) mod 2 ^ LENGTH('a)" by (simp add: unat_word_ariths)
  moreover have "2 ^ LENGTH('b) = (2 ^ LENGTH('a) * 2 ^ LENGTH('a) :: nat)"
    unfolding assms mult_2 power_add ..
  ultimately have "2 ^ LENGTH('a) * unat (w1 + k) = 2 ^ LENGTH('a) * (unat w1 + unat k) mod 2 ^ LENGTH('b)"
    by (simp only: mult_mod_right)
  then have "(of_nat (2 ^ LENGTH('a) * unat (w1 + k)) :: 'b word) = of_nat (2 ^ LENGTH('a) * (unat w1 + unat k))"
    by (simp only: word_of_nat_eq_iff take_bit_eq_mod) simp
  then show ?thesis by (simp only: dword.simps of_nat_add distrib_left add.assoc)
qed

lemma dword_low_add:
  fixes w0 w1 n :: "'a::len word"
  assumes "LENGTH('b::len) = 2 * LENGTH('a)"
  shows "(dword (w0 + n, if w0 + n < n then w1 + 1 else w1) :: 'b word) = dword (w0, w1) + of_nat (unat n)"
proof -
  have s: "unat (w0 + n) = (unat w0 + unat n) mod 2 ^ LENGTH('a)" by (simp add: unat_word_ariths)
  have b: "unat w0 < 2 ^ LENGTH('a)" "unat n < 2 ^ LENGTH('a)" by (rule unsigned_less)+
  show ?thesis
  proof (cases "unat w0 + unat n < 2 ^ LENGTH('a)")
    case True
    then have "unat (w0 + n) = unat w0 + unat n" using s by simp
    then show ?thesis by (simp add: word_less_nat_alt)
  next
    case False
    then have "unat (w0 + n) = unat w0 + unat n - 2 ^ LENGTH('a)" using s b by (simp add: le_mod_geq)
    then have lo: "unat (w0 + n) + 2 ^ LENGTH('a) = unat w0 + unat n" and lt: "w0 + n < n"
      unfolding word_less_nat_alt using False b by linarith+
    have "dword (w0 + n, w1 + 1) = (of_nat (unat (w0 + n) + 2 ^ LENGTH('a) + 2 ^ LENGTH('a) * unat w1) :: 'b word)"
      unfolding dword_high_add [OF assms] by simp
    then show ?thesis using lt unfolding lo by simp
  qed
qed

lemma bit_dword:
  fixes w0 w1 :: "'a::len word"
  assumes "LENGTH('b::len) = 2 * LENGTH('a)"
  shows "bit (dword (w0, w1) :: 'b word) k \<longleftrightarrow> (if k < LENGTH('a) then bit w0 k else bit w1 (k - LENGTH('a)))"
proof -
  have "(dword (w0, w1) :: 'b word) = ucast w0 + push_bit LENGTH('a) (ucast w1)"
    by (simp add: push_bit_eq_mult)
  also have "\<dots> = (ucast w0 OR push_bit LENGTH('a) (ucast w1) :: 'b word)"
    by (rule disjunctive_add) (auto simp: bit_simps dest: bit_imp_le_length)
  finally show ?thesis using assms by (auto simp: bit_simps dest: bit_imp_le_length)
qed

declare dword.simps [simp del]

lemma be_bytes_dword:
  fixes w0 w1 :: "'a::len word"
  assumes "8 * n = LENGTH('a)" and l: "LENGTH('b::len) = 2 * LENGTH('a)"
  shows "be_bytes (2 * n) (dword (w0, w1) :: 'b word) = be_bytes n w1 @ be_bytes n w0"
proof (rule nth_equalityI)
  fix i assume "i < length (be_bytes (2 * n) (dword (w0, w1) :: 'b word))"
  then have i: "i < 2 * n" by simp
  show "be_bytes (2 * n) (dword (w0, w1) :: 'b word) ! i = (be_bytes n w1 @ be_bytes n w0) ! i"
  proof (rule bit_word_eqI)
    fix k assume k: "k < LENGTH(8)"
    show "bit (be_bytes (2 * n) (dword (w0, w1) :: 'b word) ! i) k = bit ((be_bytes n w1 @ be_bytes n w0) ! i) k"
    proof (cases "i < n")
      case True
      then have "8 * (2 * n - 1 - i) + k = 8 * (n - 1 - i) + k + 8 * n" by simp
      then show ?thesis using True i k
        by (simp add: nth_append bit_be_bytes bit_dword [OF l] flip: assms(1) del: diff_diff_left)
    next
      case False
      then have "8 * (2 * n - 1 - i) + k < 8 * n" "2 * n - 1 - i = n - 1 - (i - n)" using i k by auto
      then show ?thesis using False i k
        by (simp add: nth_append bit_be_bytes bit_dword [OF l] flip: assms(1) del: diff_diff_left)
    qed
  qed
qed simp

lemma fst_dword:
  fixes p :: "'a::len word \<times> 'a word"
  assumes l: "LENGTH('b::len) = 2 * LENGTH('a)" and a: "(dword p :: 'b word) = of_nat m"
  shows "fst p = of_nat m"
proof -
  have "fst p = ucast (dword p :: 'b word)"
    by (rule bit_word_eqI) (cases p, simp add: bit_simps bit_dword [OF l])
  also have "\<dots> = of_nat m" unfolding a using l by (simp add: unsigned_of_nat word_of_nat_eq_iff)
  finally show ?thesis .
qed
section \<open>The two loops of a transform\<close>

locale sha2_loops = word_array get put wf 16
  for get :: "'b \<Rightarrow> nat \<Rightarrow> 'a::len word" and put :: "'b \<Rightarrow> nat \<Rightarrow> 'a word \<Rightarrow> 'b" and wf :: "'b \<Rightarrow> bool" +
  fixes fetch :: "'b \<Rightarrow> nat \<Rightarrow> 'a word"
    and K :: "'a word list"
    and S0 S1 s0 s1 :: "'a word \<Rightarrow> 'a word"
    and body0 body1 :: "nat \<Rightarrow> 'a word regs \<times> 'b \<Rightarrow> 'a word regs \<times> 'b"
  assumes fetch_put: "wf b \<Longrightarrow> i < j \<Longrightarrow> j < 16 \<Longrightarrow> fetch (put b i w) j = fetch b j"
    and body0: "wf b \<Longrightarrow> j < 16 \<Longrightarrow>
      body0 j (r, b) = (sha2_step S0 S1 (K ! j) (fetch b j) r, put b j (fetch b j))"
    and body1: "wf b \<Longrightarrow> body1 j (r, b) =
      (let w = get b (j mod 16) +
         (s1 (get b ((j + 14) mod 16)) + get b ((j + 9) mod 16) + s0 (get b ((j + 1) mod 16)))
       in (sha2_step S0 S1 (K ! j) w r, put b (j mod 16) w))"
begin

lemma loop0:
  assumes "wf b" "t \<le> 16"
  defines "W \<equiv> sha2_W s0 s1 (fetch b)"
  shows "\<exists>b'. fold body0 [0..<t] (r, b) = (sha2_rounds t K S0 S1 W r, b') \<and> wf b' \<and>
    circ_inv W t (words b') \<and> (\<forall>j < 16. t \<le> j \<longrightarrow> fetch b' j = fetch b j)"
  using assms(2)
proof (induction t)
  case 0
  then show ?case using assms(1) by (simp add: sha2_rounds_def circ_inv_0)
next
  case (Suc t)
  then obtain b' where b': "fold body0 [0..<t] (r, b) = (sha2_rounds t K S0 S1 W r, b')" "wf b'"
      "circ_inv W t (words b')" "\<forall>j < 16. t \<le> j \<longrightarrow> fetch b' j = fetch b j" by auto
  have t: "t < 16" and Wt: "fetch b' t = W t"
    using Suc.prems b'(4) by (simp_all add: W_def sha2_W.simps [of s0 s1 "fetch b" t])
  let ?b = "put b' t (W t)"
  have "fold body0 [0..<Suc t] (r, b) = (sha2_rounds (Suc t) K S0 S1 W r, ?b)"
    using b'(1,2) t Wt by (simp add: body0 sha2_rounds_def)
  moreover have "circ_inv W (Suc t) (words ?b)"
    using circ_inv_step [OF b'(3)] t b'(2) by (simp add: words_put)
  moreover have "\<forall>j < 16. Suc t \<le> j \<longrightarrow> fetch ?b j = fetch b j"
    using b'(2,4) t by (simp add: fetch_put)
  ultimately show ?case using b'(2) t wf_put by blast
qed

lemma loop1:
  assumes "wf b" "circ_inv W 16 (words b)" "16 \<le> t"
    and W: "W = sha2_W s0 s1 M"
  shows "\<exists>b'. fold body1 [16..<t] (sha2_rounds 16 K S0 S1 W r, b) = (sha2_rounds t K S0 S1 W r, b') \<and>
    wf b' \<and> circ_inv W t (words b')"
  using assms(3)
proof (induction t rule: dec_induct)
  case base
  then show ?case using assms(1,2) by simp
next
  case (step t)
  then obtain b' where b': "fold body1 [16..<t] (sha2_rounds 16 K S0 S1 W r, b) = (sha2_rounds t K S0 S1 W r, b')"
      "wf b'" "circ_inv W t (words b')" by auto
  have rd: "get b' ((t + k) mod 16) = W (t + k - 16)" if "k < 16" for k
    using circ_inv_back [OF b'(3) step.hyps(1) that] by (simp add: words_nth)
  have offs: "t + 14 - 16 = t - 2" "t + 9 - 16 = t - 7" "t + 1 - 16 = t - 15"
    using step.hyps(1) by linarith+
  have "get b' (t mod 16) + (s1 (get b' ((t + 14) mod 16)) + get b' ((t + 9) mod 16) +
      s0 (get b' ((t + 1) mod 16))) = W t"
    using rd [of 0] rd [of 14] rd [of 9] rd [of 1] offs step.hyps(1)
    by (simp add: W sha2_W.simps [of s0 s1 M t] add.commute add.left_commute)
  then have "body1 t (sha2_rounds t K S0 S1 W r, b') =
      (sha2_rounds (Suc t) K S0 S1 W r, put b' (t mod 16) (W t))"
    using b'(2) by (simp add: body1 sha2_rounds_def Let_def)
  moreover have "circ_inv W (Suc t) (words (put b' (t mod 16) (W t)))"
    using circ_inv_step [OF b'(3)] b'(2) by (simp add: words_put)
  ultimately show ?case
    using b'(1,2) step.hyps(1) wf_put [of b' "t mod 16"] by (simp add: upt_Suc_append)
qed

text \<open>
  Both loops together compute the rounds of the reference on the fetched block, and
  leave a well-formed buffer behind.
\<close>

lemma loops:
  assumes "wf b" "16 \<le> n"
  shows "fst (fold body1 [16..<n] (fold body0 [0..<16] (r, b))) =
      sha2_rounds n K S0 S1 (sha2_W s0 s1 (fetch b)) r \<and>
    wf (snd (fold body1 [16..<n] (fold body0 [0..<16] (r, b))))"
proof -
  obtain b' where b': "fold body0 [0..<16] (r, b) = (sha2_rounds 16 K S0 S1 (sha2_W s0 s1 (fetch b)) r, b')"
      "wf b'" "circ_inv (sha2_W s0 s1 (fetch b)) 16 (words b')"
    using loop0 [OF assms(1), of 16 r] by auto
  show ?thesis
    using loop1 [OF b'(2,3) assms(2) refl, of r] by (auto simp: b'(1))
qed

end

section \<open>Unrolled rounds\<close>

text \<open>One body of an unrolled loop: eight rounds with rotated arguments.\<close>

fun rounds8 ::
  "('w \<Rightarrow> 'w \<Rightarrow> 'w \<Rightarrow> 'w \<Rightarrow> 'w \<Rightarrow> 'w \<Rightarrow> 'w \<Rightarrow> 'w \<Rightarrow> 'b \<Rightarrow> nat \<Rightarrow> 'w \<times> 'w \<times> 'b \<times> nat) \<Rightarrow>
   'w regs \<times> 'b \<times> nat \<Rightarrow> 'w regs \<times> 'b \<times> nat" where
  "rounds8 ROUND (Regs a b c d e f g h, W, j) =
     (let (d, h, W, j) = ROUND a b c d e f g h W j;
          (c, g, W, j) = ROUND h a b c d e f g W j;
          (b, f, W, j) = ROUND g h a b c d e f W j;
          (a, e, W, j) = ROUND f g h a b c d e W j;
          (h, d, W, j) = ROUND e f g h a b c d W j;
          (g, c, W, j) = ROUND d e f g h a b c W j;
          (f, b, W, j) = ROUND c d e f g h a b W j;
          (e, a, W, j) = ROUND b c d e f g h a W j
      in (Regs a b c d e f g h, W, j))"

text \<open>
  If one round of the macro form is one round of the rolled loop up to the names of the
  registers, then the unrolled body does eight rounds of the rolled loop.
\<close>

lemma rounds8_fold:
  assumes "\<And>a b c d e f g h W j. rnd j (Regs a b c d e f g h, W) =
     (case ROUND a b c d e f g h W j of (d', h', W', _) \<Rightarrow> (Regs h' a b c d' e f g, W'))"
    and "\<And>a b c d e f g h W j. snd (snd (snd (ROUND a b c d e f g h W j))) = Suc j"
  shows "rounds8 ROUND (r, W, j) = (case fold rnd [j..<j + 8] (r, W) of (r', W') \<Rightarrow> (r', W', j + 8))"
proof -
  have ex: "\<exists>d' h' W'. ROUND a b c d e f g h W j = (d', h', W', Suc j)" for a b c d e f g h W j
    using assms(2) [of a b c d e f g h W j] by (metis prod.collapse)
  obtain a b c d e f g h where r: "r = Regs a b c d e f g h" by (cases r)
  obtain d1 h1 W1 where 1: "ROUND a b c d e f g h W j = (d1, h1, W1, Suc j)" using ex by blast
  obtain c1 g1 W2 where 2: "ROUND h1 a b c d1 e f g W1 (Suc j) = (c1, g1, W2, Suc (Suc j))" using ex by blast
  obtain b1 f1 W3 where 3: "ROUND g1 h1 a b c1 d1 e f W2 (Suc (Suc j)) = (b1, f1, W3, Suc (Suc (Suc j)))" using ex by blast
  obtain a1 e1 W4 where 4: "ROUND f1 g1 h1 a b1 c1 d1 e W3 (Suc (Suc (Suc j))) = (a1, e1, W4, Suc (Suc (Suc (Suc j))))" using ex by blast
  obtain h2 d2 W5 where 5: "ROUND e1 f1 g1 h1 a1 b1 c1 d1 W4 (Suc (Suc (Suc (Suc j)))) = (h2, d2, W5, Suc (Suc (Suc (Suc (Suc j)))))" using ex by blast
  obtain g2 c2 W6 where 6: "ROUND d2 e1 f1 g1 h2 a1 b1 c1 W5 (Suc (Suc (Suc (Suc (Suc j))))) = (g2, c2, W6, Suc (Suc (Suc (Suc (Suc (Suc j))))))" using ex by blast
  obtain f2 b2 W7 where 7: "ROUND c2 d2 e1 f1 g2 h2 a1 b1 W6 (Suc (Suc (Suc (Suc (Suc (Suc j)))))) = (f2, b2, W7, Suc (Suc (Suc (Suc (Suc (Suc (Suc j)))))))" using ex by blast
  obtain e2 a2 W8 where 8: "ROUND b2 c2 d2 e1 f2 g2 h2 a1 W7 (Suc (Suc (Suc (Suc (Suc (Suc (Suc j))))))) = (e2, a2, W8, Suc (Suc (Suc (Suc (Suc (Suc (Suc (Suc j))))))))" using ex by blast
  have "rounds8 ROUND (r, W, j) = (Regs a2 b2 c2 d2 e2 f2 g2 h2, W8, Suc (Suc (Suc (Suc (Suc (Suc (Suc (Suc j))))))))"
    by (simp add: r 1 2 3 4 5 6 7 8)
  moreover have "fold rnd [j, Suc j, Suc (Suc j), Suc (Suc (Suc j)), Suc (Suc (Suc (Suc j))), Suc (Suc (Suc (Suc (Suc j)))), Suc (Suc (Suc (Suc (Suc (Suc j))))), Suc (Suc (Suc (Suc (Suc (Suc (Suc j))))))] (r, W) =
      (Regs a2 b2 c2 d2 e2 f2 g2 h2, W8)"
    by (simp add: r assms(1) 1 2 3 4 5 6 7 8)
  moreover have "[j..<j + 8] = [j, Suc j, Suc (Suc j), Suc (Suc (Suc j)), Suc (Suc (Suc (Suc j))), Suc (Suc (Suc (Suc (Suc j)))), Suc (Suc (Suc (Suc (Suc (Suc j))))), Suc (Suc (Suc (Suc (Suc (Suc (Suc j))))))]"
    by (simp add: upt_rec numeral_eq_Suc)
  moreover have "j + 8 = Suc (Suc (Suc (Suc (Suc (Suc (Suc (Suc j)))))))" by simp
  ultimately show ?thesis by (simp only: prod.case)
qed


text \<open>A \<^verbatim>\<open>do\<close> loop whose body does eight rounds, run to a limit that is a multiple of eight away.\<close>

lemma do_loop8:
  assumes loop: "\<And>s. loop s = (let s = body s in if snd (snd s) < lim then loop s else s)"
    and body: "\<And>r W j. body (r, W, j) = (case fold rnd [j..<j + 8] (r, W) of (r', W') \<Rightarrow> (r', W', j + 8))"
    and lim: "lim = j + 8 * Suc k"
  shows "loop (r, W, j) = (case fold rnd [j..<lim] (r, W) of (r', W') \<Rightarrow> (r', W', lim))"
  using lim
proof (induction k arbitrary: r W j)
  case 0
  then show ?case by (subst loop) (simp add: body split_def)
next
  case (Suc k)
  obtain r' W' where s: "fold rnd [j..<j + 8] (r, W) = (r', W')" by fastforce
  have "loop (r, W, j) = loop (r', W', j + 8)"
    using Suc.prems by (subst loop) (simp add: body s)
  moreover have "[j..<lim] = [j..<j + 8] @ [j + 8..<lim]"
    using upt_add_eq_append [of j "j + 8" "8 * Suc k"] Suc.prems by (simp add: ac_simps)
  ultimately show ?case using Suc.IH [of "j + 8" r' W'] Suc.prems s by simp
qed

end
