(* ===== verification/Sha256.thy ===== *)
theory Sha256
  imports Sha2_Core
begin

text \<open>
  SHA-256 of \<^verbatim>\<open>generic/sha2.c\<close>: the context \<^verbatim>\<open>SHA256_CTX\<close>, both compiled forms of the
  transform (the rolled loops and the \<^verbatim>\<open>SHA2_UNROLL_TRANSFORM\<close> macros), the streaming
  update, the final padding, and the hexadecimal end. The transform keeps its message
  schedule in the context's own byte buffer through a pointer cast, so buffer words are
  read and written in the host's byte order, and the block it reads may be that same
  buffer.
\<close>

section \<open>Constants, context, macros\<close>

definition SHA256_BLOCK_LENGTH :: nat where "SHA256_BLOCK_LENGTH = 64"
definition SHA256_DIGEST_LENGTH :: nat where "SHA256_DIGEST_LENGTH = 32"
definition SHA256_SHORT_BLOCK_LENGTH :: nat where
  "SHA256_SHORT_BLOCK_LENGTH = SHA256_BLOCK_LENGTH - 8"

lemmas sha256_lengths = SHA256_BLOCK_LENGTH_def SHA256_DIGEST_LENGTH_def SHA256_SHORT_BLOCK_LENGTH_def

record SHA256_CTX =
  state256 :: "u32 list"
  bitcount256 :: u64
  buffer256 :: "byte list"

definition Sigma0_256 :: "u32 \<Rightarrow> u32" where
  "Sigma0_256 x = (S32 2 x XOR S32 13 x XOR S32 22 x)"

definition Sigma1_256 :: "u32 \<Rightarrow> u32" where
  "Sigma1_256 x = (S32 6 x XOR S32 11 x XOR S32 25 x)"

definition sigma0_256 :: "u32 \<Rightarrow> u32" where
  "sigma0_256 x = (S32 7 x XOR S32 18 x XOR R_shr 3 x)"

definition sigma1_256 :: "u32 \<Rightarrow> u32" where
  "sigma1_256 x = (S32 17 x XOR S32 19 x XOR R_shr 10 x)"

text \<open>The round constants, the hexadecimal table of \<^verbatim>\<open>sha2.c\<close> written in decimal.\<close>

definition K256 :: "u32 list" where
  "K256 =
    [1116352408, 1899447441, 3049323471, 3921009573, 961987163, 1508970993,
     2453635748, 2870763221, 3624381080, 310598401, 607225278, 1426881987,
     1925078388, 2162078206, 2614888103, 3248222580, 3835390401, 4022224774,
     264347078, 604807628, 770255983, 1249150122, 1555081692, 1996064986,
     2554220882, 2821834349, 2952996808, 3210313671, 3336571891, 3584528711,
     113926993, 338241895, 666307205, 773529912, 1294757372, 1396182291,
     1695183700, 1986661051, 2177026350, 2456956037, 2730485921, 2820302411,
     3259730800, 3345764771, 3516065817, 3600352804, 4094571909, 275423344,
     430227734, 506948616, 659060556, 883997877, 958139571, 1322822218,
     1537002063, 1747873779, 1955562222, 2024104815, 2227730452, 2361852424,
     2428436474, 2756734187, 3204031479, 3329325298]"

definition sha256_initial_hash_value :: "u32 list" where
  "sha256_initial_hash_value =
    [0x6a09e667, 0xbb67ae85, 0x3c6ef372, 0xa54ff53a,
     0x510e527f, 0x9b05688c, 0x1f83d9ab, 0x5be0cd19]"

section \<open>Initialisation\<close>

definition sha256_init_ctx :: "SHA256_CTX \<Rightarrow> SHA256_CTX" where
  "sha256_init_ctx c = c\<lparr>state256 := sha256_initial_hash_value,
     buffer256 := replicate SHA256_BLOCK_LENGTH 0, bitcount256 := 0\<rparr>"

text \<open>A null context is left alone.\<close>

definition SHA256_Init :: "SHA256_CTX option \<Rightarrow> SHA256_CTX option" where
  "SHA256_Init context = (case context of None \<Rightarrow> None | Some c \<Rightarrow> Some (sha256_init_ctx c))"

section \<open>The transform, rolled loops\<close>

text \<open>The word written to \<^verbatim>\<open>W256[j]\<close> in the first loop: \<^verbatim>\<open>*data++\<close>, reversed on a little-endian host.\<close>

definition sha256_fetch :: "byte_order \<Rightarrow> data_src \<Rightarrow> byte list \<Rightarrow> nat \<Rightarrow> u32" where
  "sha256_fetch bo data W j =
     (if bo = LITTLE_ENDIAN then REVERSE32 (load_word bo 4 (data_mem data W) j)
      else load_word bo 4 (data_mem data W) j)"

fun SHA256_round_0_15 :: "byte_order \<Rightarrow> data_src \<Rightarrow> nat \<Rightarrow> u32 regs \<times> byte list \<Rightarrow> u32 regs \<times> byte list" where
  "SHA256_round_0_15 bo data j (Regs a b c d e f g h, W) =
     (let W = store_word bo 4 W j (sha256_fetch bo data W j);
          T1 = h + Sigma1_256 e + Ch e f g + K256 ! j + load_word bo 4 W j;
          T2 = Sigma0_256 a + Maj a b c
      in (Regs (T1 + T2) a b c (d + T1) e f g, W))"

fun SHA256_round_16_63 :: "byte_order \<Rightarrow> nat \<Rightarrow> u32 regs \<times> byte list \<Rightarrow> u32 regs \<times> byte list" where
  "SHA256_round_16_63 bo j (Regs a b c d e f g h, W) =
     (let s0 = load_word bo 4 W ((j + 1) AND 0x0f);
          s0 = sigma0_256 s0;
          s1 = load_word bo 4 W ((j + 14) AND 0x0f);
          s1 = sigma1_256 s1;
          W = store_word bo 4 W (j AND 0x0f)
                (load_word bo 4 W (j AND 0x0f) + (s1 + load_word bo 4 W ((j + 9) AND 0x0f) + s0));
          T1 = h + Sigma1_256 e + Ch e f g + K256 ! j + load_word bo 4 W (j AND 0x0f);
          T2 = Sigma0_256 a + Maj a b c
      in (Regs (T1 + T2) a b c (d + T1) e f g, W))"

definition sha256_add_state :: "SHA256_CTX \<Rightarrow> u32 regs \<times> byte list \<Rightarrow> SHA256_CTX" where
  "sha256_add_state context rW =
     context\<lparr>state256 := map2 (+) (state256 context) (regs_list (fst rW)), buffer256 := snd rW\<rparr>"

definition SHA256_Transform :: "byte_order \<Rightarrow> SHA256_CTX \<Rightarrow> data_src \<Rightarrow> SHA256_CTX" where
  "SHA256_Transform bo context data =
     sha256_add_state context
       (fold (SHA256_round_16_63 bo) [16..<64]
         (fold (SHA256_round_0_15 bo data) [0..<16]
           (regs_of (state256 context), buffer256 context)))"

section \<open>The transform, unrolled rounds\<close>

text \<open>
  The round macros assign to their arguments \<open>d\<close> and \<open>h\<close>, to \<^verbatim>\<open>W256\<close> and to \<open>j\<close>: a macro
  is a function that returns these four. The unrolled code rotates the roles of the
  eight variables by rotating the arguments.
\<close>

definition ROUND256_0_TO_15 ::
  "byte_order \<Rightarrow> data_src \<Rightarrow> u32 \<Rightarrow> u32 \<Rightarrow> u32 \<Rightarrow> u32 \<Rightarrow> u32 \<Rightarrow> u32 \<Rightarrow> u32 \<Rightarrow> u32 \<Rightarrow>
   byte list \<Rightarrow> nat \<Rightarrow> u32 \<times> u32 \<times> byte list \<times> nat" where
  "ROUND256_0_TO_15 bo data a b c d e f g h W j =
     (let W = store_word bo 4 W j (sha256_fetch bo data W j);
          T1 = h + Sigma1_256 e + Ch e f g + K256 ! j + load_word bo 4 W j
      in (d + T1, T1 + Sigma0_256 a + Maj a b c, W, j + 1))"

definition ROUND256 ::
  "byte_order \<Rightarrow> u32 \<Rightarrow> u32 \<Rightarrow> u32 \<Rightarrow> u32 \<Rightarrow> u32 \<Rightarrow> u32 \<Rightarrow> u32 \<Rightarrow> u32 \<Rightarrow>
   byte list \<Rightarrow> nat \<Rightarrow> u32 \<times> u32 \<times> byte list \<times> nat" where
  "ROUND256 bo a b c d e f g h W j =
     (let s0 = load_word bo 4 W ((j + 1) AND 0x0f);
          s0 = sigma0_256 s0;
          s1 = load_word bo 4 W ((j + 14) AND 0x0f);
          s1 = sigma1_256 s1;
          W = store_word bo 4 W (j AND 0x0f)
                (load_word bo 4 W (j AND 0x0f) + (s1 + load_word bo 4 W ((j + 9) AND 0x0f) + s0));
          T1 = h + Sigma1_256 e + Ch e f g + K256 ! j + load_word bo 4 W (j AND 0x0f)
      in (d + T1, T1 + Sigma0_256 a + Maj a b c, W, j + 1))"

text \<open>The \<^verbatim>\<open>do \<dots> while (j < lim)\<close> loops; \<open>j\<close> advances by eight each time round.\<close>

definition SHA256_unrolled_16 :: "byte_order \<Rightarrow> data_src \<Rightarrow> u32 regs \<times> byte list \<times> nat \<Rightarrow> u32 regs \<times> byte list \<times> nat" where
  "SHA256_unrolled_16 bo data = rounds8 (ROUND256_0_TO_15 bo data)"

definition SHA256_unrolled_64 :: "byte_order \<Rightarrow> u32 regs \<times> byte list \<times> nat \<Rightarrow> u32 regs \<times> byte list \<times> nat" where
  "SHA256_unrolled_64 bo = rounds8 (ROUND256 bo)"

lemma ROUND256_count [simp]:
  "snd (snd (snd (ROUND256_0_TO_15 bo data a b c d e f g h W j))) = Suc j"
  "snd (snd (snd (ROUND256 bo a b c d e f g h W j))) = Suc j"
  by (simp_all add: ROUND256_0_TO_15_def ROUND256_def Let_def)

lemma ROUND256_rolled:
  "SHA256_round_0_15 bo data j (Regs a b c d e f g h, W) =
     (case ROUND256_0_TO_15 bo data a b c d e f g h W j of (d', h', W', _) \<Rightarrow> (Regs h' a b c d' e f g, W'))"
  "SHA256_round_16_63 bo j (Regs a b c d e f g h, W) =
     (case ROUND256 bo a b c d e f g h W j of (d', h', W', _) \<Rightarrow> (Regs h' a b c d' e f g, W'))"
  by (simp_all add: ROUND256_0_TO_15_def ROUND256_def Let_def add.assoc)

lemma SHA256_unrolled_fold:
  "SHA256_unrolled_16 bo data (r, W, j) =
     (case fold (SHA256_round_0_15 bo data) [j..<j + 8] (r, W) of (r', W') \<Rightarrow> (r', W', j + 8))"
  "SHA256_unrolled_64 bo (r, W, j) =
     (case fold (SHA256_round_16_63 bo) [j..<j + 8] (r, W) of (r', W') \<Rightarrow> (r', W', j + 8))"
  unfolding SHA256_unrolled_16_def SHA256_unrolled_64_def
  by (rule rounds8_fold, rule ROUND256_rolled, rule ROUND256_count)+

lemma SHA256_unrolled_count:
  "snd (snd (SHA256_unrolled_16 bo data s)) = snd (snd s) + 8"
  "snd (snd (SHA256_unrolled_64 bo s)) = snd (snd s) + 8"
  by (cases s, simp add: SHA256_unrolled_fold split_def)+

function SHA256_loop_16 :: "byte_order \<Rightarrow> data_src \<Rightarrow> u32 regs \<times> byte list \<times> nat \<Rightarrow> u32 regs \<times> byte list \<times> nat" where
  "SHA256_loop_16 bo data s =
     (let s = SHA256_unrolled_16 bo data s in if snd (snd s) < 16 then SHA256_loop_16 bo data s else s)"
  by pat_completeness auto
termination
  by (relation "measure (\<lambda>(bo, data, s). 16 - snd (snd s))") (auto simp: SHA256_unrolled_count)

function SHA256_loop_64 :: "byte_order \<Rightarrow> u32 regs \<times> byte list \<times> nat \<Rightarrow> u32 regs \<times> byte list \<times> nat" where
  "SHA256_loop_64 bo s =
     (let s = SHA256_unrolled_64 bo s in if snd (snd s) < 64 then SHA256_loop_64 bo s else s)"
  by pat_completeness auto
termination
  by (relation "measure (\<lambda>(bo, s). 64 - snd (snd s))") (auto simp: SHA256_unrolled_count)

declare SHA256_loop_16.simps [simp del] SHA256_loop_64.simps [simp del]

definition SHA256_Transform_unrolled :: "byte_order \<Rightarrow> SHA256_CTX \<Rightarrow> data_src \<Rightarrow> SHA256_CTX" where
  "SHA256_Transform_unrolled bo context data =
     (case SHA256_loop_64 bo (SHA256_loop_16 bo data (regs_of (state256 context), buffer256 context, 0)) of
        (r, W, j) \<Rightarrow> sha256_add_state context (r, W))"

lemma SHA256_Transform_unrolled_eq:
  "SHA256_Transform_unrolled bo context data = SHA256_Transform bo context data"
proof -
  obtain r W where s: "fold (SHA256_round_0_15 bo data) [0..<16] (regs_of (state256 context), buffer256 context) = (r, W)"
    by fastforce
  have "SHA256_loop_16 bo data (regs_of (state256 context), buffer256 context, 0) = (r, W, 16)"
    using do_loop8 [OF SHA256_loop_16.simps SHA256_unrolled_fold(1), of 0 1] s by simp
  moreover have "SHA256_loop_64 bo (r, W, 16) =
      (case fold (SHA256_round_16_63 bo) [16..<64] (r, W) of (r', W') \<Rightarrow> (r', W', 64))"
    using do_loop8 [OF SHA256_loop_64.simps SHA256_unrolled_fold(2), of 16 5] by simp
  ultimately show ?thesis
    by (simp add: SHA256_Transform_unrolled_def SHA256_Transform_def s split_def)
qed
section \<open>Update\<close>

definition sha256_usedspace :: "SHA256_CTX \<Rightarrow> nat" where
  "sha256_usedspace context = unat (drop_bit 3 (bitcount256 context)) mod SHA256_BLOCK_LENGTH"

text \<open>The loop over the complete blocks of the input.\<close>

function sha256_whole_blocks ::
  "byte_order \<Rightarrow> SHA256_CTX \<Rightarrow> byte list \<Rightarrow> u64 \<Rightarrow> SHA256_CTX \<times> byte list \<times> u64" where
  "sha256_whole_blocks bo context data len =
     (if of_nat SHA256_BLOCK_LENGTH \<le> len then
        let context = SHA256_Transform bo context (Data (take SHA256_BLOCK_LENGTH data));
            context = context\<lparr>bitcount256 := bitcount256 context + push_bit 3 (of_nat SHA256_BLOCK_LENGTH)\<rparr>
        in sha256_whole_blocks bo context (drop SHA256_BLOCK_LENGTH data) (len - of_nat SHA256_BLOCK_LENGTH)
      else (context, data, len))"
  by pat_completeness auto
termination
  by (relation "measure (\<lambda>(bo, context, data, len). unat len)")
    (auto simp: sha256_lengths unat_sub word_le_nat_alt)

declare sha256_whole_blocks.simps [simp del]

text \<open>
  The first part of the update: fill a partly used buffer. \<open>Inl\<close> is the early return of
  the branch where the buffer does not get full.
\<close>

definition sha256_fill_buffer ::
  "byte_order \<Rightarrow> SHA256_CTX \<Rightarrow> byte list \<Rightarrow> u64 \<Rightarrow> SHA256_CTX + SHA256_CTX \<times> byte list \<times> u64" where
  "sha256_fill_buffer bo context data len =
     (let usedspace = sha256_usedspace context in
      if usedspace > 0 then
        let freespace = SHA256_BLOCK_LENGTH - usedspace in
        if of_nat freespace \<le> len then
          let context = context\<lparr>buffer256 := mem_copy (buffer256 context) usedspace (take freespace data)\<rparr>;
              context = context\<lparr>bitcount256 := bitcount256 context + push_bit 3 (of_nat freespace)\<rparr>
          in Inr (SHA256_Transform bo context Ctx_buffer, drop freespace data, len - of_nat freespace)
        else
          Inl (context\<lparr>buffer256 := mem_copy (buffer256 context) usedspace (take (unat len) data),
                 bitcount256 := bitcount256 context + push_bit 3 len\<rparr>)
      else Inr (context, data, len))"

text \<open>The left-overs after the last whole block.\<close>

definition sha256_keep_rest :: "SHA256_CTX \<times> byte list \<times> u64 \<Rightarrow> SHA256_CTX" where
  "sha256_keep_rest s = (case s of (context, data, len) \<Rightarrow>
     if len > 0 then
       context\<lparr>buffer256 := mem_copy (buffer256 context) 0 (take (unat len) data),
         bitcount256 := bitcount256 context + push_bit 3 len\<rparr>
     else context)"

definition sha256_update_ctx :: "byte_order \<Rightarrow> SHA256_CTX \<Rightarrow> byte list \<Rightarrow> u64 \<Rightarrow> SHA256_CTX" where
  "sha256_update_ctx bo context data len =
     (case sha256_fill_buffer bo context data len of
        Inl context \<Rightarrow> context
      | Inr (context, data, len) \<Rightarrow> sha256_keep_rest (sha256_whole_blocks bo context data len))"

text \<open>
  The entry point: nothing to do for an empty input, an assertion against null
  pointers, and the caller's promise that \<open>data\<close> has \<open>len\<close> bytes.
\<close>

definition SHA256_Update ::
  "byte_order \<Rightarrow> SHA256_CTX option \<Rightarrow> byte list option \<Rightarrow> u64 \<Rightarrow> c_fault + SHA256_CTX option" where
  "SHA256_Update bo context data len =
     (if len = 0 then Inr context
      else case (context, data) of
        (Some c, Some d) \<Rightarrow>
          if length d < unat len then Inl Overrun else Inr (Some (sha256_update_ctx bo c d len))
      | _ \<Rightarrow> Inl Assertion_failed)"

section \<open>Final, End, Data\<close>

definition sha256_zero :: SHA256_CTX where
  "sha256_zero = \<lparr>state256 = replicate 8 0, bitcount256 = 0, buffer256 = replicate SHA256_BLOCK_LENGTH 0\<rparr>"

text \<open>Padding up to the length field; \<open>usedspace\<close> is taken before the bit count is reversed.\<close>

definition sha256_pad :: "byte_order \<Rightarrow> nat \<Rightarrow> SHA256_CTX \<Rightarrow> SHA256_CTX" where
  "sha256_pad bo usedspace context =
     (if usedspace > 0 then
        let context = context\<lparr>buffer256 := (buffer256 context)[usedspace := 0x80]\<rparr>;
            usedspace = usedspace + 1
        in if usedspace \<le> SHA256_SHORT_BLOCK_LENGTH then
             context\<lparr>buffer256 := mem_copy (buffer256 context) usedspace
                       (replicate (SHA256_SHORT_BLOCK_LENGTH - usedspace) 0)\<rparr>
           else
             let context = (if usedspace < SHA256_BLOCK_LENGTH then
                     context\<lparr>buffer256 := mem_copy (buffer256 context) usedspace
                               (replicate (SHA256_BLOCK_LENGTH - usedspace) 0)\<rparr>
                   else context);
                 context = SHA256_Transform bo context Ctx_buffer
             in context\<lparr>buffer256 := mem_copy (buffer256 context) 0 (replicate SHA256_SHORT_BLOCK_LENGTH 0)\<rparr>
      else
        let context = context\<lparr>buffer256 := mem_copy (buffer256 context) 0 (replicate SHA256_SHORT_BLOCK_LENGTH 0)\<rparr>
        in context\<lparr>buffer256 := (buffer256 context)[0 := 0x80]\<rparr>)"

definition sha256_digest_bytes :: "byte_order \<Rightarrow> u32 list \<Rightarrow> byte list" where
  "sha256_digest_bytes bo st =
     concat (map (\<lambda>j. host_bytes bo 4 (if bo = LITTLE_ENDIAN then REVERSE32 (st ! j) else st ! j)) [0..<8])"

definition sha256_final_ctx :: "byte_order \<Rightarrow> SHA256_CTX \<Rightarrow> byte list" where
  "sha256_final_ctx bo context =
     (let usedspace = sha256_usedspace context;
          context = (if bo = LITTLE_ENDIAN
                     then context\<lparr>bitcount256 := REVERSE64 (bitcount256 context)\<rparr> else context);
          context = sha256_pad bo usedspace context;
          context = context\<lparr>buffer256 :=
            store_word bo 8 (buffer256 context) (SHA256_SHORT_BLOCK_LENGTH div 8) (bitcount256 context)\<rparr>;
          context = SHA256_Transform bo context Ctx_buffer
      in sha256_digest_bytes bo (state256 context))"

text \<open>
  \<open>want\<close> says that a digest buffer was passed. The context is wiped in either case; the
  result is the digest (if wanted) and the wiped context.
\<close>

definition SHA256_Final ::
  "byte_order \<Rightarrow> bool \<Rightarrow> SHA256_CTX option \<Rightarrow> c_fault + byte list option \<times> SHA256_CTX option" where
  "SHA256_Final bo want context =
     (case context of
        None \<Rightarrow> Inl Assertion_failed
      | Some c \<Rightarrow> Inr (if want then Some (sha256_final_ctx bo c) else None, Some sha256_zero))"

definition SHA256_End ::
  "byte_order \<Rightarrow> bool \<Rightarrow> SHA256_CTX option \<Rightarrow> c_fault + (string \<times> nat) option \<times> SHA256_CTX option" where
  "SHA256_End bo want context =
     (case context of
        None \<Rightarrow> Inl Assertion_failed
      | Some c \<Rightarrow>
          if want then
            (case SHA256_Final bo True context of
               Inl e \<Rightarrow> Inl e
             | Inr (digest, context) \<Rightarrow> Inr (map_option hex_store digest, context))
          else Inr (None, Some sha256_zero))"

text \<open>\<open>local\<close> is the uninitialised context on the stack of \<^verbatim>\<open>SHA256_Data\<close>.\<close>

definition SHA256_Data ::
  "byte_order \<Rightarrow> SHA256_CTX \<Rightarrow> byte list option \<Rightarrow> u64 \<Rightarrow> bool \<Rightarrow> c_fault + (string \<times> nat) option" where
  "SHA256_Data bo local data len want =
     (case SHA256_Update bo (SHA256_Init (Some local)) data len of
        Inl e \<Rightarrow> Inl e
      | Inr context \<Rightarrow> map_sum id fst (SHA256_End bo want context))"

section \<open>The transform computes the reference compression\<close>

definition block_word32 :: "byte list \<Rightarrow> nat \<Rightarrow> u32" where
  "block_word32 blk j = be_word (take 4 (drop (4 * j) blk))"

definition compress256 :: "u32 list \<Rightarrow> byte list \<Rightarrow> u32 list" where
  "compress256 H blk = sha2_compress 64 K256 Sigma0_256 Sigma1_256 sigma0_256 sigma1_256 (block_word32 blk) H"

definition sha256_wf :: "SHA256_CTX \<Rightarrow> bool" where
  "sha256_wf c \<longleftrightarrow> length (state256 c) = 8 \<and> length (buffer256 c) = 64"

lemma sha256_fetch_word:
  assumes "length (data_mem data W) = 64" "j < 16"
  shows "sha256_fetch bo data W j = block_word32 (data_mem data W) j"
proof -
  have "length (take 4 (drop (4 * j) (data_mem data W))) = 4" using assms by simp
  then have "net32 bo (load_word bo 4 (data_mem data W) j) = block_word32 (data_mem data W) j"
    unfolding load_word_def block_word32_def by (rule net32_host_word)
  then show ?thesis by (simp add: sha256_fetch_def net32_def split: if_splits)
qed

interpretation t256: sha2_loops "load_word bo 4 :: byte list \<Rightarrow> nat \<Rightarrow> u32" "store_word bo 4"
  "\<lambda>b. length b = 64" "sha256_fetch bo data" K256 Sigma0_256 Sigma1_256 sigma0_256 sigma1_256
  "SHA256_round_0_15 bo data" "SHA256_round_16_63 bo" for bo data
proof unfold_locales
  fix b :: "byte list" and i j :: nat and w :: u32
  assume "length b = 64" "i < j" "j < 16"
  then show "sha256_fetch bo data (store_word bo 4 b i w) j = sha256_fetch bo data b j"
    by (cases data) (simp_all add: sha256_fetch_def buf32.get_put)
next
  fix b :: "byte list" and j :: nat and r :: "u32 regs"
  assume "length b = 64" "j < 16"
  then show "SHA256_round_0_15 bo data j (r, b) =
    (sha2_step Sigma0_256 Sigma1_256 (K256 ! j) (sha256_fetch bo data b j) r,
     store_word bo 4 b j (sha256_fetch bo data b j))"
    by (cases r) (simp add: Let_def buf32.get_put)
next
  fix b :: "byte list" and j :: nat and r :: "u32 regs"
  assume "length b = 64"
  then show "SHA256_round_16_63 bo j (r, b) =
    (let w = load_word bo 4 b (j mod 16) +
        (sigma1_256 (load_word bo 4 b ((j + 14) mod 16)) + load_word bo 4 b ((j + 9) mod 16) +
         sigma0_256 (load_word bo 4 b ((j + 1) mod 16)))
     in (sha2_step Sigma0_256 Sigma1_256 (K256 ! j) w r, store_word bo 4 b (j mod 16) w))"
    by (cases r) (simp add: Let_def buf32.get_put and_15_mod)
qed

lemma SHA256_Transform_spec:
  assumes "sha256_wf c" "length (data_mem data (buffer256 c)) = 64"
  shows "state256 (SHA256_Transform bo c data) = compress256 (state256 c) (data_mem data (buffer256 c))"
    and "sha256_wf (SHA256_Transform bo c data)"
    and "bitcount256 (SHA256_Transform bo c data) = bitcount256 c"
proof -
  let ?st = "fold (SHA256_round_16_63 bo) [16..<64]
         (fold (SHA256_round_0_15 bo data) [0..<16] (regs_of (state256 c), buffer256 c))"
  have "fst ?st = sha2_rounds 64 K256 Sigma0_256 Sigma1_256
      (sha2_W sigma0_256 sigma1_256 (sha256_fetch bo data (buffer256 c))) (regs_of (state256 c))"
    and len: "length (snd ?st) = 64"
    using t256.loops [of "buffer256 c" 64 bo data "regs_of (state256 c)"] assms(1)
    by (simp_all add: sha256_wf_def)
  moreover have "sha2_W sigma0_256 sigma1_256 (sha256_fetch bo data (buffer256 c)) =
      sha2_W sigma0_256 sigma1_256 (block_word32 (data_mem data (buffer256 c)))"
    using sha256_fetch_word [OF assms(2)] by (intro ext sha2_W_cong) simp
  ultimately show st: "state256 (SHA256_Transform bo c data) =
      compress256 (state256 c) (data_mem data (buffer256 c))"
    by (simp add: SHA256_Transform_def sha256_add_state_def compress256_def sha2_compress_def)
  show "sha256_wf (SHA256_Transform bo c data)"
    using assms(1) len by (simp add: sha256_wf_def SHA256_Transform_def sha256_add_state_def)
  show "bitcount256 (SHA256_Transform bo c data) = bitcount256 c"
    by (simp add: SHA256_Transform_def sha256_add_state_def)
qed

section \<open>Streaming\<close>

definition sha256_inv :: "nat \<Rightarrow> SHA256_CTX \<Rightarrow> bool" where
  "sha256_inv m c \<longleftrightarrow> sha256_wf c \<and> bitcount256 c = of_nat (8 * m)"

definition sha256_view :: "SHA256_CTX \<Rightarrow> u32 list \<times> byte list" where
  "sha256_view c = (state256 c, take (sha256_usedspace c) (buffer256 c))"

lemma sha256_inv_used: "sha256_inv m c \<Longrightarrow> sha256_usedspace c = m mod 64"
  by (simp only: sha256_inv_def sha256_usedspace_def unat_bits_to_bytes SHA256_BLOCK_LENGTH_def mod_2p61_mod)

text \<open>The chaining value and the buffer, without the bit count.\<close>

definition sha256_proj :: "SHA256_CTX \<Rightarrow> u32 list \<times> byte list" where
  "sha256_proj c = (state256 c, buffer256 c)"

definition sha256_tr :: "byte_order \<Rightarrow> u32 list \<times> byte list \<Rightarrow> data_src \<Rightarrow> u32 list \<times> byte list" where
  "sha256_tr bo s data = sha256_proj (SHA256_Transform bo \<lparr>state256 = fst s, bitcount256 = 0, buffer256 = snd s\<rparr> data)"

lemma sha256_proj_Transform:
  "sha256_proj (SHA256_Transform bo c data) = sha256_tr bo (sha256_proj c) data"
  by (simp add: sha256_tr_def sha256_proj_def SHA256_Transform_def sha256_add_state_def)

interpretation b256: block_transform 64 compress256 "sha256_tr bo" "\<lambda>h. length h = 8" for bo
proof unfold_locales
  fix s :: "u32 list \<times> byte list" and p
  assume "length (fst s) = 8" "length (snd s) = 64" "length (data_mem p (snd s)) = 64"
  then show "fst (sha256_tr bo s p) = compress256 (fst s) (data_mem p (snd s))"
    and "length (fst (sha256_tr bo s p)) = 8 \<and> length (snd (sha256_tr bo s p)) = 64"
    using SHA256_Transform_spec [of "\<lparr>state256 = fst s, bitcount256 = 0, buffer256 = snd s\<rparr>" p bo]
    by (simp_all add: sha256_tr_def sha256_proj_def sha256_wf_def)
qed simp

text \<open>The update is the generic buffering of input, and counts the bits of the input.\<close>

lemma sha256_whole_blocks_refines:
  assumes "length d = unat len" "sha256_whole_blocks bo c d len = (c', d', len')"
  shows "(state256 c', mem_copy (buffer256 c') 0 d') = blk_whole 64 (sha256_tr bo) (sha256_proj c) d \<and>
    length d' = unat len' \<and> length d' < 64 \<and>
    bitcount256 c' + of_nat (8 * length d') = bitcount256 c + of_nat (8 * length d)"
  using assms
proof (induction bo c d len rule: sha256_whole_blocks.induct)
  case (1 bo c d len)
  show ?case
  proof (cases "64 \<le> len")
    case False
    then have "unat len < 64" by (simp add: word_le_nat_alt)
    then show ?thesis
      using False 1(2,3)
      by (auto simp: sha256_whole_blocks.simps [of bo c d len] blk_whole_short sha256_lengths sha256_proj_def)
  next
    case True
    then have ge: "64 \<le> length d" using 1(2) by (simp add: word_le_nat_alt)
    let ?c = "SHA256_Transform bo c (Data (take 64 d))"
    let ?c2 = "?c\<lparr>bitcount256 := bitcount256 ?c + push_bit 3 64\<rparr>"
    have eq: "sha256_whole_blocks bo ?c2 (drop 64 d) (len - 64) = (c', d', len')"
      using 1(3) True by (simp add: sha256_whole_blocks.simps [of bo c d len] sha256_lengths Let_def)
    have "length (drop 64 d) = unat (len - 64)" using 1(2) True by (simp add: unat_sub)
    then have ih: "(state256 c', mem_copy (buffer256 c') 0 d') = blk_whole 64 (sha256_tr bo) (sha256_proj ?c2) (drop 64 d) \<and>
        length d' = unat len' \<and> length d' < 64 \<and>
        bitcount256 c' + of_nat (8 * length d') = bitcount256 ?c2 + of_nat (8 * length (drop 64 d))"
      using 1(1) [OF _ refl refl] True eq by (auto simp: sha256_lengths)
    have "sha256_proj ?c2 = sha256_tr bo (sha256_proj c) (Data (take 64 d))"
      using sha256_proj_Transform [of bo c] by (simp add: sha256_proj_def)
    moreover have "bitcount256 ?c2 + of_nat (8 * length (drop 64 d)) = bitcount256 c + of_nat (8 * length d)"
      using ge by (simp add: SHA256_Transform_def sha256_add_state_def push_bit_eq_mult of_nat_diff algebra_simps)
    ultimately show ?thesis
      using ih ge by (auto simp: blk_whole.simps [of 64 "sha256_tr bo" "sha256_proj c" d])
  qed
qed

lemma sha256_blocks_and_rest:
  fixes c :: SHA256_CTX and bo :: byte_order
  assumes "length d < 2 ^ 64"
  defines "c' \<equiv> sha256_keep_rest (sha256_whole_blocks bo c d (of_nat (length d)))"
  shows "sha256_proj c' = blk_whole 64 (sha256_tr bo) (sha256_proj c) d"
    and "bitcount256 c' = bitcount256 c + of_nat (8 * length d)"
proof -
  obtain c2 d2 l2 where wb: "sha256_whole_blocks bo c d (of_nat (length d)) = (c2, d2, l2)"
    using prod_cases3 by blast
  note w = sha256_whole_blocks_refines [OF _ wb]
  have l2: "l2 = of_nat (length d2)" "length d2 = 0 \<longleftrightarrow> \<not> 0 < l2"
    using w assms(1) by (auto simp: unat_of_nat_u64 word_gt_0 unat_eq_0)
  then show "sha256_proj c' = blk_whole 64 (sha256_tr bo) (sha256_proj c) d"
    and "bitcount256 c' = bitcount256 c + of_nat (8 * length d)"
    using w assms(1)
    by (auto simp: c'_def sha256_keep_rest_def wb sha256_proj_def unat_of_nat_u64 push_bit_3_of_nat mem_copy_empty)
qed

lemma sha256_update_refines:
  fixes c :: SHA256_CTX and bo :: byte_order
  assumes len: "length d < 2 ^ 64"
  defines "c' \<equiv> sha256_update_ctx bo c d (of_nat (length d))"
  shows "sha256_proj c' = blk_update 64 (sha256_tr bo) (sha256_usedspace c) (sha256_proj c) d \<and>
    bitcount256 c' = bitcount256 c + of_nat (8 * length d)"
proof -
  define u where "u = sha256_usedspace c"
  have u: "u < 64" by (simp add: u_def sha256_usedspace_def sha256_lengths)
  have upd: "c' = (case sha256_fill_buffer bo c d (of_nat (length d)) of Inl c \<Rightarrow> c
      | Inr (c, d, l) \<Rightarrow> sha256_keep_rest (sha256_whole_blocks bo c d l))"
    by (simp add: c'_def sha256_update_ctx_def)
  have cmp: "of_nat (64 - u) \<le> (of_nat (length d) :: u64) \<longleftrightarrow> 64 - u \<le> length d"
    using len by (intro of_nat_le_u64) simp_all
  note unf = upd sha256_fill_buffer_def sha256_lengths Let_def u_def [symmetric] cmp blk_update_def
  consider "u = 0" | "0 < u" "length d < 64 - u" | "0 < u" "64 - u \<le> length d" by linarith
  then show ?thesis
  proof cases
    case 1
    then show ?thesis using sha256_blocks_and_rest [OF len, of bo c] by (simp add: unf)
  next
    case 2
    then show ?thesis
      using len by (simp add: unf sha256_proj_def unat_of_nat_u64 push_bit_3_of_nat del: of_nat_diff)
  next
    case 3
    let ?c = "c\<lparr>buffer256 := mem_copy (buffer256 c) u (take (64 - u) d),
                bitcount256 := bitcount256 c + push_bit 3 (of_nat (64 - u))\<rparr>"
    let ?d = "drop (64 - u) d"
    have l: "of_nat (length d) - of_nat (64 - u) = (of_nat (length ?d) :: u64)"
      using 3 by (simp only: length_drop of_nat_diff)
    have "c' = sha256_keep_rest (sha256_whole_blocks bo (SHA256_Transform bo ?c Ctx_buffer) ?d (of_nat (length ?d)))"
      using 3 by (simp add: unf l del: of_nat_diff length_drop)
    moreover have "sha256_proj (SHA256_Transform bo ?c Ctx_buffer) =
        sha256_tr bo (fst (sha256_proj c), mem_copy (snd (sha256_proj c)) u (take (64 - u) d)) Ctx_buffer"
      by (simp add: sha256_proj_Transform) (simp add: sha256_proj_def)
    moreover have "bitcount256 (SHA256_Transform bo ?c Ctx_buffer) + of_nat (8 * length ?d) =
        bitcount256 c + of_nat (8 * length d)"
    proof -
      have "8 * (64 - u) + 8 * length ?d = 8 * length d" using 3 u by simp
      then have "of_nat (8 * (64 - u)) + of_nat (8 * length ?d) = (of_nat (8 * length d) :: u64)"
        by (simp only: of_nat_add [symmetric])
      then show ?thesis
        by (simp add: SHA256_Transform_def sha256_add_state_def push_bit_3_of_nat add.assoc del: of_nat_diff of_nat_mult length_drop)
    qed
    ultimately show ?thesis
      using 3 len sha256_blocks_and_rest [of ?d bo "SHA256_Transform bo ?c Ctx_buffer"]
      by (simp add: blk_update_def u_def)
  qed
qed

lemma sha256_update_spec:
  assumes inv: "sha256_inv m c" and len: "length d < 2 ^ 64"
  shows "sha256_inv (m + length d) (sha256_update_ctx bo c d (of_nat (length d)))"
    and "sha256_view (sha256_update_ctx bo c d (of_nat (length d))) =
      md_blocks 64 compress256 (fst (sha256_view c)) (snd (sha256_view c) @ d)"
proof -
  let ?c = "sha256_update_ctx bo c d (of_nat (length d))"
  note ref = sha256_update_refines [OF len, of bo c]
  have u: "sha256_usedspace c = m mod 64" by (rule sha256_inv_used [OF inv])
  have "length (fst (sha256_proj c)) = 8" "length (snd (sha256_proj c)) = 64"
    using inv by (simp_all add: sha256_proj_def sha256_inv_def sha256_wf_def)
  note blk = b256.blk_update_spec [OF this, of "m mod 64" bo d]
  have bc: "bitcount256 ?c = of_nat (8 * (m + length d))"
    using ref inv by (simp add: sha256_inv_def algebra_simps)
  have st: "state256 ?c = fst (sha256_proj ?c)" "buffer256 ?c = snd (sha256_proj ?c)"
    by (simp_all add: sha256_proj_def)
  show inv': "sha256_inv (m + length d) ?c"
    unfolding sha256_inv_def sha256_wf_def st using blk ref u bc by simp
  show "sha256_view ?c = md_blocks 64 compress256 (fst (sha256_view c)) (snd (sha256_view c) @ d)"
    using blk ref u sha256_inv_used [OF inv']
    by (simp add: sha256_view_def st mod_add_left_eq) (simp add: sha256_proj_def)
qed

section \<open>Padding and digest\<close>

lemma sha256_pad_spec:
  fixes bo :: byte_order
  assumes wf: "sha256_wf c" and u: "u < 64"
  defines "p \<equiv> take u (buffer256 c)" and "c' \<equiv> sha256_pad bo u c"
  shows "sha256_wf c'" and "bitcount256 c' = bitcount256 c"
    and "u \<le> 55 \<Longrightarrow> state256 c' = state256 c \<and> take 56 (buffer256 c') = p @ 0x80 # replicate (55 - u) 0"
    and "55 < u \<Longrightarrow> state256 c' = compress256 (state256 c) (p @ 0x80 # replicate (63 - u) 0) \<and>
      take 56 (buffer256 c') = replicate 56 0"
proof (atomize(full), goal_cases)
  case 1
  have len: "length (buffer256 c) = 64" "length (state256 c) = 8" using wf by (simp_all add: sha256_wf_def)
  consider "u = 0" | "0 < u" "u \<le> 55" | "55 < u" by linarith
  then show ?case
  proof cases
    case 1
    then show ?thesis using len
      by (simp add: c'_def p_def sha256_pad_def sha256_lengths sha256_wf_def Let_def mem_simps list_update_append)
        (simp add: list_update_code replicate_Suc numeral_eq_Suc)
  next
    case 2
    then show ?thesis
      using len pad_one_block [OF len(1) u, of "55 - u"]
      by (simp add: c'_def p_def sha256_pad_def sha256_lengths sha256_wf_def Let_def length_mem_copy)
  next
    case 3
    let ?c = "c\<lparr>buffer256 := p @ 0x80 # replicate (63 - u) 0\<rparr>"
    have fill: "mem_copy ((buffer256 c)[u := 0x80]) (Suc u) (replicate (63 - u) 0) = p @ 0x80 # replicate (63 - u) 0"
      if "u < 63" using that len by (simp add: mem_simps p_def)
    have full: "(buffer256 c)[u := 0x80] = p @ 0x80 # replicate (63 - u) 0" if "\<not> u < 63"
    proof -
      have "u = 63" using that u by simp
      then show ?thesis using len take_Suc_update [of 63 "buffer256 c" "0x80"] by (simp add: p_def)
    qed
    have wf': "sha256_wf ?c" using len u by (simp add: sha256_wf_def p_def)
    note tr = SHA256_Transform_spec [OF wf', of Ctx_buffer bo]
    have "c' = (SHA256_Transform bo ?c Ctx_buffer)\<lparr>buffer256 :=
      mem_copy (buffer256 (SHA256_Transform bo ?c Ctx_buffer)) 0 (replicate 56 0)\<rparr>"
      using 3 fill full by (simp add: c'_def sha256_pad_def sha256_lengths Let_def)
    then show ?thesis
      using 3 tr wf' by (simp add: sha256_wf_def mem_simps)
  qed
qed
definition sha256_out :: "u32 list \<Rightarrow> byte list" where
  "sha256_out H = concat (map (be_bytes 4) H)"

definition sha256_length_field :: "nat \<Rightarrow> byte list" where
  "sha256_length_field m = be_bytes 8 (of_nat (8 * m) :: u64)"

text \<open>The SHA-256 of FIPS 180-4 on byte strings.\<close>

definition sha256_ref :: "byte list \<Rightarrow> byte list" where
  "sha256_ref msg = md_hash 64 compress256 sha256_initial_hash_value sha256_length_field sha256_out msg"

lemma sha256_digest_bytes_eq:
  assumes "length H = 8"
  shows "sha256_digest_bytes bo H = sha256_out H"
proof -
  have "map (\<lambda>j. be_bytes 4 (H ! j)) [0..<8] = map (be_bytes 4) (map ((!) H) [0..<8])" by simp
  also have "map ((!) H) [0..<8] = H" using map_nth [of H] assms by simp
  finally show ?thesis
    using host_bytes_net32 [of bo]
    by (simp only: sha256_digest_bytes_def sha256_out_def net32_def)
qed

lemma compress256_length [simp]: "length H = 8 \<Longrightarrow> length (compress256 H blk) = 8"
  by (simp add: compress256_def)

lemma md_pad_64:
  assumes "length lf = 8"
  shows "md_pad 64 m lf = 0x80 # replicate (if m mod 64 \<le> 55 then 55 - m mod 64 else 119 - m mod 64) 0 @ lf"
proof -
  have "(119 - u) mod 64 = (if u \<le> 55 then 55 - u else 119 - u)" if "u < 64" for u :: nat
  proof (cases "u \<le> 55")
    case True
    then have "119 - u = (55 - u) + 64" by simp
    then have "(119 - u) mod 64 = (55 - u) mod 64" by (simp only: mod_add_self2)
    then show ?thesis using True by simp
  qed simp
  then show ?thesis using assms by (simp add: md_pad_def)
qed

lemma sha256_last_blocks:
  assumes "length p = m mod 64"
  shows "fst (md_blocks 64 compress256 H (p @ md_pad 64 m (sha256_length_field m))) =
    (if m mod 64 \<le> 55 then compress256 H (p @ 0x80 # replicate (55 - m mod 64) 0 @ sha256_length_field m)
     else compress256 (compress256 H (p @ 0x80 # replicate (63 - m mod 64) 0))
            (replicate 56 0 @ sha256_length_field m))"
proof -
  let ?u = "m mod 64" and ?lf = "sha256_length_field m"
  have lf: "length ?lf = 8" by (simp add: sha256_length_field_def)
  show ?thesis
  proof (cases "?u \<le> 55")
    case True
    then show ?thesis using assms lf by (simp add: md_pad_64 md_blocks_one)
  next
    case False
    have "119 - ?u = (63 - ?u) + 56" using False mod_less_divisor [of 64 m] by linarith
    then have "replicate (119 - ?u) 0 = replicate (63 - ?u) 0 @ replicate 56 (0::byte)"
      by (simp only: replicate_add)
    then have eq: "p @ md_pad 64 m ?lf = (p @ 0x80 # replicate (63 - ?u) 0) @ (replicate 56 0 @ ?lf)"
      using False lf by (simp add: md_pad_64)
    have "md_blocks 64 compress256 H ((p @ 0x80 # replicate (63 - ?u) 0) @ (replicate 56 0 @ ?lf)) =
        md_blocks 64 compress256 (compress256 H (p @ 0x80 # replicate (63 - ?u) 0)) (replicate 56 0 @ ?lf)"
      by (rule md_blocks_block) (use False assms in simp_all)
    then show ?thesis
      using False lf by (simp only: eq) (simp add: md_blocks_one)
  qed
qed

lemma sha256_final_spec:
  assumes inv: "sha256_inv m c"
  shows "sha256_final_ctx bo c = sha256_out (fst (md_blocks 64 compress256 (fst (sha256_view c))
    (snd (sha256_view c) @ md_pad 64 m (sha256_length_field m))))"
proof -
  define u where "u = sha256_usedspace c"
  define p where "p = take u (buffer256 c)"
  define c0 where "c0 = c\<lparr>bitcount256 := net64 bo (bitcount256 c)\<rparr>"
  define c1 where "c1 = sha256_pad bo u c0"
  define c2 where "c2 = c1\<lparr>buffer256 := store_word bo 8 (buffer256 c1) 7 (bitcount256 c1)\<rparr>"
  have u: "u = m mod 64" "u < 64" using sha256_inv_used [OF inv] by (simp_all add: u_def)
  have wf: "sha256_wf c0" and bc: "bitcount256 c0 = net64 bo (of_nat (8 * m))"
    and c0: "state256 c0 = state256 c" "take u (buffer256 c0) = p"
    using inv by (simp_all add: c0_def p_def sha256_inv_def sha256_wf_def)
  note pad = sha256_pad_spec [OF wf u(2), of bo, folded c1_def, unfolded c0]
  have "buffer256 c2 = take 56 (buffer256 c1) @ sha256_length_field m"
    using pad(1,2) bc
    by (simp add: c2_def store_word_def mem_copy_fill sha256_wf_def host_bytes_net64 sha256_length_field_def)
  moreover have "sha256_wf c2" and "state256 c2 = state256 c1"
    using pad(1) length_store_word [of "buffer256 c1" 8 8 7] by (simp_all add: c2_def sha256_wf_def)
  ultimately have "state256 (SHA256_Transform bo c2 Ctx_buffer) =
      fst (md_blocks 64 compress256 (state256 c) (p @ md_pad 64 m (sha256_length_field m)))"
    using pad(3,4) SHA256_Transform_spec [of c2 Ctx_buffer bo] u inv
    by (cases "u \<le> 55") (simp_all add: sha256_last_blocks p_def sha256_wf_def sha256_inv_def)
  moreover have "length (state256 (SHA256_Transform bo c2 Ctx_buffer)) = 8"
    using SHA256_Transform_spec(2) [OF \<open>sha256_wf c2\<close>, of Ctx_buffer bo] \<open>sha256_wf c2\<close>
    by (simp add: sha256_wf_def)
  moreover have "sha256_final_ctx bo c = sha256_digest_bytes bo (state256 (SHA256_Transform bo c2 Ctx_buffer))"
    by (simp add: sha256_final_ctx_def c2_def c1_def c0_def u_def net64_def sha256_lengths Let_def)
  ultimately show ?thesis by (simp add: sha256_digest_bytes_eq sha256_view_def p_def u_def)
qed

definition sha256_feed :: "byte_order \<Rightarrow> SHA256_CTX option \<Rightarrow> byte list \<Rightarrow> c_fault + SHA256_CTX option" where
  "sha256_feed bo c d = SHA256_Update bo c (Some d) (of_nat (length d))"

interpretation sha256: md_digest 64 compress256 sha256_initial_hash_value
  "SHA256_Init (Some local)" "sha256_feed bo" "\<lambda>c. sha256_view (the c)"
  "\<lambda>m c. c \<noteq> None \<and> sha256_inv m (the c)" "\<lambda>d. length d < 2 ^ 64"
  "SHA256_Final bo True" sha256_length_field "\<lambda>H. Inr (Some (sha256_out H), Some sha256_zero)"
  for local :: SHA256_CTX and bo
proof unfold_locales
  show "SHA256_Init (Some local) \<noteq> None \<and> sha256_inv 0 (the (SHA256_Init (Some local)))"
    and "sha256_view (the (SHA256_Init (Some local))) = (sha256_initial_hash_value, [])"
    by (simp_all add: SHA256_Init_def sha256_init_ctx_def sha256_inv_def sha256_wf_def sha256_view_def
        sha256_usedspace_def sha256_initial_hash_value_def sha256_lengths)
next
  fix m :: nat and c :: "SHA256_CTX option" and d :: "byte list"
  assume inv: "c \<noteq> None \<and> sha256_inv m (the c)" and d: "length d < 2 ^ 64"
  then obtain x where x: "c = Some x" "sha256_inv m x" by auto
  have "sha256_feed bo c d = Inr (Some (sha256_update_ctx bo x d (of_nat (length d))))" if "d \<noteq> []"
    using that x d unat_of_nat_u64 [OF d] by (auto simp: sha256_feed_def SHA256_Update_def)
  moreover have "sha256_feed bo c d = Inr c \<and> snd (sha256_view x) = take (m mod 64) (buffer256 x)" if "d = []"
    using that x sha256_inv_used [OF x(2)] by (simp add: sha256_feed_def SHA256_Update_def sha256_view_def)
  ultimately show "\<exists>c'. sha256_feed bo c d = Inr c' \<and> (c' \<noteq> None \<and> sha256_inv (m + length d) (the c')) \<and>
      sha256_view (the c') = md_blocks 64 compress256 (fst (sha256_view (the c))) (snd (sha256_view (the c)) @ d)"
    using x sha256_update_spec [OF x(2) d, of bo]
    by (cases "d = []") (auto simp: md_blocks_short sha256_inv_def sha256_wf_def intro!: prod_eqI)
next
  fix m :: nat and c :: "SHA256_CTX option"
  assume "c \<noteq> None \<and> sha256_inv m (the c)"
  then show "SHA256_Final bo True c = Inr (Some (sha256_out (fst (md_blocks 64 compress256 (fst (sha256_view (the c)))
      (snd (sha256_view (the c)) @ md_pad 64 m (sha256_length_field m))))), Some sha256_zero)"
    by (auto simp: SHA256_Final_def sha256_final_spec)
qed simp


section \<open>Properties\<close>

lemma length_sha256_ref: "length (sha256_ref msg) = 32"
  using md_blocks_keeps [of "\<lambda>h. length h = 8" compress256 sha256_initial_hash_value 64]
  by (simp add: sha256_ref_def md_hash_def sha256_out_def length_concat_be sha256_initial_hash_value_def)

lemma SHA256_End_Final:
  "SHA256_Final bo True c = Inr (Some dg, c') \<Longrightarrow> SHA256_End bo True c = Inr (Some (hex_store dg), c')"
  by (auto simp: SHA256_End_def SHA256_Final_def split: option.splits)

text \<open>
  C1 (refinement): on a host of either byte order, initialising a context (whatever it held
  before), feeding it a message in chunks of any sizes and calling \<^verbatim>\<open>SHA256_End\<close> gives the
  hexadecimal SHA-256 of FIPS 180-4 of the concatenated chunks, without an assertion
  failing, and leaves the context wiped.
\<close>

theorem SHA256_stream_hash:
  assumes "list_all (\<lambda>d. length d < 2 ^ 64) ds"
  shows "\<exists>c. feed_all (sha256_feed bo) (SHA256_Init (Some local)) ds = Inr c \<and>
    SHA256_End bo True c = Inr (Some (hex_loop (sha256_ref (concat ds)), 64), Some sha256_zero)"
  using sha256.stream_hash [OF assms, of bo local] SHA256_End_Final
  length_sha256_ref [of "concat ds"]
  by (fastforce simp: sha256_ref_def md_hash_def hex_store_def)

theorem SHA256_stream_hash_witness:
  "\<exists>c. feed_all (sha256_feed BIG_ENDIAN) (SHA256_Init (Some sha256_zero)) [[0x61], [], [0x62, 0x63]] = Inr c \<and>
    SHA256_End BIG_ENDIAN True c = Inr (Some (hex_loop (sha256_ref [0x61, 0x62, 0x63]), 64), Some sha256_zero)"
  using SHA256_stream_hash [of "[[0x61], [], [0x62, 0x63]]" BIG_ENDIAN sha256_zero] by simp

text \<open>
  The one-shot \<^verbatim>\<open>SHA256_Data\<close> gives the digest that FIPS 180-4 lists for
  the message \<open>abc\<close>.
\<close>

theorem SHA256_Data_abc:
  "SHA256_Data LITTLE_ENDIAN sha256_zero (Some [0x61, 0x62, 0x63]) 3 True =
     Inr (Some (''ba7816bf8f01cfea414140de5dae2223b00361a396177a9cb410ff61f20015ad'', 64))"
  by code_simp

text \<open>
  The transform compiled with \<^verbatim>\<open>SHA2_UNROLL_TRANSFORM\<close> and the one with
  rolled loops leave the same context, for every context, data source and byte order.
\<close>

theorem SHA256_Transform_unrolled_same:
  "SHA256_Transform_unrolled bo context data = SHA256_Transform bo context data"
  by (rule SHA256_Transform_unrolled_eq)

text \<open>
  Transforming the context's own buffer, which the message schedule overwrites
  while it is read, gives the chaining value that a transform of a copy of the buffer
  gives, on a host of either byte order, and keeps the buffer at its 64 bytes.
\<close>

theorem SHA256_Transform_own_buffer:
  assumes "sha256_wf c"
  shows "state256 (SHA256_Transform bo c Ctx_buffer) =
      state256 (SHA256_Transform bo' c (Data (buffer256 c))) \<and>
    sha256_wf (SHA256_Transform bo c Ctx_buffer)"
  using assms SHA256_Transform_spec [OF assms] by (simp add: sha256_wf_def)

theorem SHA256_Transform_own_buffer_witness:
  "state256 (SHA256_Transform LITTLE_ENDIAN (sha256_init_ctx sha256_zero) Ctx_buffer) =
      state256 (SHA256_Transform BIG_ENDIAN (sha256_init_ctx sha256_zero) (Data (replicate 64 0))) \<and>
    sha256_wf (SHA256_Transform LITTLE_ENDIAN (sha256_init_ctx sha256_zero) Ctx_buffer)"
proof -
  have "sha256_wf (sha256_init_ctx sha256_zero)" and "buffer256 (sha256_init_ctx sha256_zero) = replicate 64 0"
    by (simp_all add: sha256_wf_def sha256_init_ctx_def sha256_initial_hash_value_def sha256_lengths)
  then show ?thesis using SHA256_Transform_own_buffer [of "sha256_init_ctx sha256_zero"] by metis
qed

end
