(* ===== verification/Sha512.thy ===== *)
theory Sha512
  imports Sha2_Core
begin

text \<open>
  SHA-512 and SHA-384 of \<^verbatim>\<open>generic/sha2.c\<close>. Both use the context \<^verbatim>\<open>SHA512_CTX\<close> with its
  128-bit bit count in two words; SHA-384 has its own initial value and keeps six of the
  eight words of the result. The structure follows the SHA-256 theory.
\<close>

section \<open>Constants, context, macros\<close>

definition SHA512_BLOCK_LENGTH :: nat where "SHA512_BLOCK_LENGTH = 128"
definition SHA512_DIGEST_LENGTH :: nat where "SHA512_DIGEST_LENGTH = 64"
definition SHA384_BLOCK_LENGTH :: nat where "SHA384_BLOCK_LENGTH = 128"
definition SHA384_DIGEST_LENGTH :: nat where "SHA384_DIGEST_LENGTH = 48"
definition SHA512_SHORT_BLOCK_LENGTH :: nat where
  "SHA512_SHORT_BLOCK_LENGTH = SHA512_BLOCK_LENGTH - 16"

lemmas sha512_lengths = SHA512_BLOCK_LENGTH_def SHA512_DIGEST_LENGTH_def SHA512_SHORT_BLOCK_LENGTH_def
  SHA384_BLOCK_LENGTH_def SHA384_DIGEST_LENGTH_def

text \<open>The two words of the bit count, least significant first.\<close>

record SHA512_CTX =
  state512 :: "u64 list"
  bitcount512 :: "u64 \<times> u64"
  buffer512 :: "byte list"

type_synonym SHA384_CTX = SHA512_CTX

fun ADDINC128 :: "u64 \<times> u64 \<Rightarrow> u64 \<Rightarrow> u64 \<times> u64" where
  "ADDINC128 (w0, w1) n = (let w0 = w0 + n in (w0, if w0 < n then w1 + 1 else w1))"

definition Sigma0_512 :: "u64 \<Rightarrow> u64" where
  "Sigma0_512 x = (S64 28 x XOR S64 34 x XOR S64 39 x)"

definition Sigma1_512 :: "u64 \<Rightarrow> u64" where
  "Sigma1_512 x = (S64 14 x XOR S64 18 x XOR S64 41 x)"

definition sigma0_512 :: "u64 \<Rightarrow> u64" where
  "sigma0_512 x = (S64 1 x XOR S64 8 x XOR R_shr 7 x)"

definition sigma1_512 :: "u64 \<Rightarrow> u64" where
  "sigma1_512 x = (S64 19 x XOR S64 61 x XOR R_shr 6 x)"

text \<open>The round constants, the hexadecimal table of \<^verbatim>\<open>sha2.c\<close> written in decimal.\<close>

definition K512 :: "u64 list" where
  "K512 =
    [4794697086780616226, 8158064640168781261, 13096744586834688815, 16840607885511220156,
     4131703408338449720, 6480981068601479193, 10538285296894168987, 12329834152419229976,
     15566598209576043074, 1334009975649890238, 2608012711638119052, 6128411473006802146,
     8268148722764581231, 9286055187155687089, 11230858885718282805, 13951009754708518548,
     16472876342353939154, 17275323862435702243, 1135362057144423861, 2597628984639134821,
     3308224258029322869, 5365058923640841347, 6679025012923562964, 8573033837759648693,
     10970295158949994411, 12119686244451234320, 12683024718118986047, 13788192230050041572,
     14330467153632333762, 15395433587784984357, 489312712824947311, 1452737877330783856,
     2861767655752347644, 3322285676063803686, 5560940570517711597, 5996557281743188959,
     7280758554555802590, 8532644243296465576, 9350256976987008742, 10552545826968843579,
     11727347734174303076, 12113106623233404929, 14000437183269869457, 14369950271660146224,
     15101387698204529176, 15463397548674623760, 17586052441742319658, 1182934255886127544,
     1847814050463011016, 2177327727835720531, 2830643537854262169, 3796741975233480872,
     4115178125766777443, 5681478168544905931, 6601373596472566643, 7507060721942968483,
     8399075790359081724, 8693463985226723168, 9568029438360202098, 10144078919501101548,
     10430055236837252648, 11840083180663258601, 13761210420658862357, 14299343276471374635,
     14566680578165727644, 15097957966210449927, 16922976911328602910, 17689382322260857208,
     500013540394364858, 748580250866718886, 1242879168328830382, 1977374033974150939,
     2944078676154940804, 3659926193048069267, 4368137639120453308, 4836135668995329356,
     5532061633213252278, 6448918945643986474, 6902733635092675308, 7801388544844847127]"

definition sha384_initial_hash_value :: "u64 list" where
  "sha384_initial_hash_value =
    [0xcbbb9d5dc1059ed8, 0x629a292a367cd507, 0x9159015a3070dd17,
     0x152fecd8f70e5939, 0x67332667ffc00b31, 0x8eb44a8768581511,
     0xdb0c2e0d64f98fa7, 0x47b5481dbefa4fa4]"

definition sha512_initial_hash_value :: "u64 list" where
  "sha512_initial_hash_value =
    [0x6a09e667f3bcc908, 0xbb67ae8584caa73b, 0x3c6ef372fe94f82b,
     0xa54ff53a5f1d36f1, 0x510e527fade682d1, 0x9b05688c2b3e6c1f,
     0x1f83d9abfb41bd6b, 0x5be0cd19137e2179]"

section \<open>Initialisation\<close>

definition sha512_init_ctx :: "SHA512_CTX \<Rightarrow> SHA512_CTX" where
  "sha512_init_ctx c = c\<lparr>state512 := sha512_initial_hash_value,
     buffer512 := replicate SHA512_BLOCK_LENGTH 0, bitcount512 := (0, 0)\<rparr>"

definition SHA512_Init :: "SHA512_CTX option \<Rightarrow> SHA512_CTX option" where
  "SHA512_Init context = (case context of None \<Rightarrow> None | Some c \<Rightarrow> Some (sha512_init_ctx c))"

definition sha384_init_ctx :: "SHA384_CTX \<Rightarrow> SHA384_CTX" where
  "sha384_init_ctx c = c\<lparr>state512 := sha384_initial_hash_value,
     buffer512 := replicate SHA384_BLOCK_LENGTH 0, bitcount512 := (0, 0)\<rparr>"

definition SHA384_Init :: "SHA384_CTX option \<Rightarrow> SHA384_CTX option" where
  "SHA384_Init context = (case context of None \<Rightarrow> None | Some c \<Rightarrow> Some (sha384_init_ctx c))"

section \<open>The transform, rolled loops\<close>

text \<open>The word written to \<^verbatim>\<open>W512[j]\<close> in the first loop: \<^verbatim>\<open>*data++\<close>, reversed on a little-endian host.\<close>

definition sha512_fetch :: "byte_order \<Rightarrow> data_src \<Rightarrow> byte list \<Rightarrow> nat \<Rightarrow> u64" where
  "sha512_fetch bo data W j =
     (if bo = LITTLE_ENDIAN then REVERSE64 (load_word bo 8 (data_mem data W) j)
      else load_word bo 8 (data_mem data W) j)"

fun SHA512_round_0_15 :: "byte_order \<Rightarrow> data_src \<Rightarrow> nat \<Rightarrow> u64 regs \<times> byte list \<Rightarrow> u64 regs \<times> byte list" where
  "SHA512_round_0_15 bo data j (Regs a b c d e f g h, W) =
     (let W = store_word bo 8 W j (sha512_fetch bo data W j);
          T1 = h + Sigma1_512 e + Ch e f g + K512 ! j + load_word bo 8 W j;
          T2 = Sigma0_512 a + Maj a b c
      in (Regs (T1 + T2) a b c (d + T1) e f g, W))"

fun SHA512_round_16_79 :: "byte_order \<Rightarrow> nat \<Rightarrow> u64 regs \<times> byte list \<Rightarrow> u64 regs \<times> byte list" where
  "SHA512_round_16_79 bo j (Regs a b c d e f g h, W) =
     (let s0 = load_word bo 8 W ((j + 1) AND 0x0f);
          s0 = sigma0_512 s0;
          s1 = load_word bo 8 W ((j + 14) AND 0x0f);
          s1 = sigma1_512 s1;
          W = store_word bo 8 W (j AND 0x0f)
                (load_word bo 8 W (j AND 0x0f) + (s1 + load_word bo 8 W ((j + 9) AND 0x0f) + s0));
          T1 = h + Sigma1_512 e + Ch e f g + K512 ! j + load_word bo 8 W (j AND 0x0f);
          T2 = Sigma0_512 a + Maj a b c
      in (Regs (T1 + T2) a b c (d + T1) e f g, W))"

definition sha512_add_state :: "SHA512_CTX \<Rightarrow> u64 regs \<times> byte list \<Rightarrow> SHA512_CTX" where
  "sha512_add_state context rW =
     context\<lparr>state512 := map2 (+) (state512 context) (regs_list (fst rW)), buffer512 := snd rW\<rparr>"

definition SHA512_Transform :: "byte_order \<Rightarrow> SHA512_CTX \<Rightarrow> data_src \<Rightarrow> SHA512_CTX" where
  "SHA512_Transform bo context data =
     sha512_add_state context
       (fold (SHA512_round_16_79 bo) [16..<80]
         (fold (SHA512_round_0_15 bo data) [0..<16]
           (regs_of (state512 context), buffer512 context)))"

section \<open>The transform, unrolled rounds\<close>

text \<open>
  The round macros assign to their arguments \<open>d\<close> and \<open>h\<close>, to \<^verbatim>\<open>W512\<close> and to \<open>j\<close>: a macro
  is a function that returns these four. The unrolled code rotates the roles of the
  eight variables by rotating the arguments.
\<close>

definition ROUND512_0_TO_15 ::
  "byte_order \<Rightarrow> data_src \<Rightarrow> u64 \<Rightarrow> u64 \<Rightarrow> u64 \<Rightarrow> u64 \<Rightarrow> u64 \<Rightarrow> u64 \<Rightarrow> u64 \<Rightarrow> u64 \<Rightarrow>
   byte list \<Rightarrow> nat \<Rightarrow> u64 \<times> u64 \<times> byte list \<times> nat" where
  "ROUND512_0_TO_15 bo data a b c d e f g h W j =
     (let W = store_word bo 8 W j (sha512_fetch bo data W j);
          T1 = h + Sigma1_512 e + Ch e f g + K512 ! j + load_word bo 8 W j
      in (d + T1, T1 + Sigma0_512 a + Maj a b c, W, j + 1))"

definition ROUND512 ::
  "byte_order \<Rightarrow> u64 \<Rightarrow> u64 \<Rightarrow> u64 \<Rightarrow> u64 \<Rightarrow> u64 \<Rightarrow> u64 \<Rightarrow> u64 \<Rightarrow> u64 \<Rightarrow>
   byte list \<Rightarrow> nat \<Rightarrow> u64 \<times> u64 \<times> byte list \<times> nat" where
  "ROUND512 bo a b c d e f g h W j =
     (let s0 = load_word bo 8 W ((j + 1) AND 0x0f);
          s0 = sigma0_512 s0;
          s1 = load_word bo 8 W ((j + 14) AND 0x0f);
          s1 = sigma1_512 s1;
          W = store_word bo 8 W (j AND 0x0f)
                (load_word bo 8 W (j AND 0x0f) + (s1 + load_word bo 8 W ((j + 9) AND 0x0f) + s0));
          T1 = h + Sigma1_512 e + Ch e f g + K512 ! j + load_word bo 8 W (j AND 0x0f)
      in (d + T1, T1 + Sigma0_512 a + Maj a b c, W, j + 1))"

text \<open>The \<^verbatim>\<open>do \<dots> while (j < lim)\<close> loops; \<open>j\<close> advances by eight each time round.\<close>

definition SHA512_unrolled_16 :: "byte_order \<Rightarrow> data_src \<Rightarrow> u64 regs \<times> byte list \<times> nat \<Rightarrow> u64 regs \<times> byte list \<times> nat" where
  "SHA512_unrolled_16 bo data = rounds8 (ROUND512_0_TO_15 bo data)"

definition SHA512_unrolled_80 :: "byte_order \<Rightarrow> u64 regs \<times> byte list \<times> nat \<Rightarrow> u64 regs \<times> byte list \<times> nat" where
  "SHA512_unrolled_80 bo = rounds8 (ROUND512 bo)"

lemma ROUND512_count [simp]:
  "snd (snd (snd (ROUND512_0_TO_15 bo data a b c d e f g h W j))) = Suc j"
  "snd (snd (snd (ROUND512 bo a b c d e f g h W j))) = Suc j"
  by (simp_all add: ROUND512_0_TO_15_def ROUND512_def Let_def)

lemma ROUND512_rolled:
  "SHA512_round_0_15 bo data j (Regs a b c d e f g h, W) =
     (case ROUND512_0_TO_15 bo data a b c d e f g h W j of (d', h', W', _) \<Rightarrow> (Regs h' a b c d' e f g, W'))"
  "SHA512_round_16_79 bo j (Regs a b c d e f g h, W) =
     (case ROUND512 bo a b c d e f g h W j of (d', h', W', _) \<Rightarrow> (Regs h' a b c d' e f g, W'))"
  by (simp_all add: ROUND512_0_TO_15_def ROUND512_def Let_def add.assoc)

lemma SHA512_unrolled_fold:
  "SHA512_unrolled_16 bo data (r, W, j) =
     (case fold (SHA512_round_0_15 bo data) [j..<j + 8] (r, W) of (r', W') \<Rightarrow> (r', W', j + 8))"
  "SHA512_unrolled_80 bo (r, W, j) =
     (case fold (SHA512_round_16_79 bo) [j..<j + 8] (r, W) of (r', W') \<Rightarrow> (r', W', j + 8))"
  unfolding SHA512_unrolled_16_def SHA512_unrolled_80_def
  by (rule rounds8_fold, rule ROUND512_rolled, rule ROUND512_count)+

lemma SHA512_unrolled_count:
  "snd (snd (SHA512_unrolled_16 bo data s)) = snd (snd s) + 8"
  "snd (snd (SHA512_unrolled_80 bo s)) = snd (snd s) + 8"
  by (cases s, simp add: SHA512_unrolled_fold split_def)+

function SHA512_loop_16 :: "byte_order \<Rightarrow> data_src \<Rightarrow> u64 regs \<times> byte list \<times> nat \<Rightarrow> u64 regs \<times> byte list \<times> nat" where
  "SHA512_loop_16 bo data s =
     (let s = SHA512_unrolled_16 bo data s in if snd (snd s) < 16 then SHA512_loop_16 bo data s else s)"
  by pat_completeness auto
termination
  by (relation "measure (\<lambda>(bo, data, s). 16 - snd (snd s))") (auto simp: SHA512_unrolled_count)

function SHA512_loop_80 :: "byte_order \<Rightarrow> u64 regs \<times> byte list \<times> nat \<Rightarrow> u64 regs \<times> byte list \<times> nat" where
  "SHA512_loop_80 bo s =
     (let s = SHA512_unrolled_80 bo s in if snd (snd s) < 80 then SHA512_loop_80 bo s else s)"
  by pat_completeness auto
termination
  by (relation "measure (\<lambda>(bo, s). 80 - snd (snd s))") (auto simp: SHA512_unrolled_count)

declare SHA512_loop_16.simps [simp del] SHA512_loop_80.simps [simp del]

definition SHA512_Transform_unrolled :: "byte_order \<Rightarrow> SHA512_CTX \<Rightarrow> data_src \<Rightarrow> SHA512_CTX" where
  "SHA512_Transform_unrolled bo context data =
     (case SHA512_loop_80 bo (SHA512_loop_16 bo data (regs_of (state512 context), buffer512 context, 0)) of
        (r, W, j) \<Rightarrow> sha512_add_state context (r, W))"

lemma SHA512_Transform_unrolled_eq:
  "SHA512_Transform_unrolled bo context data = SHA512_Transform bo context data"
proof -
  obtain r W where s: "fold (SHA512_round_0_15 bo data) [0..<16] (regs_of (state512 context), buffer512 context) = (r, W)"
    by fastforce
  have "SHA512_loop_16 bo data (regs_of (state512 context), buffer512 context, 0) = (r, W, 16)"
    using do_loop8 [OF SHA512_loop_16.simps SHA512_unrolled_fold(1), of 0 1] s by simp
  moreover have "SHA512_loop_80 bo (r, W, 16) =
      (case fold (SHA512_round_16_79 bo) [16..<80] (r, W) of (r', W') \<Rightarrow> (r', W', 80))"
    using do_loop8 [OF SHA512_loop_80.simps SHA512_unrolled_fold(2), of 16 7] by simp
  ultimately show ?thesis
    by (simp add: SHA512_Transform_unrolled_def SHA512_Transform_def s split_def)
qed
section \<open>Update\<close>

definition sha512_usedspace :: "SHA512_CTX \<Rightarrow> nat" where
  "sha512_usedspace context = unat (drop_bit 3 (fst (bitcount512 context))) mod SHA512_BLOCK_LENGTH"

text \<open>The loop over the complete blocks of the input.\<close>

function sha512_whole_blocks ::
  "byte_order \<Rightarrow> SHA512_CTX \<Rightarrow> byte list \<Rightarrow> u64 \<Rightarrow> SHA512_CTX \<times> byte list \<times> u64" where
  "sha512_whole_blocks bo context data len =
     (if of_nat SHA512_BLOCK_LENGTH \<le> len then
        let context = SHA512_Transform bo context (Data (take SHA512_BLOCK_LENGTH data));
            context = context\<lparr>bitcount512 := ADDINC128 (bitcount512 context) (push_bit 3 (of_nat SHA512_BLOCK_LENGTH))\<rparr>
        in sha512_whole_blocks bo context (drop SHA512_BLOCK_LENGTH data) (len - of_nat SHA512_BLOCK_LENGTH)
      else (context, data, len))"
  by pat_completeness auto
termination
  by (relation "measure (\<lambda>(bo, context, data, len). unat len)")
    (auto simp: sha512_lengths unat_sub word_le_nat_alt)

declare sha512_whole_blocks.simps [simp del]

text \<open>
  The first part of the update: fill a partly used buffer. \<open>Inl\<close> is the early return of
  the branch where the buffer does not get full.
\<close>

definition sha512_fill_buffer ::
  "byte_order \<Rightarrow> SHA512_CTX \<Rightarrow> byte list \<Rightarrow> u64 \<Rightarrow> SHA512_CTX + SHA512_CTX \<times> byte list \<times> u64" where
  "sha512_fill_buffer bo context data len =
     (let usedspace = sha512_usedspace context in
      if usedspace > 0 then
        let freespace = SHA512_BLOCK_LENGTH - usedspace in
        if of_nat freespace \<le> len then
          let context = context\<lparr>buffer512 := mem_copy (buffer512 context) usedspace (take freespace data)\<rparr>;
              context = context\<lparr>bitcount512 := ADDINC128 (bitcount512 context) (push_bit 3 (of_nat freespace))\<rparr>
          in Inr (SHA512_Transform bo context Ctx_buffer, drop freespace data, len - of_nat freespace)
        else
          Inl (context\<lparr>buffer512 := mem_copy (buffer512 context) usedspace (take (unat len) data),
                 bitcount512 := ADDINC128 (bitcount512 context) (push_bit 3 len)\<rparr>)
      else Inr (context, data, len))"

text \<open>The left-overs after the last whole block.\<close>

definition sha512_keep_rest :: "SHA512_CTX \<times> byte list \<times> u64 \<Rightarrow> SHA512_CTX" where
  "sha512_keep_rest s = (case s of (context, data, len) \<Rightarrow>
     if len > 0 then
       context\<lparr>buffer512 := mem_copy (buffer512 context) 0 (take (unat len) data),
         bitcount512 := ADDINC128 (bitcount512 context) (push_bit 3 len)\<rparr>
     else context)"

definition sha512_update_ctx :: "byte_order \<Rightarrow> SHA512_CTX \<Rightarrow> byte list \<Rightarrow> u64 \<Rightarrow> SHA512_CTX" where
  "sha512_update_ctx bo context data len =
     (case sha512_fill_buffer bo context data len of
        Inl context \<Rightarrow> context
      | Inr (context, data, len) \<Rightarrow> sha512_keep_rest (sha512_whole_blocks bo context data len))"

text \<open>
  The entry point: nothing to do for an empty input, an assertion against null
  pointers, and the caller's promise that \<open>data\<close> has \<open>len\<close> bytes.
\<close>

definition SHA512_Update ::
  "byte_order \<Rightarrow> SHA512_CTX option \<Rightarrow> byte list option \<Rightarrow> u64 \<Rightarrow> c_fault + SHA512_CTX option" where
  "SHA512_Update bo context data len =
     (if len = 0 then Inr context
      else case (context, data) of
        (Some c, Some d) \<Rightarrow>
          if length d < unat len then Inl Overrun else Inr (Some (sha512_update_ctx bo c d len))
      | _ \<Rightarrow> Inl Assertion_failed)"

definition SHA384_Update ::
  "byte_order \<Rightarrow> SHA384_CTX option \<Rightarrow> byte list option \<Rightarrow> u64 \<Rightarrow> c_fault + SHA384_CTX option" where
  "SHA384_Update bo context data len = SHA512_Update bo context data len"

section \<open>Last, Final, End, Data\<close>

definition sha512_zero :: SHA512_CTX where
  "sha512_zero = \<lparr>state512 = replicate 8 0, bitcount512 = (0, 0), buffer512 = replicate SHA512_BLOCK_LENGTH 0\<rparr>"

text \<open>
  Padding up to the length field. After a second-to-last transform the code clears
  \<^verbatim>\<open>SHA512_BLOCK_LENGTH - 2\<close> bytes, more than the 112 in front of the length field; the
  length field is written over the rest.
\<close>

definition sha512_pad :: "byte_order \<Rightarrow> nat \<Rightarrow> SHA512_CTX \<Rightarrow> SHA512_CTX" where
  "sha512_pad bo usedspace context =
     (if usedspace > 0 then
        let context = context\<lparr>buffer512 := (buffer512 context)[usedspace := 0x80]\<rparr>;
            usedspace = usedspace + 1
        in if usedspace \<le> SHA512_SHORT_BLOCK_LENGTH then
             context\<lparr>buffer512 := mem_copy (buffer512 context) usedspace
                       (replicate (SHA512_SHORT_BLOCK_LENGTH - usedspace) 0)\<rparr>
           else
             let context = (if usedspace < SHA512_BLOCK_LENGTH then
                     context\<lparr>buffer512 := mem_copy (buffer512 context) usedspace
                               (replicate (SHA512_BLOCK_LENGTH - usedspace) 0)\<rparr>
                   else context);
                 context = SHA512_Transform bo context Ctx_buffer
             in context\<lparr>buffer512 := mem_copy (buffer512 context) 0 (replicate (SHA512_BLOCK_LENGTH - 2) 0)\<rparr>
      else
        let context = context\<lparr>buffer512 := mem_copy (buffer512 context) 0 (replicate SHA512_SHORT_BLOCK_LENGTH 0)\<rparr>
        in context\<lparr>buffer512 := (buffer512 context)[0 := 0x80]\<rparr>)"

definition SHA512_Last :: "byte_order \<Rightarrow> SHA512_CTX \<Rightarrow> SHA512_CTX" where
  "SHA512_Last bo context =
     (let usedspace = sha512_usedspace context;
          context = (if bo = LITTLE_ENDIAN
                     then context\<lparr>bitcount512 := map_prod REVERSE64 REVERSE64 (bitcount512 context)\<rparr>
                     else context);
          context = sha512_pad bo usedspace context;
          context = context\<lparr>buffer512 :=
            store_word bo 8 (buffer512 context) (SHA512_SHORT_BLOCK_LENGTH div 8) (snd (bitcount512 context))\<rparr>;
          context = context\<lparr>buffer512 :=
            store_word bo 8 (buffer512 context) ((SHA512_SHORT_BLOCK_LENGTH + 8) div 8) (fst (bitcount512 context))\<rparr>
      in SHA512_Transform bo context Ctx_buffer)"

text \<open>The first \<open>n\<close> state words as digest bytes.\<close>

definition sha512_digest_bytes :: "byte_order \<Rightarrow> nat \<Rightarrow> u64 list \<Rightarrow> byte list" where
  "sha512_digest_bytes bo n st =
     concat (map (\<lambda>j. host_bytes bo 8 (if bo = LITTLE_ENDIAN then REVERSE64 (st ! j) else st ! j)) [0..<n])"

definition SHA512_Final ::
  "byte_order \<Rightarrow> bool \<Rightarrow> SHA512_CTX option \<Rightarrow> c_fault + byte list option \<times> SHA512_CTX option" where
  "SHA512_Final bo want context =
     (case context of
        None \<Rightarrow> Inl Assertion_failed
      | Some c \<Rightarrow>
          Inr (if want then Some (sha512_digest_bytes bo 8 (state512 (SHA512_Last bo c))) else None, Some sha512_zero))"

definition SHA512_End ::
  "byte_order \<Rightarrow> bool \<Rightarrow> SHA512_CTX option \<Rightarrow> c_fault + (string \<times> nat) option \<times> SHA512_CTX option" where
  "SHA512_End bo want context =
     (case context of
        None \<Rightarrow> Inl Assertion_failed
      | Some c \<Rightarrow>
          if want then
            (case SHA512_Final bo True context of
               Inl e \<Rightarrow> Inl e
             | Inr (digest, context) \<Rightarrow> Inr (map_option hex_store digest, context))
          else Inr (None, Some sha512_zero))"

text \<open>\<open>local\<close> is the uninitialised context on the stack of \<^verbatim>\<open>SHA512_Data\<close>.\<close>

definition SHA512_Data ::
  "byte_order \<Rightarrow> SHA512_CTX \<Rightarrow> byte list option \<Rightarrow> u64 \<Rightarrow> bool \<Rightarrow> c_fault + (string \<times> nat) option" where
  "SHA512_Data bo local data len want =
     (case SHA512_Update bo (SHA512_Init (Some local)) data len of
        Inl e \<Rightarrow> Inl e
      | Inr context \<Rightarrow> map_sum id fst (SHA512_End bo want context))"

definition SHA384_Final ::
  "byte_order \<Rightarrow> bool \<Rightarrow> SHA384_CTX option \<Rightarrow> c_fault + byte list option \<times> SHA384_CTX option" where
  "SHA384_Final bo want context =
     (case context of
        None \<Rightarrow> Inl Assertion_failed
      | Some c \<Rightarrow>
          Inr (if want then Some (sha512_digest_bytes bo 6 (state512 (SHA512_Last bo c))) else None, Some sha512_zero))"

definition SHA384_End ::
  "byte_order \<Rightarrow> bool \<Rightarrow> SHA384_CTX option \<Rightarrow> c_fault + (string \<times> nat) option \<times> SHA384_CTX option" where
  "SHA384_End bo want context =
     (case context of
        None \<Rightarrow> Inl Assertion_failed
      | Some c \<Rightarrow>
          if want then
            (case SHA384_Final bo True context of
               Inl e \<Rightarrow> Inl e
             | Inr (digest, context) \<Rightarrow> Inr (map_option hex_store digest, context))
          else Inr (None, Some sha512_zero))"

definition SHA384_Data ::
  "byte_order \<Rightarrow> SHA384_CTX \<Rightarrow> byte list option \<Rightarrow> u64 \<Rightarrow> bool \<Rightarrow> c_fault + (string \<times> nat) option" where
  "SHA384_Data bo local data len want =
     (case SHA384_Update bo (SHA384_Init (Some local)) data len of
        Inl e \<Rightarrow> Inl e
      | Inr context \<Rightarrow> map_sum id fst (SHA384_End bo want context))"

section \<open>The transform computes the reference compression\<close>

definition block_word64 :: "byte list \<Rightarrow> nat \<Rightarrow> u64" where
  "block_word64 blk j = be_word (take 8 (drop (8 * j) blk))"

definition compress512 :: "u64 list \<Rightarrow> byte list \<Rightarrow> u64 list" where
  "compress512 H blk = sha2_compress 80 K512 Sigma0_512 Sigma1_512 sigma0_512 sigma1_512 (block_word64 blk) H"

definition sha512_wf :: "SHA512_CTX \<Rightarrow> bool" where
  "sha512_wf c \<longleftrightarrow> length (state512 c) = 8 \<and> length (buffer512 c) = 128"

lemma sha512_fetch_word:
  assumes "length (data_mem data W) = 128" "j < 16"
  shows "sha512_fetch bo data W j = block_word64 (data_mem data W) j"
proof -
  have "length (take 8 (drop (8 * j) (data_mem data W))) = 8" using assms by simp
  then have "net64 bo (load_word bo 8 (data_mem data W) j) = block_word64 (data_mem data W) j"
    unfolding load_word_def block_word64_def by (rule net64_host_word)
  then show ?thesis by (simp add: sha512_fetch_def net64_def split: if_splits)
qed

interpretation t512: sha2_loops "load_word bo 8 :: byte list \<Rightarrow> nat \<Rightarrow> u64" "store_word bo 8"
  "\<lambda>b. length b = 128" "sha512_fetch bo data" K512 Sigma0_512 Sigma1_512 sigma0_512 sigma1_512
  "SHA512_round_0_15 bo data" "SHA512_round_16_79 bo" for bo data
proof unfold_locales
  fix b :: "byte list" and i j :: nat and w :: u64
  assume "length b = 128" "i < j" "j < 16"
  then show "sha512_fetch bo data (store_word bo 8 b i w) j = sha512_fetch bo data b j"
    by (cases data) (simp_all add: sha512_fetch_def buf64.get_put)
next
  fix b :: "byte list" and j :: nat and r :: "u64 regs"
  assume "length b = 128" "j < 16"
  then show "SHA512_round_0_15 bo data j (r, b) =
    (sha2_step Sigma0_512 Sigma1_512 (K512 ! j) (sha512_fetch bo data b j) r,
     store_word bo 8 b j (sha512_fetch bo data b j))"
    by (cases r) (simp add: Let_def buf64.get_put)
next
  fix b :: "byte list" and j :: nat and r :: "u64 regs"
  assume "length b = 128"
  then show "SHA512_round_16_79 bo j (r, b) =
    (let w = load_word bo 8 b (j mod 16) +
        (sigma1_512 (load_word bo 8 b ((j + 14) mod 16)) + load_word bo 8 b ((j + 9) mod 16) +
         sigma0_512 (load_word bo 8 b ((j + 1) mod 16)))
     in (sha2_step Sigma0_512 Sigma1_512 (K512 ! j) w r, store_word bo 8 b (j mod 16) w))"
    by (cases r) (simp add: Let_def buf64.get_put and_15_mod)
qed

lemma SHA512_Transform_spec:
  assumes "sha512_wf c" "length (data_mem data (buffer512 c)) = 128"
  shows "state512 (SHA512_Transform bo c data) = compress512 (state512 c) (data_mem data (buffer512 c))"
    and "sha512_wf (SHA512_Transform bo c data)"
    and "bitcount512 (SHA512_Transform bo c data) = bitcount512 c"
proof -
  let ?st = "fold (SHA512_round_16_79 bo) [16..<80]
         (fold (SHA512_round_0_15 bo data) [0..<16] (regs_of (state512 c), buffer512 c))"
  have "fst ?st = sha2_rounds 80 K512 Sigma0_512 Sigma1_512
      (sha2_W sigma0_512 sigma1_512 (sha512_fetch bo data (buffer512 c))) (regs_of (state512 c))"
    and len: "length (snd ?st) = 128"
    using t512.loops [of "buffer512 c" 80 bo data "regs_of (state512 c)"] assms(1)
    by (simp_all add: sha512_wf_def)
  moreover have "sha2_W sigma0_512 sigma1_512 (sha512_fetch bo data (buffer512 c)) =
      sha2_W sigma0_512 sigma1_512 (block_word64 (data_mem data (buffer512 c)))"
    using sha512_fetch_word [OF assms(2)] by (intro ext sha2_W_cong) simp
  ultimately show st: "state512 (SHA512_Transform bo c data) =
      compress512 (state512 c) (data_mem data (buffer512 c))"
    by (simp add: SHA512_Transform_def sha512_add_state_def compress512_def sha2_compress_def)
  show "sha512_wf (SHA512_Transform bo c data)"
    using assms(1) len by (simp add: sha512_wf_def SHA512_Transform_def sha512_add_state_def)
  show "bitcount512 (SHA512_Transform bo c data) = bitcount512 c"
    by (simp add: SHA512_Transform_def sha512_add_state_def)
qed

section \<open>The 128-bit bit count\<close>

text \<open>The value of the two words of the bit count.\<close>

abbreviation count128 :: "u64 \<times> u64 \<Rightarrow> 128 word" where
  "count128 p \<equiv> dword p"

lemma count128_ADDINC128: "count128 (ADDINC128 p n) = count128 p + of_nat (unat n)"
  using dword_low_add [where 'a = 64 and 'b = 128] by (cases p) (simp add: Let_def)

lemmas be_bytes_count128 = be_bytes_dword [where n = 8 and 'a = 64 and 'b = 128, simplified]
lemmas fst_count128 = fst_dword [where 'a = 64 and 'b = 128, simplified]

lemma count128_ADDINC128_bytes:
  "k < 2 ^ 61 \<Longrightarrow> count128 (ADDINC128 p (push_bit 3 (of_nat k))) = count128 p + of_nat (8 * k)"
  by (simp only: count128_ADDINC128 push_bit_3_of_nat, subst unat_of_nat_u64) simp_all

declare ADDINC128.simps [simp del]

section \<open>Streaming\<close>

definition sha512_inv :: "nat \<Rightarrow> SHA512_CTX \<Rightarrow> bool" where
  "sha512_inv m c \<longleftrightarrow> sha512_wf c \<and> count128 (bitcount512 c) = of_nat (8 * m)"

definition sha512_view :: "SHA512_CTX \<Rightarrow> u64 list \<times> byte list" where
  "sha512_view c = (state512 c, take (sha512_usedspace c) (buffer512 c))"

lemma sha512_inv_used: "sha512_inv m c \<Longrightarrow> sha512_usedspace c = m mod 128"
  using fst_count128 [of "bitcount512 c" "8 * m"]
  by (simp only: sha512_inv_def sha512_usedspace_def unat_bits_to_bytes SHA512_BLOCK_LENGTH_def mod_2p61_mod)

text \<open>The chaining value and the buffer, without the bit count.\<close>

definition sha512_proj :: "SHA512_CTX \<Rightarrow> u64 list \<times> byte list" where
  "sha512_proj c = (state512 c, buffer512 c)"

definition sha512_tr :: "byte_order \<Rightarrow> u64 list \<times> byte list \<Rightarrow> data_src \<Rightarrow> u64 list \<times> byte list" where
  "sha512_tr bo s data = sha512_proj (SHA512_Transform bo \<lparr>state512 = fst s, bitcount512 = (0, 0), buffer512 = snd s\<rparr> data)"

lemma sha512_proj_Transform:
  "sha512_proj (SHA512_Transform bo c data) = sha512_tr bo (sha512_proj c) data"
  by (simp add: sha512_tr_def sha512_proj_def SHA512_Transform_def sha512_add_state_def)

interpretation b512: block_transform 128 compress512 "sha512_tr bo" "\<lambda>h. length h = 8" for bo
proof unfold_locales
  fix s :: "u64 list \<times> byte list" and p
  assume "length (fst s) = 8" "length (snd s) = 128" "length (data_mem p (snd s)) = 128"
  then show "fst (sha512_tr bo s p) = compress512 (fst s) (data_mem p (snd s))"
    and "length (fst (sha512_tr bo s p)) = 8 \<and> length (snd (sha512_tr bo s p)) = 128"
    using SHA512_Transform_spec [of "\<lparr>state512 = fst s, bitcount512 = (0, 0), buffer512 = snd s\<rparr>" p bo]
    by (simp_all add: sha512_tr_def sha512_proj_def sha512_wf_def)
qed simp

text \<open>The update is the generic buffering of input, and counts the bits of the input.\<close>

lemma sha512_whole_blocks_refines:
  assumes "length d = unat len" "sha512_whole_blocks bo c d len = (c', d', len')"
  shows "(state512 c', mem_copy (buffer512 c') 0 d') = blk_whole 128 (sha512_tr bo) (sha512_proj c) d \<and>
    length d' = unat len' \<and> length d' < 128 \<and>
    count128 (bitcount512 c') + of_nat (8 * length d') = count128 (bitcount512 c) + of_nat (8 * length d)"
  using assms
proof (induction bo c d len rule: sha512_whole_blocks.induct)
  case (1 bo c d len)
  show ?case
  proof (cases "128 \<le> len")
    case False
    then have "unat len < 128" by (simp add: word_le_nat_alt)
    then show ?thesis
      using False 1(2,3)
      by (auto simp: sha512_whole_blocks.simps [of bo c d len] blk_whole_short sha512_lengths sha512_proj_def)
  next
    case True
    then have ge: "128 \<le> length d" using 1(2) by (simp add: word_le_nat_alt)
    let ?c = "SHA512_Transform bo c (Data (take 128 d))"
    let ?c2 = "?c\<lparr>bitcount512 := ADDINC128 (bitcount512 ?c) (push_bit 3 128)\<rparr>"
    have eq: "sha512_whole_blocks bo ?c2 (drop 128 d) (len - 128) = (c', d', len')"
      using 1(3) True by (simp add: sha512_whole_blocks.simps [of bo c d len] sha512_lengths Let_def)
    have "length (drop 128 d) = unat (len - 128)" using 1(2) True by (simp add: unat_sub)
    then have ih: "(state512 c', mem_copy (buffer512 c') 0 d') = blk_whole 128 (sha512_tr bo) (sha512_proj ?c2) (drop 128 d) \<and>
        length d' = unat len' \<and> length d' < 128 \<and>
        count128 (bitcount512 c') + of_nat (8 * length d') = count128 (bitcount512 ?c2) + of_nat (8 * length (drop 128 d))"
      using 1(1) [OF _ refl refl] True eq by (auto simp: sha512_lengths)
    have "sha512_proj ?c2 = sha512_tr bo (sha512_proj c) (Data (take 128 d))"
      using sha512_proj_Transform [of bo c] by (simp add: sha512_proj_def)
    moreover have "count128 (bitcount512 ?c2) + of_nat (8 * length (drop 128 d)) = count128 (bitcount512 c) + of_nat (8 * length d)"
      using ge count128_ADDINC128_bytes [of 128 "bitcount512 ?c"]
      by (simp add: SHA512_Transform_def sha512_add_state_def of_nat_diff algebra_simps)
    ultimately show ?thesis
      using ih ge by (auto simp: blk_whole.simps [of 128 "sha512_tr bo" "sha512_proj c" d])
  qed
qed

lemma sha512_blocks_and_rest:
  fixes c :: SHA512_CTX and bo :: byte_order
  assumes "length d < 2 ^ 64"
  defines "c' \<equiv> sha512_keep_rest (sha512_whole_blocks bo c d (of_nat (length d)))"
  shows "sha512_proj c' = blk_whole 128 (sha512_tr bo) (sha512_proj c) d"
    and "count128 (bitcount512 c') = count128 (bitcount512 c) + of_nat (8 * length d)"
proof -
  obtain c2 d2 l2 where wb: "sha512_whole_blocks bo c d (of_nat (length d)) = (c2, d2, l2)"
    using prod_cases3 by blast
  note w = sha512_whole_blocks_refines [OF _ wb]
  have l2: "l2 = of_nat (length d2)" "length d2 = 0 \<longleftrightarrow> \<not> 0 < l2"
    using w assms(1) by (auto simp: unat_of_nat_u64 word_gt_0 unat_eq_0)
  then show "sha512_proj c' = blk_whole 128 (sha512_tr bo) (sha512_proj c) d"
    and "count128 (bitcount512 c') = count128 (bitcount512 c) + of_nat (8 * length d)"
    using w assms(1)
    by (auto simp: c'_def sha512_keep_rest_def wb sha512_proj_def unat_of_nat_u64 count128_ADDINC128_bytes mem_copy_empty)
qed

lemma sha512_update_refines:
  fixes c :: SHA512_CTX and bo :: byte_order
  assumes len: "length d < 2 ^ 64"
  defines "c' \<equiv> sha512_update_ctx bo c d (of_nat (length d))"
  shows "sha512_proj c' = blk_update 128 (sha512_tr bo) (sha512_usedspace c) (sha512_proj c) d \<and>
    count128 (bitcount512 c') = count128 (bitcount512 c) + of_nat (8 * length d)"
proof -
  define u where "u = sha512_usedspace c"
  have u: "u < 128" by (simp add: u_def sha512_usedspace_def sha512_lengths)
  have upd: "c' = (case sha512_fill_buffer bo c d (of_nat (length d)) of Inl c \<Rightarrow> c
      | Inr (c, d, l) \<Rightarrow> sha512_keep_rest (sha512_whole_blocks bo c d l))"
    by (simp add: c'_def sha512_update_ctx_def)
  have cmp: "of_nat (128 - u) \<le> (of_nat (length d) :: u64) \<longleftrightarrow> 128 - u \<le> length d"
    using len by (intro of_nat_le_u64) simp_all
  note unf = upd sha512_fill_buffer_def sha512_lengths Let_def u_def [symmetric] cmp blk_update_def
  consider "u = 0" | "0 < u" "length d < 128 - u" | "0 < u" "128 - u \<le> length d" by linarith
  then show ?thesis
  proof cases
    case 1
    then show ?thesis using sha512_blocks_and_rest [OF len, of bo c] by (simp add: unf)
  next
    case 2
    then show ?thesis
      using len by (simp add: unf sha512_proj_def unat_of_nat_u64 count128_ADDINC128_bytes del: of_nat_diff)
  next
    case 3
    let ?c = "c\<lparr>buffer512 := mem_copy (buffer512 c) u (take (128 - u) d),
                bitcount512 := ADDINC128 (bitcount512 c) (push_bit 3 (of_nat (128 - u)))\<rparr>"
    let ?d = "drop (128 - u) d"
    have l: "of_nat (length d) - of_nat (128 - u) = (of_nat (length ?d) :: u64)"
      using 3 by (simp only: length_drop of_nat_diff)
    have "c' = sha512_keep_rest (sha512_whole_blocks bo (SHA512_Transform bo ?c Ctx_buffer) ?d (of_nat (length ?d)))"
      using 3 by (simp add: unf l del: of_nat_diff length_drop)
    moreover have "sha512_proj (SHA512_Transform bo ?c Ctx_buffer) =
        sha512_tr bo (fst (sha512_proj c), mem_copy (snd (sha512_proj c)) u (take (128 - u) d)) Ctx_buffer"
      by (simp add: sha512_proj_Transform) (simp add: sha512_proj_def)
    moreover have "count128 (bitcount512 (SHA512_Transform bo ?c Ctx_buffer)) + of_nat (8 * length ?d) =
        count128 (bitcount512 c) + of_nat (8 * length d)"
    proof -
      have "8 * (128 - u) + 8 * length ?d = 8 * length d" using 3 u by simp
      then have "of_nat (8 * (128 - u)) + of_nat (8 * length ?d) = (of_nat (8 * length d) :: 128 word)"
        by (simp only: of_nat_add [symmetric])
      then show ?thesis
        by (simp add: SHA512_Transform_def sha512_add_state_def count128_ADDINC128_bytes add.assoc del: of_nat_diff of_nat_mult length_drop)
    qed
    ultimately show ?thesis
      using 3 len sha512_blocks_and_rest [of ?d bo "SHA512_Transform bo ?c Ctx_buffer"]
      by (simp add: blk_update_def u_def)
  qed
qed

lemma sha512_update_spec:
  assumes inv: "sha512_inv m c" and len: "length d < 2 ^ 64"
  shows "sha512_inv (m + length d) (sha512_update_ctx bo c d (of_nat (length d)))"
    and "sha512_view (sha512_update_ctx bo c d (of_nat (length d))) =
      md_blocks 128 compress512 (fst (sha512_view c)) (snd (sha512_view c) @ d)"
proof -
  let ?c = "sha512_update_ctx bo c d (of_nat (length d))"
  note ref = sha512_update_refines [OF len, of bo c]
  have u: "sha512_usedspace c = m mod 128" by (rule sha512_inv_used [OF inv])
  have "length (fst (sha512_proj c)) = 8" "length (snd (sha512_proj c)) = 128"
    using inv by (simp_all add: sha512_proj_def sha512_inv_def sha512_wf_def)
  note blk = b512.blk_update_spec [OF this, of "m mod 128" bo d]
  have bc: "count128 (bitcount512 ?c) = of_nat (8 * (m + length d))"
    using ref inv by (simp add: sha512_inv_def algebra_simps)
  have st: "state512 ?c = fst (sha512_proj ?c)" "buffer512 ?c = snd (sha512_proj ?c)"
    by (simp_all add: sha512_proj_def)
  show inv': "sha512_inv (m + length d) ?c"
    unfolding sha512_inv_def sha512_wf_def st using blk ref u bc by simp
  show "sha512_view ?c = md_blocks 128 compress512 (fst (sha512_view c)) (snd (sha512_view c) @ d)"
    using blk ref u sha512_inv_used [OF inv']
    by (simp add: sha512_view_def st mod_add_left_eq) (simp add: sha512_proj_def)
qed

section \<open>Padding and digest\<close>

lemma sha512_pad_spec:
  fixes bo :: byte_order
  assumes wf: "sha512_wf c" and u: "u < 128"
  defines "p \<equiv> take u (buffer512 c)" and "c' \<equiv> sha512_pad bo u c"
  shows "sha512_wf c'" and "bitcount512 c' = bitcount512 c"
    and "u \<le> 111 \<Longrightarrow> state512 c' = state512 c \<and> take 112 (buffer512 c') = p @ 0x80 # replicate (111 - u) 0"
    and "111 < u \<Longrightarrow> state512 c' = compress512 (state512 c) (p @ 0x80 # replicate (127 - u) 0) \<and>
      take 112 (buffer512 c') = replicate 112 0"
proof (atomize(full), goal_cases)
  case 1
  have len: "length (buffer512 c) = 128" "length (state512 c) = 8" using wf by (simp_all add: sha512_wf_def)
  consider "u = 0" | "0 < u" "u \<le> 111" | "111 < u" by linarith
  then show ?case
  proof cases
    case 1
    then show ?thesis using len
      by (simp add: c'_def p_def sha512_pad_def sha512_lengths sha512_wf_def Let_def mem_simps list_update_append)
        (simp add: list_update_code replicate_Suc numeral_eq_Suc)
  next
    case 2
    then show ?thesis
      using len pad_one_block [OF len(1) u, of "111 - u"]
      by (simp add: c'_def p_def sha512_pad_def sha512_lengths sha512_wf_def Let_def length_mem_copy)
  next
    case 3
    let ?c = "c\<lparr>buffer512 := p @ 0x80 # replicate (127 - u) 0\<rparr>"
    have fill: "mem_copy ((buffer512 c)[u := 0x80]) (Suc u) (replicate (127 - u) 0) = p @ 0x80 # replicate (127 - u) 0"
      if "u < 127" using that len by (simp add: mem_simps p_def)
    have full: "(buffer512 c)[u := 0x80] = p @ 0x80 # replicate (127 - u) 0" if "\<not> u < 127"
    proof -
      have "u = 127" using that u by simp
      then show ?thesis using len take_Suc_update [of 127 "buffer512 c" "0x80"] by (simp add: p_def)
    qed
    have wf': "sha512_wf ?c" using len u by (simp add: sha512_wf_def p_def)
    note tr = SHA512_Transform_spec [OF wf', of Ctx_buffer bo]
    have "c' = (SHA512_Transform bo ?c Ctx_buffer)\<lparr>buffer512 :=
      mem_copy (buffer512 (SHA512_Transform bo ?c Ctx_buffer)) 0 (replicate 126 0)\<rparr>"
      using 3 fill full by (simp add: c'_def sha512_pad_def sha512_lengths Let_def)
    then show ?thesis
      using 3 tr wf' by (simp add: sha512_wf_def mem_simps)
  qed
qed
text \<open>The digest is the first \<open>n\<close> words of the result; the length field is a 128-bit number.\<close>

definition sha512_out :: "nat \<Rightarrow> u64 list \<Rightarrow> byte list" where
  "sha512_out n H = concat (map (be_bytes 8) (take n H))"

definition sha512_length_field :: "nat \<Rightarrow> byte list" where
  "sha512_length_field m = be_bytes 16 (of_nat (8 * m) :: 128 word)"

text \<open>SHA-512 and SHA-384 of FIPS 180-4 on byte strings.\<close>

definition sha512_ref :: "byte list \<Rightarrow> byte list" where
  "sha512_ref msg = md_hash 128 compress512 sha512_initial_hash_value sha512_length_field (sha512_out 8) msg"

definition sha384_ref :: "byte list \<Rightarrow> byte list" where
  "sha384_ref msg = md_hash 128 compress512 sha384_initial_hash_value sha512_length_field (sha512_out 6) msg"

lemma sha512_digest_bytes_eq:
  assumes "n \<le> length H"
  shows "sha512_digest_bytes bo n H = sha512_out n H"
proof -
  have "map (\<lambda>j. be_bytes 8 (H ! j)) [0..<n] = map (be_bytes 8) (map ((!) H) [0..<n])" by simp
  also have "map ((!) H) [0..<n] = take n H" using assms by (simp add: list_eq_iff_nth_eq)
  finally show ?thesis
    using host_bytes_net64 [of bo]
    by (simp only: sha512_digest_bytes_def sha512_out_def net64_def)
qed

lemma compress512_length [simp]: "length H = 8 \<Longrightarrow> length (compress512 H blk) = 8"
  by (simp add: compress512_def)

lemma md_pad_128:
  assumes "length lf = 16"
  shows "md_pad 128 m lf = 0x80 # replicate (if m mod 128 \<le> 111 then 111 - m mod 128 else 239 - m mod 128) 0 @ lf"
proof -
  have "(239 - u) mod 128 = (if u \<le> 111 then 111 - u else 239 - u)" if "u < 128" for u :: nat
  proof (cases "u \<le> 111")
    case True
    then have "239 - u = (111 - u) + 128" by simp
    then have "(239 - u) mod 128 = (111 - u) mod 128" by (simp only: mod_add_self2)
    then show ?thesis using True by simp
  qed simp
  then show ?thesis using assms by (simp add: md_pad_def)
qed

lemma sha512_last_blocks:
  assumes "length p = m mod 128"
  shows "fst (md_blocks 128 compress512 H (p @ md_pad 128 m (sha512_length_field m))) =
    (if m mod 128 \<le> 111 then compress512 H (p @ 0x80 # replicate (111 - m mod 128) 0 @ sha512_length_field m)
     else compress512 (compress512 H (p @ 0x80 # replicate (127 - m mod 128) 0))
            (replicate 112 0 @ sha512_length_field m))"
proof -
  let ?u = "m mod 128" and ?lf = "sha512_length_field m"
  have lf: "length ?lf = 16" by (simp add: sha512_length_field_def)
  show ?thesis
  proof (cases "?u \<le> 111")
    case True
    then show ?thesis using assms lf by (simp add: md_pad_128 md_blocks_one)
  next
    case False
    have "239 - ?u = (127 - ?u) + 112" using False mod_less_divisor [of 128 m] by linarith
    then have "replicate (239 - ?u) 0 = replicate (127 - ?u) 0 @ replicate 112 (0::byte)"
      by (simp only: replicate_add)
    then have eq: "p @ md_pad 128 m ?lf = (p @ 0x80 # replicate (127 - ?u) 0) @ (replicate 112 0 @ ?lf)"
      using False lf by (simp add: md_pad_128)
    have "md_blocks 128 compress512 H ((p @ 0x80 # replicate (127 - ?u) 0) @ (replicate 112 0 @ ?lf)) =
        md_blocks 128 compress512 (compress512 H (p @ 0x80 # replicate (127 - ?u) 0)) (replicate 112 0 @ ?lf)"
      by (rule md_blocks_block) (use False assms in simp_all)
    then show ?thesis
      using False lf by (simp only: eq) (simp add: md_blocks_one)
  qed
qed

text \<open>The contexts that the final block is built in.\<close>

lemma sha512_length_words:
  assumes "length b = 128" "p = (w0, w1)" "count128 p = of_nat (8 * m)"
  shows "store_word bo 8 (store_word bo 8 b 14 (net64 bo w1)) 15 (net64 bo w0) = take 112 b @ sha512_length_field m"
  using assms be_bytes_count128 [of w0 w1]
  by (simp add: store_word_def mem_copy_def host_bytes_net64 sha512_length_field_def)

lemma SHA512_Last_spec:
  assumes inv: "sha512_inv m c"
  shows "state512 (SHA512_Last bo c) = fst (md_blocks 128 compress512 (fst (sha512_view c))
    (snd (sha512_view c) @ md_pad 128 m (sha512_length_field m)))"
    and "length (state512 (SHA512_Last bo c)) = 8"
proof -
  define u where "u = sha512_usedspace c"
  define p where "p = take u (buffer512 c)"
  define c0 where "c0 = c\<lparr>bitcount512 := map_prod (net64 bo) (net64 bo) (bitcount512 c)\<rparr>"
  define c1 where "c1 = sha512_pad bo u c0"
  define c2 where "c2 = c1\<lparr>buffer512 := take 112 (buffer512 c1) @ sha512_length_field m\<rparr>"
  have u: "u = m mod 128" "u < 128" using sha512_inv_used [OF inv] by (simp_all add: u_def)
  have wf: "sha512_wf c0" and bc: "bitcount512 c0 = map_prod (net64 bo) (net64 bo) (bitcount512 c)"
    and c0: "state512 c0 = state512 c" "take u (buffer512 c0) = p"
    using inv by (simp_all add: c0_def p_def sha512_inv_def sha512_wf_def)
  note pad = sha512_pad_spec [OF wf u(2), of bo, folded c1_def, unfolded c0]
  have "store_word bo 8 (store_word bo 8 (buffer512 c1) 14 (snd (bitcount512 c1))) 15 (fst (bitcount512 c1)) =
      take 112 (buffer512 c1) @ sha512_length_field m"
    using pad(1,2) bc inv sha512_length_words [of "buffer512 c1" "bitcount512 c" _ _ m bo]
    by (cases "bitcount512 c") (simp add: sha512_wf_def sha512_inv_def)
  moreover have "(if bo = LITTLE_ENDIAN then c\<lparr>bitcount512 := map_prod REVERSE64 REVERSE64 (bitcount512 c)\<rparr> else c) = c0"
    by (cases bo; cases "bitcount512 c") (auto simp: c0_def net64_def)
  ultimately have last: "SHA512_Last bo c = SHA512_Transform bo c2 Ctx_buffer"
    by (simp add: SHA512_Last_def c2_def u_def [symmetric] c1_def [symmetric] sha512_lengths Let_def)
  have wf2: "sha512_wf c2"
    using pad(1) by (simp add: c2_def sha512_wf_def sha512_length_field_def)
  show "state512 (SHA512_Last bo c) = fst (md_blocks 128 compress512 (fst (sha512_view c))
      (snd (sha512_view c) @ md_pad 128 m (sha512_length_field m)))"
    using pad(3,4) SHA512_Transform_spec [OF wf2, of Ctx_buffer bo] wf2 u inv
    by (cases "u \<le> 111")
      (simp_all add: last sha512_last_blocks c2_def p_def sha512_wf_def sha512_inv_def sha512_view_def u_def)
  show "length (state512 (SHA512_Last bo c)) = 8"
    using SHA512_Transform_spec(2) [OF wf2, of Ctx_buffer bo] wf2 by (simp add: last sha512_wf_def)
qed

definition sha512_feed :: "byte_order \<Rightarrow> SHA512_CTX option \<Rightarrow> byte list \<Rightarrow> c_fault + SHA512_CTX option" where
  "sha512_feed bo c d = SHA512_Update bo c (Some d) (of_nat (length d))"

definition sha384_feed :: "byte_order \<Rightarrow> SHA384_CTX option \<Rightarrow> byte list \<Rightarrow> c_fault + SHA384_CTX option" where
  "sha384_feed bo c d = SHA384_Update bo c (Some d) (of_nat (length d))"

lemma sha512_feed_spec:
  assumes inv: "c \<noteq> None \<and> sha512_inv m (the c)" and d: "length d < 2 ^ 64"
  shows "\<exists>c'. sha512_feed bo c d = Inr c' \<and> (c' \<noteq> None \<and> sha512_inv (m + length d) (the c')) \<and>
      sha512_view (the c') = md_blocks 128 compress512 (fst (sha512_view (the c))) (snd (sha512_view (the c)) @ d)"
proof -
  obtain x where x: "c = Some x" "sha512_inv m x" using inv by auto
  have "sha512_feed bo c d = Inr (Some (sha512_update_ctx bo x d (of_nat (length d))))" if "d \<noteq> []"
    using that x d unat_of_nat_u64 [OF d] by (auto simp: sha512_feed_def SHA512_Update_def)
  moreover have "sha512_feed bo c d = Inr c \<and> snd (sha512_view x) = take (m mod 128) (buffer512 x)" if "d = []"
    using that x sha512_inv_used [OF x(2)] by (simp add: sha512_feed_def SHA512_Update_def sha512_view_def)
  ultimately show ?thesis
    using x sha512_update_spec [OF x(2) d, of bo]
    by (cases "d = []") (auto simp: md_blocks_short sha512_inv_def sha512_wf_def intro!: prod_eqI)
qed

lemma sha512_start:
  fixes local :: SHA512_CTX
  assumes "length iv = 8"
  defines "c \<equiv> local\<lparr>state512 := iv, buffer512 := replicate 128 0, bitcount512 := (0, 0)\<rparr>"
  shows "sha512_inv 0 c" and "sha512_view c = (iv, [])"
  using assms(1)
  by (simp_all add: c_def sha512_inv_def sha512_wf_def sha512_view_def sha512_usedspace_def sha512_lengths dword.simps)

lemma sha512_last_digest:
  "sha512_inv m c \<Longrightarrow> n \<le> 8 \<Longrightarrow> sha512_digest_bytes bo n (state512 (SHA512_Last bo c)) =
    sha512_out n (fst (md_blocks 128 compress512 (fst (sha512_view c))
      (snd (sha512_view c) @ md_pad 128 m (sha512_length_field m))))"
  using sha512_digest_bytes_eq [of n "state512 (SHA512_Last bo c)" bo] SHA512_Last_spec [of m c bo] by simp

lemmas sha384_feed_spec = sha512_feed_spec
  [unfolded sha512_feed_def, folded SHA384_Update_def, folded sha384_feed_def]

interpretation sha512: md_digest 128 compress512 sha512_initial_hash_value
  "SHA512_Init (Some local)" "sha512_feed bo" "\<lambda>c. sha512_view (the c)"
  "\<lambda>m c. c \<noteq> None \<and> sha512_inv m (the c)" "\<lambda>d. length d < 2 ^ 64"
  "SHA512_Final bo True" sha512_length_field "\<lambda>H. Inr (Some (sha512_out 8 H), Some sha512_zero)"
  for local :: SHA512_CTX and bo
proof unfold_locales
  show "SHA512_Init (Some local) \<noteq> None \<and> sha512_inv 0 (the (SHA512_Init (Some local)))"
    and "sha512_view (the (SHA512_Init (Some local))) = (sha512_initial_hash_value, [])"
    using sha512_start [of sha512_initial_hash_value local]
    by (simp_all add: SHA512_Init_def sha512_init_ctx_def sha512_lengths sha512_initial_hash_value_def)
qed ((rule sha512_feed_spec; assumption) | (auto simp: SHA512_Final_def sha512_last_digest; fail))+

interpretation sha384: md_digest 128 compress512 sha384_initial_hash_value
  "SHA384_Init (Some local)" "sha384_feed bo" "\<lambda>c. sha512_view (the c)"
  "\<lambda>m c. c \<noteq> None \<and> sha512_inv m (the c)" "\<lambda>d. length d < 2 ^ 64"
  "SHA384_Final bo True" sha512_length_field "\<lambda>H. Inr (Some (sha512_out 6 H), Some sha512_zero)"
  for local :: SHA384_CTX and bo
proof unfold_locales
  show "SHA384_Init (Some local) \<noteq> None \<and> sha512_inv 0 (the (SHA384_Init (Some local)))"
    and "sha512_view (the (SHA384_Init (Some local))) = (sha384_initial_hash_value, [])"
    using sha512_start [of sha384_initial_hash_value local]
    by (simp_all add: SHA384_Init_def sha384_init_ctx_def sha512_lengths sha384_initial_hash_value_def)
qed ((rule sha384_feed_spec; assumption) | (auto simp: SHA384_Final_def sha512_last_digest; fail))+

section \<open>Properties\<close>

lemma length_sha512_ref: "length (sha512_ref msg) = 64"
  using md_blocks_keeps [of "\<lambda>h. length h = 8" compress512 sha512_initial_hash_value 128]
  by (simp add: sha512_ref_def md_hash_def sha512_out_def length_concat_be sha512_initial_hash_value_def)

lemma SHA512_End_Final:
  "SHA512_Final bo True c = Inr (Some dg, c') \<Longrightarrow> SHA512_End bo True c = Inr (Some (hex_store dg), c')"
  by (auto simp: SHA512_End_def SHA512_Final_def split: option.splits)

lemma length_sha384_ref: "length (sha384_ref msg) = 48"
  using md_blocks_keeps [of "\<lambda>h. length h = 8" compress512 sha384_initial_hash_value 128]
  by (simp add: sha384_ref_def md_hash_def sha512_out_def length_concat_be sha384_initial_hash_value_def)

lemma SHA384_End_Final:
  "SHA384_Final bo True c = Inr (Some dg, c') \<Longrightarrow> SHA384_End bo True c = Inr (Some (hex_store dg), c')"
  by (auto simp: SHA384_End_def SHA384_Final_def split: option.splits)

text \<open>
  C6 (refinement): initialising a context, feeding it a message in chunks of any sizes and
  calling \<^verbatim>\<open>SHA512_End\<close> gives the hexadecimal SHA-512 of FIPS 180-4 of the concatenated
  chunks, for every byte order; the two-word bit count gives the 128-bit length field.
\<close>

theorem SHA512_stream_hash:
  assumes "list_all (\<lambda>d. length d < 2 ^ 64) ds"
  shows "\<exists>c. feed_all (sha512_feed bo) (SHA512_Init (Some local)) ds = Inr c \<and>
    SHA512_End bo True c = Inr (Some (hex_loop (sha512_ref (concat ds)), 128), Some sha512_zero)"
  using sha512.stream_hash [OF assms, of bo local] SHA512_End_Final
  length_sha512_ref [of "concat ds"]
  by (fastforce simp: sha512_ref_def md_hash_def hex_store_def)

theorem SHA512_stream_hash_witness:
  "\<exists>c. feed_all (sha512_feed BIG_ENDIAN) (SHA512_Init (Some sha512_zero)) [[0x61], [], [0x62, 0x63]] = Inr c \<and>
    SHA512_End BIG_ENDIAN True c = Inr (Some (hex_loop (sha512_ref [0x61, 0x62, 0x63]), 128), Some sha512_zero)"
  using SHA512_stream_hash [of "[[0x61], [], [0x62, 0x63]]" BIG_ENDIAN sha512_zero] by simp

text \<open>
  C7 (refinement): the same for SHA-384, which shares the update and the padding of SHA-512.
\<close>

theorem SHA384_stream_hash:
  assumes "list_all (\<lambda>d. length d < 2 ^ 64) ds"
  shows "\<exists>c. feed_all (sha384_feed bo) (SHA384_Init (Some local)) ds = Inr c \<and>
    SHA384_End bo True c = Inr (Some (hex_loop (sha384_ref (concat ds)), 96), Some sha512_zero)"
  using sha384.stream_hash [OF assms, of bo local] SHA384_End_Final
  length_sha384_ref [of "concat ds"]
  by (fastforce simp: sha384_ref_def md_hash_def hex_store_def)

theorem SHA384_stream_hash_witness:
  "\<exists>c. feed_all (sha384_feed BIG_ENDIAN) (SHA384_Init (Some sha512_zero)) [[0x61], [], [0x62, 0x63]] = Inr c \<and>
    SHA384_End BIG_ENDIAN True c = Inr (Some (hex_loop (sha384_ref [0x61, 0x62, 0x63]), 96), Some sha512_zero)"
  using SHA384_stream_hash [of "[[0x61], [], [0x62, 0x63]]" BIG_ENDIAN sha512_zero] by simp

text \<open>
  \<^verbatim>\<open>ADDINC128\<close> adds to the 128-bit number held in two words, the carry
  included, and wraps at \<open>2 ^ 128\<close>.
\<close>

theorem ADDINC128_adds:
  "count128 (ADDINC128 p n) = count128 p + ucast n"
  by (simp add: count128_ADDINC128)

text \<open>
  The SHA-512 transform compiled with \<^verbatim>\<open>SHA2_UNROLL_TRANSFORM\<close> and the one
  with rolled loops leave the same context.
\<close>

theorem SHA512_Transform_unrolled_same:
  "SHA512_Transform_unrolled bo context data = SHA512_Transform bo context data"
  by (rule SHA512_Transform_unrolled_eq)

end
