(* ===== verification/Sha1.thy ===== *)
theory Sha1
  imports Sha2_Core
begin

text \<open>
  SHA-1 of \<^verbatim>\<open>generic/sha1.c\<close>. Whether \<^verbatim>\<open>LITTLE_ENDIAN\<close> is defined when the macros are expanded
  is the parameter \<open>le\<close>, independent of the byte order \<open>bo\<close> of the host. The static
  \<^verbatim>\<open>workspace\<close> of \<^verbatim>\<open>SHA1Transform\<close> is part of the state that the operations pass on.
\<close>

section \<open>Context and macros\<close>

record SHA1_CTX =
  state1 :: "u32 list"
  count1 :: "u32 \<times> u32"
  buffer1 :: "byte list"

definition rol :: "u32 \<Rightarrow> nat \<Rightarrow> u32" where
  "rol value bits = (push_bit bits value OR drop_bit (32 - bits) value)"

text \<open>\<^verbatim>\<open>blk0\<close> and \<^verbatim>\<open>blk\<close> are assignment expressions: their value and the block they leave.\<close>

definition blk0 :: "bool \<Rightarrow> byte_order \<Rightarrow> nat \<Rightarrow> byte list \<Rightarrow> u32 \<times> byte list" where
  "blk0 le bo i block =
     (let x = load_word bo 4 block i in
      if le then
        let v = (rol x 24 AND 0xFF00FF00) OR (rol x 8 AND 0x00FF00FF)
        in (v, store_word bo 4 block i v)
      else (x, block))"

definition blk :: "byte_order \<Rightarrow> nat \<Rightarrow> byte list \<Rightarrow> u32 \<times> byte list" where
  "blk bo i block =
     (let l = load_word bo 4 block;
          v = rol (l ((i + 13) AND 15) XOR l ((i + 8) AND 15) XOR l ((i + 2) AND 15) XOR l (i AND 15)) 1
      in (v, store_word bo 4 block (i AND 15) v))"

datatype sha1_op = R0 | R1 | R2 | R3 | R4

fun sha1_mix :: "sha1_op \<Rightarrow> u32 \<Rightarrow> u32 \<Rightarrow> u32 \<Rightarrow> u32" where
  "sha1_mix R0 w x y = (w AND (x XOR y)) XOR y"
| "sha1_mix R1 w x y = (w AND (x XOR y)) XOR y"
| "sha1_mix R2 w x y = w XOR x XOR y"
| "sha1_mix R3 w x y = ((w OR x) AND y) OR (w AND x)"
| "sha1_mix R4 w x y = w XOR x XOR y"

fun sha1_const :: "sha1_op \<Rightarrow> u32" where
  "sha1_const R0 = 0x5A827999"
| "sha1_const R1 = 0x5A827999"
| "sha1_const R2 = 0x6ED9EBA1"
| "sha1_const R3 = 0x8F1BBCDC"
| "sha1_const R4 = 0xCA62C1D6"

text \<open>
  One use of a round macro. The working variables \<open>a\<close> to \<open>e\<close> are the list \<open>rs\<close> and the
  macro arguments are their positions in it.
\<close>

fun sha1_round ::
  "bool \<Rightarrow> byte_order \<Rightarrow> sha1_op \<times> nat \<times> nat \<times> nat \<times> nat \<times> nat \<times> nat \<Rightarrow> u32 list \<times> byte list \<Rightarrow> u32 list \<times> byte list" where
  "sha1_round le bo (R, v, w, x, y, z, i) (rs, block) =
     (let (m, block) = (if R = R0 then blk0 le bo i block else blk bo i block);
          rs = rs[z := rs ! z + (sha1_mix R (rs ! w) (rs ! x) (rs ! y) + m + sha1_const R + rol (rs ! v) 5)];
          rs = rs[w := rol (rs ! w) 30]
      in (rs, block))"

text \<open>The eighty unrolled rounds, as they are written in \<^verbatim>\<open>SHA1Transform\<close>.\<close>

definition sha1_rounds :: "(sha1_op \<times> nat \<times> nat \<times> nat \<times> nat \<times> nat \<times> nat) list" where
  "sha1_rounds = (let a = 0; b = 1; c = 2; d = 3; e = 4 in
    [(R0, a, b, c, d, e, 0), (R0, e, a, b, c, d, 1), (R0, d, e, a, b, c, 2), (R0, c, d, e, a, b, 3),
     (R0, b, c, d, e, a, 4), (R0, a, b, c, d, e, 5), (R0, e, a, b, c, d, 6), (R0, d, e, a, b, c, 7),
     (R0, c, d, e, a, b, 8), (R0, b, c, d, e, a, 9), (R0, a, b, c, d, e, 10), (R0, e, a, b, c, d, 11),
     (R0, d, e, a, b, c, 12), (R0, c, d, e, a, b, 13), (R0, b, c, d, e, a, 14), (R0, a, b, c, d, e, 15),
     (R1, e, a, b, c, d, 16), (R1, d, e, a, b, c, 17), (R1, c, d, e, a, b, 18), (R1, b, c, d, e, a, 19),
     (R2, a, b, c, d, e, 20), (R2, e, a, b, c, d, 21), (R2, d, e, a, b, c, 22), (R2, c, d, e, a, b, 23),
     (R2, b, c, d, e, a, 24), (R2, a, b, c, d, e, 25), (R2, e, a, b, c, d, 26), (R2, d, e, a, b, c, 27),
     (R2, c, d, e, a, b, 28), (R2, b, c, d, e, a, 29), (R2, a, b, c, d, e, 30), (R2, e, a, b, c, d, 31),
     (R2, d, e, a, b, c, 32), (R2, c, d, e, a, b, 33), (R2, b, c, d, e, a, 34), (R2, a, b, c, d, e, 35),
     (R2, e, a, b, c, d, 36), (R2, d, e, a, b, c, 37), (R2, c, d, e, a, b, 38), (R2, b, c, d, e, a, 39),
     (R3, a, b, c, d, e, 40), (R3, e, a, b, c, d, 41), (R3, d, e, a, b, c, 42), (R3, c, d, e, a, b, 43),
     (R3, b, c, d, e, a, 44), (R3, a, b, c, d, e, 45), (R3, e, a, b, c, d, 46), (R3, d, e, a, b, c, 47),
     (R3, c, d, e, a, b, 48), (R3, b, c, d, e, a, 49), (R3, a, b, c, d, e, 50), (R3, e, a, b, c, d, 51),
     (R3, d, e, a, b, c, 52), (R3, c, d, e, a, b, 53), (R3, b, c, d, e, a, 54), (R3, a, b, c, d, e, 55),
     (R3, e, a, b, c, d, 56), (R3, d, e, a, b, c, 57), (R3, c, d, e, a, b, 58), (R3, b, c, d, e, a, 59),
     (R4, a, b, c, d, e, 60), (R4, e, a, b, c, d, 61), (R4, d, e, a, b, c, 62), (R4, c, d, e, a, b, 63),
     (R4, b, c, d, e, a, 64), (R4, a, b, c, d, e, 65), (R4, e, a, b, c, d, 66), (R4, d, e, a, b, c, 67),
     (R4, c, d, e, a, b, 68), (R4, b, c, d, e, a, 69), (R4, a, b, c, d, e, 70), (R4, e, a, b, c, d, 71),
     (R4, d, e, a, b, c, 72), (R4, c, d, e, a, b, 73), (R4, b, c, d, e, a, 74), (R4, a, b, c, d, e, 75),
     (R4, e, a, b, c, d, 76), (R4, d, e, a, b, c, 77), (R4, c, d, e, a, b, 78), (R4, b, c, d, e, a, 79)])"

definition SHA1Transform ::
  "bool \<Rightarrow> byte_order \<Rightarrow> u32 list \<Rightarrow> byte list \<Rightarrow> byte list \<Rightarrow> u32 list \<times> byte list" where
  "SHA1Transform le bo state buffer workspace =
     (let block = mem_copy workspace 0 (take 64 buffer);
          (rs, block) = fold (sha1_round le bo) sha1_rounds (state, block)
      in (map2 (+) state rs, block))"

section \<open>Init, Update, Final\<close>

definition SHA1_IV :: "u32 list" where
  "SHA1_IV = [0x67452301, 0xEFCDAB89, 0x98BADCFE, 0x10325476, 0xC3D2E1F0]"

definition SHA1Init :: "SHA1_CTX \<Rightarrow> SHA1_CTX" where
  "SHA1Init context = context\<lparr>state1 := SHA1_IV, count1 := (0, 0)\<rparr>"

definition sha1_count :: "u32 \<times> u32 \<Rightarrow> u32 \<Rightarrow> u32 \<times> u32" where
  "sha1_count count len = (case count of (c0, c1) \<Rightarrow>
     let c0 = c0 + push_bit 3 len;
         c1 = (if c0 < push_bit 3 len then c1 + 1 else c1)
     in (c0, c1 + drop_bit 29 len))"

text \<open>
  The loop over whole blocks. A transform of memory outside the \<open>len\<close> bytes of \<open>data\<close> is
  the fault \<open>Overrun\<close>.
\<close>

function sha1_whole ::
  "bool \<Rightarrow> byte_order \<Rightarrow> u32 list \<times> byte list \<Rightarrow> byte list \<Rightarrow> u32 \<Rightarrow> u32 \<Rightarrow> c_fault + (u32 list \<times> byte list) \<times> u32" where
  "sha1_whole le bo s data len i =
     (if i + 63 < len then
        if unat len < unat i + 64 then Inl Overrun
        else sha1_whole le bo (SHA1Transform le bo (fst s) (drop (unat i) data) (snd s)) data len (i + 64)
      else Inr (s, i))"
  by pat_completeness auto
termination
proof (relation "measure (\<lambda>(le, bo, s, data, len, i). unat len - unat i)", goal_cases)
  case (2 le bo s data len i)
  moreover have "unat len < 2 ^ LENGTH(32)" by (rule unsigned_less)
  ultimately have "unat i + 64 < 2 ^ 32" by simp
  then have "unat (i + 64) = unat i + 64" by (simp add: unat_word_ariths)
  then show ?case using 2 by simp
qed simp

declare sha1_whole.simps [simp del]

text \<open>The last \<^verbatim>\<open>memcpy\<close> of the update: bytes \<open>i\<close> to \<open>len\<close> of \<open>data\<close> to offset \<open>j\<close> of the buffer.\<close>

definition sha1_keep_rest ::
  "byte list \<Rightarrow> u32 \<Rightarrow> u32 \<Rightarrow> u32 \<Rightarrow> SHA1_CTX \<Rightarrow> c_fault + SHA1_CTX" where
  "sha1_keep_rest data len i j context =
     (let n = unat (len - i) in
      if 64 < unat j + n then Inl Overrun
      else Inr (context\<lparr>buffer1 := mem_copy (buffer1 context) (unat j) (take n (drop (unat i) data))\<rparr>))"

definition sha1_used :: "SHA1_CTX \<Rightarrow> u32" where
  "sha1_used context = drop_bit 3 (fst (count1 context)) AND 63"

definition SHA1Update ::
  "bool \<Rightarrow> byte_order \<Rightarrow> SHA1_CTX \<times> byte list \<Rightarrow> byte list \<Rightarrow> u32 \<Rightarrow> c_fault + SHA1_CTX \<times> byte list" where
  "SHA1Update le bo s data len =
     (if length data < unat len then Inl Overrun else
      let (context, workspace) = s;
          j = sha1_used context;
          context = context\<lparr>count1 := sha1_count (count1 context) len\<rparr>
      in
      if 63 < j + len then
        let i = 64 - j in
        if unat len < unat i then Inl Overrun else
        let context = context\<lparr>buffer1 := mem_copy (buffer1 context) (unat j) (take (unat i) data)\<rparr> in
        (case sha1_whole le bo (SHA1Transform le bo (state1 context) (buffer1 context) workspace) data len i of
           Inl e \<Rightarrow> Inl e
         | Inr ((state, workspace), i) \<Rightarrow>
             map_sum id (\<lambda>context. (context, workspace)) (sha1_keep_rest data len i 0 (context\<lparr>state1 := state\<rparr>)))
      else map_sum id (\<lambda>context. (context, workspace)) (sha1_keep_rest data len 0 j context))"

definition sha1_finalcount :: "u32 \<times> u32 \<Rightarrow> byte list" where
  "sha1_finalcount count =
     map (\<lambda>i. ucast (drop_bit ((3 - (i AND 3)) * 8) (if i \<ge> 4 then fst count else snd count) AND 255)) [0..<8]"

definition sha1_digest_bytes :: "u32 list \<Rightarrow> byte list" where
  "sha1_digest_bytes st =
     map (\<lambda>i. ucast (drop_bit ((3 - (i AND 3)) * 8) (st ! drop_bit 2 i) AND 255)) [0..<20]"

lemma SHA1Update_count:
  "SHA1Update le bo s data len = Inr s' \<Longrightarrow> count1 (fst s') = sha1_count (count1 (fst s)) len"
  by (cases s)
    (auto simp: SHA1Update_def sha1_keep_rest_def Let_def split: if_splits sum.splits)

lemma and_504: "(c :: u32) AND 504 = 448 \<longleftrightarrow> unat c div 8 mod 64 = 56"
proof -
  have "(504 :: u32) = push_bit 3 (mask 6)" "(448 :: u32) = push_bit 3 56"
    by (simp_all add: push_bit_eq_mult mask_eq_exp_minus_1)
  moreover have "c AND push_bit 3 (mask 6) = push_bit 3 (take_bit 6 (drop_bit 3 c))"
    by (rule bit_word_eqI) (auto simp: bit_simps)
  moreover have "push_bit 3 (take_bit 6 (drop_bit 3 c)) = push_bit 3 56 \<longleftrightarrow> take_bit 6 (drop_bit 3 c) = (56 :: u32)"
  proof
    assume "push_bit 3 (take_bit 6 (drop_bit 3 c)) = push_bit 3 (56 :: u32)"
    then have "drop_bit 3 (push_bit 3 (take_bit 6 (drop_bit 3 c))) = drop_bit 3 (push_bit 3 (56 :: u32))" by simp
    moreover have "drop_bit 3 (push_bit 3 (take_bit 6 (drop_bit 3 c))) = take_bit 6 (drop_bit 3 c)"
      by (rule bit_word_eqI) (auto simp: bit_simps)
    ultimately show "take_bit 6 (drop_bit 3 c) = 56" by (simp add: push_bit_eq_mult)
  qed simp
  moreover have "take_bit 6 (drop_bit 3 c) = (56 :: u32) \<longleftrightarrow> unat (take_bit 6 (drop_bit 3 c)) = 56"
    by (simp add: word_unat_eq_iff)
  moreover have "unat (take_bit 6 (drop_bit 3 c)) = unat c div 8 mod 64"
    by (simp only: unsigned_take_bit_eq unat_drop_bit_eq) (simp add: take_bit_eq_mod drop_bit_eq_div)
  ultimately show ?thesis by (simp only:)
qed

lemma sha1_pad_step:
  assumes "u \<noteq> 56" "u < 64"
  shows "Suc ((120 - (u + 1) mod 64) mod 64) = (120 - u) mod (64 :: nat)"
proof -
  consider "u < 56" | "56 < u" "u < 63" | "u = 63" using assms by linarith
  then show ?thesis
  proof cases
    case 1
    then have "120 - (u + 1) = (55 - u) + 64" "120 - u = (56 - u) + 64" "(u + 1) mod 64 = u + 1" by simp_all
    then have "(120 - (u + 1) mod 64) mod 64 = (55 - u) mod 64" "(120 - u) mod 64 = (56 - u) mod 64"
      by (simp_all only: mod_add_self2)
    then show ?thesis using 1 by simp
  qed simp_all
qed

text \<open>The padding loop: one zero byte at a time until the length field would end a block.\<close>

function sha1_pad_loop ::
  "bool \<Rightarrow> byte_order \<Rightarrow> SHA1_CTX \<times> byte list \<Rightarrow> c_fault + SHA1_CTX \<times> byte list" where
  "sha1_pad_loop le bo s =
     (if fst (count1 (fst s)) AND 504 \<noteq> 448 then
        (case SHA1Update le bo s [0] 1 of
           Inl e \<Rightarrow> Inl e
         | Inr s' \<Rightarrow> sha1_pad_loop le bo s')
      else Inr s)"
  by pat_completeness auto
termination
proof (relation "measure (\<lambda>(le, bo, s). (120 - unat (fst (count1 (fst s))) div 8 mod 64) mod 64)", goal_cases)
  case (2 le bo s s')
  let ?c = "fst (count1 (fst s))" and ?c' = "fst (count1 (fst s'))"
  let ?u = "unat ?c div 8 mod 64"
  have "?c' = ?c + 8"
    using SHA1Update_count [OF 2(2)] by (cases "count1 (fst s)") (simp add: sha1_count_def Let_def push_bit_eq_mult)
  then have "unat ?c' = (unat ?c + 8) mod (8 * 2 ^ 29)" by (simp add: unat_word_ariths)
  then have "unat ?c' div 8 = (unat ?c + 8) div 8 mod 2 ^ 29" by (simp only: mod_mult2_eq)
  moreover have "(unat ?c + 8) div 8 = unat ?c div 8 + 1" by (rule div_add_self2) simp
  ultimately have "unat ?c' div 8 mod 64 = (unat ?c div 8 + 1) mod 64" by (simp add: mod_mod_cancel)
  also have "\<dots> = (?u + 1) mod 64" by (simp only: mod_add_left_eq)
  finally have u': "unat ?c' div 8 mod 64 = (?u + 1) mod 64" .
  have u: "?u \<noteq> 56" "?u < 64" using 2(1) by (simp_all add: and_504)
  show ?case using sha1_pad_step [OF u] unfolding u' [symmetric] by simp
qed simp

declare sha1_pad_loop.simps [simp del]

definition sha1_wiped :: "bool \<Rightarrow> byte_order \<Rightarrow> byte list \<Rightarrow> SHA1_CTX \<times> byte list" where
  "sha1_wiped le bo workspace =
     (let context = \<lparr>state1 = replicate 5 0, count1 = (0, 0), buffer1 = replicate 64 0\<rparr>;
          (state, workspace) = SHA1Transform le bo (state1 context) (buffer1 context) workspace
      in (context\<lparr>state1 := state\<rparr>, workspace))"

definition SHA1Final ::
  "bool \<Rightarrow> byte_order \<Rightarrow> SHA1_CTX \<times> byte list \<Rightarrow> c_fault + byte list \<times> SHA1_CTX \<times> byte list" where
  "SHA1Final le bo s =
     (let finalcount = sha1_finalcount (count1 (fst s)) in
      case SHA1Update le bo s [0x80] 1 of Inl e \<Rightarrow> Inl e | Inr s \<Rightarrow>
      case sha1_pad_loop le bo s of Inl e \<Rightarrow> Inl e | Inr s \<Rightarrow>
      case SHA1Update le bo s finalcount 8 of Inl e \<Rightarrow> Inl e | Inr s \<Rightarrow>
      Inr (sha1_digest_bytes (state1 (fst s)), sha1_wiped le bo (snd s)))"

section \<open>The transform computes the reference compression\<close>

text \<open>The compression function of FIPS 180-4.\<close>

fun sha1_W :: "(nat \<Rightarrow> u32) \<Rightarrow> nat \<Rightarrow> u32" where
  "sha1_W M t = (if t < 16 then M t
     else rol (sha1_W M (t - 3) XOR sha1_W M (t - 8) XOR sha1_W M (t - 14) XOR sha1_W M (t - 16)) 1)"

declare sha1_W.simps [simp del]

definition sha1_f :: "nat \<Rightarrow> u32 \<Rightarrow> u32 \<Rightarrow> u32 \<Rightarrow> u32" where
  "sha1_f t x y z = (if t < 20 then Ch x y z else if t < 40 then x XOR y XOR z
     else if t < 60 then Maj x y z else x XOR y XOR z)"

definition sha1_K :: "nat \<Rightarrow> u32" where
  "sha1_K t = (if t < 20 then 0x5A827999 else if t < 40 then 0x6ED9EBA1
     else if t < 60 then 0x8F1BBCDC else 0xCA62C1D6)"

fun sha1_step :: "(nat \<Rightarrow> u32) \<Rightarrow> nat \<Rightarrow> u32 list \<Rightarrow> u32 list" where
  "sha1_step W t [a, b, c, d, e] = [rol a 5 + sha1_f t b c d + e + sha1_K t + W t, a, rol b 30, c, d]"
| "sha1_step W t rs = rs"

definition sha1_compress :: "(nat \<Rightarrow> u32) \<Rightarrow> u32 list \<Rightarrow> u32 list" where
  "sha1_compress M H = map2 (+) H (fold (sha1_step (sha1_W M)) [0..<80] H)"

definition sha1_op_at :: "nat \<Rightarrow> sha1_op" where
  "sha1_op_at t = (if t < 16 then R0 else if t < 20 then R1 else if t < 40 then R2 else if t < 60 then R3 else R4)"

text \<open>The table of rounds rotates the working variables by one position per round.\<close>

definition sha1_entry :: "nat \<Rightarrow> sha1_op \<times> nat \<times> nat \<times> nat \<times> nat \<times> nat \<times> nat" where
  "sha1_entry t = (sha1_op_at t, (4 * t) mod 5, (1 + 4 * t) mod 5, (2 + 4 * t) mod 5, (3 + 4 * t) mod 5,
     (4 + 4 * t) mod 5, t)"

lemma sha1_rounds_entries: "sha1_rounds = map sha1_entry [0..<80]"
  by code_simp

lemma sha1_mix_f: "sha1_mix (sha1_op_at t) w x y = sha1_f t w x y"
  by (rule bit_word_eqI) (auto simp: sha1_op_at_def sha1_f_def Ch_def Maj_def bit_simps)

lemma sha1_const_K: "sha1_const (sha1_op_at t) = sha1_K t"
  by (simp add: sha1_op_at_def sha1_K_def)

definition rot5 :: "nat \<Rightarrow> 'a list \<Rightarrow> 'a list" where
  "rot5 t rs = map (\<lambda>k. rs ! ((k + 4 * t) mod 5)) [0..<5]"

lemma sha1_round_rot:
  fixes K m :: u32 and f :: "u32 \<Rightarrow> u32 \<Rightarrow> u32 \<Rightarrow> u32" and t :: nat
  assumes "length rs = 5"
  defines "rs' \<equiv> rs[(4 + 4 * t) mod 5 := rs ! ((4 + 4 * t) mod 5) + (f (rs ! ((1 + 4 * t) mod 5)) (rs ! ((2 + 4 * t) mod 5)) (rs ! ((3 + 4 * t) mod 5)) + m + K + rol (rs ! ((4 * t) mod 5)) 5)]"
  shows "rot5 (Suc t) (rs'[(1 + 4 * t) mod 5 := rol (rs' ! ((1 + 4 * t) mod 5)) 30]) =
    (case rot5 t rs of [a, b, c, d, e] \<Rightarrow> [rol a 5 + f b c d + e + K + m, a, rol b 30, c, d])"
proof -
  obtain a b c d e where rs: "rs = [a, b, c, d, e]"
    using assms(1) by (auto simp: numeral_eq_Suc length_Suc_conv)
  have red: "(k + 4 * t) mod 5 = (k + 4 * (t mod 5)) mod 5" "(4 * t) mod 5 = (4 * (t mod 5)) mod 5" for k
    by (metis mod_add_right_eq mod_mult_right_eq, metis mod_mult_right_eq)
  have sred: "(k + 4 * Suc t) mod 5 = ((k + 4) + 4 * (t mod 5)) mod 5" for k
    using red(1) [of "k + 4"] by (simp add: add.assoc)
  have "t mod 5 = 0 \<or> t mod 5 = 1 \<or> t mod 5 = 2 \<or> t mod 5 = 3 \<or> t mod 5 = 4" by linarith
  moreover have "[0..<5] = [0, 1, 2, 3, 4 :: nat]" by (simp add: upt_rec)
  ultimately show ?thesis
    unfolding rot5_def rs'_def rs sred red by (elim disjE) (simp_all add: ac_simps)
qed

lemma blk0_swap:
  fixes x :: u32
  shows "(rol x 24 AND 0xFF00FF00) OR (rol x 8 AND 0x00FF00FF) = REVERSE32 x"
proof (rule bit_word_eqI)
  fix k assume "k < LENGTH(32)"
  moreover have hi: "\<not> bit x n" if "32 \<le> n" for n using that bit_imp_le_length [of x n] by auto
  have "\<forall>k \<in> set [0..<32]. bit ((rol x 24 AND 0xFF00FF00) OR (rol x 8 AND 0x00FF00FF)) k =
      bit x (8 * (3 - k div 8) + k mod 8)"
    unfolding upt_32 by (simp add: rol_def bit_simps hi) (simp add: eval_nat_numeral)
  ultimately show "bit ((rol x 24 AND 0xFF00FF00) OR (rol x 8 AND 0x00FF00FF)) k = bit (REVERSE32 x) k"
    by (simp add: bit_REVERSE32)
qed

definition sha1_fetch :: "bool \<Rightarrow> byte_order \<Rightarrow> byte list \<Rightarrow> nat \<Rightarrow> u32" where
  "sha1_fetch le bo block j = (if le then REVERSE32 (load_word bo 4 block j) else load_word bo 4 block j)"

lemma blk0_eq: "blk0 le bo i block = (sha1_fetch le bo block i,
    if le then store_word bo 4 block i (sha1_fetch le bo block i) else block)"
  by (simp add: blk0_def sha1_fetch_def blk0_swap Let_def)

lemma store_own_word:
  assumes "length b = 64" "j < 16"
  shows "store_word bo 4 b j (load_word bo 4 b j :: u32) = b"
proof -
  have "4 * j + 4 \<le> length b" using assms by simp
  then have "take (4 * j) b @ take 4 (drop (4 * j) b) @ drop (4 * j + 4) b = b"
    by (metis append_take_drop_id drop_drop add.commute)
  moreover have "length (take 4 (drop (4 * j) b)) = 4" using assms by simp
  ultimately show ?thesis
    using host_bytes_host_word [of "take 4 (drop (4 * j) b)" 4 bo, where 'a = 32]
    by (simp add: store_word_def load_word_def mem_copy_def)
qed

lemma blk0_store:
  assumes "length b = 64" "j < 16"
  shows "blk0 le bo j b = (sha1_fetch le bo b j, store_word bo 4 b j (sha1_fetch le bo b j))"
  using store_own_word [OF assms] by (simp add: blk0_eq sha1_fetch_def)

definition sha1_regs :: "nat \<Rightarrow> (nat \<Rightarrow> u32) \<Rightarrow> u32 list \<Rightarrow> u32 list" where
  "sha1_regs t W H = fold (sha1_step W) [0..<t] H"

lemma length_sha1_step [simp]: "length (sha1_step W t rs) = length rs"
  by (induction W t rs rule: sha1_step.induct) simp_all

lemma length_sha1_regs [simp]: "length (sha1_regs t W H) = length H"
  by (induction t) (simp_all add: sha1_regs_def)

lemma sha1_round_step:
  assumes "length rs = 5" and m: "(if sha1_op_at t = R0 then blk0 le bo t b else blk bo t b) = (W t, b')"
  shows "\<exists>rs'. sha1_round le bo (sha1_entry t) (rs, b) = (rs', b') \<and> length rs' = 5 \<and>
    rot5 (Suc t) rs' = sha1_step W t (rot5 t rs)"
proof -
  obtain c0 c1 c2 c3 c4 where "rot5 t rs = [c0, c1, c2, c3, c4]"
    by (simp add: rot5_def upt_rec)
  then show ?thesis
    using sha1_round_rot [OF assms(1), of t "sha1_mix (sha1_op_at t)" "W t" "sha1_const (sha1_op_at t)"] assms(1)
    by (simp add: sha1_entry_def m sha1_mix_f sha1_const_K Let_def)
qed

lemma sha1_blk_back:
  assumes "length b = 64" "circ_inv W t (buf32.words bo b)" "16 \<le> t" "k < 16"
  shows "load_word bo 4 b ((t + k) AND 15) = W (t + k - 16)"
  using circ_inv_back [OF assms(2-4)] by (simp add: and_15_mod buf32.words_nth)

lemma sha1_blk_word:
  assumes "length b = 64" "circ_inv (sha1_W M) t (buf32.words bo b)" "16 \<le> t"
  shows "blk bo t b = (sha1_W M t, store_word bo 4 b (t mod 16) (sha1_W M t))"
proof -
  have i: "t + 13 - 16 = t - 3" "t + 8 - 16 = t - 8" "t + 2 - 16 = t - 14" by simp_all
  have "rol (load_word bo 4 b ((t + 13) AND 15) XOR load_word bo 4 b ((t + 8) AND 15) XOR
      load_word bo 4 b ((t + 2) AND 15) XOR load_word bo 4 b (t AND 15)) 1 = sha1_W M t"
    using sha1_blk_back [OF assms, of 13] sha1_blk_back [OF assms, of 8] sha1_blk_back [OF assms, of 2]
      sha1_blk_back [OF assms, of 0] assms(3)
    by (simp only: sha1_W.simps [of M t] i) simp
  then show ?thesis by (simp add: blk_def Let_def and_15_mod)
qed

lemma sha1_rounds_inv:
  fixes le :: bool and bo :: byte_order
  assumes b: "length b = 64" and H: "length H = 5" and t: "t \<le> 80"
  defines "W \<equiv> sha1_W (sha1_fetch le bo b)"
  shows "\<exists>rs b'. fold (sha1_round le bo) (map sha1_entry [0..<t]) (H, b) = (rs, b') \<and> length rs = 5 \<and>
    rot5 t rs = sha1_regs t W H \<and> length b' = 64 \<and> circ_inv W t (buf32.words bo b') \<and>
    (\<forall>j < 16. t \<le> j \<longrightarrow> load_word bo 4 b' j = (load_word bo 4 b j :: u32))"
  using t
proof (induction t)
  case 0
  have "rot5 0 H = H" using H by (simp add: rot5_def list_eq_iff_nth_eq)
  then show ?case using b H by (simp add: sha1_regs_def circ_inv_0)
next
  case (Suc t)
  then obtain rs b1 where ih: "fold (sha1_round le bo) (map sha1_entry [0..<t]) (H, b) = (rs, b1)" "length rs = 5"
      "rot5 t rs = sha1_regs t W H" "length b1 = 64" "circ_inv W t (buf32.words bo b1)"
      "\<forall>j < 16. t \<le> j \<longrightarrow> load_word bo 4 b1 j = (load_word bo 4 b j :: u32)" by auto
  let ?b = "store_word bo 4 b1 (t mod 16) (W t)"
  have "(if sha1_op_at t = R0 then blk0 le bo t b1 else blk bo t b1) = (W t, ?b)"
  proof (cases "t < 16")
    case True
    then have "sha1_fetch le bo b1 t = W t"
      using ih(6) by (simp add: W_def sha1_W.simps [of _ t] sha1_fetch_def)
    then show ?thesis using True blk0_store [OF ih(4), of t le bo] by (simp add: sha1_op_at_def)
  next
    case False
    then show ?thesis
      using sha1_blk_word [of b1 "sha1_fetch le bo b" t bo] ih(4,5) by (simp add: W_def sha1_op_at_def)
  qed
  from sha1_round_step [OF ih(2), of t le bo b1 W ?b, OF this] obtain rs' where rs': "sha1_round le bo (sha1_entry t) (rs, b1) = (rs', ?b)"
      "length rs' = 5" "rot5 (Suc t) rs' = sha1_step W t (rot5 t rs)" by blast
  have "circ_inv W (Suc t) (buf32.words bo ?b)"
    using circ_inv_step [OF ih(5)] ih(4) by (simp add: buf32.words_put)
  moreover have "length ?b = 64" using buf32.wf_put [of b1 "t mod 16" bo] ih(4) by simp
  moreover have "load_word bo 4 ?b j = (load_word bo 4 b j :: u32)" if "j < 16" "Suc t \<le> j" for j
    using buf32.get_put [of b1 "t mod 16" j bo] that ih(4,6) by simp
  ultimately show ?case using ih(1,3) rs' by (auto simp: sha1_regs_def)
qed

lemma SHA1Transform_spec:
  assumes "length st = 5" "64 \<le> length buf" "length ws = 64"
  shows "fst (SHA1Transform le bo st buf ws) = sha1_compress (sha1_fetch le bo (take 64 buf)) st"
    and "length (snd (SHA1Transform le bo st buf ws)) = 64"
proof -
  have b: "mem_copy ws 0 (take 64 buf) = take 64 buf" using assms by (simp add: mem_copy_def)
  obtain rs b' where r: "fold (sha1_round le bo) sha1_rounds (st, take 64 buf) = (rs, b')" "length rs = 5"
      "rot5 80 rs = sha1_regs 80 (sha1_W (sha1_fetch le bo (take 64 buf))) st" "length b' = 64"
    using sha1_rounds_inv [of "take 64 buf" st 80 le bo] assms by (auto simp: sha1_rounds_entries)
  have "(i + 4 * 80) mod 5 = i mod 5" for i :: nat using mod_mult_self1 [of i 64 5] by simp
  then have "rot5 80 rs = rs" using r(2) by (simp add: rot5_def list_eq_iff_nth_eq)
  then show "fst (SHA1Transform le bo st buf ws) = sha1_compress (sha1_fetch le bo (take 64 buf)) st"
    and "length (snd (SHA1Transform le bo st buf ws)) = 64"
    using r by (simp_all add: SHA1Transform_def b sha1_compress_def sha1_regs_def)
qed

section \<open>Streaming\<close>

definition sha1_blockf :: "bool \<Rightarrow> byte_order \<Rightarrow> u32 list \<Rightarrow> byte list \<Rightarrow> u32 list" where
  "sha1_blockf le bo H b = sha1_compress (sha1_fetch le bo b) H"

definition sha1_inv :: "nat \<Rightarrow> SHA1_CTX \<times> byte list \<Rightarrow> bool" where
  "sha1_inv m s \<longleftrightarrow> length (state1 (fst s)) = 5 \<and> length (buffer1 (fst s)) = 64 \<and> length (snd s) = 64 \<and>
     dword (count1 (fst s)) = (of_nat (8 * m) :: u64)"

definition sha1_view :: "SHA1_CTX \<times> byte list \<Rightarrow> u32 list \<times> byte list" where
  "sha1_view s = (state1 (fst s), take (unat (sha1_used (fst s))) (buffer1 (fst s)))"

lemma length_sha1_compress [simp]: "length (sha1_compress M H) = length H"
  using length_sha1_regs [of 80 "sha1_W M" H] by (simp add: sha1_compress_def sha1_regs_def)

lemma length_sha1_blockf [simp]: "length (sha1_blockf le bo H b) = length H"
  by (simp add: sha1_blockf_def)

lemma sha1_count_adds: "dword (sha1_count p len) = dword p + (of_nat (8 * unat len) :: u64)"
proof -
  obtain c0 c1 where p: "p = (c0, c1)" by (cases p)
  have "unat (push_bit 3 len) = 8 * unat len mod 2 ^ 32"
    by (simp add: push_bit_eq_mult unat_word_ariths mult.commute)
  moreover have "unat (drop_bit 29 len) = unat len div 2 ^ 29"
    by (simp only: unat_drop_bit_eq) (simp add: drop_bit_eq_div)
  moreover have "8 * unat len mod 2 ^ 32 + 2 ^ 32 * (unat len div 2 ^ 29) = 8 * unat len"
  proof -
    have "unat len div 2 ^ 29 = 8 * unat len div 2 ^ 32" by (simp flip: div_mult_mult1 [of 8 "unat len" "2 ^ 29"])
    then show ?thesis using mod_mult_div_eq [of "8 * unat len" "2 ^ 32"] by simp
  qed
  ultimately have n: "unat (push_bit 3 len) + 2 ^ 32 * unat (drop_bit 29 len) = 8 * unat len" by simp
  have "dword (sha1_count p len) = dword (c0, c1) + (of_nat (unat (push_bit 3 len)) + of_nat (2 ^ 32 * unat (drop_bit 29 len)) :: u64)"
    using dword_low_add [where 'a = 32 and 'b = 64, of c0 "push_bit 3 len" c1]
      dword_high_add [where 'a = 32 and 'b = 64, of "c0 + push_bit 3 len" _ "drop_bit 29 len"]
    by (simp add: p sha1_count_def Let_def add.assoc)
  also have "\<dots> = dword p + of_nat (8 * unat len)" unfolding of_nat_add [symmetric] n p ..
  finally show ?thesis .
qed

lemma sha1_low_count:
  assumes "sha1_inv m s"
  shows "unat (fst (count1 (fst s))) div 8 mod 64 = m mod 64"
proof -
  have "fst (count1 (fst s)) = of_nat (8 * m)"
    using assms fst_dword [where 'a = 32 and 'b = 64, of "count1 (fst s)" "8 * m"] by (simp add: sha1_inv_def)
  then have "unat (fst (count1 (fst s))) div 8 = (8 * m mod (8 * 2 ^ 29)) div 8" by (simp only: unat_of_nat) simp
  also have "\<dots> = m mod 2 ^ 29" by (simp only: mult_mod_right [symmetric])
  finally show ?thesis by (simp add: mod_mod_cancel)
qed

lemma sha1_used_inv:
  assumes "sha1_inv m s"
  shows "unat (sha1_used (fst s)) = m mod 64"
proof -
  have "sha1_used (fst s) = take_bit 6 (drop_bit 3 (fst (count1 (fst s))))"
    by (simp add: sha1_used_def take_bit_eq_mask mask_eq_exp_minus_1)
  then have "unat (sha1_used (fst s)) = unat (fst (count1 (fst s))) div 8 mod 64"
    by (simp only: unsigned_take_bit_eq unat_drop_bit_eq) (simp add: take_bit_eq_mod drop_bit_eq_div)
  then show ?thesis using sha1_low_count [OF assms] by simp
qed

lemma sha1_whole_spec:
  assumes "length d = unat len" "64 dvd unat i + j" "j < 64" "j + unat len < 2 ^ 32" "unat i \<le> unat len"
    and "length (fst s) = 5" "length (snd s) = 64"
  shows "\<exists>st ws i'. sha1_whole le bo s d len i = Inr ((st, ws), i') \<and>
    md_blocks 64 (sha1_blockf le bo) (fst s) (drop (unat i) d) = (st, drop (unat i') d) \<and>
    unat i' \<le> unat len \<and> unat len < unat i' + 64 \<and> length st = 5 \<and> length ws = 64"
  using assms
proof (induction le bo s d len i rule: sha1_whole.induct)
  case (1 le bo s d len i)
  have "unat i + 64 + j \<le> 2 ^ 32"
  proof -
    obtain q where q: "unat i + j = 64 * q" using 1(3) by blast
    then have "64 * q < 64 * 2 ^ 26" using 1(5,6) by simp
    then have "q + 1 \<le> 2 ^ 26" by simp
    then show ?thesis using q by simp
  qed
  then have "unat (i + 63) = unat i + 63" by (simp add: unat_word_ariths)
  then have cond: "i + 63 < len \<longleftrightarrow> unat i + 64 \<le> unat len" unfolding word_less_nat_alt by auto
  show ?case
  proof (cases "i + 63 < len")
    case True
    then have le: "unat i + 64 \<le> unat len" by (simp add: cond)
    then have i64: "unat (i + 64) = unat i + 64" using 1(5) by (simp add: unat_word_ariths)
    let ?s = "SHA1Transform le bo (fst s) (drop (unat i) d) (snd s)"
    have tr: "fst ?s = sha1_blockf le bo (fst s) (take 64 (drop (unat i) d))" "length (snd ?s) = 64"
      using SHA1Transform_spec [of "fst s" "drop (unat i) d" "snd s" le bo] 1(2,7,8) le
      by (simp_all add: sha1_blockf_def)
    have "64 dvd unat (i + 64) + j" using 1(3) unfolding i64 by (metis add.assoc add.commute dvd_add_triv_right_iff)
    then have ih: "\<exists>st ws i'. sha1_whole le bo ?s d len (i + 64) = Inr ((st, ws), i') \<and>
        md_blocks 64 (sha1_blockf le bo) (fst ?s) (drop (unat (i + 64)) d) = (st, drop (unat i') d) \<and>
        unat i' \<le> unat len \<and> unat len < unat i' + 64 \<and> length st = 5 \<and> length ws = 64"
      using 1(1) [OF True] 1(2,4-8) le tr by (simp add: i64)
    moreover have "sha1_whole le bo s d len i = sha1_whole le bo ?s d len (i + 64)"
      using True le by (simp add: sha1_whole.simps [of le bo s d len i])
    moreover have "md_blocks 64 (sha1_blockf le bo) (fst s) (drop (unat i) d) =
        md_blocks 64 (sha1_blockf le bo) (fst ?s) (drop (unat (i + 64)) d)"
    proof -
      have "\<not> length (drop (unat i) d) < 64" using le 1(2) by auto
      then show ?thesis
        by (simp add: md_blocks.simps [of 64 _ "fst s"] tr i64 add.commute del: length_drop)
    qed
    ultimately show ?thesis by simp
  next
    case False
    then have "unat len < unat i + 64" by (simp add: cond)
    then show ?thesis
      using False 1(2,6,7,8) by (intro exI [of _ "fst s"] exI [of _ "snd s"] exI [of _ i])
        (simp add: sha1_whole.simps [of le bo s d len i] md_blocks_short)
  qed
qed

text \<open>
  The update of a context with \<open>m\<close> bytes behind it, as long as the sum of the buffered and
  the new bytes does not wrap.
\<close>

lemma SHA1Update_spec:
  assumes inv: "sha1_inv m s" and d: "m mod 64 + length d < 2 ^ 32"
  shows "\<exists>s'. SHA1Update le bo s d (of_nat (length d)) = Inr s' \<and> sha1_inv (m + length d) s' \<and>
    sha1_view s' = md_blocks 64 (sha1_blockf le bo) (fst (sha1_view s)) (snd (sha1_view s) @ d)"
proof -
  obtain c ws where s: "s = (c, ws)" by (cases s)
  define len :: u32 where "len = of_nat (length d)"
  define j where "j = sha1_used c"
  define c1 where "c1 = c\<lparr>count1 := sha1_count (count1 c) len\<rparr>"
  have len: "unat len = length d" using d by (simp add: len_def unat_of_nat)
  have j: "unat j = m mod 64" "unat j < 64" using sha1_used_inv [OF inv] by (simp_all add: j_def s)
  have cnt: "dword (count1 c1) = (of_nat (8 * (m + length d)) :: u64)"
    using inv by (simp add: c1_def sha1_count_adds len s sha1_inv_def distrib_left)
  have wf: "length (state1 c) = 5" "length (buffer1 c) = 64" "length ws = 64" using inv by (simp_all add: sha1_inv_def s)
  have "unat (j + len) = unat j + length d" using d j len by (simp add: unat_word_ariths)
  then have cond: "63 < j + len \<longleftrightarrow> 64 \<le> unat j + length d" by (auto simp: word_less_nat_alt)
  have fin: "sha1_inv (m + length d) (c', ws') \<and> sha1_view (c', ws') = (H, r)"
    if "count1 c' = count1 c1" "state1 c' = H" "length H = 5" "length (buffer1 c') = 64" "length ws' = 64"
      "r = take ((m + length d) mod 64) (buffer1 c')" for c' ws' H r
  proof -
    have "sha1_inv (m + length d) (c', ws')" using that cnt by (simp add: sha1_inv_def)
    then show ?thesis using sha1_used_inv that by (fastforce simp: sha1_view_def)
  qed
  have view: "sha1_view s = (state1 c, take (unat j) (buffer1 c))" by (simp add: sha1_view_def s j_def)
  show ?thesis
  proof (cases "63 < j + len")
    case False
    let ?c = "c1\<lparr>buffer1 := mem_copy (buffer1 c) (unat j) d\<rparr>"
    have short: "unat j + length d < 64" using False by (simp add: cond)
    have "SHA1Update le bo s d len = Inr (?c, ws)"
      using False short by (simp add: SHA1Update_def s j_def [symmetric] c1_def [symmetric] sha1_keep_rest_def len Let_def)
        (simp add: c1_def)
    moreover have "(m + length d) mod 64 = unat j + length d"
      using short j mod_add_left_eq [of m 64 "length d"] by simp
    moreover have "md_blocks 64 (sha1_blockf le bo) (state1 c) (take (unat j) (buffer1 c) @ d) =
        (state1 c, take (unat j) (buffer1 c) @ d)"
      using short wf by (simp add: md_blocks_short)
    ultimately show ?thesis
      using fin [of ?c "state1 c" ws "take (unat j) (buffer1 c) @ d"] wf short
      by (simp add: view len_def c1_def mem_simps)
  next
    case True
    let ?n = "64 - unat j"
    define B where "B = take (unat j) (buffer1 c) @ take ?n d"
    have full: "?n \<le> length d" using True j by (simp add: cond)
    have i: "unat (64 - j) = ?n" using j by (simp add: unat_sub word_le_nat_alt)
    have blk: "mem_copy (buffer1 c) (unat j) (take ?n d) = B" "length B = 64"
      and split: "take (unat j) (buffer1 c) @ d = B @ drop ?n d"
      using wf full j by (simp_all add: mem_simps B_def)
    define s1 where "s1 = SHA1Transform le bo (state1 c) B ws"
    have s1: "fst s1 = sha1_blockf le bo (state1 c) B" "length (snd s1) = 64"
      using SHA1Transform_spec [of "state1 c" B ws le bo] wf blk(2) by (simp_all add: s1_def sha1_blockf_def)
    have "length (fst s1) = 5" using wf s1 by simp
    moreover have "64 dvd unat (64 - j) + unat j" using j i by simp
    ultimately obtain st ws' i' where w: "sha1_whole le bo s1 d len (64 - j) = Inr ((st, ws'), i')"
        "md_blocks 64 (sha1_blockf le bo) (fst s1) (drop ?n d) = (st, drop (unat i') d)"
        "unat i' \<le> length d" "length d < unat i' + 64" "length st = 5" "length ws' = 64"
      using sha1_whole_spec [of d len "64 - j" "unat j" s1 le bo] d j len full s1(2) by (auto simp: i)
    define r where "r = drop (unat i') d"
    define c2 where "c2 = c1\<lparr>buffer1 := mem_copy B 0 r, state1 := st\<rparr>"
    have rest: "unat (len - i') = length r" "take (length r) (drop (unat i') d) = r"
      using w(3) len by (simp_all add: r_def unat_sub word_le_nat_alt)
    have r64: "length r < 64" using w(3,4) by (simp add: r_def)
    have "SHA1Update le bo s d len = Inr (c2, ws')"
    proof -
      have "64 - unat j \<le> unat len" using full len by simp
      then show ?thesis
        using True w(1) r64 blk(1)
        by (simp add: SHA1Update_def s j_def [symmetric] i len Let_def sha1_keep_rest_def rest s1_def)
          (simp add: c1_def c2_def)
    qed
    have md: "md_blocks 64 (sha1_blockf le bo) (state1 c) (take (unat j) (buffer1 c) @ d) = (st, r)"
      using md_blocks_block [of 64 B "sha1_blockf le bo" "state1 c" "drop ?n d"] blk(2) w(2) s1(1)
      by (simp add: split r_def)
    have rr: "r = take ((m + length d) mod 64) (buffer1 c2)"
    proof -
      have "length r = (unat j + length d) mod 64"
        using md md_blocks_rest_length [of 64 "sha1_blockf le bo" "state1 c" "take (unat j) (buffer1 c) @ d"] wf j(2)
        by simp
      also have "\<dots> = (m + length d) mod 64" by (simp only: j(1) mod_add_left_eq)
      finally show ?thesis using r64 blk(2) by (simp add: c2_def mem_copy_def)
    qed
    have "sha1_inv (m + length d) (c2, ws') \<and> sha1_view (c2, ws') = (st, r)"
      by (rule fin [OF _ _ _ _ _ rr]) (use w(5,6) r64 blk(2) in \<open>simp_all add: c2_def length_mem_copy\<close>)
    then show ?thesis
      using \<open>SHA1Update le bo s d len = Inr (c2, ws')\<close> md by (simp add: view len_def)
  qed
qed

section \<open>Padding and digest\<close>

lemma sha1_view_rest: "sha1_inv m s \<Longrightarrow> length (snd (sha1_view s)) < 64"
  using sha1_used_inv [of m s] by (simp add: sha1_view_def sha1_inv_def min_less_iff_disj)

lemma sha1_view_same:
  "sha1_inv m s \<Longrightarrow> md_blocks 64 f (fst (sha1_view s)) (snd (sha1_view s)) = sha1_view s"
  using sha1_view_rest [of m s] by (simp add: md_blocks_short)

lemma sha1_pad_loop_spec:
  "sha1_inv m s \<Longrightarrow> z = (120 - m mod 64) mod 64 \<Longrightarrow> \<exists>s'. sha1_pad_loop le bo s = Inr s' \<and> sha1_inv (m + z) s' \<and>
    sha1_view s' = md_blocks 64 (sha1_blockf le bo) (fst (sha1_view s)) (snd (sha1_view s) @ replicate z 0)"
proof (induction le bo s arbitrary: m z rule: sha1_pad_loop.induct)
  case (1 le bo s)
  have cond: "fst (count1 (fst s)) AND 504 = 448 \<longleftrightarrow> m mod 64 = 56"
    by (simp add: and_504 sha1_low_count [OF 1(2)])
  show ?case
  proof (cases "m mod 64 = 56")
    case True
    then show ?thesis
      using 1(2,3) cond sha1_view_same [OF 1(2)] by (simp add: sha1_pad_loop.simps [of le bo s])
  next
    case False
    have "m mod 64 + length [0 :: byte] < 2 ^ 32" using mod_less_divisor [of 64 m] by simp
    from SHA1Update_spec [OF 1(2) this, of le bo] obtain s1 where s1: "SHA1Update le bo s [0] 1 = Inr s1" "sha1_inv (m + 1) s1"
        "sha1_view s1 = md_blocks 64 (sha1_blockf le bo) (fst (sha1_view s)) (snd (sha1_view s) @ [0])" by auto
    define z1 where "z1 = (120 - (m + 1) mod 64) mod 64"
    have "Suc ((120 - (m mod 64 + 1) mod 64) mod 64) = z" using sha1_pad_step [of "m mod 64"] False 1(3) by simp
    then have z: "z = Suc z1" by (simp only: z1_def mod_add_left_eq)
    from 1(1) [OF _ s1(1) s1(2) z1_def] False cond obtain s' where s': "sha1_pad_loop le bo s1 = Inr s'" "sha1_inv (m + 1 + z1) s'"
        "sha1_view s' = md_blocks 64 (sha1_blockf le bo) (fst (sha1_view s1)) (snd (sha1_view s1) @ replicate z1 0)" by auto
    have "sha1_pad_loop le bo s = Inr s'" using False cond s1(1) s'(1) by (simp add: sha1_pad_loop.simps [of le bo s])
    moreover have "sha1_view s' = md_blocks 64 (sha1_blockf le bo) (fst (sha1_view s)) (snd (sha1_view s) @ replicate z 0)"
      using md_blocks_append [of 64 "sha1_blockf le bo" "fst (sha1_view s)" "snd (sha1_view s) @ [0]" "replicate z1 0"] s1(3) s'(3) z
      by simp
    ultimately show ?thesis using s'(2) z by simp
  qed
qed

lemma ucast_and_255: "ucast (x AND 255) = (ucast (x :: u32) :: byte)"
proof -
  have "(255 :: u32) = mask 8" by (simp add: mask_eq_exp_minus_1)
  then show ?thesis by (simp add: bit_eq_iff bit_simps)
qed

lemma sha1_finalcount_eq: "sha1_finalcount p = be_bytes 8 (dword p :: u64)"
proof -
  have "[0..<8] = [0, 1, 2, 3, 4, 5, 6, 7 :: nat]" "[0..<4] = [0, 1, 2, 3 :: nat]" by (simp_all add: upt_rec)
  then have "sha1_finalcount p = be_bytes 4 (snd p) @ be_bytes 4 (fst p)"
    by (simp add: sha1_finalcount_def be_bytes_def ucast_and_255)
  then show ?thesis
    using be_bytes_dword [where 'a = 32 and 'b = 64 and n = 4, of "fst p" "snd p"] by simp
qed

definition sha1_out :: "u32 list \<Rightarrow> byte list" where
  "sha1_out H = concat (map (be_bytes 4) H)"

lemma sha1_digest_bytes_eq:
  assumes "length H = 5"
  shows "sha1_digest_bytes H = sha1_out H"
proof -
  obtain a b c d e where H: "H = [a, b, c, d, e]" using assms by (auto simp: numeral_eq_Suc length_Suc_conv)
  have "[0..<20] = [0, 1, 2, 3, 4, 5, 6, 7, 8, 9, 10, 11, 12, 13, 14, 15, 16, 17, 18, 19 :: nat]"
    "[0..<4] = [0, 1, 2, 3 :: nat]" by (simp_all add: upt_rec)
  then show ?thesis
    by (simp add: sha1_digest_bytes_def sha1_out_def be_bytes_def ucast_and_255 H drop_bit_eq_div [where 'a = nat])
qed

definition sha1_length_field :: "nat \<Rightarrow> byte list" where
  "sha1_length_field m = be_bytes 8 (of_nat (8 * m) :: u64)"

lemma sha1_wiped_workspace:
  assumes "length ws = 64"
  shows "sha1_wiped le bo ws = sha1_wiped le bo (replicate 64 0)"
  using assms by (simp add: sha1_wiped_def SHA1Transform_def mem_copy_def)

lemma SHA1Final_spec:
  assumes inv: "sha1_inv m s"
  shows "SHA1Final le bo s = Inr (sha1_out (fst (md_blocks 64 (sha1_blockf le bo) (fst (sha1_view s))
    (snd (sha1_view s) @ md_pad 64 m (sha1_length_field m)))), sha1_wiped le bo (replicate 64 0))"
proof -
  let ?f = "sha1_blockf le bo" and ?lf = "sha1_length_field m"
  have fc: "sha1_finalcount (count1 (fst s)) = ?lf"
    using inv by (simp add: sha1_finalcount_eq sha1_inv_def sha1_length_field_def)
  have small: "k mod 64 + length x < 2 ^ 32" if "length x \<le> 8" for k :: nat and x :: "byte list"
  proof -
    have "k mod 64 < 64" by simp
    with that have "k mod 64 + length x < 72" by linarith
    then show ?thesis by simp
  qed
  from SHA1Update_spec [OF inv small, of "[0x80]" le bo] obtain s1 where s1: "SHA1Update le bo s [0x80] 1 = Inr s1"
      "sha1_inv (m + 1) s1" "sha1_view s1 = md_blocks 64 ?f (fst (sha1_view s)) (snd (sha1_view s) @ [0x80])" by auto
  define z where "z = (120 - (m + 1) mod 64) mod 64"
  from sha1_pad_loop_spec [OF s1(2) z_def, of le bo] obtain s2 where s2: "sha1_pad_loop le bo s1 = Inr s2"
      "sha1_inv (m + 1 + z) s2" "sha1_view s2 = md_blocks 64 ?f (fst (sha1_view s1)) (snd (sha1_view s1) @ replicate z 0)"
    by blast
  have "length ?lf = 8" by (simp add: sha1_length_field_def)
  with SHA1Update_spec [OF s2(2) small, of ?lf le bo] obtain s3 where s3: "SHA1Update le bo s2 ?lf 8 = Inr s3"
      "sha1_inv (m + 1 + z + 8) s3" "sha1_view s3 = md_blocks 64 ?f (fst (sha1_view s2)) (snd (sha1_view s2) @ ?lf)" by auto
  have "z = (119 - m mod 64) mod 64"
  proof -
    have "(120 - (u + 1) mod 64) mod 64 = (119 - u) mod (64 :: nat)" if "u < 64" for u
      using that by (cases "u = 63") simp_all
    then show ?thesis unfolding z_def by (metis mod_add_left_eq mod_less_divisor zero_less_numeral)
  qed
  then have pad: "md_pad 64 m ?lf = [0x80] @ replicate z 0 @ ?lf"
    using \<open>length ?lf = 8\<close> by (simp add: md_pad_def)
  have "sha1_view s3 = md_blocks 64 ?f (fst (sha1_view s)) (snd (sha1_view s) @ md_pad 64 m ?lf)"
    using md_blocks_append [of 64 ?f "fst (sha1_view s)" "snd (sha1_view s) @ [0x80]" "replicate z 0"]
      md_blocks_append [of 64 ?f "fst (sha1_view s)" "snd (sha1_view s) @ [0x80] @ replicate z 0" ?lf]
    by (simp add: pad s1(3) s2(3) s3(3))
  moreover have "sha1_digest_bytes (state1 (fst s3)) = sha1_out (fst (sha1_view s3))" "length (snd s3) = 64"
    using s3(2) by (simp_all add: sha1_view_def sha1_inv_def sha1_digest_bytes_eq)
  ultimately show ?thesis
    using sha1_wiped_workspace [of "snd s3"] by (simp add: SHA1Final_def fc s1(1) s2(1) s3(1))
qed

section \<open>The reference\<close>

definition compress1 :: "u32 list \<Rightarrow> byte list \<Rightarrow> u32 list" where
  "compress1 H b = sha1_compress (\<lambda>j. be_word (take 4 (drop (4 * j) b))) H"

text \<open>The SHA-1 of FIPS 180-4 on byte strings.\<close>

definition sha1_ref :: "byte list \<Rightarrow> byte list" where
  "sha1_ref msg = md_hash 64 compress1 SHA1_IV sha1_length_field sha1_out msg"

lemma sha1_W_cong:
  assumes "\<And>j. j < 16 \<Longrightarrow> M j = M' j"
  shows "sha1_W M t = sha1_W M' t"
proof (induction t rule: less_induct)
  case (less t)
  then show ?case using assms by (cases "t < 16") (simp_all add: sha1_W.simps [of _ t])
qed

lemma sha1_compress_cong: "(\<And>j. j < 16 \<Longrightarrow> M j = M' j) \<Longrightarrow> sha1_compress M H = sha1_compress M' H"
  unfolding sha1_compress_def using sha1_W_cong [of M M'] by presburger

lemma sha1_blockf_host:
  assumes "length b = 64"
  shows "sha1_blockf (bo = LITTLE_ENDIAN) bo H b = compress1 H b"
  unfolding sha1_blockf_def compress1_def
proof (rule sha1_compress_cong)
  fix j :: nat assume "j < 16"
  then have "length (take 4 (drop (4 * j) b)) = 4" using assms by simp
  then show "sha1_fetch (bo = LITTLE_ENDIAN) bo b j = be_word (take 4 (drop (4 * j) b))"
    using net32_host_word [of "take 4 (drop (4 * j) b)" bo] by (cases bo) (simp_all add: sha1_fetch_def load_word_def net32_def)
qed

lemma md_blocks_cong:
  "(\<And>h x. length x = n \<Longrightarrow> f h x = g h x) \<Longrightarrow> md_blocks n f h xs = md_blocks n g h xs"
proof (induction n f h xs rule: md_blocks.induct)
  case (1 n f h xs)
  then show ?case by (cases "n = 0 \<or> length xs < n") (auto simp: md_blocks.simps [of n _ h xs])
qed

definition sha1_feed ::
  "bool \<Rightarrow> byte_order \<Rightarrow> SHA1_CTX \<times> byte list \<Rightarrow> byte list \<Rightarrow> c_fault + SHA1_CTX \<times> byte list" where
  "sha1_feed le bo s d = SHA1Update le bo s d (of_nat (length d))"

text \<open>Any contents of a 64-byte memory.\<close>

definition mem64 :: "byte list \<Rightarrow> byte list" where
  "mem64 xs = take 64 (xs @ replicate 64 0)"

lemma mem64_id: "length xs = 64 \<Longrightarrow> mem64 xs = xs" and length_mem64: "length (mem64 xs) = 64"
  by (simp_all add: mem64_def)

interpretation sha1: md_digest 64 "sha1_blockf le bo" SHA1_IV
  "(SHA1Init (local\<lparr>buffer1 := mem64 b0\<rparr>), mem64 ws)" "sha1_feed le bo" sha1_view sha1_inv "\<lambda>d. length d + 63 < 2 ^ 32"
  "SHA1Final le bo" sha1_length_field "\<lambda>H. Inr (sha1_out H, sha1_wiped le bo (replicate 64 0))"
  for le bo and local :: SHA1_CTX and b0 ws
proof unfold_locales
  show "sha1_inv 0 (SHA1Init (local\<lparr>buffer1 := mem64 b0\<rparr>), mem64 ws)"
    and "sha1_view (SHA1Init (local\<lparr>buffer1 := mem64 b0\<rparr>), mem64 ws) = (SHA1_IV, [])"
    by (simp_all add: sha1_inv_def sha1_view_def sha1_used_def SHA1Init_def SHA1_IV_def length_mem64 dword.simps)
next
  fix m s and d :: "byte list"
  assume "sha1_inv m s" "length d + 63 < 2 ^ 32"
  moreover have "m mod 64 \<le> 63" using mod_less_divisor [of 64 m] by simp
  ultimately show "\<exists>s'. sha1_feed le bo s d = Inr s' \<and> sha1_inv (m + length d) s' \<and>
      sha1_view s' = md_blocks 64 (sha1_blockf le bo) (fst (sha1_view s)) (snd (sha1_view s) @ d)"
    unfolding sha1_feed_def by (intro SHA1Update_spec) simp_all
qed (simp_all add: SHA1Final_spec)

section \<open>Properties\<close>

text \<open>
  C4 (refinement): with \<^verbatim>\<open>LITTLE_ENDIAN\<close> defined on little-endian hosts and only there, a
  context fed with a message in chunks of less than \<open>2 ^ 32 - 63\<close> bytes gives the SHA-1 of
  FIPS 180-4 of the concatenated chunks, and what is left of the context and of the static
  workspace does not depend on the message.
\<close>

theorem SHA1_stream_hash:
  assumes "length (buffer1 local) = 64" "length ws = 64" "list_all (\<lambda>d. length d + 63 < 2 ^ 32) ds"
  shows "\<exists>s. feed_all (sha1_feed (bo = LITTLE_ENDIAN) bo) (SHA1Init local, ws) ds = Inr s \<and>
    SHA1Final (bo = LITTLE_ENDIAN) bo s =
      Inr (sha1_ref (concat ds), sha1_wiped (bo = LITTLE_ENDIAN) bo (replicate 64 0))"
proof -
  have "md_blocks 64 (sha1_blockf (bo = LITTLE_ENDIAN) bo) SHA1_IV xs = md_blocks 64 compress1 SHA1_IV xs" for xs
    by (rule md_blocks_cong) (rule sha1_blockf_host)
  then show ?thesis
    using sha1.stream_hash [where le = "bo = LITTLE_ENDIAN" and bo = bo and local = local and ?b0.0 = "buffer1 local" and ws = ws, OF assms(3)]
      assms(1,2)
    by (simp add: mem64_id sha1_ref_def md_hash_def)
qed

theorem SHA1_stream_hash_witness:
  "\<exists>s. feed_all (sha1_feed True LITTLE_ENDIAN)
      (SHA1Init \<lparr>state1 = [], count1 = (7, 7), buffer1 = replicate 64 1\<rparr>, replicate 64 2) [[0x61], [], [0x62, 0x63]] = Inr s \<and>
    SHA1Final True LITTLE_ENDIAN s = Inr (sha1_ref [0x61, 0x62, 0x63], sha1_wiped True LITTLE_ENDIAN (replicate 64 0))"
  using SHA1_stream_hash [of "\<lparr>state1 = [], count1 = (7, 7), buffer1 = replicate 64 1\<rparr>" "replicate 64 2"
      "[[0x61], [], [0x62, 0x63]]" LITTLE_ENDIAN] by simp

text \<open>
  C5 (safety): an update of a context that has \<open>m\<close> bytes behind it writes outside of its
  buffer exactly when the number of buffered bytes plus the length of the data reaches
  \<open>2 ^ 32\<close>, where the sum \<^verbatim>\<open>j + len\<close> of the code wraps; below that it never faults.
\<close>

theorem SHA1Update_overrun_iff:
  assumes inv: "sha1_inv m s" and d: "length d < 2 ^ 32"
  shows "SHA1Update le bo s d (of_nat (length d)) = Inl Overrun \<longleftrightarrow> 2 ^ 32 \<le> m mod 64 + length d"
proof (cases "m mod 64 + length d < 2 ^ 32")
  case True
  then show ?thesis using SHA1Update_spec [OF inv True, of le bo] by auto
next
  case False
  obtain c ws where s: "s = (c, ws)" by (cases s)
  define len :: u32 where "len = of_nat (length d)"
  have len: "unat len = length d" using d by (simp add: len_def unat_of_nat)
  have j: "unat (sha1_used c) = m mod 64" "m mod 64 < 64" using sha1_used_inv [OF inv] by (simp_all add: s)
  have "unat (sha1_used c + len) = (m mod 64 + length d) mod 2 ^ 32" using j len by (simp add: unat_word_ariths)
  also have "\<dots> = m mod 64 + length d - 2 ^ 32" using False d j(2) by (simp add: le_mod_geq)
  also have "\<dots> < 63" using d j(2) by linarith
  finally have "\<not> 63 < sha1_used c + len" by (simp add: word_less_nat_alt)
  moreover have "64 < unat (sha1_used c) + unat len" using False j len by simp
  ultimately have "SHA1Update le bo s d len = Inl Overrun"
    using len by (simp add: SHA1Update_def s sha1_keep_rest_def Let_def)
  then show ?thesis using False by (simp add: len_def)
qed

theorem SHA1Update_overrun_iff_witness:
  "SHA1Update True LITTLE_ENDIAN (\<lparr>state1 = SHA1_IV, count1 = (8, 0), buffer1 = replicate 64 0\<rparr>, replicate 64 0)
     (replicate (2 ^ 32 - 1) 0) (of_nat (2 ^ 32 - 1)) = Inl Overrun"
proof -
  let ?s = "(\<lparr>state1 = SHA1_IV, count1 = (8, 0), buffer1 = replicate 64 0\<rparr>, replicate 64 0) :: SHA1_CTX \<times> byte list"
  have "sha1_inv 1 ?s" by (simp add: sha1_inv_def SHA1_IV_def dword.simps)
  then show ?thesis using SHA1Update_overrun_iff [of 1 ?s "replicate (2 ^ 32 - 1) 0" True LITTLE_ENDIAN] by simp
qed

text \<open>A form of the rotation that evaluates to a reduced numeral.\<close>

lemma rol_code [code]:
  "rol x n = (let k = uint x in word_of_int (take_bit 32 (push_bit n k) OR drop_bit (32 - n) k))"
  by (rule bit_word_eqI) (auto simp: rol_def Let_def bit_simps)

text \<open>
  The transform of the padded message \<open>abc\<close> gives the digest that the
  header comment of \<^verbatim>\<open>sha1.c\<close> lists.
\<close>

theorem SHA1Transform_abc:
  "fst (SHA1Transform True LITTLE_ENDIAN SHA1_IV ([0x61, 0x62, 0x63, 0x80] @ replicate 59 0 @ [24]) (replicate 64 0)) =
     [0xA9993E36, 0x4706816A, 0xBA3E2571, 0x7850C26C, 0x9CD0D89D]"
  by code_simp

text \<open>
  With \<^verbatim>\<open>LITTLE_ENDIAN\<close> defined on a big-endian host, as \<^verbatim>\<open>sys/types.h\<close> defines it
  everywhere, the transform reverses words that are already in the right order, and the
  digest of \<open>abc\<close> is not the SHA-1.
\<close>

theorem SHA1Transform_big_endian_wrong:
  "fst (SHA1Transform True BIG_ENDIAN SHA1_IV ([0x61, 0x62, 0x63, 0x80] @ replicate 59 0 @ [24]) (replicate 64 0)) \<noteq>
     [0xA9993E36, 0x4706816A, 0xBA3E2571, 0x7850C26C, 0x9CD0D89D]"
  by code_simp

text \<open>
  After \<^verbatim>\<open>SHA1Final\<close> the context and the static workspace hold the same bytes
  whatever message was hashed.
\<close>

theorem SHA1Final_wipes:
  assumes "sha1_inv m s" "sha1_inv m' s'"
  shows "map_sum id snd (SHA1Final le bo s) = map_sum id snd (SHA1Final le bo s')"
  by (simp add: SHA1Final_spec [OF assms(1)] SHA1Final_spec [OF assms(2)])

theorem SHA1Final_wipes_witness:
  "map_sum id snd (SHA1Final True LITTLE_ENDIAN
      (\<lparr>state1 = SHA1_IV, count1 = (0, 0), buffer1 = replicate 64 0\<rparr>, replicate 64 0)) =
   map_sum id snd (SHA1Final True LITTLE_ENDIAN
      (\<lparr>state1 = SHA1_IV, count1 = (8, 0), buffer1 = replicate 64 7\<rparr>, replicate 64 9))"
proof -
  have "sha1_inv 0 (\<lparr>state1 = SHA1_IV, count1 = (0, 0), buffer1 = replicate 64 0\<rparr>, replicate 64 0)"
    "sha1_inv 1 (\<lparr>state1 = SHA1_IV, count1 = (8, 0), buffer1 = replicate 64 7\<rparr>, replicate 64 9)"
    by (simp_all add: sha1_inv_def SHA1_IV_def dword.simps)
  then show ?thesis by (rule SHA1Final_wipes)
qed

end
