(* ===== verification/LuaApi.thy ===== *)
theory LuaApi
  imports E2_Prelude Complex_Main
begin

text \<open>
  The part of the Lua C API (\<^verbatim>\<open>lapi.c\<close>, \<^verbatim>\<open>lauxlib.c\<close>, \<^verbatim>\<open>lobject.c\<close>) that the C modules of
  e2factory call. A \<open>lua_State\<close> holds the stack frame of the running C function, the heap of
  tables and userdata, the variable \<^verbatim>\<open>errno\<close>, the static variables of the module (\<open>statics\<close>)
  and the rest of the process and the operating system (\<open>world\<close>). Slots above the top keep
  the values that were left there. Tables are maps with a default of nil, together
  with the size of their array part, which \<^verbatim>\<open>luaH_getn\<close> depends on; assignments do not follow
  how the array part grows when a table is rehashed, so these two fields are meaningful for
  tables a C function gets as arguments. Numbers are finite doubles, as rationals. Allocation
  is taken to succeed, and the error that a raw assignment with a nil or NaN key raises is
  left out: the modules use string and integer keys.
\<close>

section \<open>Values and state\<close>

type_synonym lua_Number = rat

datatype lua_value =
    LNil
  | LBoolean bool
  | LLightuserdata nat
  | LNumber lua_Number
  | LString string
  | LTable nat
  | LCFunction string
  | LLuaFunction nat
  | LUserdata nat
  | LThread nat

definition LUA_TNONE :: int where "LUA_TNONE = -1"
definition LUA_TNIL :: int where "LUA_TNIL = 0"
definition LUA_TBOOLEAN :: int where "LUA_TBOOLEAN = 1"
definition LUA_TLIGHTUSERDATA :: int where "LUA_TLIGHTUSERDATA = 2"
definition LUA_TNUMBER :: int where "LUA_TNUMBER = 3"
definition LUA_TSTRING :: int where "LUA_TSTRING = 4"
definition LUA_TTABLE :: int where "LUA_TTABLE = 5"
definition LUA_TFUNCTION :: int where "LUA_TFUNCTION = 6"
definition LUA_TUSERDATA :: int where "LUA_TUSERDATA = 7"
definition LUA_TTHREAD :: int where "LUA_TTHREAD = 8"

lemmas lua_types = LUA_TNONE_def LUA_TNIL_def LUA_TBOOLEAN_def LUA_TLIGHTUSERDATA_def LUA_TNUMBER_def
  LUA_TSTRING_def LUA_TTABLE_def LUA_TFUNCTION_def LUA_TUSERDATA_def LUA_TTHREAD_def

definition LUA_REGISTRYINDEX :: int where "LUA_REGISTRYINDEX = -10000"
definition LUA_GLOBALSINDEX :: int where "LUA_GLOBALSINDEX = -10002"
definition LUA_MINSTACK :: nat where "LUA_MINSTACK = 20"

fun ttype :: "lua_value \<Rightarrow> int" where
  "ttype LNil = LUA_TNIL"
| "ttype (LBoolean b) = LUA_TBOOLEAN"
| "ttype (LLightuserdata p) = LUA_TLIGHTUSERDATA"
| "ttype (LNumber n) = LUA_TNUMBER"
| "ttype (LString s) = LUA_TSTRING"
| "ttype (LTable t) = LUA_TTABLE"
| "ttype (LCFunction f) = LUA_TFUNCTION"
| "ttype (LLuaFunction f) = LUA_TFUNCTION"
| "ttype (LUserdata u) = LUA_TUSERDATA"
| "ttype (LThread t) = LUA_TTHREAD"

definition l_isfalse :: "lua_value \<Rightarrow> bool" where
  "l_isfalse v \<longleftrightarrow> v = LNil \<or> v = LBoolean False"

record Table =
  tget :: "lua_value \<Rightarrow> lua_value"
  sizearray :: nat
  dummynode :: bool
  metatable :: "nat option"

text \<open>The block of a full userdata, as the modules that own it read it, and its metatable.\<close>

record 'u Udata =
  ublock :: 'u
  ulen :: nat
  umeta :: "nat option"

record ('u, 's, 'w) lua_State =
  slots :: "nat \<Rightarrow> lua_value"
  top :: nat
  ci_top :: nat
  overrun :: bool
  tables :: "nat \<Rightarrow> Table"
  next_table :: nat
  udata :: "nat \<Rightarrow> 'u Udata"
  next_udata :: nat
  registry :: nat
  globals :: nat
  gmt :: "int \<Rightarrow> nat option"
  errno :: int
  statics :: 's
  world :: 'w

text \<open>
  Errors carry the message without the position and function name that \<^verbatim>\<open>luaL_where\<close> and
  \<^verbatim>\<open>luaL_argerror\<close> take from the debug information of the calling Lua code.
\<close>

datatype lua_err = Arg_error int string | Run_error string

text \<open>How a C function ends: results on the stack, a Lua error, the process gone, or undefined behaviour.\<close>

datatype lua_ret = Return nat | Raise lua_err | Exit int | Exec string "string list" | Undefined string

text \<open>The functions of the C library that the conversions of numbers use, and the interpreter
  for tag methods that are Lua functions.\<close>

record ('u, 's, 'w) lua_env =
  strtod :: "string \<Rightarrow> lua_Number \<times> nat"
  strtoul16 :: "string \<Rightarrow> nat \<times> nat"
  number2str :: "lua_Number \<Rightarrow> string"
  callTMres :: "lua_value \<Rightarrow> lua_value \<Rightarrow> lua_value \<Rightarrow> ('u, 's, 'w) lua_State \<Rightarrow>
    (lua_err + lua_value) \<times> ('u, 's, 'w) lua_State"
  callTM :: "lua_value \<Rightarrow> lua_value \<Rightarrow> lua_value \<Rightarrow> lua_value \<Rightarrow> ('u, 's, 'w) lua_State \<Rightarrow>
    (lua_err + unit) \<times> ('u, 's, 'w) lua_State"

text \<open>Run a continuation unless there was an error.\<close>

definition check :: "(lua_err + 'a) \<times> 'l \<Rightarrow> ('a \<Rightarrow> 'l \<Rightarrow> lua_ret \<times> 'l) \<Rightarrow> lua_ret \<times> 'l" where
  "check m k = (case m of (Inl e, L) \<Rightarrow> (Raise e, L) | (Inr a, L) \<Rightarrow> k a L)"

lemma check_simps [simp]: "check (Inl e, L) k = (Raise e, L)" "check (Inr a, L) k = k a L"
  by (simp_all add: check_def)

section \<open>C strings and integers\<close>

definition c_str :: "string \<Rightarrow> string" where
  "c_str s = takeWhile (\<lambda>c. c \<noteq> CHR 0x00) s"

definition c_int :: "int \<Rightarrow> int" where
  "c_int n = sint (word_of_int n :: 32 word)"

definition c_size_t :: "int \<Rightarrow> nat" where
  "c_size_t n = unat (word_of_int n :: 64 word)"

text \<open>
  An integer converted to a double: rounded to 53 significant bits, to even on a tie.
\<close>

fun excess_bits :: "nat \<Rightarrow> nat" where
  "excess_bits m = (if m < 2 ^ 53 then 0 else Suc (excess_bits (m div 2)))"

declare excess_bits.simps [simp del]

definition cast_num :: "int \<Rightarrow> lua_Number" where
  "cast_num n =
     (let m = nat \<bar>n\<bar>;
          e = excess_bits m;
          q = m div 2 ^ e;
          r = m mod 2 ^ e;
          q = (if 2 ^ e < 2 * r \<or> 2 ^ e = 2 * r \<and> odd q then q + 1 else q)
      in of_int (sgn n * int (q * 2 ^ e)))"

lemma cast_num_small:
  assumes "\<bar>n\<bar> < 2 ^ 53"
  shows "cast_num n = of_int n"
proof -
  have "nat \<bar>n\<bar> < 2 ^ 53" using assms by simp
  moreover have "sgn n * int (nat \<bar>n\<bar>) = n" by (simp add: sgn_mult_abs)
  ultimately show ?thesis
    by (simp add: cast_num_def Let_def excess_bits.simps [of "nat \<bar>n\<bar>"] flip: of_int_mult)
qed

text \<open>
  A double converted to \<^verbatim>\<open>ptrdiff_t\<close>: truncation; the value x86-64 gives when it is out of range.
\<close>

definition lua_number2integer :: "lua_Number \<Rightarrow> int" where
  "lua_number2integer r =
     (let i = (if 0 \<le> r then \<lfloor>r\<rfloor> else - \<lfloor>- r\<rfloor>)
      in if - (2 ^ 63) \<le> i \<and> i < 2 ^ 63 then i else - (2 ^ 63))"

section \<open>The stack\<close>

datatype adr = Nilobject | Slot nat | Registry | Globals

definition index2adr :: "('u, 's, 'w) lua_State \<Rightarrow> int \<Rightarrow> adr" where
  "index2adr L idx =
     (if 0 < idx then
        let p = nat (idx - 1) in if top L \<le> p then Nilobject else Slot p
      else if LUA_REGISTRYINDEX < idx then Slot (nat (int (top L) + idx))
      else if idx = LUA_REGISTRYINDEX then Registry
      else if idx = LUA_GLOBALSINDEX then Globals
      else Nilobject)"

definition adr_value :: "('u, 's, 'w) lua_State \<Rightarrow> adr \<Rightarrow> lua_value" where
  "adr_value L p = (case p of Nilobject \<Rightarrow> LNil | Slot i \<Rightarrow> slots L i
     | Registry \<Rightarrow> LTable (registry L) | Globals \<Rightarrow> LTable (globals L))"

abbreviation value_at :: "('u, 's, 'w) lua_State \<Rightarrow> int \<Rightarrow> lua_value" where
  "value_at L idx \<equiv> adr_value L (index2adr L idx)"

text \<open>
  Pushing writes the slot at the top. A push at \<^verbatim>\<open>ci->top\<close> leaves the memory that was reserved
  for the C function; \<open>overrun\<close> records that it happened.
\<close>

definition push :: "lua_value \<Rightarrow> ('u, 's, 'w) lua_State \<Rightarrow> ('u, 's, 'w) lua_State" where
  "push v L = L\<lparr>slots := (slots L)(top L := v), top := top L + 1,
     overrun := (overrun L \<or> ci_top L \<le> top L)\<rparr>"

definition lua_gettop :: "('u, 's, 'w) lua_State \<Rightarrow> int" where
  "lua_gettop L = int (top L)"

definition lua_settop :: "int \<Rightarrow> ('u, 's, 'w) lua_State \<Rightarrow> ('u, 's, 'w) lua_State" where
  "lua_settop idx L =
     (if 0 \<le> idx then
        L\<lparr>slots := (\<lambda>i. if top L \<le> i \<and> i < nat idx then LNil else slots L i), top := nat idx\<rparr>
      else L\<lparr>top := nat (int (top L) + (idx + 1))\<rparr>)"

definition lua_pop :: "int \<Rightarrow> ('u, 's, 'w) lua_State \<Rightarrow> ('u, 's, 'w) lua_State" where
  "lua_pop n L = lua_settop (- n - 1) L"

definition lua_remove :: "int \<Rightarrow> ('u, 's, 'w) lua_State \<Rightarrow> ('u, 's, 'w) lua_State" where
  "lua_remove idx L =
     (case index2adr L idx of
        Slot p \<Rightarrow> L\<lparr>slots := (\<lambda>i. if p \<le> i \<and> i + 1 < top L then slots L (i + 1) else slots L i), top := top L - 1\<rparr>
      | _ \<Rightarrow> L)"

definition lua_pushvalue :: "int \<Rightarrow> ('u, 's, 'w) lua_State \<Rightarrow> ('u, 's, 'w) lua_State" where
  "lua_pushvalue idx L = push (value_at L idx) L"

definition lua_pushnil :: "('u, 's, 'w) lua_State \<Rightarrow> ('u, 's, 'w) lua_State" where
  "lua_pushnil L = push LNil L"

definition lua_pushnumber :: "lua_Number \<Rightarrow> ('u, 's, 'w) lua_State \<Rightarrow> ('u, 's, 'w) lua_State" where
  "lua_pushnumber n L = push (LNumber n) L"

definition lua_pushinteger :: "int \<Rightarrow> ('u, 's, 'w) lua_State \<Rightarrow> ('u, 's, 'w) lua_State" where
  "lua_pushinteger n L = push (LNumber (cast_num n)) L"

definition lua_pushlstring :: "string \<Rightarrow> ('u, 's, 'w) lua_State \<Rightarrow> ('u, 's, 'w) lua_State" where
  "lua_pushlstring s L = push (LString s) L"

definition lua_pushstring :: "string option \<Rightarrow> ('u, 's, 'w) lua_State \<Rightarrow> ('u, 's, 'w) lua_State" where
  "lua_pushstring s L = (case s of None \<Rightarrow> lua_pushnil L | Some s \<Rightarrow> lua_pushlstring (c_str s) L)"

definition lua_pushcfunction :: "string \<Rightarrow> ('u, 's, 'w) lua_State \<Rightarrow> ('u, 's, 'w) lua_State" where
  "lua_pushcfunction f L = push (LCFunction f) L"

definition lua_pushboolean :: "bool \<Rightarrow> ('u, 's, 'w) lua_State \<Rightarrow> ('u, 's, 'w) lua_State" where
  "lua_pushboolean b L = push (LBoolean b) L"

definition lua_pushlightuserdata :: "nat \<Rightarrow> ('u, 's, 'w) lua_State \<Rightarrow> ('u, 's, 'w) lua_State" where
  "lua_pushlightuserdata p L = push (LLightuserdata p) L"

section \<open>Access functions\<close>

definition lua_type :: "('u, 's, 'w) lua_State \<Rightarrow> int \<Rightarrow> int" where
  "lua_type L idx = (if index2adr L idx = Nilobject then LUA_TNONE else ttype (value_at L idx))"

definition luaT_typenames :: "string list" where
  "luaT_typenames = [''nil'', ''boolean'', ''userdata'', ''number'', ''string'', ''table'', ''function'',
     ''userdata'', ''thread'', ''proto'', ''upval'']"

definition lua_typename :: "int \<Rightarrow> string" where
  "lua_typename t = (if t = LUA_TNONE then ''no value'' else luaT_typenames ! nat t)"

definition luaO_str2d :: "('u, 's, 'w) lua_env \<Rightarrow> string \<Rightarrow> lua_Number option" where
  "luaO_str2d E s =
     (let s = c_str s; (result, n) = strtod E s in
      if n = 0 then None else
      let (result, n) = (if n < length s \<and> (s ! n = CHR ''x'' \<or> s ! n = CHR ''X'')
            then case strtoul16 E s of (r, k) \<Rightarrow> (cast_num (int r), k) else (result, n));
          rest = dropWhile (\<lambda>c. c \<in> {CHR '' '', CHR 0x09, CHR 0x0A, CHR 0x0B, CHR 0x0C, CHR 0x0D}) (drop n s)
      in if rest = [] then Some result else None)"

definition luaV_tonumber :: "('u, 's, 'w) lua_env \<Rightarrow> lua_value \<Rightarrow> lua_Number option" where
  "luaV_tonumber E v = (case v of LNumber n \<Rightarrow> Some n | LString s \<Rightarrow> luaO_str2d E s | _ \<Rightarrow> None)"

definition lua_isnumber :: "('u, 's, 'w) lua_env \<Rightarrow> ('u, 's, 'w) lua_State \<Rightarrow> int \<Rightarrow> bool" where
  "lua_isnumber E L idx \<longleftrightarrow> luaV_tonumber E (value_at L idx) \<noteq> None"

definition lua_isuserdata :: "('u, 's, 'w) lua_State \<Rightarrow> int \<Rightarrow> bool" where
  "lua_isuserdata L idx \<longleftrightarrow> ttype (value_at L idx) \<in> {LUA_TUSERDATA, LUA_TLIGHTUSERDATA}"

definition luaO_rawequalObj :: "lua_value \<Rightarrow> lua_value \<Rightarrow> bool" where
  "luaO_rawequalObj t1 t2 \<longleftrightarrow> t1 = t2"

definition lua_rawequal :: "('u, 's, 'w) lua_State \<Rightarrow> int \<Rightarrow> int \<Rightarrow> bool" where
  "lua_rawequal L index1 index2 \<longleftrightarrow>
     (if index2adr L index1 = Nilobject \<or> index2adr L index2 = Nilobject then False
      else luaO_rawequalObj (value_at L index1) (value_at L index2))"

definition lua_tonumber :: "('u, 's, 'w) lua_env \<Rightarrow> ('u, 's, 'w) lua_State \<Rightarrow> int \<Rightarrow> lua_Number" where
  "lua_tonumber E L idx = (case luaV_tonumber E (value_at L idx) of Some n \<Rightarrow> n | None \<Rightarrow> 0)"

definition lua_tointeger :: "('u, 's, 'w) lua_env \<Rightarrow> ('u, 's, 'w) lua_State \<Rightarrow> int \<Rightarrow> int" where
  "lua_tointeger E L idx =
     (case luaV_tonumber E (value_at L idx) of Some n \<Rightarrow> lua_number2integer n | None \<Rightarrow> 0)"

definition lua_toboolean :: "('u, 's, 'w) lua_State \<Rightarrow> int \<Rightarrow> bool" where
  "lua_toboolean L idx \<longleftrightarrow> \<not> l_isfalse (value_at L idx)"

text \<open>A number in a stack slot is converted in place.\<close>

definition lua_tolstring ::
  "('u, 's, 'w) lua_env \<Rightarrow> ('u, 's, 'w) lua_State \<Rightarrow> int \<Rightarrow> string option \<times> ('u, 's, 'w) lua_State" where
  "lua_tolstring E L idx =
     (case value_at L idx of
        LString s \<Rightarrow> (Some s, L)
      | LNumber n \<Rightarrow>
          let s = c_str (number2str E n) in
          (Some s, case index2adr L idx of Slot i \<Rightarrow> L\<lparr>slots := (slots L)(i := LString s)\<rparr> | _ \<Rightarrow> L)
      | _ \<Rightarrow> (None, L))"

definition lua_touserdata :: "('u, 's, 'w) lua_State \<Rightarrow> int \<Rightarrow> lua_value option" where
  "lua_touserdata L idx =
     (case value_at L idx of
        LUserdata u \<Rightarrow> Some (LUserdata u)
      | LLightuserdata p \<Rightarrow> if p = 0 then None else Some (LLightuserdata p)
      | _ \<Rightarrow> None)"

definition lua_topointer :: "('u, 's, 'w) lua_State \<Rightarrow> int \<Rightarrow> lua_value option" where
  "lua_topointer L idx =
     (case value_at L idx of
        LTable t \<Rightarrow> Some (LTable t)
      | LCFunction f \<Rightarrow> Some (LCFunction f)
      | LLuaFunction f \<Rightarrow> Some (LLuaFunction f)
      | LThread t \<Rightarrow> Some (LThread t)
      | LUserdata u \<Rightarrow> lua_touserdata L idx
      | LLightuserdata p \<Rightarrow> lua_touserdata L idx
      | _ \<Rightarrow> None)"

section \<open>The length of a table\<close>

definition tget_num :: "Table \<Rightarrow> nat \<Rightarrow> lua_value" where
  "tget_num t n = tget t (LNumber (of_nat n))"

text \<open>The binary search between a present index (or zero) and an absent one.\<close>

function border_search :: "Table \<Rightarrow> nat \<Rightarrow> nat \<Rightarrow> nat" where
  "border_search t i j =
     (if 1 < j - i then
        let m = (i + j) div 2 in
        if tget_num t m = LNil then border_search t i m else border_search t m j
      else i)"
  by pat_completeness auto
termination by (relation "measure (\<lambda>(t, i, j). j - i)") auto

declare border_search.simps [simp del]

text \<open>
  \<^verbatim>\<open>unbound_search\<close> doubles \<open>j\<close> until it is absent; past \<^verbatim>\<open>MAX_INT\<close> it searches linearly. In the
  linear search the fuel is the number of indices up to \<^verbatim>\<open>MAX_INT\<close>.
\<close>

fun linear_search :: "nat \<Rightarrow> Table \<Rightarrow> nat \<Rightarrow> nat" where
  "linear_search 0 t i = i - 1"
| "linear_search (Suc k) t i = (if tget_num t i \<noteq> LNil then linear_search k t (i + 1) else i - 1)"

definition MAX_INT :: nat where "MAX_INT = 2 ^ 31 - 3"

function unbound_loop :: "Table \<Rightarrow> nat \<Rightarrow> nat \<Rightarrow> nat" where
  "unbound_loop t i j =
     (if tget_num t j \<noteq> LNil \<and> 0 < j then
        if MAX_INT < 2 * j then linear_search MAX_INT t 1
        else unbound_loop t j (2 * j)
      else border_search t i j)"
  by pat_completeness auto
termination by (relation "measure (\<lambda>(t, i, j). MAX_INT - j)") auto

declare unbound_loop.simps [simp del]

definition unbound_search :: "Table \<Rightarrow> nat \<Rightarrow> nat" where
  "unbound_search t j = unbound_loop t j (j + 1)"

definition luaH_getn :: "Table \<Rightarrow> nat" where
  "luaH_getn t =
     (let j = sizearray t in
      if 0 < j \<and> tget_num t j = LNil then border_search t 0 j
      else if dummynode t then j
      else unbound_search t j)"

definition lua_objlen ::
  "('u, 's, 'w) lua_env \<Rightarrow> ('u, 's, 'w) lua_State \<Rightarrow> int \<Rightarrow> nat \<times> ('u, 's, 'w) lua_State" where
  "lua_objlen E L idx =
     (case value_at L idx of
        LString s \<Rightarrow> (length s, L)
      | LUserdata u \<Rightarrow> (ulen (udata L u), L)
      | LTable t \<Rightarrow> (luaH_getn (tables L t), L)
      | LNumber n \<Rightarrow> (case lua_tolstring E L idx of (s, L) \<Rightarrow> (length (the s), L))
      | _ \<Rightarrow> (0, L))"

section \<open>Tables, metatables and userdata\<close>

text \<open>The tag method of a metatable; \<^verbatim>\<open>luaT_gettmbyobj\<close> for a value.\<close>

definition tagmethod :: "('u, 's, 'w) lua_State \<Rightarrow> nat option \<Rightarrow> string \<Rightarrow> lua_value" where
  "tagmethod L mt ev = (case mt of None \<Rightarrow> LNil | Some m \<Rightarrow> tget (tables L m) (LString ev))"

definition obj_metatable :: "('u, 's, 'w) lua_State \<Rightarrow> lua_value \<Rightarrow> nat option" where
  "obj_metatable L v =
     (case v of
        LTable t \<Rightarrow> metatable (tables L t)
      | LUserdata u \<Rightarrow> umeta (udata L u)
      | _ \<Rightarrow> gmt L (ttype v))"

text \<open>\<^verbatim>\<open>luaV_gettable\<close>; the first argument counts the tag-method chain down from \<^verbatim>\<open>MAXTAGLOOP\<close>.\<close>

fun luaV_gettable ::
  "nat \<Rightarrow> ('u, 's, 'w) lua_env \<Rightarrow> lua_value \<Rightarrow> lua_value \<Rightarrow> ('u, 's, 'w) lua_State \<Rightarrow>
   (lua_err + lua_value) \<times> ('u, 's, 'w) lua_State" where
  "luaV_gettable 0 E t key L = (Inl (Run_error ''loop in gettable''), L)"
| "luaV_gettable (Suc k) E t key L =
     (case t of
        LTable h \<Rightarrow>
          let res = tget (tables L h) key; tm = tagmethod L (metatable (tables L h)) ''__index'' in
          if res \<noteq> LNil \<or> tm = LNil then (Inr res, L)
          else if ttype tm = LUA_TFUNCTION then callTMres E tm t key L
          else luaV_gettable k E tm key L
      | _ \<Rightarrow>
          let tm = tagmethod L (obj_metatable L t) ''__index'' in
          if tm = LNil then (Inl (Run_error ''attempt to index''), L)
          else if ttype tm = LUA_TFUNCTION then callTMres E tm t key L
          else luaV_gettable k E tm key L)"

definition MAXTAGLOOP :: nat where "MAXTAGLOOP = 100"

definition set_raw :: "nat \<Rightarrow> lua_value \<Rightarrow> lua_value \<Rightarrow> ('u, 's, 'w) lua_State \<Rightarrow> ('u, 's, 'w) lua_State" where
  "set_raw h key v L = L\<lparr>tables := (tables L)(h := (tables L h)\<lparr>tget := (tget (tables L h))(key := v)\<rparr>)\<rparr>"

fun luaV_settable ::
  "nat \<Rightarrow> ('u, 's, 'w) lua_env \<Rightarrow> lua_value \<Rightarrow> lua_value \<Rightarrow> lua_value \<Rightarrow> ('u, 's, 'w) lua_State \<Rightarrow>
   (lua_err + unit) \<times> ('u, 's, 'w) lua_State" where
  "luaV_settable 0 E t key v L = (Inl (Run_error ''loop in settable''), L)"
| "luaV_settable (Suc k) E t key v L =
     (case t of
        LTable h \<Rightarrow>
          let oldval = tget (tables L h) key; tm = tagmethod L (metatable (tables L h)) ''__newindex'' in
          if key = LNil then (Inl (Run_error ''table index is nil''), L)
          else if oldval \<noteq> LNil \<or> tm = LNil then (Inr (), set_raw h key v L)
          else if ttype tm = LUA_TFUNCTION then callTM E tm t key v L
          else luaV_settable k E tm key v L
      | _ \<Rightarrow>
          let tm = tagmethod L (obj_metatable L t) ''__newindex'' in
          if tm = LNil then (Inl (Run_error ''attempt to index''), L)
          else if ttype tm = LUA_TFUNCTION then callTM E tm t key v L
          else luaV_settable k E tm key v L)"

definition lua_gettable ::
  "('u, 's, 'w) lua_env \<Rightarrow> int \<Rightarrow> ('u, 's, 'w) lua_State \<Rightarrow> (lua_err + unit) \<times> ('u, 's, 'w) lua_State" where
  "lua_gettable E idx L =
     (case luaV_gettable MAXTAGLOOP E (value_at L idx) (slots L (top L - 1)) L of
        (Inl e, L) \<Rightarrow> (Inl e, L)
      | (Inr v, L) \<Rightarrow> (Inr (), L\<lparr>slots := (slots L)(top L - 1 := v)\<rparr>))"

definition lua_getfield ::
  "('u, 's, 'w) lua_env \<Rightarrow> int \<Rightarrow> string \<Rightarrow> ('u, 's, 'w) lua_State \<Rightarrow> (lua_err + unit) \<times> ('u, 's, 'w) lua_State" where
  "lua_getfield E idx k L =
     (case luaV_gettable MAXTAGLOOP E (value_at L idx) (LString k) L of
        (Inl e, L) \<Rightarrow> (Inl e, L)
      | (Inr v, L) \<Rightarrow> (Inr (), push v L))"

definition lua_rawgeti :: "int \<Rightarrow> nat \<Rightarrow> ('u, 's, 'w) lua_State \<Rightarrow> ('u, 's, 'w) lua_State" where
  "lua_rawgeti idx n L =
     (case value_at L idx of LTable h \<Rightarrow> push (tget_num (tables L h) n) L | _ \<Rightarrow> L)"

definition lua_createtable :: "nat \<Rightarrow> nat \<Rightarrow> ('u, 's, 'w) lua_State \<Rightarrow> ('u, 's, 'w) lua_State" where
  "lua_createtable narray nrec L =
     (let h = next_table L in
      push (LTable h) (L\<lparr>tables := (tables L)(h := \<lparr>tget = (\<lambda>_. LNil), sizearray = narray, dummynode = (nrec = 0),
                           metatable = None\<rparr>), next_table := h + 1\<rparr>))"

definition lua_newtable :: "('u, 's, 'w) lua_State \<Rightarrow> ('u, 's, 'w) lua_State" where
  "lua_newtable L = lua_createtable 0 0 L"

definition lua_getmetatable :: "int \<Rightarrow> ('u, 's, 'w) lua_State \<Rightarrow> bool \<times> ('u, 's, 'w) lua_State" where
  "lua_getmetatable objindex L =
     (case obj_metatable L (value_at L objindex) of
        None \<Rightarrow> (False, L)
      | Some mt \<Rightarrow> (True, push (LTable mt) L))"

definition lua_setfield ::
  "('u, 's, 'w) lua_env \<Rightarrow> int \<Rightarrow> string \<Rightarrow> ('u, 's, 'w) lua_State \<Rightarrow> (lua_err + unit) \<times> ('u, 's, 'w) lua_State" where
  "lua_setfield E idx k L =
     (case luaV_settable MAXTAGLOOP E (value_at L idx) (LString k) (slots L (top L - 1)) L of
        (Inl e, L) \<Rightarrow> (Inl e, L)
      | (Inr u, L) \<Rightarrow> (Inr (), L\<lparr>top := top L - 1\<rparr>))"

definition lua_rawset :: "int \<Rightarrow> ('u, 's, 'w) lua_State \<Rightarrow> ('u, 's, 'w) lua_State" where
  "lua_rawset idx L =
     (case value_at L idx of
        LTable h \<Rightarrow> (set_raw h (slots L (top L - 2)) (slots L (top L - 1)) L)\<lparr>top := top L - 2\<rparr>
      | _ \<Rightarrow> L\<lparr>top := top L - 2\<rparr>)"

definition lua_rawseti :: "int \<Rightarrow> nat \<Rightarrow> ('u, 's, 'w) lua_State \<Rightarrow> ('u, 's, 'w) lua_State" where
  "lua_rawseti idx n L =
     (case value_at L idx of
        LTable h \<Rightarrow> (set_raw h (LNumber (of_nat n)) (slots L (top L - 1)) L)\<lparr>top := top L - 1\<rparr>
      | _ \<Rightarrow> L\<lparr>top := top L - 1\<rparr>)"

definition lua_setmetatable :: "int \<Rightarrow> ('u, 's, 'w) lua_State \<Rightarrow> ('u, 's, 'w) lua_State" where
  "lua_setmetatable objindex L =
     (let obj = value_at L objindex;
          mt = (case slots L (top L - 1) of LTable m \<Rightarrow> Some m | _ \<Rightarrow> None);
          L = (case obj of
                 LTable h \<Rightarrow> L\<lparr>tables := (tables L)(h := (tables L h)\<lparr>metatable := mt\<rparr>)\<rparr>
               | LUserdata u \<Rightarrow> L\<lparr>udata := (udata L)(u := (udata L u)\<lparr>umeta := mt\<rparr>)\<rparr>
               | _ \<Rightarrow> L\<lparr>gmt := (gmt L)(ttype obj := mt)\<rparr>)
      in L\<lparr>top := top L - 1\<rparr>)"

text \<open>\<^verbatim>\<open>lua_newuserdata\<close>: the block is uninitialised memory, the first argument.\<close>

definition lua_newuserdata :: "'u \<Rightarrow> nat \<Rightarrow> ('u, 's, 'w) lua_State \<Rightarrow> nat \<times> ('u, 's, 'w) lua_State" where
  "lua_newuserdata blk sz L =
     (let u = next_udata L in
      (u, push (LUserdata u) (L\<lparr>udata := (udata L)(u := \<lparr>ublock = blk, ulen = sz, umeta = None\<rparr>), next_udata := u + 1\<rparr>)))"

section \<open>The auxiliary library\<close>

definition luaL_typename :: "('u, 's, 'w) lua_State \<Rightarrow> int \<Rightarrow> string" where
  "luaL_typename L idx = lua_typename (lua_type L idx)"

definition luaL_typerror :: "('u, 's, 'w) lua_State \<Rightarrow> int \<Rightarrow> string \<Rightarrow> lua_err" where
  "luaL_typerror L narg tname = Arg_error narg (tname @ '' expected, got '' @ luaL_typename L narg)"

definition luaL_newmetatable ::
  "('u, 's, 'w) lua_env \<Rightarrow> string \<Rightarrow> ('u, 's, 'w) lua_State \<Rightarrow> (lua_err + bool) \<times> ('u, 's, 'w) lua_State" where
  "luaL_newmetatable E tname L =
     (case lua_getfield E LUA_REGISTRYINDEX tname L of
        (Inl e, L) \<Rightarrow> (Inl e, L)
      | (Inr u, L) \<Rightarrow>
          if lua_type L (-1) \<noteq> LUA_TNIL then (Inr False, L)
          else
            let L = lua_pop 1 L; L = lua_newtable L; L = lua_pushvalue (-1) L in
            (case lua_setfield E LUA_REGISTRYINDEX tname L of
               (Inl e, L) \<Rightarrow> (Inl e, L)
             | (Inr u, L) \<Rightarrow> (Inr True, L)))"

definition luaL_checkudata ::
  "('u, 's, 'w) lua_env \<Rightarrow> int \<Rightarrow> string \<Rightarrow> ('u, 's, 'w) lua_State \<Rightarrow> (lua_err + lua_value) \<times> ('u, 's, 'w) lua_State" where
  "luaL_checkudata E ud tname L =
     (case lua_touserdata L ud of
        None \<Rightarrow> (Inl (luaL_typerror L ud tname), L)
      | Some p \<Rightarrow>
          (case lua_getmetatable ud L of
             (False, L) \<Rightarrow> (Inl (luaL_typerror L ud tname), L)
           | (True, L) \<Rightarrow>
               (case lua_getfield E LUA_REGISTRYINDEX tname L of
                  (Inl e, L) \<Rightarrow> (Inl e, L)
                | (Inr u, L) \<Rightarrow>
                    if lua_rawequal L (-1) (-2) then (Inr p, lua_pop 2 L)
                    else (Inl (luaL_typerror L ud tname), L))))"

definition luaL_checktype ::
  "int \<Rightarrow> int \<Rightarrow> ('u, 's, 'w) lua_State \<Rightarrow> (lua_err + unit) \<times> ('u, 's, 'w) lua_State" where
  "luaL_checktype narg t L =
     (if lua_type L narg \<noteq> t then (Inl (luaL_typerror L narg (lua_typename t)), L) else (Inr (), L))"

definition luaL_checklstring ::
  "('u, 's, 'w) lua_env \<Rightarrow> int \<Rightarrow> ('u, 's, 'w) lua_State \<Rightarrow> (lua_err + string) \<times> ('u, 's, 'w) lua_State" where
  "luaL_checklstring E narg L =
     (case lua_tolstring E L narg of
        (None, L) \<Rightarrow> (Inl (luaL_typerror L narg (lua_typename LUA_TSTRING)), L)
      | (Some s, L) \<Rightarrow> (Inr s, L))"

text \<open>\<^verbatim>\<open>luaL_checkstring\<close> gives a C string: the callee sees it up to the first NUL.\<close>

definition luaL_checkstring ::
  "('u, 's, 'w) lua_env \<Rightarrow> int \<Rightarrow> ('u, 's, 'w) lua_State \<Rightarrow> (lua_err + string) \<times> ('u, 's, 'w) lua_State" where
  "luaL_checkstring E narg L = apfst (map_sum id c_str) (luaL_checklstring E narg L)"

definition luaL_checkinteger ::
  "('u, 's, 'w) lua_env \<Rightarrow> int \<Rightarrow> ('u, 's, 'w) lua_State \<Rightarrow> (lua_err + int) \<times> ('u, 's, 'w) lua_State" where
  "luaL_checkinteger E narg L =
     (let d = lua_tointeger E L narg in
      if d = 0 \<and> \<not> lua_isnumber E L narg then (Inl (luaL_typerror L narg (lua_typename LUA_TNUMBER)), L)
      else (Inr d, L))"

text \<open>
  Registering the functions of a module in a new table, as the \<^verbatim>\<open>luaopen_*\<close> functions do.
\<close>

primrec register_all ::
  "('u, 's, 'w) lua_env \<Rightarrow> (string \<times> string) list \<Rightarrow> ('u, 's, 'w) lua_State \<Rightarrow> (lua_err + unit) \<times> ('u, 's, 'w) lua_State" where
  "register_all E [] L = (Inr (), L)"
| "register_all E (r # rs) L =
     (case lua_setfield E (-2) (fst r) (lua_pushcfunction (snd r) L) of
        (Inl e, L) \<Rightarrow> (Inl e, L)
      | (Inr u, L) \<Rightarrow> register_all E rs L)"

definition luaopen_module ::
  "('u, 's, 'w) lua_env \<Rightarrow> (string \<times> string) list \<Rightarrow> ('u, 's, 'w) lua_State \<Rightarrow> lua_ret \<times> ('u, 's, 'w) lua_State" where
  "luaopen_module E lib L = check (register_all E lib (lua_newtable L)) (\<lambda>_ L. (Return 1, L))"

section \<open>Calling a C function\<close>

text \<open>
  The C branch of \<^verbatim>\<open>luaD_precall\<close> with \<^verbatim>\<open>luaD_poscall\<close>: the arguments become the frame of the
  function, \<^verbatim>\<open>LUA_MINSTACK\<close> slots above them are reserved, the topmost \<open>n\<close> values are the
  results. \<open>stale\<close> is what the slots above the arguments held before.
\<close>

definition enter_c ::
  "(nat \<Rightarrow> lua_value) \<Rightarrow> lua_value list \<Rightarrow> ('u, 's, 'w) lua_State \<Rightarrow> ('u, 's, 'w) lua_State" where
  "enter_c stale args L =
     L\<lparr>slots := (\<lambda>i. if i < length args then args ! i else stale i), top := length args,
       ci_top := length args + LUA_MINSTACK\<rparr>"

definition results :: "nat \<Rightarrow> ('u, 's, 'w) lua_State \<Rightarrow> lua_value list" where
  "results n L = map (slots L) [top L - n..<top L]"

definition call_c ::
  "(nat \<Rightarrow> lua_value) \<Rightarrow> lua_value list \<Rightarrow> (('u, 's, 'w) lua_State \<Rightarrow> lua_ret \<times> ('u, 's, 'w) lua_State) \<Rightarrow>
   ('u, 's, 'w) lua_State \<Rightarrow> (lua_ret \<times> lua_value list) \<times> ('u, 's, 'w) lua_State" where
  "call_c stale args f L =
     (case f (enter_c stale args L) of
        (r, L') \<Rightarrow> ((r, case r of Return n \<Rightarrow> results n L' | _ \<Rightarrow> []),
                     L'\<lparr>slots := slots L, top := top L, ci_top := ci_top L\<rparr>))"

section \<open>Laws of the stack operations\<close>

lemma push_simps [simp]:
  "top (push v L) = top L + 1"
  "slots (push v L) = (slots L)(top L := v)"
  "ci_top (push v L) = ci_top L"
  "overrun (push v L) \<longleftrightarrow> overrun L \<or> ci_top L \<le> top L"
  "tables (push v L) = tables L"
  "next_table (push v L) = next_table L"
  "udata (push v L) = udata L"
  "next_udata (push v L) = next_udata L"
  "registry (push v L) = registry L"
  "globals (push v L) = globals L"
  "gmt (push v L) = gmt L"
  "errno (push v L) = errno L"
  "statics (push v L) = statics L"
  "world (push v L) = world L"
  by (simp_all add: push_def)

lemma enter_c_simps [simp]:
  "top (enter_c g args L) = length args"
  "slots (enter_c g args L) = (\<lambda>i. if i < length args then args ! i else g i)"
  "ci_top (enter_c g args L) = length args + 20"
  "overrun (enter_c g args L) = overrun L"
  "tables (enter_c g args L) = tables L"
  "next_table (enter_c g args L) = next_table L"
  "udata (enter_c g args L) = udata L"
  "next_udata (enter_c g args L) = next_udata L"
  "registry (enter_c g args L) = registry L"
  "globals (enter_c g args L) = globals L"
  "gmt (enter_c g args L) = gmt L"
  "errno (enter_c g args L) = errno L"
  "statics (enter_c g args L) = statics L"
  "world (enter_c g args L) = world L"
  by (simp_all add: enter_c_def LUA_MINSTACK_def)

lemma index2adr_pos: "0 < idx \<Longrightarrow> nat idx \<le> top L \<Longrightarrow> index2adr L idx = Slot (nat idx - 1)"
  by (simp add: index2adr_def Let_def nat_diff_distrib)

lemma index2adr_none: "0 < idx \<Longrightarrow> top L < nat idx \<Longrightarrow> index2adr L idx = Nilobject"
  by (simp add: index2adr_def Let_def nat_diff_distrib)

lemma index2adr_neg: "idx \<le> 0 \<Longrightarrow> - 10000 < idx \<Longrightarrow> index2adr L idx = Slot (nat (int (top L) + idx))"
  by (simp add: index2adr_def LUA_REGISTRYINDEX_def)

lemma index2adr_registry [simp]: "index2adr L LUA_REGISTRYINDEX = Registry"
  by (simp add: index2adr_def LUA_REGISTRYINDEX_def)

lemma adr_value_simps [simp]:
  "adr_value L Nilobject = LNil"
  "adr_value L (Slot i) = slots L i"
  "adr_value L Registry = LTable (registry L)"
  "adr_value L Globals = LTable (globals L)"
  by (simp_all add: adr_value_def)

lemma lua_pop_1 [simp]: "lua_pop 1 L = L\<lparr>top := top L - 1\<rparr>"
  and lua_pop_2 [simp]: "lua_pop 2 L = L\<lparr>top := top L - 2\<rparr>"
  by (simp_all add: lua_pop_def lua_settop_def nat_diff_distrib nat_minus_as_int)

lemma results_push: "results 1 (push v L) = [v]" "results 2 (push w (push v L)) = [v, w]"
  "results 3 (push x (push w (push v L))) = [v, w, x]"
  by (simp_all add: results_def upt_rec numeral_eq_Suc)

lemma results_push_Suc0 [simp]: "results (Suc 0) (push v L) = [v]"
  using results_push(1) [of v L] by simp

lemma ttype_neq_none [simp]: "ttype v \<noteq> LUA_TNONE" "LUA_TNONE \<noteq> ttype v"
  by (cases v; simp add: lua_types)+

text \<open>A table without metatable is read and written directly.\<close>

lemma luaV_gettable_plain:
  "metatable (tables L h) = None \<Longrightarrow> luaV_gettable MAXTAGLOOP E (LTable h) key L = (Inr (tget (tables L h) key), L)"
  by (simp add: MAXTAGLOOP_def numeral_eq_Suc tagmethod_def Let_def)

lemma luaV_settable_plain:
  "metatable (tables L h) = None \<Longrightarrow> key \<noteq> LNil \<Longrightarrow>
   luaV_settable MAXTAGLOOP E (LTable h) key v L = (Inr (), set_raw h key v L)"
  by (simp add: MAXTAGLOOP_def numeral_eq_Suc tagmethod_def Let_def)

lemma index2adr_1 [simp]: "0 < top L \<Longrightarrow> index2adr L 1 = Slot 0"
  and index2adr_2 [simp]: "1 < top L \<Longrightarrow> index2adr L 2 = Slot 1"
  and index2adr_3 [simp]: "2 < top L \<Longrightarrow> index2adr L 3 = Slot 2"
  and index2adr_m1 [simp]: "0 < top L \<Longrightarrow> index2adr L (-1) = Slot (top L - 1)"
  and index2adr_m2 [simp]: "1 < top L \<Longrightarrow> index2adr L (-2) = Slot (top L - 2)"
  by (simp_all add: index2adr_def LUA_REGISTRYINDEX_def nat_diff_distrib)

text \<open>A registered name: its metatable is in the registry and the registry is a plain table.\<close>

definition registered :: "string \<Rightarrow> nat \<Rightarrow> ('u, 's, 'w) lua_State \<Rightarrow> bool" where
  "registered name m L \<longleftrightarrow> metatable (tables L (registry L)) = None \<and> tget (tables L (registry L)) (LString name) = LTable m"

lemma luaL_checkudata_ok:
  assumes "registered name m L" "0 < top L" "slots L 0 = LUserdata u" "umeta (udata L u) = Some m" "top L + 2 \<le> ci_top L"
  shows "luaL_checkudata E 1 name L =
    (Inr (LUserdata u), L\<lparr>slots := (slots L)(top L := LTable m, top L + 1 := LTable m)\<rparr>)"
  using assms
  by (auto simp: luaL_checkudata_def lua_touserdata_def lua_getmetatable_def obj_metatable_def registered_def lua_getfield_def
     luaV_gettable_plain lua_rawequal_def luaO_rawequalObj_def push_def)

lemma luaL_checkudata_bad:
  assumes "registered name m L" "0 < top L" "slots L 0 = LUserdata u" "umeta (udata L u) \<noteq> Some m"
  shows "\<exists>e L'. luaL_checkudata E 1 name L = (Inl e, L') \<and> udata L' = udata L \<and> statics L' = statics L \<and>
    tables L' = tables L \<and> registry L' = registry L"
  using assms
  by (cases "umeta (udata L u)") (auto simp: luaL_checkudata_def lua_touserdata_def lua_getmetatable_def obj_metatable_def registered_def
     lua_getfield_def luaV_gettable_plain lua_rawequal_def luaO_rawequalObj_def)

text \<open>The functions that a module registers are found under their names in the table that \<^verbatim>\<open>luaopen_*\<close> returns.\<close>

lemma lua_setfield_plain:
  assumes "1 < top L" "slots L (top L - 2) = LTable h" "metatable (tables L h) = None"
  shows "lua_setfield E (-2) k L = (Inr (), (set_raw h (LString k) (slots L (top L - 1)) L)\<lparr>top := top L - 1\<rparr>)"
  using assms by (simp add: lua_setfield_def luaV_settable_plain set_raw_def)

lemma set_raw_simps [simp]:
  "top (set_raw h k v L) = top L" "slots (set_raw h k v L) = slots L" "ci_top (set_raw h k v L) = ci_top L"
  "metatable (tables (set_raw h k v L) x) = metatable (tables L x)" "registry (set_raw h k v L) = registry L"
  "tget (tables (set_raw h k v L) x) = (if x = h then (tget (tables L h))(k := v) else tget (tables L x))"
  "udata (set_raw h k v L) = udata L" "statics (set_raw h k v L) = statics L" "overrun (set_raw h k v L) = overrun L"
  "next_udata (set_raw h k v L) = next_udata L" "errno (set_raw h k v L) = errno L" "world (set_raw h k v L) = world L"
  by (simp_all add: set_raw_def)

definition reg_fun :: "string \<times> string \<Rightarrow> (lua_value \<Rightarrow> lua_value) \<Rightarrow> lua_value \<Rightarrow> lua_value" where
  "reg_fun r f = f(LString (fst r) := LCFunction (snd r))"

lemma register_all_fold:
  assumes "0 < top L" "top L < ci_top L" "slots L (top L - 1) = LTable h" "metatable (tables L h) = None"
  shows "\<exists>L'. register_all E lib L = (Inr (), L') \<and> top L' = top L \<and> slots L' (top L - 1) = LTable h \<and>
    overrun L' = overrun L \<and> udata L' = udata L \<and> (\<forall>x. x \<noteq> h \<longrightarrow> tables L' x = tables L x) \<and>
    tget (tables L' h) = fold reg_fun lib (tget (tables L h))"
  using assms
proof (induction lib arbitrary: L)
  case (Cons r lib)
  define L1 where "L1 = (set_raw h (LString (fst r)) (LCFunction (snd r)) (lua_pushcfunction (snd r) L))\<lparr>top := top L\<rparr>"
  have set: "lua_setfield E (-2) (fst r) (lua_pushcfunction (snd r) L) = (Inr (), L1)"
    using Cons.prems by (subst lua_setfield_plain [where h = h]) (simp_all add: L1_def lua_pushcfunction_def)
  have L1: "top L1 = top L" "ci_top L1 = ci_top L" "slots L1 (top L1 - 1) = LTable h" "metatable (tables L1 h) = None"
    "overrun L1 = overrun L" "udata L1 = udata L" "\<forall>x. x \<noteq> h \<longrightarrow> tables L1 x = tables L x"
    "tget (tables L1 h) = reg_fun r (tget (tables L h))"
    using Cons.prems by (simp_all add: L1_def lua_pushcfunction_def reg_fun_def) (simp add: set_raw_def)
  then show ?case using Cons.IH [of L1] Cons.prems by (simp add: set)
qed simp

lemma fold_reg_fun:
  assumes "distinct (map fst lib)"
  shows "fold reg_fun lib f (LString n) = (case map_of lib n of Some g \<Rightarrow> LCFunction g | None \<Rightarrow> f (LString n))"
  using assms
proof (induction lib arbitrary: f)
  case (Cons r lib)
  then have "map_of lib (fst r) = None" by (simp add: map_of_eq_None_iff)
  with Cons show ?case by (cases "n = fst r") (simp_all add: reg_fun_def)
qed simp

lemma fold_reg_fun_other: "(\<And>n. k \<noteq> LString n) \<Longrightarrow> fold reg_fun lib f k = f k"
  by (induction lib arbitrary: f) (simp_all add: reg_fun_def)

lemma luaopen_module_spec:
  assumes "distinct (map fst lib)" "top L + 1 < ci_top L"
  shows "\<exists>L'. luaopen_module E lib L = (Return 1, L') \<and> results 1 L' = [LTable (next_table L)] \<and> overrun L' = overrun L \<and>
    (\<forall>n. tget (tables L' (next_table L)) (LString n) = (case map_of lib n of Some g \<Rightarrow> LCFunction g | None \<Rightarrow> LNil)) \<and>
    (\<forall>k. (\<forall>n. k \<noteq> LString n) \<longrightarrow> tget (tables L' (next_table L)) k = LNil) \<and>
    (\<forall>x. x \<noteq> next_table L \<longrightarrow> tables L' x = tables L x)"
proof -
  let ?N = "lua_newtable L" and ?h = "next_table L"
  have N: "top ?N = top L + 1" "slots ?N (top ?N - 1) = LTable ?h" "ci_top ?N = ci_top L" "overrun ?N = overrun L"
    "tget (tables ?N ?h) = (\<lambda>_. LNil)" "metatable (tables ?N ?h) = None" "\<forall>x. x \<noteq> ?h \<longrightarrow> tables ?N x = tables L x"
    using assms(2) by (simp_all add: lua_newtable_def lua_createtable_def Let_def)
  obtain L' where "register_all E lib ?N = (Inr (), L')" "top L' = top L + 1" "slots L' (top L) = LTable ?h"
    "overrun L' = overrun L" "\<forall>x. x \<noteq> ?h \<longrightarrow> tables L' x = tables L x"
    "tget (tables L' ?h) = fold reg_fun lib (\<lambda>_. LNil)"
    using register_all_fold [of ?N ?h E lib] N assms(2) by fastforce
  then show ?thesis using assms(1)
    by (simp add: luaopen_module_def results_def fold_reg_fun fold_reg_fun_other)
qed

text \<open>A border of a table: present (or zero), with its successor absent.\<close>

definition is_border :: "Table \<Rightarrow> nat \<Rightarrow> bool" where
  "is_border t n \<longleftrightarrow> (n = 0 \<or> tget_num t n \<noteq> LNil) \<and> tget_num t (n + 1) = LNil"

lemma border_search_Suc: "border_search t i (Suc i) = i"
  by (simp add: border_search.simps [of t i "Suc i"])

lemma border_search_border:
  "i < j \<Longrightarrow> i = 0 \<or> tget_num t i \<noteq> LNil \<Longrightarrow> tget_num t j = LNil \<Longrightarrow> is_border t (border_search t i j)"
proof (induction t i j rule: border_search.induct)
  case (1 t i j)
  show ?case
  proof (cases "1 < j - i")
    case True
    then have "i < (i + j) div 2" "(i + j) div 2 < j" by auto
    then show ?thesis using 1 True by (simp add: border_search.simps [of t i j] Let_def)
  next
    case False
    then have "j = i + 1" using 1(3) by simp
    then show ?thesis using 1 by (simp add: border_search_Suc is_border_def)
  qed
qed

lemma linear_search_border:
  assumes "0 < i" "i = 1 \<or> tget_num t (i - 1) \<noteq> LNil" "tget_num t n = LNil" "i \<le> n" "n < i + k"
  shows "is_border t (linear_search k t i)"
  using assms
proof (induction k t i rule: linear_search.induct)
  case (2 k t i)
  show ?case
  proof (cases "tget_num t i = LNil")
    case False
    then have "i \<noteq> n" using 2 by auto
    then show ?thesis using 2 False by simp
  qed (use 2 in \<open>auto simp: is_border_def\<close>)
qed simp

lemma unbound_loop_border:
  assumes "i < j" "i = 0 \<or> tget_num t i \<noteq> LNil" "tget_num t n = LNil" "0 < n" "n \<le> MAX_INT"
  shows "is_border t (unbound_loop t i j)"
  using assms
proof (induction t i j rule: unbound_loop.induct)
  case (1 t i j)
  show ?case
  proof (cases "tget_num t j \<noteq> LNil")
    case True
    have "is_border t (linear_search MAX_INT t 1)" using 1 by (intro linear_search_border [where n = n]) auto
    then show ?thesis using 1 True by (simp add: unbound_loop.simps [of t i j])
  next
    case False
    then show ?thesis using 1 border_search_border [of i j t] by (simp add: unbound_loop.simps [of t i j])
  qed
qed

lemma excess_bits_upper: "m < 2 ^ 53 * 2 ^ excess_bits m"
proof (induction m rule: excess_bits.induct)
  case (1 m)
  then show ?case by (cases "m < 2 ^ 53") (simp_all add: excess_bits.simps [of m])
qed

lemma excess_bits_lower: "0 < excess_bits m \<Longrightarrow> 2 ^ 52 * 2 ^ excess_bits m \<le> m"
proof (induction m rule: excess_bits.induct)
  case (1 m)
  then have ge: "\<not> m < 2 ^ 53" by (simp add: excess_bits.simps [of m] split: if_splits)
  show ?case
  proof (cases "0 < excess_bits (m div 2)")
    case True
    then show ?thesis using 1(1) [OF ge] ge by (simp add: excess_bits.simps [of m])
  next
    case False
    then show ?thesis using ge by (simp add: excess_bits.simps [of m])
  qed
qed

lemma cast_num_error:
  "\<bar>cast_num n - of_int n\<bar> * 2 ^ 53 \<le> \<bar>of_int n\<bar>"
proof -
  define m e P where "m = nat \<bar>n\<bar>" and "e = excess_bits m" and "P = (2 :: nat) ^ e"
  define q r where "q = m div P" and "r = m mod P"
  define q' where "q' = (if P < 2 * r \<or> P = 2 * r \<and> odd q then q + 1 else q)"
  have "m = q * P + r" unfolding q_def r_def by (rule div_mult_mod_eq [symmetric])
  then have m: "int m = int q * int P + int r" by simp
  have "0 < P" by (simp add: P_def)
  then have r: "r < P" by (simp add: r_def)
  have half: "2 * \<bar>int (q' * P) - int m\<bar> \<le> int P"
    using r unfolding q'_def m by (auto simp: algebra_simps abs_if)
  have "\<bar>int (q' * P) - int m\<bar> * 2 ^ 53 \<le> int m"
  proof (cases "e = 0")
    case True
    then show ?thesis using r m by (simp add: q'_def P_def)
  next
    case False
    then have "2 ^ 52 * P \<le> m" using excess_bits_lower [of m] by (simp add: e_def P_def)
    then have "2 ^ 52 * int P \<le> int m" by simp
    moreover have "x * 2 ^ 53 \<le> b" if "2 * x \<le> a" "2 ^ 52 * a \<le> b" for x a b :: int using that by simp
    ultimately show ?thesis using half by blast
  qed
  moreover have "\<bar>sgn n * a - n\<bar> = \<bar>a - int m\<bar>" if "0 < m" for a
    using that by (cases n "0::int" rule: linorder_cases) (auto simp: m_def)
  ultimately have "\<bar>sgn n * int (q' * P) - n\<bar> * 2 ^ 53 \<le> \<bar>n\<bar>"
    by (cases "m = 0") (simp_all add: m_def)
  then have "of_int (\<bar>sgn n * int (q' * P) - n\<bar> * 2 ^ 53) \<le> (of_int \<bar>n\<bar> :: rat)" by (simp only: of_int_le_iff)
  moreover have "cast_num n = of_int (sgn n * int (q' * P))"
    by (simp add: cast_num_def Let_def m_def e_def q_def r_def q'_def P_def)
  ultimately show ?thesis by simp
qed

text \<open>
  C10 (functional): the length of a table that \<^verbatim>\<open>luaH_getn\<close> computes is a border of the table, if
  there is nothing beyond the array part of a table without a hash part, and one of the indices up to
  \<^verbatim>\<open>MAX_INT\<close> is absent.
\<close>

theorem luaH_getn_border:
  assumes "dummynode t \<Longrightarrow> tget_num t (sizearray t + 1) = LNil" "tget_num t n = LNil" "0 < n" "n \<le> MAX_INT"
  shows "is_border t (luaH_getn t)"
proof (cases "0 < sizearray t \<and> tget_num t (sizearray t) = LNil")
  case True
  then show ?thesis using border_search_border [of 0 "sizearray t" t] by (simp add: luaH_getn_def)
next
  case False
  then have "is_border t (unbound_search t (sizearray t))"
    unfolding unbound_search_def using assms(2-4) by (intro unbound_loop_border [where n = n]) auto
  with False assms(1) show ?thesis by (cases "dummynode t") (auto simp: luaH_getn_def is_border_def Let_def)
qed

theorem luaH_getn_border_witness:
  "is_border \<lparr>tget = (\<lambda>k. if k \<in> {LNumber 1, LNumber 2} then LBoolean True else LNil), sizearray = 1, dummynode = False,
     metatable = None\<rparr>
   (luaH_getn \<lparr>tget = (\<lambda>k. if k \<in> {LNumber 1, LNumber 2} then LBoolean True else LNil), sizearray = 1, dummynode = False,
     metatable = None\<rparr>)"
  by (rule luaH_getn_border [where n = 3]) (simp_all add: tget_num_def MAX_INT_def)

text \<open>
  An integer pushed as a Lua number is off by at most a \<open>2 ^ 53\<close>rd part of its magnitude;
  integers of magnitude up to \<open>2 ^ 53\<close> are exact and \<open>2 ^ 53 + 1\<close> is not.
\<close>

theorem cast_num_precision:
  "\<bar>cast_num n - of_int n\<bar> * 2 ^ 53 \<le> \<bar>of_int n\<bar> \<and> cast_num (2 ^ 53) = 2 ^ 53 \<and> cast_num (2 ^ 53 + 1) = 2 ^ 53"
proof (intro conjI)
  have "excess_bits 9007199254740992 = 1" "excess_bits 9007199254740993 = 1"
    by (simp_all add: excess_bits.simps [of 9007199254740992] excess_bits.simps [of 9007199254740993]
        excess_bits.simps [of 4503599627370496])
  then show "cast_num (2 ^ 53) = 2 ^ 53" "cast_num (2 ^ 53 + 1) = 2 ^ 53" by (simp_all add: cast_num_def)
qed (rule cast_num_error)

end
