(* ===== verification/Lsha.thy ===== *)
theory Lsha
  imports Sha1 Sha256 LuaApi
begin

text \<open>
  The Lua binding of the hashes, \<^verbatim>\<open>generic/lsha.c\<close>. A hash context lives in the block of a full
  userdata whose metatable is registered under the name of the context type. The static
  \<^verbatim>\<open>workspace\<close> of \<^verbatim>\<open>SHA1Transform\<close> is the static state of the module. \<open>le\<close> and \<open>bo\<close> are the
  compilation parameters of the hashes.
\<close>

section \<open>Userdata blocks\<close>

text \<open>
  A block is memory that was written as one type of context; reading it as another type,
  which a wrong metatable makes possible, is undefined behaviour. \<open>File_block\<close> is the
  handle of the standard I/O library of Lua.
\<close>

datatype ublock_t = Sha1_block SHA1_CTX | Sha256_block SHA256_CTX | File_block nat | Other_block nat

type_synonym ('s, 'w) state = "(ublock_t, 's, 'w) lua_State"
type_synonym ('s, 'w) env = "(ublock_t, 's, 'w) lua_env"

definition str_bytes :: "string \<Rightarrow> byte list" where
  "str_bytes s = map of_char s"

definition TYPE_SHA1 :: string where "TYPE_SHA1 = ''SHA1_CTX''"
definition TYPE_SHA256 :: string where "TYPE_SHA256 = ''SHA256_CTX''"

definition sizeof_SHA1_CTX :: nat where "sizeof_SHA1_CTX = 92"
definition sizeof_SHA256_CTX :: nat where "sizeof_SHA256_CTX = 104"

definition set_block :: "nat \<Rightarrow> ublock_t \<Rightarrow> ('s, 'w) state \<Rightarrow> ('s, 'w) state" where
  "set_block u b L = L\<lparr>udata := (udata L)(u := (udata L u)\<lparr>ublock := b\<rparr>)\<rparr>"

section \<open>SHA-1\<close>

text \<open>\<open>mem\<close> is the uninitialised memory of the new userdata.\<close>

definition lsha1_init ::
  "(byte list, 'w) env \<Rightarrow> SHA1_CTX \<Rightarrow> (byte list, 'w) state \<Rightarrow> lua_ret \<times> (byte list, 'w) state" where
  "lsha1_init E mem L =
     (case lua_newuserdata (Sha1_block mem) sizeof_SHA1_CTX L of (ctx, L) \<Rightarrow>
      check (luaL_newmetatable E TYPE_SHA1 L) (\<lambda>_ L.
      let L = lua_setmetatable 1 L;
          L = set_block ctx (Sha1_block (SHA1Init mem)) L
      in (Return 1, L)))"

definition UINT_MAX :: nat where "UINT_MAX = 2 ^ 32 - 1"

definition lsha1_update ::
  "bool \<Rightarrow> byte_order \<Rightarrow> (byte list, 'w) env \<Rightarrow> (byte list, 'w) state \<Rightarrow> lua_ret \<times> (byte list, 'w) state" where
  "lsha1_update le bo E L =
     check (luaL_checktype 1 LUA_TUSERDATA L) (\<lambda>_ L.
     check (luaL_checkudata E 1 TYPE_SHA1 L) (\<lambda>ctx L.
     check (luaL_checktype 2 LUA_TSTRING L) (\<lambda>_ L.
     check (luaL_checklstring E 2 L) (\<lambda>data L.
     if UINT_MAX < length data then (Raise (Run_error ''sha1_update: data exceeds UINT_MAX''), L)
     else case ctx of
       LUserdata u \<Rightarrow>
         (case ublock (udata L u) of
            Sha1_block c \<Rightarrow>
              (case SHA1Update le bo (c, statics L) (str_bytes data) (of_nat (length data)) of
                 Inl e \<Rightarrow> (Undefined ''SHA1Update'', L)
               | Inr (c, ws) \<Rightarrow> (Return 0, (set_block u (Sha1_block c) L)\<lparr>statics := ws\<rparr>))
          | _ \<Rightarrow> (Undefined ''SHA1_CTX'', L))
     | _ \<Rightarrow> (Undefined ''SHA1_CTX'', L)))))"

definition lsha1_final ::
  "bool \<Rightarrow> byte_order \<Rightarrow> (byte list, 'w) env \<Rightarrow> (byte list, 'w) state \<Rightarrow> lua_ret \<times> (byte list, 'w) state" where
  "lsha1_final le bo E L =
     check (luaL_checktype 1 LUA_TUSERDATA L) (\<lambda>_ L.
     check (luaL_checkudata E 1 TYPE_SHA1 L) (\<lambda>ctx L.
     case ctx of
       LUserdata u \<Rightarrow>
         (case ublock (udata L u) of
            Sha1_block c \<Rightarrow>
              (case SHA1Final le bo (c, statics L) of
                 Inl e \<Rightarrow> (Undefined ''SHA1Final'', L)
               | Inr (digest, c, ws) \<Rightarrow>
                   let L = (set_block u (Sha1_block c) L)\<lparr>statics := ws\<rparr>
                   in (Return 1, lua_pushstring (Some (hex_loop digest)) L))
          | _ \<Rightarrow> (Undefined ''SHA1_CTX'', L))
     | _ \<Rightarrow> (Undefined ''SHA1_CTX'', L)))"

section \<open>SHA-256\<close>

definition lsha256_init ::
  "(byte list, 'w) env \<Rightarrow> SHA256_CTX \<Rightarrow> (byte list, 'w) state \<Rightarrow> lua_ret \<times> (byte list, 'w) state" where
  "lsha256_init E mem L =
     (case lua_newuserdata (Sha256_block mem) sizeof_SHA256_CTX L of (ctx, L) \<Rightarrow>
      check (luaL_newmetatable E TYPE_SHA256 L) (\<lambda>_ L.
      let L = lua_setmetatable 1 L;
          L = (case SHA256_Init (Some mem) of Some c \<Rightarrow> set_block ctx (Sha256_block c) L | None \<Rightarrow> L)
      in (Return 1, L)))"

definition lsha256_update ::
  "byte_order \<Rightarrow> (byte list, 'w) env \<Rightarrow> (byte list, 'w) state \<Rightarrow> lua_ret \<times> (byte list, 'w) state" where
  "lsha256_update bo E L =
     check (luaL_checktype 1 LUA_TUSERDATA L) (\<lambda>_ L.
     check (luaL_checkudata E 1 TYPE_SHA256 L) (\<lambda>ctx L.
     check (luaL_checktype 2 LUA_TSTRING L) (\<lambda>_ L.
     check (luaL_checklstring E 2 L) (\<lambda>data L.
     case ctx of
       LUserdata u \<Rightarrow>
         (case ublock (udata L u) of
            Sha256_block c \<Rightarrow>
              (case SHA256_Update bo (Some c) (Some (str_bytes data)) (of_nat (length data)) of
                 Inr (Some c) \<Rightarrow> (Return 0, set_block u (Sha256_block c) L)
               | _ \<Rightarrow> (Undefined ''SHA256_Update'', L))
          | _ \<Rightarrow> (Undefined ''SHA256_CTX'', L))
     | _ \<Rightarrow> (Undefined ''SHA256_CTX'', L)))))"

definition lsha256_final ::
  "byte_order \<Rightarrow> (byte list, 'w) env \<Rightarrow> (byte list, 'w) state \<Rightarrow> lua_ret \<times> (byte list, 'w) state" where
  "lsha256_final bo E L =
     check (luaL_checktype 1 LUA_TUSERDATA L) (\<lambda>_ L.
     check (luaL_checkudata E 1 TYPE_SHA256 L) (\<lambda>ctx L.
     case ctx of
       LUserdata u \<Rightarrow>
         (case ublock (udata L u) of
            Sha256_block c \<Rightarrow>
              (case SHA256_End bo True (Some c) of
                 Inr (Some (digest, end), Some c) \<Rightarrow>
                   (Return 1, lua_pushstring (Some digest) (set_block u (Sha256_block c) L))
               | _ \<Rightarrow> (Undefined ''SHA256_End'', L))
          | _ \<Rightarrow> (Undefined ''SHA256_CTX'', L))
     | _ \<Rightarrow> (Undefined ''SHA256_CTX'', L)))"

section \<open>Registration\<close>

definition lsha_lib :: "(string \<times> string) list" where
  "lsha_lib = [(''sha1_init'', ''lsha1_init''), (''sha1_update'', ''lsha1_update''), (''sha1_final'', ''lsha1_final''),
     (''sha256_init'', ''lsha256_init''), (''sha256_update'', ''lsha256_update''), (''sha256_final'', ''lsha256_final'')]"

definition luaopen_lsha :: "('s, 'w) env \<Rightarrow> ('s, 'w) state \<Rightarrow> lua_ret \<times> ('s, 'w) state" where
  "luaopen_lsha E L = luaopen_module E lsha_lib L"

section \<open>A call of each operation\<close>

lemma set_block_simps [simp]:
  "registry (set_block u b L) = registry L" "tables (set_block u b L) = tables L"
  "ublock (udata (set_block u b L) v) = (if v = u then b else ublock (udata L v))"
  "umeta (udata (set_block u b L) v) = umeta (udata L v)" "statics (set_block u b L) = statics L"
  "overrun (set_block u b L) = overrun L" "next_udata (set_block u b L) = next_udata L"
  by (simp_all add: set_block_def)

lemma set_block_twice [simp]: "set_block u b (set_block u b' L) = set_block u b L"
  by (simp add: set_block_def)

text \<open>A userdata with the metatable of a registered type, holding the given block.\<close>

definition holds :: "string \<Rightarrow> nat \<Rightarrow> ublock_t \<Rightarrow> ('s, 'w) state \<Rightarrow> bool" where
  "holds name u b L \<longleftrightarrow> (\<exists>m. registered name m L \<and> umeta (udata L u) = Some m) \<and> ublock (udata L u) = b"

lemma holds_set_block: "holds name u b L \<Longrightarrow> holds name u c (set_block u c L)"
  by (simp add: holds_def registered_def)

lemma holds_statics: "holds name u b (L\<lparr>statics := ws\<rparr>) = holds name u b L"
  by (simp add: holds_def registered_def)

lemma checkudata_enter:
  assumes "holds name u b L"
  shows "\<exists>sl. luaL_checkudata E 1 name (enter_c stale (LUserdata u # args) L) =
      (Inr (LUserdata u), (enter_c stale (LUserdata u # args) L)\<lparr>slots := sl\<rparr>) \<and>
    (\<forall>i \<le> length args. sl i = (LUserdata u # args) ! i)"
proof -
  let ?L = "enter_c stale (LUserdata u # args) L"
  from assms obtain m where "registered name m L" "umeta (udata L u) = Some m" by (auto simp: holds_def)
  then have "luaL_checkudata E 1 name ?L =
      (Inr (LUserdata u), ?L\<lparr>slots := (slots ?L)(top ?L := LTable m, top ?L + 1 := LTable m)\<rparr>)"
    by (intro luaL_checkudata_ok) (simp_all add: registered_def)
  then show ?thesis by (intro exI conjI) (assumption, simp)
qed

lemmas lsha_call_simps = call_c_def luaL_checktype_def lua_type_def luaL_checklstring_def lua_tolstring_def
  results_def lua_types enter_c_def set_block_def lua_pushstring_def lua_pushlstring_def push_def LUA_MINSTACK_def

lemma lsha256_update_call:
  assumes "holds TYPE_SHA256 u (Sha256_block c) L" and "sha256_feed bo (Some c) (str_bytes s) = Inr (Some c')"
  shows "call_c stale [LUserdata u, LString s] (lsha256_update bo E) L = ((Return 0, []), set_block u (Sha256_block c') L)"
proof -
  from assms(1) have b: "ublock (udata L u) = Sha256_block c" by (simp add: holds_def)
  obtain sl where "luaL_checkudata E 1 TYPE_SHA256 (enter_c stale [LUserdata u, LString s] L) =
      (Inr (LUserdata u), (enter_c stale [LUserdata u, LString s] L)\<lparr>slots := sl\<rparr>)" "sl 1 = LString s"
    using checkudata_enter [OF assms(1), of E stale "[LString s]"] by auto
  then show ?thesis using b assms(2)
    by (simp add: lsha256_update_def sha256_feed_def str_bytes_def lsha_call_simps)
qed

lemma lsha256_final_call:
  assumes "holds TYPE_SHA256 u (Sha256_block c) L" and "SHA256_End bo True (Some c) = Inr (Some (d, n), Some c')"
  shows "call_c stale [LUserdata u] (lsha256_final bo E) L =
    ((Return 1, [LString (c_str d)]), set_block u (Sha256_block c') L)"
proof -
  from assms(1) have b: "ublock (udata L u) = Sha256_block c" by (simp add: holds_def)
  obtain sl where "luaL_checkudata E 1 TYPE_SHA256 (enter_c stale [LUserdata u] L) =
      (Inr (LUserdata u), (enter_c stale [LUserdata u] L)\<lparr>slots := sl\<rparr>)"
    using checkudata_enter [OF assms(1), of E stale "[]"] by auto
  then show ?thesis using b assms(2)
    by (simp add: lsha256_final_def lsha_call_simps)
qed

lemma lsha1_update_call:
  assumes "holds TYPE_SHA1 u (Sha1_block c) L" and "length s < 2 ^ 32"
    and "sha1_feed le bo (c, statics L) (str_bytes s) = Inr (c', ws)"
  shows "call_c stale [LUserdata u, LString s] (lsha1_update le bo E) L =
    ((Return 0, []), (set_block u (Sha1_block c') L)\<lparr>statics := ws\<rparr>)"
proof -
  from assms(1) have b: "ublock (udata L u) = Sha1_block c" by (simp add: holds_def)
  obtain sl where "luaL_checkudata E 1 TYPE_SHA1 (enter_c stale [LUserdata u, LString s] L) =
      (Inr (LUserdata u), (enter_c stale [LUserdata u, LString s] L)\<lparr>slots := sl\<rparr>)" "sl 1 = LString s"
    using checkudata_enter [OF assms(1), of E stale "[LString s]"] by auto
  moreover have "\<not> UINT_MAX < length s" using assms(2) by (simp add: UINT_MAX_def)
  ultimately show ?thesis using b assms(3)
    by (simp add: lsha1_update_def sha1_feed_def str_bytes_def lsha_call_simps)
qed

lemma lsha1_final_call:
  assumes "holds TYPE_SHA1 u (Sha1_block c) L" and "SHA1Final le bo (c, statics L) = Inr (d, c', ws)"
  shows "call_c stale [LUserdata u] (lsha1_final le bo E) L =
    ((Return 1, [LString (c_str (hex_loop d))]), (set_block u (Sha1_block c') L)\<lparr>statics := ws\<rparr>)"
proof -
  from assms(1) have b: "ublock (udata L u) = Sha1_block c" by (simp add: holds_def)
  obtain sl where "luaL_checkudata E 1 TYPE_SHA1 (enter_c stale [LUserdata u] L) =
      (Inr (LUserdata u), (enter_c stale [LUserdata u] L)\<lparr>slots := sl\<rparr>)"
    using checkudata_enter [OF assms(1), of E stale "[]"] by auto
  then show ?thesis using b assms(2)
    by (simp add: lsha1_final_def lsha_call_simps)
qed

text \<open>A registry in which a name is free or names a metatable.\<close>

definition reg_ok :: "string \<Rightarrow> ('s, 'w) state \<Rightarrow> bool" where
  "reg_ok name L \<longleftrightarrow> metatable (tables L (registry L)) = None \<and> registry L < next_table L \<and>
     (tget (tables L (registry L)) (LString name) = LNil \<or> (\<exists>m. registered name m L))"

lemma luaL_newmetatable_ok:
  assumes "reg_ok name L" "top L + 2 \<le> ci_top L"
  shows "\<exists>b m L'. luaL_newmetatable E name L = (Inr b, L') \<and> registered name m L' \<and> top L' = top L + 1 \<and>
    slots L' (top L) = LTable m \<and> (\<forall>i < top L. slots L' i = slots L i) \<and> ci_top L' = ci_top L \<and>
    udata L' = udata L \<and> next_udata L' = next_udata L \<and> statics L' = statics L \<and> overrun L' = overrun L \<and>
    (\<forall>n k. registered n k L \<longrightarrow> registered n k L') \<and> (\<forall>n. reg_ok n L \<longrightarrow> reg_ok n L')"
proof (cases "tget (tables L (registry L)) (LString name) = LNil")
  case False
  then obtain m where "registered name m L" using assms(1) by (auto simp: reg_ok_def)
  then show ?thesis using assms(2)
    by (intro exI [of _ False] exI [of _ m] exI [of _ "push (LTable m) L"])
      (auto simp: luaL_newmetatable_def lua_getfield_def luaV_gettable_plain registered_def lua_type_def lua_types reg_ok_def)
next
  case True
  have r: "registry L \<noteq> next_table L" "metatable (tables L (registry L)) = None" using assms(1) by (auto simp: reg_ok_def)
  let ?m = "next_table L"
  let ?L1 = "push (LTable ?m) (push (LTable ?m) (L\<lparr>slots := (slots L)(top L := LNil),
    tables := (tables L)(?m := \<lparr>tget = (\<lambda>_. LNil), sizearray = 0, dummynode = True, metatable = None\<rparr>), next_table := ?m + 1\<rparr>))"
  let ?L2 = "(set_raw (registry L) (LString name) (LTable ?m) ?L1)\<lparr>top := top L + 1\<rparr>"
  have "luaL_newmetatable E name L = (Inr True, ?L2)"
    using True r assms(2)
    by (simp add: luaL_newmetatable_def lua_getfield_def luaV_gettable_plain lua_type_def lua_newtable_def
        lua_createtable_def lua_pushvalue_def lua_setfield_def luaV_settable_plain Let_def push_def set_raw_def)
  moreover have "registered name ?m ?L2" using r by (simp add: registered_def)
  moreover have "\<forall>n k. registered n k L \<longrightarrow> registered n k ?L2" "\<forall>n. reg_ok n L \<longrightarrow> reg_ok n ?L2"
    using r True by (auto simp: registered_def reg_ok_def set_raw_def)
  ultimately show ?thesis using assms(2)
    by (intro exI [of _ True] exI [of _ ?m] exI [of _ ?L2] conjI) auto
qed

lemma reg_ok_frames [simp]:
  "reg_ok n (set_block u b L) = reg_ok n L" "reg_ok n (L\<lparr>statics := ws\<rparr>) = reg_ok n L"
  by (simp_all add: reg_ok_def registered_def set_block_def)

lemma holds_frames: "v \<noteq> u \<Longrightarrow> holds name v b (set_block u c L) = holds name v b L"
  by (simp add: holds_def registered_def)

text \<open>The frame of the caller is restored after a call.\<close>

lemma frame_restored [simp]:
  "holds n v b (L\<lparr>slots := sl, top := t, ci_top := ct\<rparr>) = holds n v b L"
  "reg_ok n (L\<lparr>slots := sl, top := t, ci_top := ct\<rparr>) = reg_ok n L"
  by (simp_all add: holds_def registered_def reg_ok_def)

text \<open>
  What both \<^verbatim>\<open>*_init\<close> functions do when they are called without arguments: the new userdata
  gets index 1, so \<^verbatim>\<open>lua_setmetatable(L, 1)\<close> applies to it.
\<close>

lemma init_userdata:
  assumes "reg_ok name L" and L1: "lua_newuserdata mem sz (enter_c stale [] L) = (u, L1)"
  shows "\<exists>b L2 L3. luaL_newmetatable E name L1 = (Inr b, L2) \<and> set_block u c (lua_setmetatable 1 L2) = L3 \<and>
    u = next_udata L \<and> results 1 L3 = [LUserdata u] \<and> holds name u c L3 \<and> reg_ok name L3 \<and>
    (\<forall>v b n. v \<noteq> u \<longrightarrow> holds n v b L \<longrightarrow> holds n v b L3) \<and> next_udata L3 = u + 1 \<and> statics L3 = statics L \<and>
    (\<forall>n. reg_ok n L \<longrightarrow> reg_ok n L3)"
proof -
  have u: "u = next_udata L" "L1 = push (LUserdata u) ((enter_c stale [] L)\<lparr>udata := (udata L)(u := \<lparr>ublock = mem, ulen = sz,
      umeta = None\<rparr>), next_udata := u + 1\<rparr>)"
    using L1 by (auto simp: lua_newuserdata_def Let_def)
  have reg: "registered n k L1 = registered n k L" "reg_ok n L1 = reg_ok n L" for n k
    by (simp_all add: u(2) reg_ok_def registered_def)
  have "reg_ok name L1" and "top L1 = 1" and "top L1 + 2 \<le> ci_top L1" using assms(1) by (simp_all add: reg) (simp_all add: u(2))
  moreover have L1f: "slots L1 0 = LUserdata u" "next_udata L1 = Suc u" "statics L1 = statics L" by (simp_all add: u(2))
  ultimately have "reg_ok name L1" "top L1 + 2 \<le> ci_top L1" by simp_all
  from luaL_newmetatable_ok [OF this, of E] obtain b m L2
    where L2: "luaL_newmetatable E name L1 = (Inr b, L2)" "registered name m L2" "top L2 = 2" "slots L2 1 = LTable m"
      "slots L2 0 = LUserdata u" "udata L2 = udata L1" "next_udata L2 = u + 1" "statics L2 = statics L"
      "\<And>n k. registered n k L \<Longrightarrow> registered n k L2" "\<And>n. reg_ok n L \<Longrightarrow> reg_ok n L2"
    using \<open>top L1 = 1\<close> assms(1) L1f by (auto simp: reg)
  define L3 where "L3 = set_block u c (lua_setmetatable 1 L2)"
  have L3: "L3 = (set_block u c (L2\<lparr>udata := (udata L2)(u := (udata L2 u)\<lparr>umeta := Some m\<rparr>)\<rparr>))\<lparr>top := 1\<rparr>"
    using L2 by (simp add: L3_def lua_setmetatable_def Let_def set_block_def)
  have "\<forall>n. reg_ok n L \<longrightarrow> reg_ok n L3" using L2(10) by (auto simp: L3 registered_def reg_ok_def set_block_def)
  moreover have "holds name u c L3" using L2 by (simp add: L3 holds_def registered_def set_block_def)
  moreover have "\<forall>v b n. v \<noteq> u \<longrightarrow> holds n v b L \<longrightarrow> holds n v b L3"
    using L2 by (auto simp: L3 holds_def set_block_def u(2)) (auto simp: registered_def)
  moreover have "results 1 L3 = [LUserdata u]" "next_udata L3 = u + 1" "statics L3 = statics L"
    using L2 by (simp_all add: L3 results_def set_block_def)
  ultimately show ?thesis using u(1) L2(1) L3_def assms(1) by blast
qed

section \<open>The contract of a hash binding\<close>

text \<open>
  A trace of calls from Lua: contexts are created, fed and closed in any interleaving. The
  abstract state is the message of every open context and the number of the next userdata.
\<close>

datatype 'm hash_op = Op_init 'm | Op_update nat string | Op_final nat

type_synonym call_result = "lua_ret \<times> lua_value list"
type_synonym hash_spec = "(nat \<rightharpoonup> byte list) \<times> nat"

fun spec_op :: "(byte list \<Rightarrow> byte list) \<Rightarrow> 'm hash_op \<Rightarrow> hash_spec \<Rightarrow> call_result \<times> hash_spec" where
  "spec_op h (Op_init k) (m, n) = ((Return 1, [LUserdata n]), (m(n \<mapsto> []), n + 1))"
| "spec_op h (Op_update u s) (m, n) = ((Return 0, []), (m(u \<mapsto> the (m u) @ str_bytes s), n))"
| "spec_op h (Op_final u) (m, n) = ((Return 1, [LString (hex_loop (h (the (m u))))]), (m(u := None), n))"

fun legal_op :: "('m \<Rightarrow> bool) \<Rightarrow> (string \<Rightarrow> bool) \<Rightarrow> 'm hash_op \<Rightarrow> hash_spec \<Rightarrow> bool" where
  "legal_op mem_ok limit (Op_init k) (m, n) \<longleftrightarrow> mem_ok k"
| "legal_op mem_ok limit (Op_update u s) (m, n) \<longleftrightarrow> m u \<noteq> None \<and> limit s"
| "legal_op mem_ok limit (Op_final u) (m, n) \<longleftrightarrow> m u \<noteq> None"

primrec spec_ops :: "(byte list \<Rightarrow> byte list) \<Rightarrow> 'm hash_op list \<Rightarrow> hash_spec \<Rightarrow> call_result list" where
  "spec_ops h [] a = []"
| "spec_ops h (x # xs) a = (case spec_op h x a of (r, a) \<Rightarrow> r # spec_ops h xs a)"

primrec legal_ops :: "('m \<Rightarrow> bool) \<Rightarrow> (string \<Rightarrow> bool) \<Rightarrow> (byte list \<Rightarrow> byte list) \<Rightarrow> 'm hash_op list \<Rightarrow> hash_spec \<Rightarrow> bool" where
  "legal_ops mem_ok limit h [] a \<longleftrightarrow> True"
| "legal_ops mem_ok limit h (x # xs) a \<longleftrightarrow> legal_op mem_ok limit x a \<and> legal_ops mem_ok limit h xs (snd (spec_op h x a))"

type_synonym ('s, 'w) handler = "('s, 'w) state \<Rightarrow> lua_ret \<times> ('s, 'w) state"

fun run_op ::
  "(nat \<Rightarrow> lua_value) \<Rightarrow> ('m \<Rightarrow> ('s, 'w) handler) \<Rightarrow> ('s, 'w) handler \<Rightarrow> ('s, 'w) handler \<Rightarrow>
   'm hash_op \<Rightarrow> ('s, 'w) state \<Rightarrow> call_result \<times> ('s, 'w) state" where
  "run_op stale ini upd fin (Op_init k) L = call_c stale [] (ini k) L"
| "run_op stale ini upd fin (Op_update u s) L = call_c stale [LUserdata u, LString s] upd L"
| "run_op stale ini upd fin (Op_final u) L = call_c stale [LUserdata u] fin L"

primrec run_ops ::
  "(nat \<Rightarrow> lua_value) \<Rightarrow> ('m \<Rightarrow> ('s, 'w) handler) \<Rightarrow> ('s, 'w) handler \<Rightarrow> ('s, 'w) handler \<Rightarrow>
   'm hash_op list \<Rightarrow> ('s, 'w) state \<Rightarrow> call_result list" where
  "run_ops stale ini upd fin [] L = []"
| "run_ops stale ini upd fin (x # xs) L =
     (case run_op stale ini upd fin x L of (r, L) \<Rightarrow> r # run_ops stale ini upd fin xs L)"

locale hash_binding =
  fixes ini :: "'m \<Rightarrow> ('s, 'w) handler" and upd fin :: "('s, 'w) handler"
    and ctx :: "byte list \<Rightarrow> nat \<Rightarrow> ('s, 'w) state \<Rightarrow> bool" and ready :: "('s, 'w) state \<Rightarrow> bool"
    and mem_ok :: "'m \<Rightarrow> bool" and limit :: "string \<Rightarrow> bool" and h :: "byte list \<Rightarrow> byte list"
  assumes ini_law: "ready L \<Longrightarrow> mem_ok k \<Longrightarrow>
      \<exists>L'. call_c stale [] (ini k) L = ((Return 1, [LUserdata (next_udata L)]), L') \<and> ready L' \<and>
        next_udata L' = next_udata L + 1 \<and> ctx [] (next_udata L) L' \<and>
        (\<forall>v msg. v < next_udata L \<longrightarrow> ctx msg v L \<longrightarrow> ctx msg v L')"
    and upd_law: "ready L \<Longrightarrow> ctx msg u L \<Longrightarrow> limit s \<Longrightarrow>
      \<exists>L'. call_c stale [LUserdata u, LString s] upd L = ((Return 0, []), L') \<and> ready L' \<and>
        next_udata L' = next_udata L \<and> ctx (msg @ str_bytes s) u L' \<and>
        (\<forall>v msg. v \<noteq> u \<longrightarrow> ctx msg v L \<longrightarrow> ctx msg v L')"
    and fin_law: "ready L \<Longrightarrow> ctx msg u L \<Longrightarrow>
      \<exists>L'. call_c stale [LUserdata u] fin L = ((Return 1, [LString (hex_loop (h msg))]), L') \<and> ready L' \<and>
        next_udata L' = next_udata L \<and> (\<forall>v msg. v \<noteq> u \<longrightarrow> ctx msg v L \<longrightarrow> ctx msg v L')"
begin

definition sim :: "hash_spec \<Rightarrow> ('s, 'w) state \<Rightarrow> bool" where
  "sim a L \<longleftrightarrow> ready L \<and> next_udata L = snd a \<and> (\<forall>u msg. fst a u = Some msg \<longrightarrow> u < snd a \<and> ctx msg u L)"

lemma sim_step:
  assumes "sim a L" "legal_op mem_ok limit x a"
  shows "\<exists>L'. run_op stale ini upd fin x L = (fst (spec_op h x a), L') \<and> sim (snd (spec_op h x a)) L'"
proof -
  obtain m n where a: "a = (m, n)" by (cases a)
  show ?thesis
  proof (cases x)
    case (Op_init k)
    then show ?thesis using assms ini_law [of L k stale] unfolding a
      by (fastforce simp: sim_def less_Suc_eq)
  next
    case (Op_update u s)
    then obtain msg where "m u = Some msg" "ctx msg u L" using assms by (auto simp: a sim_def)
    then show ?thesis using assms upd_law [of L msg u s stale] Op_update unfolding a
      by (fastforce simp: sim_def)
  next
    case (Op_final u)
    then obtain msg where "m u = Some msg" "ctx msg u L" using assms by (auto simp: a sim_def)
    then show ?thesis using assms fin_law [of L msg u stale] Op_final unfolding a
      by (fastforce simp: sim_def)
  qed
qed

lemma run_ops_spec:
  "sim a L \<Longrightarrow> legal_ops mem_ok limit h xs a \<Longrightarrow> run_ops stale ini upd fin xs L = spec_ops h xs a"
proof (induction xs arbitrary: a L)
  case (Cons x xs)
  then obtain L' where "run_op stale ini upd fin x L = (fst (spec_op h x a), L')" "sim (snd (spec_op h x a)) L'"
    using sim_step [of a L x stale] by auto
  then show ?case using Cons by (auto split: prod.split)
qed simp

lemma trace_from_empty:
  "ready L \<Longrightarrow> legal_ops mem_ok limit h xs (Map.empty, next_udata L) \<Longrightarrow>
   run_ops stale ini upd fin xs L = spec_ops h xs (Map.empty, next_udata L)"
  by (rule run_ops_spec) (simp_all add: sim_def)

end

section \<open>Both bindings meet the contract\<close>

abbreviation sha256_absorbed :: "byte list \<Rightarrow> SHA256_CTX option \<Rightarrow> bool" where
  "sha256_absorbed \<equiv> md_absorbed 64 compress256 sha256_initial_hash_value (\<lambda>c. sha256_view (the c))
       (\<lambda>m c. c \<noteq> None \<and> sha256_inv m (the c))"

definition sha256_ctx :: "byte list \<Rightarrow> nat \<Rightarrow> ('s, 'w) state \<Rightarrow> bool" where
  "sha256_ctx msg u L \<longleftrightarrow> (\<exists>c. holds TYPE_SHA256 u (Sha256_block c) L \<and> sha256_absorbed msg (Some c))"

definition sha1_ctx :: "bool \<Rightarrow> byte_order \<Rightarrow> byte list \<Rightarrow> nat \<Rightarrow> (byte list, 'w) state \<Rightarrow> bool" where
  "sha1_ctx le bo msg u L \<longleftrightarrow> (\<exists>c. holds TYPE_SHA1 u (Sha1_block c) L \<and>
     md_absorbed 64 (sha1_blockf le bo) SHA1_IV sha1_view sha1_inv msg (c, statics L))"

lemma sha256_ctx_mono:
  "sha256_ctx msg v L \<Longrightarrow> (\<And>b. holds TYPE_SHA256 v b L \<Longrightarrow> holds TYPE_SHA256 v b L') \<Longrightarrow> sha256_ctx msg v L'"
  by (auto simp: sha256_ctx_def)

lemma sha1_ctx_mono:
  "sha1_ctx le bo msg v L \<Longrightarrow> (\<And>b. holds TYPE_SHA1 v b L \<Longrightarrow> holds TYPE_SHA1 v b L') \<Longrightarrow> statics L' = statics L \<Longrightarrow>
   sha1_ctx le bo msg v L'"
  by (auto simp: sha1_ctx_def)

lemma c_str_hex_loop [simp]: "c_str (hex_loop ds) = hex_loop ds"
proof -
  have "\<forall>i < 16. sha2_hex_digits ! i \<noteq> CHR 0x00" by code_simp
  moreover have "unat (drop_bit 4 (d AND 0xf0)) < 16" "unat (d AND 0x0f) < 16" for d :: byte
    using unsigned_less [of d, where 'a = nat] by (simp_all only: byte_nibbles) (simp_all add: less_mult_imp_div_less)
  ultimately have "\<forall>c \<in> set (hex_loop ds). c \<noteq> CHR 0x00" by (induction ds) auto
  then show ?thesis by (simp add: c_str_def takeWhile_eq_all_conv)
qed

lemma length_str_bytes [simp]: "length (str_bytes s) = length s"
  by (simp add: str_bytes_def)

lemma sha256_ctx_frame: "sha256_ctx msg v L \<Longrightarrow> v \<noteq> u \<Longrightarrow> sha256_ctx msg v (set_block u b L)"
  by (auto simp: sha256_ctx_def holds_frames)

lemma sha256_ctx_own:
  "holds TYPE_SHA256 u b L \<Longrightarrow> sha256_absorbed msg (Some c) \<Longrightarrow> sha256_ctx msg u (set_block u (Sha256_block c) L)"
  using holds_set_block by (fastforce simp: sha256_ctx_def)

interpretation lsha256: hash_binding "lsha256_init E" "lsha256_update bo E" "lsha256_final bo E"
  sha256_ctx "reg_ok TYPE_SHA256" "\<lambda>_. True" "\<lambda>s. length s < 2 ^ 64" sha256_ref for E bo
proof unfold_locales
  fix L :: "(byte list, 'a) state" and k stale
  assume "reg_ok TYPE_SHA256 L"
  obtain u L1 where L1: "lua_newuserdata (Sha256_block k) sizeof_SHA256_CTX (enter_c stale [] L) = (u, L1)" by fastforce
  from init_userdata [OF \<open>reg_ok TYPE_SHA256 L\<close> L1, of E "Sha256_block (sha256_init_ctx k)"]
  obtain b L2 L3 where I: "luaL_newmetatable E TYPE_SHA256 L1 = (Inr b, L2)"
    "set_block u (Sha256_block (sha256_init_ctx k)) (lua_setmetatable 1 L2) = L3" "u = next_udata L" "results 1 L3 = [LUserdata u]"
    "holds TYPE_SHA256 u (Sha256_block (sha256_init_ctx k)) L3" "reg_ok TYPE_SHA256 L3"
    "\<forall>v b n. v \<noteq> u \<longrightarrow> holds n v b L \<longrightarrow> holds n v b L3" "next_udata L3 = u + 1"
    by blast
  have "call_c stale [] (lsha256_init E k) L =
      ((Return 1, [LUserdata (next_udata L)]), L3\<lparr>slots := slots L, top := top L, ci_top := ci_top L\<rparr>)"
    using I(1-4) by (simp add: call_c_def lsha256_init_def L1 SHA256_Init_def)
  moreover have "sha256_ctx [] u (L3\<lparr>slots := slots L, top := top L, ci_top := ci_top L\<rparr>)"
    using I(5) sha256.absorbed_init [of k] by (auto simp: sha256_ctx_def SHA256_Init_def)
  moreover have "sha256_ctx msg v (L3\<lparr>slots := slots L, top := top L, ci_top := ci_top L\<rparr>)" if "v < u" "sha256_ctx msg v L" for msg v
    by (rule sha256_ctx_mono [OF that(2)]) (use that(1) I(7) in simp)
  ultimately show "\<exists>L'. call_c stale [] (lsha256_init E k) L = ((Return 1, [LUserdata (next_udata L)]), L') \<and> reg_ok TYPE_SHA256 L' \<and>
      next_udata L' = next_udata L + 1 \<and> sha256_ctx [] (next_udata L) L' \<and>
      (\<forall>v msg. v < next_udata L \<longrightarrow> sha256_ctx msg v L \<longrightarrow> sha256_ctx msg v L')"
    using I(3,6,8) by (intro exI conjI) (assumption, simp_all)
next
  fix L :: "(byte list, 'a) state" and u and s :: string and msg stale
  assume "reg_ok TYPE_SHA256 L" "sha256_ctx msg u L" "length s < 2 ^ 64"
  then obtain c where c: "holds TYPE_SHA256 u (Sha256_block c) L"
    and ab: "sha256_absorbed msg (Some c)" by (auto simp: sha256_ctx_def)
  from sha256.absorbed_upd [OF ab, of "str_bytes s" bo] \<open>length s < 2 ^ 64\<close> obtain c'
    where c': "sha256_feed bo (Some c) (str_bytes s) = Inr (Some c')"
      "sha256_absorbed (msg @ str_bytes s) (Some c')"
    by (auto simp: md_absorbed_def)
  then show "\<exists>L'. call_c stale [LUserdata u, LString s] (lsha256_update bo E) L = ((Return 0, []), L') \<and> reg_ok TYPE_SHA256 L' \<and>
      next_udata L' = next_udata L \<and> sha256_ctx (msg @ str_bytes s) u L' \<and>
      (\<forall>v msg. v \<noteq> u \<longrightarrow> sha256_ctx msg v L \<longrightarrow> sha256_ctx msg v L')"
    using lsha256_update_call [OF c c'(1), of stale E] \<open>reg_ok TYPE_SHA256 L\<close> sha256_ctx_own [OF c c'(2)]
    by (simp add: sha256_ctx_frame)
next
  fix L :: "(byte list, 'a) state" and u msg stale
  assume "reg_ok TYPE_SHA256 L" "sha256_ctx msg u L"
  then obtain c where c: "holds TYPE_SHA256 u (Sha256_block c) L"
    and ab: "sha256_absorbed msg (Some c)" by (auto simp: sha256_ctx_def)
  have "SHA256_End bo True (Some c) = Inr (Some (hex_loop (sha256_ref msg), 64), Some sha256_zero)"
    using sha256.absorbed_fin [OF ab, of bo] SHA256_End_Final length_sha256_ref [of msg]
    by (fastforce simp: sha256_ref_def md_hash_def hex_store_def)
  then show "\<exists>L'. call_c stale [LUserdata u] (lsha256_final bo E) L = ((Return 1, [LString (hex_loop (sha256_ref msg))]), L') \<and>
      reg_ok TYPE_SHA256 L' \<and> next_udata L' = next_udata L \<and> (\<forall>v msg. v \<noteq> u \<longrightarrow> sha256_ctx msg v L \<longrightarrow> sha256_ctx msg v L')"
    using lsha256_final_call [OF c, of bo _ _ _ stale E] \<open>reg_ok TYPE_SHA256 L\<close>
    by (simp add: sha256_ctx_frame)
qed

lemma sha1_absorbed_workspace:
  "md_absorbed 64 f iv sha1_view sha1_inv msg (c, ws) \<Longrightarrow> length ws' = 64 \<Longrightarrow>
   md_absorbed 64 f iv sha1_view sha1_inv msg (c, ws')"
  by (simp add: md_absorbed_def sha1_view_def sha1_inv_def)

lemma length_wiped_workspace: "length (snd (sha1_wiped le bo (replicate 64 0))) = 64"
  using SHA1Transform_spec(2) [of "replicate 5 0" "replicate 64 0" "replicate 64 0" le bo]
  by (simp add: sha1_wiped_def case_prod_beta)

lemma sha1_absorbed_length: "md_absorbed 64 f iv sha1_view sha1_inv msg (c, ws) \<Longrightarrow> length ws = 64"
  by (simp add: md_absorbed_def sha1_inv_def)

lemma sha1_ctx_frame:
  "sha1_ctx le bo msg v L \<Longrightarrow> v \<noteq> u \<Longrightarrow> length ws = 64 \<Longrightarrow> sha1_ctx le bo msg v ((set_block u b L)\<lparr>statics := ws\<rparr>)"
  using sha1_absorbed_workspace by (fastforce simp: sha1_ctx_def holds_frames holds_statics)

lemma sha1_ctx_own:
  "holds TYPE_SHA1 u b L \<Longrightarrow> md_absorbed 64 (sha1_blockf le bo) SHA1_IV sha1_view sha1_inv msg (c, ws) \<Longrightarrow>
   sha1_ctx le bo msg u ((set_block u (Sha1_block c) L)\<lparr>statics := ws\<rparr>)"
  using holds_set_block by (fastforce simp: sha1_ctx_def holds_statics)

interpretation lsha1: hash_binding "lsha1_init E" "lsha1_update le bo E" "lsha1_final le bo E"
  "sha1_ctx le bo" "\<lambda>L. reg_ok TYPE_SHA1 L \<and> length (statics L) = 64" "\<lambda>k. length (buffer1 k) = 64"
  "\<lambda>s. length s + 63 < 2 ^ 32" "md_hash 64 (sha1_blockf le bo) SHA1_IV sha1_length_field sha1_out" for E le bo
proof unfold_locales
  fix L :: "(byte list, 'a) state" and k :: SHA1_CTX and stale
  assume L: "reg_ok TYPE_SHA1 L \<and> length (statics L) = 64" and k: "length (buffer1 k) = 64"
  obtain u L1 where L1: "lua_newuserdata (Sha1_block k) sizeof_SHA1_CTX (enter_c stale [] L) = (u, L1)" by fastforce
  from init_userdata [OF conjunct1 [OF L] L1, of E "Sha1_block (SHA1Init k)"]
  obtain b L2 L3 where I: "luaL_newmetatable E TYPE_SHA1 L1 = (Inr b, L2)"
    "set_block u (Sha1_block (SHA1Init k)) (lua_setmetatable 1 L2) = L3" "u = next_udata L" "results 1 L3 = [LUserdata u]"
    "holds TYPE_SHA1 u (Sha1_block (SHA1Init k)) L3" "reg_ok TYPE_SHA1 L3"
    "\<forall>v b n. v \<noteq> u \<longrightarrow> holds n v b L \<longrightarrow> holds n v b L3" "next_udata L3 = u + 1" "statics L3 = statics L"
    by blast
  have "call_c stale [] (lsha1_init E k) L =
      ((Return 1, [LUserdata (next_udata L)]), L3\<lparr>slots := slots L, top := top L, ci_top := ci_top L\<rparr>)"
    using I(1-4) by (simp add: call_c_def lsha1_init_def L1)
  moreover have "sha1_ctx le bo [] u (L3\<lparr>slots := slots L, top := top L, ci_top := ci_top L\<rparr>)"
    using I(5,9) L k sha1.absorbed_init [where local = k and ?b0.0 = "buffer1 k" and ws = "statics L" and le = le and bo = bo] by (auto simp: sha1_ctx_def mem64_id)
  moreover have "sha1_ctx le bo msg v (L3\<lparr>slots := slots L, top := top L, ci_top := ci_top L\<rparr>)"
    if "v < u" "sha1_ctx le bo msg v L" for msg v
    by (rule sha1_ctx_mono [OF that(2)]) (use that(1) I(7,9) in simp_all)
  ultimately show "\<exists>L'. call_c stale [] (lsha1_init E k) L = ((Return 1, [LUserdata (next_udata L)]), L') \<and>
      (reg_ok TYPE_SHA1 L' \<and> length (statics L') = 64) \<and> next_udata L' = next_udata L + 1 \<and> sha1_ctx le bo [] (next_udata L) L' \<and>
      (\<forall>v msg. v < next_udata L \<longrightarrow> sha1_ctx le bo msg v L \<longrightarrow> sha1_ctx le bo msg v L')"
    using I(3,6,8,9) L by (intro exI conjI) (assumption, simp_all)
next
  fix L :: "(byte list, 'a) state" and u and s :: string and msg stale
  assume L: "reg_ok TYPE_SHA1 L \<and> length (statics L) = 64" "sha1_ctx le bo msg u L" "length s + 63 < 2 ^ 32"
  then obtain c where c: "holds TYPE_SHA1 u (Sha1_block c) L"
    and ab: "md_absorbed 64 (sha1_blockf le bo) SHA1_IV sha1_view sha1_inv msg (c, statics L)" by (auto simp: sha1_ctx_def)
  from sha1.absorbed_upd [OF ab, of "str_bytes s"] L(3) obtain c' ws
    where c': "sha1_feed le bo (c, statics L) (str_bytes s) = Inr (c', ws)"
      "md_absorbed 64 (sha1_blockf le bo) SHA1_IV sha1_view sha1_inv (msg @ str_bytes s) (c', ws)" by auto
  then show "\<exists>L'. call_c stale [LUserdata u, LString s] (lsha1_update le bo E) L = ((Return 0, []), L') \<and>
      (reg_ok TYPE_SHA1 L' \<and> length (statics L') = 64) \<and> next_udata L' = next_udata L \<and>
      sha1_ctx le bo (msg @ str_bytes s) u L' \<and> (\<forall>v msg. v \<noteq> u \<longrightarrow> sha1_ctx le bo msg v L \<longrightarrow> sha1_ctx le bo msg v L')"
    using lsha1_update_call [OF c _ c'(1), of stale E] L sha1_absorbed_length [OF c'(2)] sha1_ctx_own [OF c c'(2)]
    by (simp add: sha1_ctx_frame)
next
  fix L :: "(byte list, 'a) state" and u msg stale
  assume L: "reg_ok TYPE_SHA1 L \<and> length (statics L) = 64" "sha1_ctx le bo msg u L"
  then obtain c where c: "holds TYPE_SHA1 u (Sha1_block c) L"
    and ab: "md_absorbed 64 (sha1_blockf le bo) SHA1_IV sha1_view sha1_inv msg (c, statics L)" by (auto simp: sha1_ctx_def)
  obtain c' ws where w: "sha1_wiped le bo (replicate 64 0) = (c', ws)" by fastforce
  have "SHA1Final le bo (c, statics L) =
      Inr (md_hash 64 (sha1_blockf le bo) SHA1_IV sha1_length_field sha1_out msg, c', ws)"
    using sha1.absorbed_fin [OF ab] w by (simp add: md_hash_def)
  then show "\<exists>L'. call_c stale [LUserdata u] (lsha1_final le bo E) L =
      ((Return 1, [LString (hex_loop (md_hash 64 (sha1_blockf le bo) SHA1_IV sha1_length_field sha1_out msg))]), L') \<and>
      (reg_ok TYPE_SHA1 L' \<and> length (statics L') = 64) \<and> next_udata L' = next_udata L \<and>
      (\<forall>v msg. v \<noteq> u \<longrightarrow> sha1_ctx le bo msg v L \<longrightarrow> sha1_ctx le bo msg v L')"
    using lsha1_final_call [OF c, of le bo _ _ _ stale E] L length_wiped_workspace [of le bo] w
    by (simp add: sha1_ctx_frame)
qed

section \<open>Arguments of the wrong type\<close>

text \<open>A call that raised an error and left all contexts and the workspace alone.\<close>

definition raises_clean :: "call_result \<times> ('s, 'w) state \<Rightarrow> ('s, 'w) state \<Rightarrow> bool" where
  "raises_clean r L \<longleftrightarrow> (case r of ((Raise e, vs), L') \<Rightarrow> vs = [] \<and> udata L' = udata L \<and> statics L' = statics L | _ \<Rightarrow> False)"

lemma call_check_bad:
  assumes "registered name m L" "\<And>u. v = LUserdata u \<Longrightarrow> umeta (udata L u) \<noteq> Some m"
    and f: "\<And>L. f L = check (luaL_checktype 1 LUA_TUSERDATA L) (\<lambda>_ L. check (luaL_checkudata E 1 name L) k)"
  shows "raises_clean (call_c stale (v # args) f L) L"
proof (cases "\<exists>u. v = LUserdata u")
  case True
  then obtain u where u: "v = LUserdata u" by blast
  have "registered name m (enter_c stale (v # args) L)" "umeta (udata (enter_c stale (v # args) L) u) \<noteq> Some m"
    using assms u by (simp_all add: registered_def)
  then obtain e L' where "luaL_checkudata E 1 name (enter_c stale (v # args) L) = (Inl e, L')"
      "udata L' = udata L" "statics L' = statics L"
    using luaL_checkudata_bad [of name m "enter_c stale (v # args) L" u E] u by auto
  then show ?thesis using u by (simp add: call_c_def f raises_clean_def luaL_checktype_def lua_type_def)
next
  case False
  then show ?thesis
    by (cases v) (simp_all add: call_c_def f raises_clean_def luaL_checktype_def lua_type_def lua_types)
qed

lemma init_on_argument:
  assumes "reg_ok name L" and L1: "lua_newuserdata mem sz (enter_c stale [LUserdata v] L) = (u, L1)" and "v < next_udata L"
  shows "\<exists>b L2 L3. luaL_newmetatable E name L1 = (Inr b, L2) \<and> set_block u c (lua_setmetatable 1 L2) = L3 \<and>
    u = next_udata L \<and> results 1 L3 = [LUserdata u] \<and> holds name v (ublock (udata L v)) L3 \<and> umeta (udata L3 u) = None"
proof -
  have u: "u = next_udata L" "L1 = push (LUserdata u) ((enter_c stale [LUserdata v] L)\<lparr>udata := (udata L)(u := \<lparr>ublock = mem,
      ulen = sz, umeta = None\<rparr>), next_udata := u + 1\<rparr>)"
    using L1 by (auto simp: lua_newuserdata_def Let_def)
  have L1f: "reg_ok name L1" "top L1 + 2 \<le> ci_top L1" "top L1 = 2" "slots L1 0 = LUserdata v" "slots L1 1 = LUserdata u"
    "udata L1 = (udata L)(u := \<lparr>ublock = mem, ulen = sz, umeta = None\<rparr>)"
    using assms(1) by (auto simp: u(2) reg_ok_def registered_def)
  from luaL_newmetatable_ok [OF L1f(1,2), of E] obtain b m L2
    where L2: "luaL_newmetatable E name L1 = (Inr b, L2)" "registered name m L2" "top L2 = 3" "slots L2 2 = LTable m"
      "slots L2 0 = LUserdata v" "slots L2 1 = LUserdata u" "udata L2 = udata L1"
    using L1f by auto
  define L3 where "L3 = set_block u c (lua_setmetatable 1 L2)"
  have L3: "L3 = (set_block u c (L2\<lparr>udata := (udata L2)(v := (udata L2 v)\<lparr>umeta := Some m\<rparr>)\<rparr>))\<lparr>top := 2\<rparr>"
    using L2 by (simp add: L3_def lua_setmetatable_def Let_def set_block_def)
  have "holds name v (ublock (udata L v)) L3" "umeta (udata L3 u) = None" "results 1 L3 = [LUserdata u]"
    using L2 L1f(6) assms(3) u(1) by (auto simp: L3 holds_def registered_def set_block_def results_def upt_rec)
  then show ?thesis using L2(1) L3_def u(1) by blast
qed

section \<open>Properties\<close>

text \<open>
  C2 (refinement): whatever interleaving of \<^verbatim>\<open>sha256_init\<close>, \<^verbatim>\<open>sha256_update\<close> and \<^verbatim>\<open>sha256_final\<close>
  calls a Lua program makes on the contexts it has open, each final call returns the
  hexadecimal SHA-256 of the strings that its own context was fed, and no call fails.
\<close>

theorem lsha256_trace_refines:
  assumes "reg_ok TYPE_SHA256 L"
    and "legal_ops (\<lambda>_. True) (\<lambda>s. length s < 2 ^ 64) sha256_ref xs (Map.empty, next_udata L)"
  shows "run_ops stale (lsha256_init E) (lsha256_update bo E) (lsha256_final bo E) xs L =
    spec_ops sha256_ref xs (Map.empty, next_udata L)"
  using assms by (rule lsha256.trace_from_empty)

definition test_state :: "'s \<Rightarrow> 'w \<Rightarrow> ('s, 'w) state" where
  "test_state st w = \<lparr>slots = (\<lambda>_. LNil), top = 0, ci_top = 20, overrun = False,
     tables = (\<lambda>_. \<lparr>tget = (\<lambda>_. LNil), sizearray = 0, dummynode = True, metatable = None\<rparr>), next_table = 2,
     udata = (\<lambda>_. \<lparr>ublock = Other_block 0, ulen = 0, umeta = None\<rparr>), next_udata = 0, registry = 0, globals = 1,
     gmt = (\<lambda>_. None), errno = 0, statics = st, world = w\<rparr>"

definition test_env :: "('s, 'w) env" where
  "test_env = \<lparr>strtod = (\<lambda>s. (0, 0)), strtoul16 = (\<lambda>s. (0, 0)), number2str = (\<lambda>_. []),
     callTMres = (\<lambda>f a b L. (Inr LNil, L)), callTM = (\<lambda>f a b c L. (Inr (), L))\<rparr>"

lemma test_state_simps [simp]: "statics (test_state st w) = st" "world (test_state st w) = w" "overrun (test_state st w) = False"
  by (simp_all add: test_state_def)

lemma reg_ok_test_state [simp]: "reg_ok name (test_state st w)"
  by (simp add: reg_ok_def test_state_def)

theorem lsha256_trace_refines_witness:
  "run_ops (\<lambda>_. LNil) (lsha256_init test_env) (lsha256_update LITTLE_ENDIAN test_env) (lsha256_final LITTLE_ENDIAN test_env)
     [Op_init sha256_zero, Op_update 0 ''a'', Op_init sha256_zero, Op_update 1 ''xyz'', Op_update 0 ''bc'', Op_final 0, Op_final 1]
     (test_state [] ()) =
   [(Return 1, [LUserdata 0]), (Return 0, []), (Return 1, [LUserdata 1]), (Return 0, []), (Return 0, []),
    (Return 1, [LString (hex_loop (sha256_ref (str_bytes ''abc'')))]),
    (Return 1, [LString (hex_loop (sha256_ref (str_bytes ''xyz'')))])]"
  by (subst lsha256_trace_refines) (simp_all add: test_state_def reg_ok_def str_bytes_def)

text \<open>
  C3 (refinement): the same for SHA-1, whose transform works in a static buffer that all
  contexts share, when \<^verbatim>\<open>LITTLE_ENDIAN\<close> is defined exactly on little-endian hosts and no chunk is
  longer than \<open>2 ^ 32 - 64\<close> bytes.
\<close>

theorem lsha1_trace_refines:
  assumes "reg_ok TYPE_SHA1 L" "length (statics L) = 64"
    and "legal_ops (\<lambda>k. length (buffer1 k) = 64) (\<lambda>s. length s + 63 < 2 ^ 32) sha1_ref xs (Map.empty, next_udata L)"
  shows "run_ops stale (lsha1_init E) (lsha1_update (bo = LITTLE_ENDIAN) bo E) (lsha1_final (bo = LITTLE_ENDIAN) bo E) xs L =
    spec_ops sha1_ref xs (Map.empty, next_udata L)"
proof -
  have "md_blocks 64 (sha1_blockf (bo = LITTLE_ENDIAN) bo) SHA1_IV msg = md_blocks 64 compress1 SHA1_IV msg" for msg
    by (rule md_blocks_cong) (rule sha1_blockf_host)
  then have "md_hash 64 (sha1_blockf (bo = LITTLE_ENDIAN) bo) SHA1_IV sha1_length_field sha1_out = sha1_ref"
    by (simp add: fun_eq_iff md_hash_def sha1_ref_def)
  then show ?thesis
    using lsha1.trace_from_empty [of L "bo = LITTLE_ENDIAN" bo xs stale E] assms by simp
qed

theorem lsha1_trace_refines_witness:
  "run_ops (\<lambda>_. LNil) (lsha1_init test_env) (lsha1_update True LITTLE_ENDIAN test_env) (lsha1_final True LITTLE_ENDIAN test_env)
     [Op_init \<lparr>state1 = [], count1 = (7, 7), buffer1 = replicate 64 1\<rparr>, Op_update 0 ''a'', Op_update 0 ''bc'', Op_final 0]
     (test_state (replicate 64 9) ()) =
   [(Return 1, [LUserdata 0]), (Return 0, []), (Return 0, []), (Return 1, [LString (hex_loop (sha1_ref (str_bytes ''abc'')))])]"
  using lsha1_trace_refines [of "test_state (replicate 64 9) ()" "[Op_init \<lparr>state1 = [], count1 = (7, 7), buffer1 = replicate 64 1\<rparr>,
    Op_update 0 ''a'', Op_update 0 ''bc'', Op_final 0]" "\<lambda>_. LNil" test_env LITTLE_ENDIAN]
  by (simp add: test_state_def reg_ok_def str_bytes_def)

text \<open>
  C8 (error): each of the four functions that take a context rejects an argument that is not a userdata with the
  metatable of its own context type, in particular a context of the other hash; the call raises an error, and no
  context and not the workspace changes.
\<close>

theorem lsha_rejects_foreign:
  assumes "registered TYPE_SHA1 m1 L" "registered TYPE_SHA256 m2 L"
  shows "((\<forall>u. v = LUserdata u \<longrightarrow> umeta (udata L u) \<noteq> Some m1) \<longrightarrow>
      raises_clean (call_c stale (v # args) (lsha1_update le bo E) L) L \<and>
      raises_clean (call_c stale (v # args) (lsha1_final le bo E) L) L) \<and>
    ((\<forall>u. v = LUserdata u \<longrightarrow> umeta (udata L u) \<noteq> Some m2) \<longrightarrow>
      raises_clean (call_c stale (v # args) (lsha256_update bo E) L) L \<and>
      raises_clean (call_c stale (v # args) (lsha256_final bo E) L) L)"
  by (intro conjI impI call_check_bad [OF assms(1) _ lsha1_update_def] call_check_bad [OF assms(1) _ lsha1_final_def]
      call_check_bad [OF assms(2) _ lsha256_update_def] call_check_bad [OF assms(2) _ lsha256_final_def]) auto

text \<open>A state in which the userdata 0 is a SHA-1 context and the userdata 1 a SHA-256 context.\<close>

definition test_registered :: "(byte list, unit) state" where
  "test_registered = (set_raw 0 (LString TYPE_SHA1) (LTable 5) (set_raw 0 (LString TYPE_SHA256) (LTable 6) (test_state (replicate 64 0) ())))
     \<lparr>udata := (\<lambda>u. \<lparr>ublock = (if u = 0 then Sha1_block \<lparr>state1 = [], count1 = (0, 0), buffer1 = []\<rparr> else Sha256_block sha256_zero),
        ulen = 0, umeta = Some (if u = 0 then 5 else 6)\<rparr>), next_udata := 2\<rparr>"

theorem lsha_rejects_foreign_witness:
  "raises_clean (call_c (\<lambda>_. LNil) [LUserdata 1, LString ''abc''] (lsha1_update True LITTLE_ENDIAN test_env) test_registered) test_registered \<and>
   raises_clean (call_c (\<lambda>_. LNil) [LUserdata 0] (lsha256_final LITTLE_ENDIAN test_env) test_registered) test_registered"
proof -
  have r: "registered TYPE_SHA1 5 test_registered" "registered TYPE_SHA256 6 test_registered"
    by (simp_all add: test_registered_def registered_def TYPE_SHA1_def TYPE_SHA256_def, simp_all add: test_state_def)
  have "umeta (udata test_registered 1) \<noteq> Some 5" "umeta (udata test_registered 0) \<noteq> Some 6" by (simp_all add: test_registered_def)
  then show ?thesis
    using lsha_rejects_foreign [OF r, of "LUserdata 1" "\<lambda>_. LNil" "[LString ''abc'']" True LITTLE_ENDIAN test_env]
      lsha_rejects_foreign [OF r, of "LUserdata 0" "\<lambda>_. LNil" "[]" True LITTLE_ENDIAN test_env] by simp
qed

text \<open>
  C9 (safety): \<^verbatim>\<open>sha1_init\<close> applies the metatable to argument 1 rather than to the new userdata.
  Called with a SHA-256 context it returns a userdata without metatable and turns the argument
  into a SHA-1 context for \<^verbatim>\<open>sha1_update\<close>, which then reads a block of the other type.
\<close>

theorem lsha1_init_confuses:
  assumes "reg_ok TYPE_SHA1 L" "holds TYPE_SHA256 u (Sha256_block c) L" "u < next_udata L" "length s < 2 ^ 32"
  shows "\<exists>L'. call_c stale [LUserdata u] (lsha1_init E k) L = ((Return 1, [LUserdata (next_udata L)]), L') \<and>
    umeta (udata L' (next_udata L)) = None \<and>
    fst (call_c stale' [LUserdata u, LString s] (lsha1_update le bo E) L') = (Undefined ''SHA1_CTX'', [])"
proof -
  obtain n L1 where L1: "lua_newuserdata (Sha1_block k) sizeof_SHA1_CTX (enter_c stale [LUserdata u] L) = (n, L1)" by fastforce
  from init_on_argument [OF assms(1) L1 assms(3), of E "Sha1_block (SHA1Init k)"] assms(2)
  obtain b L2 L3 where I: "luaL_newmetatable E TYPE_SHA1 L1 = (Inr b, L2)"
    "set_block n (Sha1_block (SHA1Init k)) (lua_setmetatable 1 L2) = L3" "n = next_udata L" "results 1 L3 = [LUserdata n]"
    "holds TYPE_SHA1 u (Sha256_block c) L3" "umeta (udata L3 n) = None"
    by (auto simp: holds_def)
  let ?L = "L3\<lparr>slots := slots L, top := top L, ci_top := ci_top L\<rparr>"
  have call: "call_c stale [LUserdata u] (lsha1_init E k) L = ((Return 1, [LUserdata (next_udata L)]), ?L)"
    using I(1-4) by (simp add: call_c_def lsha1_init_def L1)
  have h: "holds TYPE_SHA1 u (Sha256_block c) ?L" using I(5) by simp
  obtain sl where "luaL_checkudata E 1 TYPE_SHA1 (enter_c stale' [LUserdata u, LString s] ?L) =
      (Inr (LUserdata u), (enter_c stale' [LUserdata u, LString s] ?L)\<lparr>slots := sl\<rparr>)" "sl 1 = LString s"
    using checkudata_enter [OF h, of E stale' "[LString s]"] by auto
  moreover have "ublock (udata L3 u) = Sha256_block c" using I(5) by (simp add: holds_def)
  moreover have "\<not> UINT_MAX < length s" using assms(4) by (simp add: UINT_MAX_def)
  ultimately have "fst (call_c stale' [LUserdata u, LString s] (lsha1_update le bo E) ?L) = (Undefined ''SHA1_CTX'', [])"
    by (simp add: lsha1_update_def call_c_def luaL_checktype_def lua_type_def luaL_checklstring_def lua_tolstring_def)
  then show ?thesis using call I(3,6) by (intro exI conjI) (assumption, simp_all)
qed

definition test_sha256_open :: "(byte list, unit) state" where
  "test_sha256_open = test_registered\<lparr>next_table := 7, next_udata := 1,
     udata := (\<lambda>_. \<lparr>ublock = Sha256_block sha256_zero, ulen = 104, umeta = Some 6\<rparr>)\<rparr>"

theorem lsha1_init_confuses_witness:
  "\<exists>L'. call_c (\<lambda>_. LNil) [LUserdata 0] (lsha1_init test_env \<lparr>state1 = [], count1 = (7, 7), buffer1 = replicate 64 1\<rparr>) test_sha256_open =
      ((Return 1, [LUserdata 1]), L') \<and> umeta (udata L' 1) = None \<and>
    fst (call_c (\<lambda>_. LNil) [LUserdata 0, LString ''a''] (lsha1_update True LITTLE_ENDIAN test_env) L') = (Undefined ''SHA1_CTX'', [])"
proof -
  have "reg_ok TYPE_SHA1 test_sha256_open" "holds TYPE_SHA256 0 (Sha256_block sha256_zero) test_sha256_open" "next_udata test_sha256_open = 1"
    by (simp_all add: test_sha256_open_def test_registered_def reg_ok_def holds_def registered_def TYPE_SHA1_def TYPE_SHA256_def)
      (simp_all add: test_state_def)
  then show ?thesis
    using lsha1_init_confuses [of test_sha256_open 0 sha256_zero "''a''" "\<lambda>_. LNil" test_env
      "\<lparr>state1 = [], count1 = (7, 7), buffer1 = replicate 64 1\<rparr>" "\<lambda>_. LNil" True LITTLE_ENDIAN] by simp
qed

end
