(* ===== verification/Posix.thy ===== *)
theory Posix
  imports LuaApi
begin

text \<open>
  The C library and the operating system as the modules see them. They are not part of the
  source: a record \<open>os\<close> of functions that the definitions take as an argument. \<open>sys\<close> performs
  a call on the state of the world and gives its return value (a pointer as a number, 0 for
  NULL), the value of \<^verbatim>\<open>errno\<close> if it sets it, and what it stores through its pointer
  arguments: bytes in \<open>sout\<close>, numbers in \<open>iout\<close>.
\<close>

datatype disposition = Sig_dfl | Sig_ign | Sig_handler

datatype syscall =
    S_fopen string string | S_fileno nat | S_fcntl_setfd int int | S_fclose nat | S_fflush nat | S_close int
  | S_fdopen int string | S_fwrite string nat | S_ferror nat | S_feof nat | S_write int string
  | S_malloc nat | S_realloc nat nat | S_free nat | S_fread nat nat nat | S_read int nat nat | S_fgetc nat | S_pipe
  | S_setlinebuf nat | S_setbuf nat | S_dup int | S_dup2 int int
  | S_fork | S_getcwd nat | S_lstat string | S_stat string | S_opendir string | S_readdir nat | S_closedir nat | S_dirfd nat
  | S_access string int | S_chdir string | S_symlink string string | S_link string string | S_waitpid int int
  | S_poll "(int \<times> int) list" int | S_rename string string | S_fcntl_getfl int | S_fcntl_setfl int int | S_umask int
  | S_setenv string string bool | S_execvp string "string list" | S_getpid | S_unlink string | S_rmdir string
  | S_mkdir string int | S_kill int int | S_uname | S_chmod string int | S_mkdtemp string | S_mkstemp string
  | S_prctl_pdeathsig int | S_sigaction_get int | S_sigaction_set int disposition int "int list" | S_sigprocmask bool "int list"
  | S_ioctl_tiocsig int int | S_forkpty | S_clearenv | S_setuid int | S_setgid int | S_setgroups "int list"
  | S_execv string "string list" | S_puts string | S_perror string | S_stderr string | S_personality int

record sysres =
  rv :: int
  eno :: "int option"
  sout :: string
  iout :: "int list"

record 'w os =
  sys :: "syscall \<Rightarrow> 'w \<Rightarrow> sysres \<times> 'w"
  strerror :: "int \<Rightarrow> string"
  strsignal :: "int \<Rightarrow> string option"

definition os_call :: "'w os \<Rightarrow> syscall \<Rightarrow> ('u, 's, 'w) lua_State \<Rightarrow> sysres \<times> ('u, 's, 'w) lua_State" where
  "os_call os c L =
     (case sys os c (world L) of (r, w) \<Rightarrow>
        (r, L\<lparr>world := w, errno := (case eno r of None \<Rightarrow> errno L | Some e \<Rightarrow> e)\<rparr>))"

definition PATH_MAX :: nat where "PATH_MAX = 4096"
definition R_OK :: int where "R_OK = 4"
definition X_OK :: int where "X_OK = 1"

text \<open>An operating system that also keeps the calls made so far, with their results.\<close>

type_synonym event = "syscall \<times> sysres"

definition traced :: "'w os \<Rightarrow> ('w \<times> event list) os" where
  "traced os = \<lparr>sys = (\<lambda>c (w, tr). case sys os c w of (r, w) \<Rightarrow> (r, (w, tr @ [(c, r)]))),
     strerror = strerror os, strsignal = strsignal os\<rparr>"

text \<open>A system in which every call returns 0.\<close>

definition zero_os :: "'w os" where
  "zero_os = \<lparr>sys = (\<lambda>c w. (\<lparr>rv = 0, eno = None, sout = [], iout = []\<rparr>, w)), strerror = (\<lambda>_. []), strsignal = (\<lambda>_. None)\<rparr>"

text \<open>The two ways in which most functions of the modules return: false with a message, or true.\<close>

definition push_error :: "string \<Rightarrow> ('u, 's, 'w) lua_State \<Rightarrow> lua_ret \<times> ('u, 's, 'w) lua_State" where
  "push_error msg L = (Return 2, lua_pushstring (Some msg) (lua_pushboolean False L))"

definition push_errno :: "'w os \<Rightarrow> ('u, 's, 'w) lua_State \<Rightarrow> lua_ret \<times> ('u, 's, 'w) lua_State" where
  "push_errno os L = push_error (strerror os (errno L)) L"

definition push_errno3 :: "'w os \<Rightarrow> ('u, 's, 'w) lua_State \<Rightarrow> lua_ret \<times> ('u, 's, 'w) lua_State" where
  "push_errno3 os L =
     (Return 3, lua_pushinteger (errno L) (lua_pushstring (Some (strerror os (errno L))) (lua_pushboolean False L)))"

definition push_true :: "('u, 's, 'w) lua_State \<Rightarrow> lua_ret \<times> ('u, 's, 'w) lua_State" where
  "push_true L = (Return 1, lua_pushboolean True L)"

section \<open>Stack discipline\<close>

text \<open>
  \<open>room b n L\<close>: at least \<open>n\<close> of the slots reserved for the running C function are free, and \<open>b\<close> says
  whether it has left them before. \<open>frame_safe b r\<close>: a function has not left them and returns no
  more results than there are values in its frame.
\<close>

definition room :: "bool \<Rightarrow> nat \<Rightarrow> ('u, 's, 'w) lua_State \<Rightarrow> bool" where
  "room b n L \<longleftrightarrow> overrun L = b \<and> top L + n \<le> ci_top L"

definition frame_safe :: "bool \<Rightarrow> lua_ret \<times> ('u, 's, 'w) lua_State \<Rightarrow> bool" where
  "frame_safe b r \<longleftrightarrow> overrun (snd r) = b \<and> (case fst r of Return n \<Rightarrow> n \<le> top (snd r) | _ \<Rightarrow> True)"

lemma push_eqs:
  "lua_pushboolean x L = push (LBoolean x) L" "lua_pushnumber n L = push (LNumber n) L"
  "lua_pushinteger i L = push (LNumber (cast_num i)) L" "lua_pushlstring s L = push (LString s) L"
  "lua_pushstring (Some s) L = push (LString (c_str s)) L" "lua_pushnil L = push LNil L"
  "lua_pushlightuserdata p L = push (LLightuserdata p) L"
  by (simp_all add: lua_pushboolean_def lua_pushnumber_def lua_pushinteger_def lua_pushlstring_def lua_pushstring_def
      lua_pushnil_def lua_pushlightuserdata_def)

lemma luaL_checkinteger_state: "luaL_checkinteger E i L = (x, L') \<Longrightarrow> L' = L"
  by (auto simp: luaL_checkinteger_def Let_def split: if_splits)

lemma os_call_frame: "os_call os c L = (r, L') \<Longrightarrow> top L' = top L \<and> ci_top L' = ci_top L \<and> overrun L' = overrun L"
  by (auto simp: os_call_def split: prod.splits)

lemma lua_tolstring_frame: "lua_tolstring E L i = (s, L') \<Longrightarrow> top L' = top L \<and> ci_top L' = ci_top L \<and> overrun L' = overrun L"
  by (auto simp: lua_tolstring_def Let_def split: lua_value.splits adr.splits)

lemma luaL_checkstring_frame:
  "luaL_checkstring E i L = (x, L') \<Longrightarrow> top L' = top L \<and> ci_top L' = ci_top L \<and> overrun L' = overrun L"
  using lua_tolstring_frame [of E L i]
  by (auto simp: luaL_checkstring_def luaL_checklstring_def apfst_def map_prod_def split: prod.splits option.splits)

lemma safe_checkinteger:
  "room b n L \<Longrightarrow> (\<And>a. frame_safe b (k a L)) \<Longrightarrow> frame_safe b (check (luaL_checkinteger E i L) k)"
  using luaL_checkinteger_state [of E i L] by (auto simp: check_def frame_safe_def room_def split: prod.split sum.split)

lemma safe_checkstring:
  "room b n L \<Longrightarrow> (\<And>a L'. room b n L' \<Longrightarrow> frame_safe b (k a L')) \<Longrightarrow> frame_safe b (check (luaL_checkstring E i L) k)"
  using luaL_checkstring_frame [of E i L] by (auto simp: check_def frame_safe_def room_def split: prod.split sum.split)

lemma safe_tolstring:
  "room b n L \<Longrightarrow> (\<And>a L'. room b n L' \<Longrightarrow> frame_safe b (k a L')) \<Longrightarrow> frame_safe b (case lua_tolstring E L i of (a, L') \<Rightarrow> k a L')"
  using lua_tolstring_frame [of E L i] by (auto simp: room_def split: prod.split)

lemma safe_os_call:
  "room b n L \<Longrightarrow> (\<And>r L'. room b n L' \<Longrightarrow> frame_safe b (k r L')) \<Longrightarrow> frame_safe b (case os_call os c L of (r, L') \<Rightarrow> k r L')"
  using os_call_frame [of os c L] by (auto simp: room_def split: prod.split)

lemma safe_option:
  "frame_safe b m \<Longrightarrow> (\<And>x. frame_safe b (k x)) \<Longrightarrow> frame_safe b (case v of None \<Rightarrow> m | Some x \<Rightarrow> k x)"
  by (cases v) auto

lemma safe_if: "frame_safe b m \<Longrightarrow> frame_safe b n \<Longrightarrow> frame_safe b (if c then m else n)"
  by simp

lemma safe_returns:
  "room b n L \<Longrightarrow> 2 \<le> n \<Longrightarrow> frame_safe b (push_error m L)" "room b n L \<Longrightarrow> 2 \<le> n \<Longrightarrow> frame_safe b (push_errno os L)"
  "room b n L \<Longrightarrow> 3 \<le> n \<Longrightarrow> frame_safe b (push_errno3 os L)" "room b n L \<Longrightarrow> 1 \<le> n \<Longrightarrow> frame_safe b (push_true L)"
  "room b n L \<Longrightarrow> frame_safe b (Raise e, L)" "room b n L \<Longrightarrow> frame_safe b (Return 0, L)" "room b n L \<Longrightarrow> frame_safe b (Undefined s, L)"
  "room b n L \<Longrightarrow> 1 \<le> n \<Longrightarrow> frame_safe b (Return 1, push v L)"
  "room b n L \<Longrightarrow> 2 \<le> n \<Longrightarrow> frame_safe b (Return 2, push w (push v L))"
  "room b n L \<Longrightarrow> 3 \<le> n \<Longrightarrow> frame_safe b (Return 3, push x (push w (push v L)))"
  "room b n L \<Longrightarrow> 4 \<le> n \<Longrightarrow> frame_safe b (Return 4, push y (push x (push w (push v L))))"
  by (auto simp: frame_safe_def room_def push_error_def push_errno_def push_errno3_def push_true_def push_eqs)

lemmas safe_rules = safe_checkinteger safe_checkstring safe_tolstring safe_os_call safe_option safe_if safe_returns

text \<open>Tag methods that leave the frame of the C function alone.\<close>

definition tm_frame :: "('u, 's, 'w) lua_env \<Rightarrow> bool" where
  "tm_frame E \<longleftrightarrow> (\<forall>f a b L x L'. callTMres E f a b L = (x, L') \<longrightarrow> top L' = top L \<and> ci_top L' = ci_top L \<and> overrun L' = overrun L)"

lemma luaV_gettable_frame:
  "tm_frame E \<Longrightarrow> luaV_gettable k E t key L = (r, L') \<Longrightarrow> top L' = top L \<and> ci_top L' = ci_top L \<and> overrun L' = overrun L"
proof (induction k E t key L rule: luaV_gettable.induct)
  case (2 k E t key L)
  have tm: "callTMres E f a b L = (x, L') \<Longrightarrow> top L' = top L \<and> ci_top L' = ci_top L \<and> overrun L' = overrun L" for f a b x
    using "2.prems"(1) unfolding tm_frame_def by blast
  show ?case using 2 tm by (auto simp: Let_def split: lua_value.splits if_splits)
qed simp

lemma luaL_checkudata_frame:
  assumes "tm_frame E" "luaL_checkudata E ud name L = (r, L')" "top L + 2 \<le> ci_top L"
  shows "overrun L' = overrun L \<and> (\<forall>p. r = Inr p \<longrightarrow> top L' = top L \<and> ci_top L' = ci_top L)"
  using assms(2,3)
  by (auto simp: luaL_checkudata_def lua_getmetatable_def lua_getfield_def
      split: option.splits prod.splits sum.splits if_splits dest!: luaV_gettable_frame [OF assms(1)])

end
