(* ===== verification/Leio.thy ===== *)
theory Leio
  imports Lsha Posix
begin

text \<open>
  Buffered and unbuffered I/O for Lua, \<^verbatim>\<open>generic/leio.c\<close>. A \<^verbatim>\<open>FILE *\<close> is a light userdata. The static
  variables are those of \<^verbatim>\<open>get_read_buf\<close>. A full userdata passed where a \<^verbatim>\<open>FILE *\<close> is expected is
  used as one by the code: undefined behaviour.
\<close>

record read_buf =
  rbuf :: nat
  rbufsz :: nat

type_synonym 'w eio_state = "(read_buf, 'w) state"
type_synonym 'w eio_env = "(read_buf, 'w) env"
type_synonym 'w eio_ret = "lua_ret \<times> 'w eio_state"

definition EOF :: int where "EOF = -1"
definition FD_CLOEXEC :: int where "FD_CLOEXEC = 1"
definition LUA_FILEHANDLE :: string where "LUA_FILEHANDLE = ''FILE*''"

definition use_FILE :: "lua_value \<Rightarrow> (nat \<Rightarrow> 'w eio_ret) \<Rightarrow> 'w eio_state \<Rightarrow> 'w eio_ret" where
  "use_FILE f k L = (case f of LLightuserdata p \<Rightarrow> k p | _ \<Rightarrow> (Undefined ''FILE'', L))"

section \<open>Opening and closing\<close>

definition eio_fopen :: "'w os \<Rightarrow> 'w eio_env \<Rightarrow> 'w eio_state \<Rightarrow> 'w eio_ret" where
  "eio_fopen os E L =
     check (luaL_checkstring E 1 L) (\<lambda>file L.
     check (luaL_checkstring E 2 L) (\<lambda>mode L.
     case os_call os (S_fopen file mode) L of (f, L) \<Rightarrow>
     if rv f = 0 then push_errno os L
     else case os_call os (S_fileno (nat (rv f))) L of (fd, L) \<Rightarrow>
     case os_call os (S_fcntl_setfd (rv fd) FD_CLOEXEC) L of (rc, L) \<Rightarrow>
     if rv rc \<noteq> 0 then
       (Raise (Run_error (''eio_fopen: fcntl('' @ number2str E (cast_num (rv fd)) @ ''): '' @ file @ '': '' @
          strerror os (errno L))), L)
     else (Return 1, lua_pushlightuserdata (nat (rv f)) L)))"

definition eio_fclose :: "'w os \<Rightarrow> 'w eio_state \<Rightarrow> 'w eio_ret" where
  "eio_fclose os L =
     (case lua_touserdata L 1 of
        None \<Rightarrow> push_error ''eio_fclose: one or more arguments of wrong type/missing'' L
      | Some f \<Rightarrow> use_FILE f (\<lambda>f.
          case os_call os (S_fclose f) L of (r, L) \<Rightarrow>
          if rv r = EOF then push_errno os L else push_true L) L)"

definition eio_fflush :: "'w os \<Rightarrow> 'w eio_state \<Rightarrow> 'w eio_ret" where
  "eio_fflush os L =
     use_FILE (case lua_touserdata L 0 of None \<Rightarrow> LLightuserdata 0 | Some f \<Rightarrow> f) (\<lambda>f.
       case os_call os (S_fflush f) L of (r, L) \<Rightarrow>
       if rv r = EOF then push_errno os L else push_true L) L"

definition eio_close :: "'w os \<Rightarrow> 'w eio_env \<Rightarrow> 'w eio_state \<Rightarrow> 'w eio_ret" where
  "eio_close os E L =
     check (luaL_checkinteger E 1 L) (\<lambda>fd L.
     case os_call os (S_close (c_int fd)) L of (rc, L) \<Rightarrow>
     if rv rc < 0 then push_errno os L else push_true L)"

definition eio_fdopen :: "'w os \<Rightarrow> 'w eio_env \<Rightarrow> 'w eio_state \<Rightarrow> 'w eio_ret" where
  "eio_fdopen os E L =
     check (luaL_checkinteger E 1 L) (\<lambda>fd L.
     check (luaL_checkstring E 2 L) (\<lambda>mode L.
     case os_call os (S_fdopen (c_int fd) mode) L of (f, L) \<Rightarrow>
     if rv f = 0 then push_errno os L
     else (Return 1, lua_pushlightuserdata (nat (rv f)) L)))"

section \<open>Writing\<close>

definition eio_fwrite :: "'w os \<Rightarrow> 'w eio_env \<Rightarrow> 'w eio_state \<Rightarrow> 'w eio_ret" where
  "eio_fwrite os E L =
     (let f = lua_touserdata L 1 in
      case lua_tolstring E L 2 of (b, L) \<Rightarrow>
      if f = None \<or> b = None then push_error ''eio_fwrite: one or more arguments of wrong type/missing'' L
      else use_FILE (the f) (\<lambda>f.
        let b = the b in
        case os_call os (S_fwrite b f) L of (ret, L) \<Rightarrow>
        if rv ret \<noteq> int (length b) then
          case os_call os (S_ferror f) L of (er, L) \<Rightarrow>
          if rv er \<noteq> 0 then push_errno os L
          else case os_call os (S_feof f) L of (ef, L) \<Rightarrow>
          if rv ef \<noteq> 0 then push_error ''eio_fwrite: end of file'' L else push_true L
        else push_true L) L)"

definition eio_write :: "'w os \<Rightarrow> 'w eio_env \<Rightarrow> 'w eio_state \<Rightarrow> 'w eio_ret" where
  "eio_write os E L =
     check (luaL_checkinteger E 1 L) (\<lambda>fd L.
     case lua_tolstring E L 2 of (buf, L) \<Rightarrow>
     case os_call os (S_write (c_int fd) (case buf of None \<Rightarrow> [] | Some b \<Rightarrow> b)) L of (wsz, L) \<Rightarrow>
     if rv wsz < 0 then push_errno3 os L
     else (Return 1, lua_pushinteger (rv wsz) L))"

section \<open>Reading\<close>

text \<open>The pointer is 0 when the allocation fails. \<^verbatim>\<open>free(NULL)\<close> does nothing.\<close>

definition get_read_buf :: "'w os \<Rightarrow> nat \<Rightarrow> 'w eio_state \<Rightarrow> nat \<times> 'w eio_state" where
  "get_read_buf os sz L =
     (if rbufsz (statics L) < sz then
        case os_call os (S_free (rbuf (statics L))) L of (u, L) \<Rightarrow>
        let L = L\<lparr>statics := (statics L)\<lparr>rbufsz := 0\<rparr>\<rparr> in
        case os_call os (S_malloc sz) L of (p, L) \<Rightarrow>
        let L = L\<lparr>statics := (statics L)\<lparr>rbuf := nat (rv p)\<rparr>\<rparr> in
        if rbuf (statics L) = 0 then (0, L)
        else (rbuf (statics L), L\<lparr>statics := (statics L)\<lparr>rbufsz := sz\<rparr>\<rparr>)
      else (rbuf (statics L), L))"

definition push_data :: "sysres \<Rightarrow> 'w eio_state \<Rightarrow> 'w eio_ret" where
  "push_data r L = (Return 1, lua_pushlstring (take (nat (rv r)) (sout r)) L)"

definition eio_fread :: "'w os \<Rightarrow> 'w eio_env \<Rightarrow> 'w eio_state \<Rightarrow> 'w eio_ret" where
  "eio_fread os E L =
     (let f = lua_touserdata L 1; sz = c_size_t (lua_tointeger E L 2) in
      if f = None \<or> sz = 0 then push_error ''eio_fread: one or more arguments of wrong type/missing'' L
      else case get_read_buf os sz L of (buf, L) \<Rightarrow>
      if buf = 0 then push_errno os L
      else use_FILE (the f) (\<lambda>f.
        case os_call os (S_fread buf sz f) L of (ret, L) \<Rightarrow>
        if rv ret \<noteq> int sz then
          case os_call os (S_ferror f) L of (er, L) \<Rightarrow>
          if rv er \<noteq> 0 then push_errno os L
          else if rv ret \<le> 0 then
            case os_call os (S_feof f) L of (ef, L) \<Rightarrow>
            if rv ef \<noteq> 0 then (Return 1, lua_pushstring (Some '''') L) else push_data ret L
          else push_data ret L
        else push_data ret L) L)"

definition eio_read :: "'w os \<Rightarrow> 'w eio_env \<Rightarrow> 'w eio_state \<Rightarrow> 'w eio_ret" where
  "eio_read os E L =
     check (luaL_checkinteger E 1 L) (\<lambda>fd L.
     check (luaL_checkinteger E 2 L) (\<lambda>sz L.
     let sz = c_size_t sz in
     case get_read_buf os sz L of (buf, L) \<Rightarrow>
     if buf = 0 then push_errno os L
     else case os_call os (S_read (c_int fd) buf sz) L of (rsz, L) \<Rightarrow>
     if rv rsz < 0 then push_errno3 os L
     else push_data rsz L))"

definition eio_fgetc :: "'w os \<Rightarrow> 'w eio_state \<Rightarrow> 'w eio_ret" where
  "eio_fgetc os L =
     (case lua_touserdata L 1 of
        None \<Rightarrow> push_error ''eio_fgetc: argument of wrong type or missing'' L
      | Some f \<Rightarrow> use_FILE f (\<lambda>f.
          case os_call os (S_fgetc f) L of (c, L) \<Rightarrow>
          let push_char = (\<lambda>L. (Return 1, lua_pushlstring [char_of (nat (rv c mod 256))] L)) in
          if rv c = EOF then
            case os_call os (S_feof f) L of (ef, L) \<Rightarrow>
            if rv ef \<noteq> 0 then (Return 1, lua_pushstring (Some '''') L)
            else case os_call os (S_ferror f) L of (er, L) \<Rightarrow>
            if rv er \<noteq> 0 then push_errno os L else push_char L
          else push_char L) L)"

section \<open>Descriptors\<close>

definition eio_pipe :: "'w os \<Rightarrow> 'w eio_state \<Rightarrow> 'w eio_ret" where
  "eio_pipe os L =
     (case os_call os S_pipe L of (rc, L) \<Rightarrow>
      if rv rc \<noteq> 0 then push_errno os L
      else (Return 2, lua_pushnumber (cast_num (iout rc ! 1)) (lua_pushnumber (cast_num (iout rc ! 0)) L)))"

definition eio_fileno :: "'w os \<Rightarrow> 'w eio_state \<Rightarrow> 'w eio_ret" where
  "eio_fileno os L =
     (case lua_touserdata L 1 of
        None \<Rightarrow> push_error ''eio_fileno: one or more arguments of wrong type/missing'' L
      | Some f \<Rightarrow> use_FILE f (\<lambda>f.
          case os_call os (S_fileno f) L of (fd, L) \<Rightarrow> (Return 1, lua_pushinteger (rv fd) L)) L)"

definition eio_feof :: "'w os \<Rightarrow> 'w eio_state \<Rightarrow> 'w eio_ret" where
  "eio_feof os L =
     (case lua_touserdata L 1 of
        None \<Rightarrow> push_error ''eio_feof: arguments wrong type or missing'' L
      | Some f \<Rightarrow> use_FILE f (\<lambda>f.
          case os_call os (S_feof f) L of (ef, L) \<Rightarrow> (Return 1, lua_pushboolean (rv ef \<noteq> 0) L)) L)"

definition eio_setlinebuf :: "'w os \<Rightarrow> 'w eio_state \<Rightarrow> 'w eio_ret" where
  "eio_setlinebuf os L =
     (case lua_touserdata L 1 of
        None \<Rightarrow> push_error ''eio_setlinebuf: one or more arguments of wrong type/missing'' L
      | Some f \<Rightarrow> use_FILE f (\<lambda>f. case os_call os (S_setlinebuf f) L of (u, L) \<Rightarrow> push_true L) L)"

definition eio_setunbuffered :: "'w os \<Rightarrow> 'w eio_state \<Rightarrow> 'w eio_ret" where
  "eio_setunbuffered os L =
     (case lua_touserdata L 1 of
        None \<Rightarrow> push_error ''eio_setunbuffered: one or more arguments of wrong type/missing'' L
      | Some f \<Rightarrow> use_FILE f (\<lambda>f. case os_call os (S_setbuf f) L of (u, L) \<Rightarrow> push_true L) L)"

definition eio_dup :: "'w os \<Rightarrow> 'w eio_env \<Rightarrow> 'w eio_state \<Rightarrow> 'w eio_ret" where
  "eio_dup os E L =
     check (luaL_checkinteger E 1 L) (\<lambda>oldfd L.
     case os_call os (S_dup (c_int oldfd)) L of (rc, L) \<Rightarrow>
     if rv rc < 0 then push_errno os L
     else (Return 1, lua_pushnumber (cast_num (rv rc)) L))"

definition eio_dup2 :: "'w os \<Rightarrow> 'w eio_env \<Rightarrow> 'w eio_state \<Rightarrow> 'w eio_ret" where
  "eio_dup2 os E L =
     check (luaL_checkinteger E 1 L) (\<lambda>oldfd L.
     check (luaL_checkinteger E 2 L) (\<lambda>newfd L.
     case os_call os (S_dup2 (c_int oldfd) (c_int newfd)) L of (rc, L) \<Rightarrow>
     if rv rc < 0 then push_errno os L else push_true L))"

text \<open>
  \<^verbatim>\<open>eio_cloexec\<close>: the part that finds a descriptor or a stream in argument 1, and the rest. \<open>Inl\<close> is a
  descriptor, \<open>Inr\<close> a stream.
\<close>

definition cloexec_rest :: "'w os \<Rightarrow> int + nat \<Rightarrow> 'w eio_state \<Rightarrow> 'w eio_ret" where
  "cloexec_rest os h L =
     (case (case h of Inl fd \<Rightarrow> (fd, L)
            | Inr f \<Rightarrow> if f \<noteq> 0 then (case os_call os (S_fileno f) L of (r, L) \<Rightarrow> (rv r, L)) else (-1, L)) of (fd, L) \<Rightarrow>
      if fd < 0 then (Raise (Arg_error 1 ''fd/eio/io file required''), L)
      else if lua_type L 2 = LUA_TBOOLEAN then
        case os_call os (S_fcntl_setfd fd (if lua_toboolean L 2 then FD_CLOEXEC else 0)) L of (rc, L) \<Rightarrow>
        (Return 1, lua_pushboolean (rv rc = 0) L)
      else (Raise (Arg_error 2 ''boolean required''), L))"

definition eio_cloexec :: "'w os \<Rightarrow> 'w eio_env \<Rightarrow> 'w eio_state \<Rightarrow> 'w eio_ret" where
  "eio_cloexec os E L =
     (if lua_isnumber E L 1 then
        check (luaL_checkinteger E 1 L) (\<lambda>fd L. cloexec_rest os (Inl (c_int fd)) L)
      else if lua_type L 1 = LUA_TTABLE then
        check (lua_gettable E 1 (lua_pushstring (Some ''handle'') L)) (\<lambda>_ L.
        if lua_type L (-1) \<noteq> LUA_TLIGHTUSERDATA then (Raise (Arg_error 1 ''not a eio table''), L)
        else cloexec_rest os (Inr (case lua_topointer L (-1) of Some (LLightuserdata p) \<Rightarrow> p | _ \<Rightarrow> 0)) L)
      else if lua_isuserdata L 1 then
        check (luaL_checkudata E 1 LUA_FILEHANDLE L) (\<lambda>p L.
        case p of
          LUserdata u \<Rightarrow>
            (case ublock (udata L u) of
               File_block f \<Rightarrow>
                 if f = 0 then (Raise (Run_error ''eio_cloexec: closed lua filehandle''), L)
                 else cloexec_rest os (Inr f) L
             | _ \<Rightarrow> (Undefined ''FILE'', L))
        | _ \<Rightarrow> (Undefined ''FILE'', L))
      else cloexec_rest os (Inl (-1)) L)"

section \<open>Registration\<close>

definition leio_lib :: "(string \<times> string) list" where
  "leio_lib = [(''cloexec'', ''eio_cloexec''), (''close'', ''eio_close''), (''dup'', ''eio_dup''), (''dup2'', ''eio_dup2''),
     (''fclose'', ''eio_fclose''), (''fdopen'', ''eio_fdopen''), (''feof'', ''eio_feof''), (''fflush'', ''eio_fflush''),
     (''fgetc'', ''eio_fgetc''), (''fileno'', ''eio_fileno''), (''fopen'', ''eio_fopen''), (''fread'', ''eio_fread''),
     (''fwrite'', ''eio_fwrite''), (''pipe'', ''eio_pipe''), (''read'', ''eio_read''), (''setlinebuf'', ''eio_setlinebuf''),
     (''setunbuffered'', ''eio_setunbuffered''), (''write'', ''eio_write'')]"

definition luaopen_leio :: "'w eio_env \<Rightarrow> 'w eio_state \<Rightarrow> 'w eio_ret" where
  "luaopen_leio E L = luaopen_module E leio_lib L"

text \<open>The C function that a registered function pointer stands for.\<close>

definition leio_functions :: "'w os \<Rightarrow> 'w eio_env \<Rightarrow> (string \<times> ('w eio_state \<Rightarrow> 'w eio_ret)) list" where
  "leio_functions os E = [(''eio_cloexec'', eio_cloexec os E), (''eio_close'', eio_close os E), (''eio_dup'', eio_dup os E),
     (''eio_dup2'', eio_dup2 os E), (''eio_fclose'', eio_fclose os), (''eio_fdopen'', eio_fdopen os E), (''eio_feof'', eio_feof os),
     (''eio_fflush'', eio_fflush os), (''eio_fgetc'', eio_fgetc os), (''eio_fileno'', eio_fileno os), (''eio_fopen'', eio_fopen os E),
     (''eio_fread'', eio_fread os E), (''eio_fwrite'', eio_fwrite os E), (''eio_pipe'', eio_pipe os), (''eio_read'', eio_read os E),
     (''eio_setlinebuf'', eio_setlinebuf os), (''eio_setunbuffered'', eio_setunbuffered os), (''eio_write'', eio_write os E)]"

section \<open>The read buffer\<close>

text \<open>
  The blocks of the heap that a trace of calls leaves allocated, with their sizes, and the
  calls that are safe on them: a read goes into an allocated block that is large enough, only
  allocated blocks (or NULL) are freed.
\<close>

fun heap_step :: "(nat \<rightharpoonup> nat) \<Rightarrow> event \<Rightarrow> (nat \<rightharpoonup> nat)" where
  "heap_step h (S_malloc n, r) = (if 0 < rv r then h(nat (rv r) \<mapsto> n) else h)"
| "heap_step h (S_free p, r) = h(p := None)"
| "heap_step h (c, r) = h"

fun call_safe :: "(nat \<rightharpoonup> nat) \<Rightarrow> syscall \<Rightarrow> bool" where
  "call_safe h (S_read fd p n) \<longleftrightarrow> (case h p of None \<Rightarrow> False | Some m \<Rightarrow> n \<le> m)"
| "call_safe h (S_fread p n f) \<longleftrightarrow> (case h p of None \<Rightarrow> False | Some m \<Rightarrow> n \<le> m)"
| "call_safe h (S_free p) \<longleftrightarrow> p = 0 \<or> h p \<noteq> None"
| "call_safe h c \<longleftrightarrow> True"

primrec trace_safe :: "(nat \<rightharpoonup> nat) \<Rightarrow> event list \<Rightarrow> bool" where
  "trace_safe h [] \<longleftrightarrow> True"
| "trace_safe h (e # es) \<longleftrightarrow> call_safe h (fst e) \<and> trace_safe (heap_step h e) es"

abbreviation heap_of :: "event list \<Rightarrow> (nat \<rightharpoonup> nat)" where
  "heap_of tr \<equiv> foldl heap_step Map.empty tr"

lemma trace_safe_append: "trace_safe h (xs @ ys) \<longleftrightarrow> trace_safe h xs \<and> trace_safe (foldl heap_step h xs) ys"
  by (induction xs arbitrary: h) auto

definition buf_inv :: "read_buf \<Rightarrow> event list \<Rightarrow> bool" where
  "buf_inv s tr \<longleftrightarrow> trace_safe Map.empty tr \<and>
     (if rbuf s = 0 then rbufsz s = 0 else heap_of tr (rbuf s) = Some (rbufsz s))"

abbreviation eio_inv :: "('w \<times> event list) eio_state \<Rightarrow> bool" where
  "eio_inv L \<equiv> buf_inv (statics L) (snd (world L))"

text \<open>Calls that have no effect on the heap and do not write to it.\<close>

fun neutral :: "syscall \<Rightarrow> bool" where
  "neutral (S_malloc n) \<longleftrightarrow> False"
| "neutral (S_free p) \<longleftrightarrow> False"
| "neutral (S_read fd p n) \<longleftrightarrow> False"
| "neutral (S_fread p n f) \<longleftrightarrow> False"
| "neutral c \<longleftrightarrow> True"

lemma neutral_step: "neutral c \<Longrightarrow> heap_step h (c, r) = h \<and> call_safe h c"
  by (cases c) simp_all

lemma os_call_traced:
  "os_call (traced os) c L = (r, L') \<Longrightarrow> snd (world L') = snd (world L) @ [(c, r)] \<and> statics L' = statics L"
  by (auto simp: os_call_def traced_def split: prod.splits)

lemma eio_inv_neutral:
  "os_call (traced os) c L = (r, L') \<Longrightarrow> neutral c \<Longrightarrow> eio_inv L \<Longrightarrow> eio_inv L'"
  using os_call_traced [of os c L r L'] neutral_step [of c] by (simp add: buf_inv_def trace_safe_append)

text \<open>The calls of the Lua API that the module makes keep the static variables and the world.\<close>

lemma api_core [simp]:
  "statics (lua_pushboolean b L) = statics L" "world (lua_pushboolean b L) = world L"
  "statics (lua_pushstring s L) = statics L" "world (lua_pushstring s L) = world L"
  "statics (lua_pushlstring t L) = statics L" "world (lua_pushlstring t L) = world L"
  "statics (lua_pushinteger i L) = statics L" "world (lua_pushinteger i L) = world L"
  "statics (lua_pushnumber n L) = statics L" "world (lua_pushnumber n L) = world L"
  "statics (lua_pushlightuserdata p L) = statics L" "world (lua_pushlightuserdata p L) = world L"
  by (auto simp: lua_pushboolean_def lua_pushstring_def lua_pushlstring_def lua_pushinteger_def lua_pushnumber_def
      lua_pushlightuserdata_def lua_pushnil_def split: option.split)

lemma lua_tolstring_core: "lua_tolstring E L i = (s, L') \<Longrightarrow> statics L' = statics L \<and> world L' = world L"
  by (auto simp: lua_tolstring_def Let_def split: lua_value.splits adr.splits)

lemma luaL_checkstring_core: "luaL_checkstring E i L = (x, L') \<Longrightarrow> statics L' = statics L \<and> world L' = world L"
  using lua_tolstring_core [of E L i] by (auto simp: luaL_checkstring_def luaL_checklstring_def apfst_def map_prod_def split: prod.splits option.splits)

lemma eio_inv_push_errors:
  "eio_inv L \<Longrightarrow> eio_inv (snd (push_error m L))" "eio_inv L \<Longrightarrow> eio_inv (snd (push_errno os L))"
  "eio_inv L \<Longrightarrow> eio_inv (snd (push_errno3 os L))" "eio_inv L \<Longrightarrow> eio_inv (snd (push_true L))"
  "eio_inv L \<Longrightarrow> eio_inv (snd (push_data r L))"
  by (simp_all add: push_errno_def push_error_def push_errno3_def push_true_def push_data_def)

lemma get_read_buf_inv:
  assumes "eio_inv L" "get_read_buf (traced os) sz L = (p, L')"
  shows "eio_inv L' \<and> (p \<noteq> 0 \<longrightarrow> p = rbuf (statics L') \<and> sz \<le> rbufsz (statics L'))"
proof (cases "rbufsz (statics L) < sz")
  case False
  then show ?thesis using assms by (auto simp: get_read_buf_def)
next
  case True
  let ?b = "rbuf (statics L)"
  obtain u L1 where L1: "os_call (traced os) (S_free ?b) L = (u, L1)" by fastforce
  define L2 where "L2 = L1\<lparr>statics := (statics L1)\<lparr>rbufsz := 0\<rparr>\<rparr>"
  obtain r L3 where L3: "os_call (traced os) (S_malloc sz) L2 = (r, L3)" by fastforce
  have w: "snd (world L3) = snd (world L) @ [(S_free ?b, u), (S_malloc sz, r)]" "statics L3 = (statics L)\<lparr>rbufsz := 0\<rparr>"
    using os_call_traced [OF L1] os_call_traced [OF L3] by (simp_all add: L2_def)
  have safe: "trace_safe Map.empty (snd (world L3))"
    using assms(1) w by (auto simp: buf_inv_def trace_safe_append split: if_splits)
  let ?heap = "heap_of (snd (world L3))"
  have "0 < rv r \<Longrightarrow> ?heap (nat (rv r)) = Some sz" using w by simp
  then show ?thesis using assms(2) safe True w(2)
    by (auto simp: get_read_buf_def L1 L2_def [symmetric] L3 buf_inv_def Let_def split: if_splits)
qed

text \<open>Rules for the handlers: each of them is a composition of these constructs.\<close>

lemma keep_checkinteger:
  "eio_inv L \<Longrightarrow> (\<And>a. eio_inv (snd (k a L))) \<Longrightarrow> eio_inv (snd (check (luaL_checkinteger E i L) k))"
  using luaL_checkinteger_state [of E i L] by (auto simp: check_def split: prod.split sum.split)

lemma keep_checkstring:
  "eio_inv L \<Longrightarrow> (\<And>a L'. eio_inv L' \<Longrightarrow> eio_inv (snd (k a L'))) \<Longrightarrow> eio_inv (snd (check (luaL_checkstring E i L) k))"
  using luaL_checkstring_core [of E i L] by (auto simp: check_def split: prod.split sum.split)

lemma keep_tolstring:
  "eio_inv L \<Longrightarrow> (\<And>a L'. eio_inv L' \<Longrightarrow> eio_inv (snd (k a L'))) \<Longrightarrow>
   eio_inv (snd (case lua_tolstring E L i of (a, L') \<Rightarrow> k a L'))"
  using lua_tolstring_core [of E L i] by (auto split: prod.split)

lemma keep_os_call:
  "eio_inv L \<Longrightarrow> neutral c \<Longrightarrow> (\<And>r L'. eio_inv L' \<Longrightarrow> eio_inv (snd (k r L'))) \<Longrightarrow>
   eio_inv (snd (case os_call (traced os) c L of (r, L') \<Rightarrow> k r L'))"
  using eio_inv_neutral [of os c L] by (auto split: prod.split)

lemma keep_FILE: "eio_inv L \<Longrightarrow> (\<And>p. eio_inv (snd (k p))) \<Longrightarrow> eio_inv (snd (use_FILE f k L))"
  by (simp add: use_FILE_def split: lua_value.split)

lemma keep_option:
  "eio_inv (snd m) \<Longrightarrow> (\<And>x. eio_inv (snd (k x))) \<Longrightarrow> eio_inv (snd (case v of None \<Rightarrow> m | Some x \<Rightarrow> k x))"
  by (cases v) auto

lemma keep_if: "eio_inv (snd m) \<Longrightarrow> eio_inv (snd n) \<Longrightarrow> eio_inv (snd (if b then m else n))"
  by simp

lemma keep_return: "eio_inv L \<Longrightarrow> eio_inv (snd (r, L))"
  by simp

lemma keep_read:
  assumes "eio_inv L" "\<And>L'. eio_inv L' \<Longrightarrow> eio_inv (snd (m L'))"
    and c: "\<And>p. c p = S_read fd p sz \<or> c p = S_fread p sz f"
    and "\<And>r L'. eio_inv L' \<Longrightarrow> eio_inv (snd (k r L'))"
  shows "eio_inv (snd (case get_read_buf (traced os) sz L of (p, L) \<Rightarrow> if p = 0 then m L
     else case os_call (traced os) (c p) L of (r, L) \<Rightarrow> k r L))"
proof -
  obtain p L1 where L1: "get_read_buf (traced os) sz L = (p, L1)" by fastforce
  obtain r L2 where L2: "os_call (traced os) (c p) L1 = (r, L2)" by fastforce
  have I: "eio_inv L1" "p \<noteq> 0 \<longrightarrow> p = rbuf (statics L1) \<and> sz \<le> rbufsz (statics L1)"
    using get_read_buf_inv [OF assms(1) L1] by auto
  have "eio_inv L2" if "p \<noteq> 0"
  proof -
    have "call_safe (heap_of (snd (world L1))) (c p)" "heap_step h (c p, r) = h" for h
      using I that c [of p] by (auto simp: buf_inv_def)
    then show ?thesis using I(1) os_call_traced [OF L2] by (simp add: buf_inv_def trace_safe_append)
  qed
  then show ?thesis using assms(2,4) I(1) by (simp add: L1 L2)
qed

lemmas keep_rules = keep_checkinteger keep_checkstring keep_tolstring keep_os_call keep_FILE keep_option keep_if
  keep_return eio_inv_push_errors

lemma eio_simple_inv:
  assumes "eio_inv L"
  shows "eio_inv (snd (eio_fopen (traced os) E L))" "eio_inv (snd (eio_fclose (traced os) L))"
    "eio_inv (snd (eio_fflush (traced os) L))" "eio_inv (snd (eio_close (traced os) E L))" "eio_inv (snd (eio_fdopen (traced os) E L))"
    "eio_inv (snd (eio_fwrite (traced os) E L))" "eio_inv (snd (eio_write (traced os) E L))" "eio_inv (snd (eio_fgetc (traced os) L))"
    "eio_inv (snd (eio_pipe (traced os) L))" "eio_inv (snd (eio_fileno (traced os) L))" "eio_inv (snd (eio_feof (traced os) L))"
    "eio_inv (snd (eio_setlinebuf (traced os) L))" "eio_inv (snd (eio_setunbuffered (traced os) L))"
    "eio_inv (snd (eio_dup (traced os) E L))" "eio_inv (snd (eio_dup2 (traced os) E L))"
  unfolding eio_fopen_def eio_fclose_def eio_fflush_def eio_close_def eio_fdopen_def eio_fwrite_def eio_write_def
    eio_fgetc_def eio_pipe_def eio_fileno_def eio_feof_def eio_setlinebuf_def eio_setunbuffered_def eio_dup_def eio_dup2_def
    Let_def
  by (intro keep_rules assms; simp add: assms; fail)+

lemma cloexec_rest_inv:
  assumes "eio_inv L"
  shows "eio_inv (snd (cloexec_rest (traced os) h L))"
proof -
  let ?src = "case h of Inl fd \<Rightarrow> (fd, L)
    | Inr f \<Rightarrow> if f \<noteq> 0 then (case os_call (traced os) (S_fileno f) L of (r, L) \<Rightarrow> (rv r, L)) else (-1, L)"
  obtain fd L1 where src: "?src = (fd, L1)" by fastforce
  then have "eio_inv L1"
    using assms eio_inv_neutral [of os _ L] by (auto split: sum.splits if_splits prod.splits)
  then show ?thesis unfolding cloexec_rest_def src prod.case by (intro keep_rules; simp; fail)
qed

lemma eio_read_inv:
  assumes "eio_inv L"
  shows "eio_inv (snd (eio_read (traced os) E L))"
  unfolding eio_read_def Let_def
  by (intro keep_checkinteger keep_read keep_if eio_inv_push_errors assms) simp_all

lemma keep_read_FILE:
  assumes "eio_inv L" "\<And>L'. eio_inv L' \<Longrightarrow> eio_inv (snd (m L'))" "\<And>f r L'. eio_inv L' \<Longrightarrow> eio_inv (snd (k f r L'))"
  shows "eio_inv (snd (case get_read_buf (traced os) sz L of (p, L) \<Rightarrow> if p = 0 then m L
     else use_FILE v (\<lambda>f. case os_call (traced os) (S_fread p sz f) L of (r, L) \<Rightarrow> k f r L) L))"
proof (cases v)
  case (LLightuserdata f)
  then have uf: "use_FILE v g = (\<lambda>L. g f)" for g :: "nat \<Rightarrow> ('a \<times> event list) eio_ret" by (simp add: use_FILE_def fun_eq_iff)
  show ?thesis unfolding uf
    using keep_read [of L m "\<lambda>p. S_fread p sz f" undefined sz f "k f" os] assms by simp
qed (use get_read_buf_inv [OF assms(1)] assms(2) in \<open>auto simp: use_FILE_def split: prod.split\<close>)

lemma eio_fread_inv:
  assumes "eio_inv L"
  shows "eio_inv (snd (eio_fread (traced os) E L))"
  unfolding eio_fread_def Let_def
  by (intro keep_rules keep_read_FILE assms; simp add: assms; fail)

text \<open>Tag methods that do not call the module.\<close>

definition tm_pure :: "('s, 'w) env \<Rightarrow> bool" where
  "tm_pure E \<longleftrightarrow> (\<forall>f a b L. statics (snd (callTMres E f a b L)) = statics L \<and> world (snd (callTMres E f a b L)) = world L)"

lemma tm_pureD:
  assumes "tm_pure E" "callTMres E f a b L = (x, L')"
  shows "statics L' = statics L" "world L' = world L"
  using assms(1) [unfolded tm_pure_def, rule_format, of f a b L] assms(2) by simp_all

lemma luaV_gettable_core:
  "tm_pure E \<Longrightarrow> luaV_gettable k E t key L = (r, L') \<Longrightarrow> statics L' = statics L \<and> world L' = world L"
proof (induction k E t key L rule: luaV_gettable.induct)
  case (2 k E t key L)
  show ?case using 2 tm_pureD [OF "2.prems"(1)] by (auto simp: Let_def split: lua_value.splits if_splits)
qed simp

lemma luaL_checkudata_core:
  "tm_pure E \<Longrightarrow> luaL_checkudata E ud name L = (r, L') \<Longrightarrow> statics L' = statics L \<and> world L' = world L"
  by (auto simp: luaL_checkudata_def lua_getmetatable_def lua_getfield_def lua_pop_def lua_settop_def
      split: option.splits prod.splits sum.splits if_splits bool.splits dest!: luaV_gettable_core)

lemma eio_cloexec_inv:
  assumes "tm_pure E" "eio_inv L"
  shows "eio_inv (snd (eio_cloexec (traced os) E L))"
proof -
  consider "lua_isnumber E L 1" | "\<not> lua_isnumber E L 1" "lua_type L 1 = LUA_TTABLE"
    | "\<not> lua_isnumber E L 1" "lua_type L 1 \<noteq> LUA_TTABLE" by blast
  then show ?thesis
  proof cases
    case 1
    then show ?thesis using assms(2) by (simp add: eio_cloexec_def keep_checkinteger cloexec_rest_inv)
  next
    case 2
    obtain x L1 where "lua_gettable E 1 (lua_pushstring (Some ''handle'') L) = (x, L1)" by fastforce
    moreover from this have "eio_inv L1"
      using assms(2) by (auto simp: lua_gettable_def split: prod.splits sum.splits dest!: luaV_gettable_core [OF assms(1)])
    ultimately show ?thesis using 2 by (cases x) (simp_all add: eio_cloexec_def cloexec_rest_inv)
  next
    case 3
    obtain x L1 where "luaL_checkudata E 1 LUA_FILEHANDLE L = (x, L1)" by fastforce
    moreover from this have "eio_inv L1" using assms(2) luaL_checkudata_core [OF assms(1)] by fastforce
    ultimately show ?thesis using 3 assms(2)
      by (cases x) (auto simp: eio_cloexec_def cloexec_rest_inv split: lua_value.split ublock_t.split)
  qed
qed

lemma leio_functions_inv:
  assumes "tm_pure E" "(n, f) \<in> set (leio_functions (traced os) E)" "eio_inv L"
  shows "eio_inv (snd (f L))"
  using assms(2) eio_simple_inv [OF assms(3)] eio_read_inv [OF assms(3)] eio_fread_inv [OF assms(3)]
    eio_cloexec_inv [OF assms(1,3)]
  by (auto simp: leio_functions_def)

text \<open>
  The states a process reaches that calls the functions of the module in any order, with any
  arguments, and whose Lua code does anything else that leaves the world and the static
  variables alone in between.
\<close>

inductive eio_reach :: "'w os \<Rightarrow> ('w \<times> event list) eio_env \<Rightarrow> ('w \<times> event list) eio_state \<Rightarrow> bool" for os E where
  start: "statics L = \<lparr>rbuf = 0, rbufsz = 0\<rparr> \<Longrightarrow> snd (world L) = [] \<Longrightarrow> eio_reach os E L"
| lua: "eio_reach os E L \<Longrightarrow> statics L' = statics L \<Longrightarrow> world L' = world L \<Longrightarrow> eio_reach os E L'"
| eio: "eio_reach os E L \<Longrightarrow> (n, f) \<in> set (leio_functions (traced os) E) \<Longrightarrow> call_c stale args f L = (r, L') \<Longrightarrow> eio_reach os E L'"

text \<open>
  C11 (invariant): whatever functions of the module are called, every \<^verbatim>\<open>read\<close> and \<^verbatim>\<open>fread\<close> gets a
  block that is allocated and at least as large as the size it is called with, only allocated blocks are
  freed, and no block is freed twice, also after an allocation has failed.
\<close>

theorem leio_buffer_safe:
  assumes "eio_reach os E L" and "tm_pure E"
  shows "trace_safe Map.empty (snd (world L))"
proof -
  from assms(1) have "eio_inv L"
  proof (induction rule: eio_reach.induct)
    case (eio L n f stale args r L')
    have "eio_inv (snd (f (enter_c stale args L)))"
      using leio_functions_inv [OF assms(2) eio(2), of "enter_c stale args L"] eio(4) by simp
    then show ?case using eio(3) by (auto simp: call_c_def split: prod.splits)
  qed (simp_all add: buf_inv_def)
  then show ?thesis by (simp add: buf_inv_def)
qed

definition test_os :: "'w os" where
  "test_os = \<lparr>sys = (\<lambda>c w. (\<lparr>rv = 1, eno = None, sout = ''x'', iout = []\<rparr>, w)), strerror = (\<lambda>_. ''error''), strsignal = (\<lambda>_. None)\<rparr>"

abbreviation eio_start :: "(unit \<times> event list) eio_state" where
  "eio_start \<equiv> test_state \<lparr>rbuf = 0, rbufsz = 0\<rparr> ((), [])"

theorem leio_buffer_safe_witness:
  "trace_safe Map.empty (snd (world (snd (call_c (\<lambda>_. LNil) [LNumber 3, LNumber 4] (eio_read (traced test_os) test_env) eio_start))))"
proof (rule leio_buffer_safe)
  show "eio_reach test_os test_env (snd (call_c (\<lambda>_. LNil) [LNumber 3, LNumber 4] (eio_read (traced test_os) test_env) eio_start))"
    by (rule eio_reach.eio [OF eio_reach.start [where L = eio_start] _ surjective_pairing, where n = "''eio_read''"])
      (simp_all add: test_state_def leio_functions_def)
  show "tm_pure (test_env :: (unit \<times> event list) eio_env)" by (simp add: tm_pure_def test_env_def)
qed

section \<open>Reading a stream\<close>

text \<open>
  What the code relies on of a stream \<open>f\<close> whose unread bytes are \<open>rem\<close>: \<^verbatim>\<open>fread\<close> delivers and consumes as
  many as asked for or left, there is no error, the end-of-file indicator is set once a read
  was short, the memory functions do not touch the stream and allocation succeeds.
\<close>

definition stream_like :: "'w os \<Rightarrow> nat \<Rightarrow> ('w \<Rightarrow> string) \<Rightarrow> bool" where
  "stream_like os f rem \<longleftrightarrow>
     (\<forall>w p n r w'. sys os (S_fread p n f) w = (r, w') \<longrightarrow>
        rv r = int (min n (length (rem w))) \<and> sout r = take n (rem w) \<and> rem w' = drop n (rem w)) \<and>
     (\<forall>w r w'. sys os (S_ferror f) w = (r, w') \<longrightarrow> rv r = 0 \<and> rem w' = rem w) \<and>
     (\<forall>w r w'. sys os (S_feof f) w = (r, w') \<longrightarrow> rem w' = rem w) \<and>
     (\<forall>w n r w'. sys os (S_malloc n) w = (r, w') \<longrightarrow> 0 < rv r \<and> rem w' = rem w) \<and>
     (\<forall>w p r w'. sys os (S_free p) w = (r, w') \<longrightarrow> rem w' = rem w)"

lemma stream_likeD:
  assumes "stream_like os f rem"
  shows "sys os (S_fread p n f) w = (r, w') \<Longrightarrow>
      rv r = int (min n (length (rem w))) \<and> sout r = take n (rem w) \<and> rem w' = drop n (rem w)"
    and "sys os (S_ferror f) w = (r, w') \<Longrightarrow> rv r = 0 \<and> rem w' = rem w"
    and "sys os (S_feof f) w = (r, w') \<Longrightarrow> rem w' = rem w"
    and "sys os (S_malloc n) w = (r, w') \<Longrightarrow> 0 < rv r \<and> rem w' = rem w"
    and "sys os (S_free p) w = (r, w') \<Longrightarrow> rem w' = rem w"
  using assms unfolding stream_like_def by blast+

definition read_buf_ok :: "read_buf \<Rightarrow> bool" where
  "read_buf_ok s \<longleftrightarrow> (rbuf s = 0 \<longrightarrow> rbufsz s = 0)"

lemma os_call_eq: "sys os c (world L) = (r, w) \<Longrightarrow> os_call os c L =
    (r, L\<lparr>world := w, errno := (case eno r of None \<Rightarrow> errno L | Some e \<Rightarrow> e)\<rparr>)"
  by (simp add: os_call_def)

lemma get_read_buf_stream:
  assumes "stream_like os f rem" "read_buf_ok (statics L)" "0 < sz"
  shows "\<exists>p L'. get_read_buf os sz L = (p, L') \<and> 0 < p \<and> rem (world L') = rem (world L) \<and> read_buf_ok (statics L') \<and>
    slots L' = slots L \<and> top L' = top L \<and> ci_top L' = ci_top L"
proof (cases "rbufsz (statics L) < sz")
  case True
  obtain u w1 where w1: "sys os (S_free (rbuf (statics L))) (world L) = (u, w1)" by fastforce
  obtain r w2 where w2: "sys os (S_malloc sz) w1 = (r, w2)" by fastforce
  show ?thesis using True w1 w2 assms(3) stream_likeD(5) [OF assms(1) w1] stream_likeD(4) [OF assms(1) w2]
    by (simp add: get_read_buf_def os_call_eq Let_def read_buf_ok_def)
next
  case False
  then show ?thesis using assms by (auto simp: get_read_buf_def read_buf_ok_def)
qed

lemma eio_fread_stream:
  assumes st: "stream_like os f rem" and "read_buf_ok (statics L)" "0 < f"
    and n: "c_size_t (lua_number2integer a) = n" "0 < n"
  shows "\<exists>L'. call_c stale [LLightuserdata f, LNumber a] (eio_fread os E) L = ((Return 1, [LString (take n (rem (world L)))]), L') \<and>
    rem (world L') = drop n (rem (world L)) \<and> read_buf_ok (statics L')"
proof -
  let ?L = "enter_c stale [LLightuserdata f, LNumber a] L"
  have args: "lua_touserdata ?L 1 = Some (LLightuserdata f)" "lua_tointeger E ?L 2 = lua_number2integer a"
    using assms(3) by (simp_all add: lua_touserdata_def lua_tointeger_def luaV_tonumber_def)
  obtain p L1 where L1: "get_read_buf os n ?L = (p, L1)" "0 < p" "rem (world L1) = rem (world L)" "read_buf_ok (statics L1)"
    using get_read_buf_stream [OF st, of ?L n] assms(2) n(2) by auto
  obtain r w2 where w2: "sys os (S_fread p n f) (world L1) = (r, w2)" by fastforce
  obtain e w3 where w3: "sys os (S_ferror f) w2 = (e, w3)" by fastforce
  obtain d w4 where w4: "sys os (S_feof f) w3 = (d, w4)" by fastforce
  have r: "rv r = int (min n (length (rem (world L))))" "sout r = take n (rem (world L))" "rem w2 = drop n (rem (world L))"
    using stream_likeD(1) [OF st w2] L1(3) by simp_all
  have "rv e = 0" "rem w3 = rem w2" "rem w4 = rem w3"
    using stream_likeD(2) [OF st w3] stream_likeD(3) [OF st w4] by simp_all
  then show ?thesis using args L1 r n
    by (simp add: call_c_def eio_fread_def Let_def use_FILE_def os_call_eq w2 w3 w4 push_data_def lua_pushlstring_def lua_pushstring_def
        results_push c_str_def)
qed

text \<open>Reading \<open>k\<close> chunks: the strings that \<open>k\<close> calls of \<^verbatim>\<open>fread\<close> return.\<close>

primrec read_chunks ::
  "nat \<Rightarrow> (nat \<Rightarrow> lua_value) \<Rightarrow> 'w os \<Rightarrow> 'w eio_env \<Rightarrow> nat \<Rightarrow> lua_Number \<Rightarrow> 'w eio_state \<Rightarrow> (lua_ret \<times> lua_value list) list" where
  "read_chunks 0 stale os E f a L = []"
| "read_chunks (Suc k) stale os E f a L =
     (case call_c stale [LLightuserdata f, LNumber a] (eio_fread os E) L of (r, L) \<Rightarrow> r # read_chunks k stale os E f a L)"

text \<open>
  C14 (functional): a stream read in chunks of \<open>n\<close> bytes comes back complete and in order: the
  \<open>i\<close>-th call returns the \<open>i\<close>-th chunk, and the empty string from the end of the stream on.
\<close>

theorem eio_fread_stream_complete:
  assumes "stream_like os f rem" "read_buf_ok (statics L)" "0 < f" "c_size_t (lua_number2integer a) = n" "0 < n"
  shows "read_chunks k stale os E f a L =
    map (\<lambda>i. (Return 1, [LString (take n (drop (i * n) (rem (world L))))])) [0..<k]"
  using assms(2)
proof (induction k arbitrary: L)
  case (Suc k)
  obtain L' where L': "call_c stale [LLightuserdata f, LNumber a] (eio_fread os E) L =
      ((Return 1, [LString (take n (rem (world L)))]), L')" "rem (world L') = drop n (rem (world L))" "read_buf_ok (statics L')"
    using eio_fread_stream [OF assms(1) Suc.prems assms(3-5)] by blast
  have "[0..<Suc k] = 0 # map Suc [0..<k]" by (simp add: map_Suc_upt upt_conv_Cons)
  then show ?case using Suc.IH [OF L'(3)] by (simp add: L' o_def add.commute)
qed simp

text \<open>A stream over the bytes in the world, as the hypotheses describe it.\<close>

definition string_os :: "string os" where
  "string_os = \<lparr>sys = (\<lambda>c w. case c of
       S_fread p n f \<Rightarrow> (\<lparr>rv = int (min n (length w)), eno = None, sout = take n w, iout = []\<rparr>, drop n w)
     | S_malloc n \<Rightarrow> (\<lparr>rv = 4096, eno = None, sout = [], iout = []\<rparr>, w)
     | S_feof f \<Rightarrow> (\<lparr>rv = (if w = [] then 1 else 0), eno = None, sout = [], iout = []\<rparr>, w)
     | _ \<Rightarrow> (\<lparr>rv = 0, eno = None, sout = [], iout = []\<rparr>, w)),
     strerror = (\<lambda>_. []), strsignal = (\<lambda>_. None)\<rparr>"

theorem eio_fread_stream_complete_witness:
  "read_chunks 3 (\<lambda>_. LNil) string_os test_env 8 4 (test_state \<lparr>rbuf = 0, rbufsz = 0\<rparr> ''hello'') =
     [(Return 1, [LString ''hell'']), (Return 1, [LString ''o'']), (Return 1, [LString ''''])]"
proof -
  have "c_size_t (lua_number2integer 4) = 4" by (simp add: c_size_t_def lua_number2integer_def)
  moreover have "stream_like string_os 8 id" by (auto simp: stream_like_def string_os_def)
  moreover have "[0..<3] = [0, 1, 2 :: nat]" by (simp add: upt_rec)
  ultimately show ?thesis
    using eio_fread_stream_complete [of string_os 8 id "test_state \<lparr>rbuf = 0, rbufsz = 0\<rparr> ''hello''" 4 4 3 "\<lambda>_. LNil" test_env]
    by (simp add: read_buf_ok_def test_state_def)
qed

text \<open>
  \<^verbatim>\<open>eio_fflush\<close> reads index 0, not its argument: what it flushes is whatever the slot above the
  arguments held before, so the stream that it is given makes no difference.
\<close>

theorem eio_fflush_ignores_argument:
  "call_c stale [v] (eio_fflush os) L = call_c stale [v'] (eio_fflush os) L \<and>
   snd (world (snd (call_c (\<lambda>_. LLightuserdata (Suc q)) [v] (eio_fflush (traced os')) L'))) =
     snd (world L') @ [(S_fflush (Suc q), fst (sys os' (S_fflush (Suc q)) (fst (world L'))))]"
proof
  have t: "lua_touserdata (enter_c st [w] M) 0 = (case st 1 of LUserdata u \<Rightarrow> Some (LUserdata u)
      | LLightuserdata p \<Rightarrow> if p = 0 then None else Some (LLightuserdata p) | _ \<Rightarrow> None)" for st w and M :: "'x eio_state"
    by (simp add: lua_touserdata_def index2adr_neg)
  define F where "F = (case (case stale 1 of LUserdata u \<Rightarrow> Some (LUserdata u)
      | LLightuserdata p \<Rightarrow> if p = 0 then None else Some (LLightuserdata p) | _ \<Rightarrow> None) of None \<Rightarrow> LLightuserdata 0 | Some f \<Rightarrow> f)"
  have e: "eio_fflush os (enter_c stale [w] L) = use_FILE F (\<lambda>f. case os_call os (S_fflush f) (enter_c stale [w] L) of (r, L) \<Rightarrow>
      if rv r = EOF then push_errno os L else push_true L) (enter_c stale [w] L)" for w
    unfolding eio_fflush_def t F_def ..
  show "call_c stale [v] (eio_fflush os) L = call_c stale [v'] (eio_fflush os) L"
  proof (cases F)
    case (LLightuserdata p)
    obtain r w where "sys os (S_fflush p) (world L) = (r, w)" by fastforce
    then show ?thesis unfolding call_c_def e using LLightuserdata
      by (cases "eno r") (simp_all add: use_FILE_def os_call_def push_errno_def push_error_def push_true_def
        lua_pushboolean_def lua_pushstring_def lua_pushlstring_def push_def results_def enter_c_def upt_rec)
  qed (unfold call_c_def e, simp_all add: use_FILE_def enter_c_def)
  show "snd (world (snd (call_c (\<lambda>_. LLightuserdata (Suc q)) [v] (eio_fflush (traced os')) L'))) =
     snd (world L') @ [(S_fflush (Suc q), fst (sys os' (S_fflush (Suc q)) (fst (world L'))))]"
    by (simp add: call_c_def eio_fflush_def t use_FILE_def os_call_def traced_def push_errno_def push_error_def push_true_def
        case_prod_beta)
qed

lemma safe_FILE: "room b n L \<Longrightarrow> (\<And>p. frame_safe b (k p)) \<Longrightarrow> frame_safe b (use_FILE f k L)"
  by (auto simp: use_FILE_def safe_returns split: lua_value.split)

lemma safe_data: "room b n L \<Longrightarrow> 1 \<le> n \<Longrightarrow> frame_safe b (push_data r L)"
  unfolding push_data_def push_eqs by (rule safe_returns)

lemma get_read_buf_frame:
  "get_read_buf os sz L = (p, L') \<Longrightarrow> top L' = top L \<and> ci_top L' = ci_top L \<and> overrun L' = overrun L"
  by (auto simp: get_read_buf_def os_call_def Let_def split: prod.splits if_splits)

lemma safe_read_buf:
  "room b n L \<Longrightarrow> (\<And>p L'. room b n L' \<Longrightarrow> frame_safe b (k p L')) \<Longrightarrow>
   frame_safe b (case get_read_buf os sz L of (p, L') \<Rightarrow> k p L')"
  using get_read_buf_frame [of os sz L] by (auto simp: room_def split: prod.split)

lemmas safe4 = safe_checkinteger [where n = 4] safe_checkstring [where n = 4] safe_tolstring [where n = 4] safe_os_call [where n = 4]
  safe_option safe_if safe_returns [where n = 4] safe_FILE [where n = 4] safe_data [where n = 4] safe_read_buf [where n = 4]

lemma eio_simple_safe:
  assumes r: "room b 4 L"
  shows "frame_safe b (eio_fopen os E L)" "frame_safe b (eio_fclose os L)" "frame_safe b (eio_fflush os L)" "frame_safe b (eio_close os E L)"
    "frame_safe b (eio_fdopen os E L)" "frame_safe b (eio_fwrite os E L)" "frame_safe b (eio_write os E L)" "frame_safe b (eio_fread os E L)"
    "frame_safe b (eio_read os E L)" "frame_safe b (eio_fgetc os L)" "frame_safe b (eio_pipe os L)" "frame_safe b (eio_fileno os L)"
    "frame_safe b (eio_feof os L)" "frame_safe b (eio_setlinebuf os L)" "frame_safe b (eio_setunbuffered os L)" "frame_safe b (eio_dup os E L)"
    "frame_safe b (eio_dup2 os E L)"
  unfolding eio_fopen_def eio_fclose_def eio_fflush_def eio_close_def eio_fdopen_def eio_fwrite_def eio_write_def eio_fread_def
    eio_read_def eio_fgetc_def eio_pipe_def eio_fileno_def eio_feof_def eio_setlinebuf_def eio_setunbuffered_def eio_dup_def
    eio_dup2_def Let_def push_eqs
  by (intro safe4 r; (assumption | simp); fail)+

lemma cloexec_rest_safe:
  assumes "room b 2 L"
  shows "frame_safe b (cloexec_rest os h L)"
proof -
  let ?src = "case h of Inl fd \<Rightarrow> (fd, L)
    | Inr f \<Rightarrow> if f \<noteq> 0 then (case os_call os (S_fileno f) L of (r, L) \<Rightarrow> (rv r, L)) else (-1, L)"
  obtain fd L1 where src: "?src = (fd, L1)" by fastforce
  then have "room b 2 L1"
    using assms os_call_frame [of os _ L] by (auto simp: room_def split: sum.splits if_splits prod.splits)
  then show ?thesis unfolding cloexec_rest_def src prod.case push_eqs
    by (intro safe_if safe_returns [where n = 2] safe_os_call [where n = 2]; simp)
qed

lemma eio_cloexec_safe:
  assumes "tm_frame E" "room b 4 L"
  shows "frame_safe b (eio_cloexec os E L)"
proof -
  have weak: "room b 2 L'" if "room b n L'" "2 \<le> n" for n and L' :: "'a eio_state" using that by (simp add: room_def)
  consider "lua_isnumber E L 1" | "\<not> lua_isnumber E L 1" "lua_type L 1 = LUA_TTABLE"
    | "\<not> lua_isnumber E L 1" "lua_type L 1 \<noteq> LUA_TTABLE" by blast
  then show ?thesis
  proof cases
    case 1
    then show ?thesis using assms(2) weak [OF assms(2)] by (simp add: eio_cloexec_def safe_checkinteger cloexec_rest_safe)
  next
    case 2
    obtain x L1 where L1: "lua_gettable E 1 (lua_pushstring (Some ''handle'') L) = (x, L1)" by fastforce
    then have "room b 3 L1"
      using assms(2) by (auto simp: lua_gettable_def push_eqs room_def split: prod.splits sum.splits dest!: luaV_gettable_frame [OF assms(1)])
    then show ?thesis using 2 L1 weak by (cases x) (simp_all add: eio_cloexec_def cloexec_rest_safe safe_returns)
  next
    case 3
    obtain x L1 where L1: "luaL_checkudata E 1 LUA_FILEHANDLE L = (x, L1)" by fastforce
    moreover have "overrun L1 = b" "x = Inr p \<Longrightarrow> room b 4 L1" for p
      using luaL_checkudata_frame [OF assms(1) L1] assms(2) by (auto simp: room_def)
    ultimately show ?thesis using 3 weak [OF assms(2)] weak
      by (cases x) (auto simp: eio_cloexec_def cloexec_rest_safe frame_safe_def [of _ "(Raise _, _)"] safe_returns split: lua_value.split ublock_t.split)
  qed
qed

text \<open>
  No function of the module pushes more values than \<^verbatim>\<open>LUA_MINSTACK\<close> reserves for it, nor returns
  more results than its frame holds, whatever it is called with and whatever the system calls return.
\<close>

theorem leio_stack_safe:
  assumes "(n, f) \<in> set (leio_functions os E)" "tm_frame E"
  shows "frame_safe (overrun L) (f (enter_c stale args L))"
proof -
  have r: "room (overrun L) 4 (enter_c stale args L)" by (simp add: room_def)
  show ?thesis using assms(1) eio_simple_safe [OF r] eio_cloexec_safe [OF assms(2) r] by (auto simp: leio_functions_def)
qed

theorem leio_stack_safe_witness:
  "frame_safe False (eio_read test_os test_env (enter_c (\<lambda>_. LNil) [LNumber 3, LNumber 4] (test_state \<lparr>rbuf = 0, rbufsz = 0\<rparr> ())))"
  using leio_stack_safe [of "''eio_read''" "eio_read test_os test_env" test_os test_env "test_state \<lparr>rbuf = 0, rbufsz = 0\<rparr> ()" "\<lambda>_. LNil"
      "[LNumber 3, LNumber 4]"]
  by (simp add: leio_functions_def tm_frame_def test_env_def)

end
