(* ===== verification/E2su.thy ===== *)
theory E2su
  imports Posix
begin

text \<open>
  The setuid helper \<^verbatim>\<open>global/e2-su-2.2.c\<close> and the wrapper \<^verbatim>\<open>linux32.c\<close>. A program is a function of the
  world that ends with an exit status or with the program that replaces it. A successful \<^verbatim>\<open>execv\<close> is a
  call that returns 0 and ends the program. The paths of the tools are compiled in: the record \<open>tools\<close>.
\<close>

datatype su_end = Exited int | Executed string "string list"

type_synonym ('a, 'w) prog = "'w \<Rightarrow> (su_end + 'a) \<times> 'w"

definition seq :: "('a, 'w) prog \<Rightarrow> ('a \<Rightarrow> ('b, 'w) prog) \<Rightarrow> ('b, 'w) prog" where
  "seq m k w = (case m w of (Inl e, w) \<Rightarrow> (Inl e, w) | (Inr a, w) \<Rightarrow> k a w)"

definition ret :: "'a \<Rightarrow> ('a, 'w) prog" where "ret a w = (Inr a, w)"
definition exit :: "int \<Rightarrow> ('a, 'w) prog" where "exit n w = (Inl (Exited n), w)"

definition call :: "'w os \<Rightarrow> syscall \<Rightarrow> (int, 'w) prog" where
  "call os c w = (case sys os c w of (r, w) \<Rightarrow> (Inr (rv r), w))"

record tools =
  chroot_tool :: string
  tar_tool :: string
  chown_tool :: string
  rm_tool :: string

text \<open>\<^verbatim>\<open>basename\<close> of \<^verbatim>\<open>libgen.h\<close>, and \<^verbatim>\<open>snprintf\<close> into a buffer of \<^verbatim>\<open>PATH_MAX\<close> bytes.\<close>

definition basename :: "string \<Rightarrow> string" where
  "basename path =
     (if path = [] then ''.''
      else let p = rev (dropWhile (\<lambda>c. c = CHR ''/'') (rev path)) in
        if p = [] then ''/'' else rev (takeWhile (\<lambda>c. c \<noteq> CHR ''/'') (rev p)))"

definition snprintf_path :: "string \<Rightarrow> string" where
  "snprintf_path s = take (PATH_MAX - 1) s"

section \<open>Privileges and checks\<close>

definition perror_exit :: "'w os \<Rightarrow> string \<Rightarrow> ('a, 'w) prog" where
  "perror_exit os msg = seq (call os (S_perror msg)) (\<lambda>_. exit 99)"

definition setuid_root :: "'w os \<Rightarrow> (unit, 'w) prog" where
  "setuid_root os =
     seq (call os S_clearenv) (\<lambda>rc. if rc \<noteq> 0 then perror_exit os ''can't clearenv()'' else
     seq (call os (S_setuid 0)) (\<lambda>rc. if rc \<noteq> 0 then perror_exit os ''can't setuid(0)'' else
     seq (call os (S_setgid 0)) (\<lambda>rc. if rc \<noteq> 0 then perror_exit os ''can't setgid(0)'' else
     seq (call os (S_setgroups [])) (\<lambda>rc. if rc \<noteq> 0 then perror_exit os ''can't setgroups()'' else ret ()))))"

definition perr :: "'w os \<Rightarrow> string \<Rightarrow> ('a, 'w) prog" where
  "perr os msg = seq (call os (S_puts msg)) (\<lambda>_. exit 99)"

definition assert_chroot_environment :: "'w os \<Rightarrow> string \<Rightarrow> (unit, 'w) prog" where
  "assert_chroot_environment os path =
     (let name = snprintf_path (path @ ''/emlix-chroot'')
      in seq (call os (S_access name R_OK)) (\<lambda>rc. if rc \<noteq> 0 then perr os ''not a chroot environment'' else ret ()))"

definition assert_chroot_environment_2_3 :: "'w os \<Rightarrow> string \<Rightarrow> (unit, 'w) prog" where
  "assert_chroot_environment_2_3 os base =
     (let name = snprintf_path (base @ ''/e2factory-chroot'')
      in seq (call os (S_access name R_OK)) (\<lambda>rc. if rc \<noteq> 0 then perr os ''not a chroot environment'' else ret ()))"

definition run_tool :: "'w os \<Rightarrow> string \<Rightarrow> string list \<Rightarrow> (unit, 'w) prog" where
  "run_tool os tool arg =
     seq (setuid_root os) (\<lambda>_.
     seq (call os (S_execv tool arg)) (\<lambda>rc.
     if rc = 0 then (\<lambda>w. (Inl (Executed tool arg), w)) else perror_exit os ''can't exec''))"

section \<open>The commands\<close>

text \<open>The option that selects the compression.\<close>

definition tar_option :: "'w os \<Rightarrow> string \<Rightarrow> (string list, 'w) prog" where
  "tar_option os tartype =
     (if tartype = ''tar.gz'' then ret [''--gzip'']
      else if tartype = ''tar.bz2'' then ret [''--bzip2'']
      else if tartype = ''tar'' then ret []
      else perr os ''wrong tararg argument'')"

definition chroot_2_2 :: "'w os \<Rightarrow> tools \<Rightarrow> string list \<Rightarrow> (unit, 'w) prog" where
  "chroot_2_2 os T argv =
     (if length argv < 3 then perr os ''too few arguments'' else
      let path = argv ! 2 in
      seq (assert_chroot_environment os path) (\<lambda>_.
      run_tool os (chroot_tool T) ([basename (chroot_tool T), path] @ drop 3 argv)))"

definition extract_tar_2_2 :: "'w os \<Rightarrow> tools \<Rightarrow> string list \<Rightarrow> (unit, 'w) prog" where
  "extract_tar_2_2 os T argv =
     (if length argv \<noteq> 5 then perr os ''wrong number of arguments'' else
      let path = argv ! 2; tartype = argv ! 3; file = argv ! 4 in
      seq (assert_chroot_environment os path) (\<lambda>_.
      seq (tar_option os tartype) (\<lambda>opt.
      run_tool os (tar_tool T) ([basename (tar_tool T), ''-C'', path] @ opt @ [''-xf'', file]))))"

definition set_permissions_2_2 :: "'w os \<Rightarrow> tools \<Rightarrow> string list \<Rightarrow> (unit, 'w) prog" where
  "set_permissions_2_2 os T argv =
     (if length argv \<noteq> 3 then perr os ''wrong number of arguments'' else
      let path = argv ! 2 in
      seq (assert_chroot_environment os path) (\<lambda>_.
      run_tool os (chown_tool T) [basename (chown_tool T), ''root:root'', path]))"

definition remove_chroot_2_2 :: "'w os \<Rightarrow> tools \<Rightarrow> string list \<Rightarrow> (unit, 'w) prog" where
  "remove_chroot_2_2 os T argv =
     (if length argv \<noteq> 3 then perr os ''wrong number of arguments'' else
      let path = argv ! 2 in
      seq (assert_chroot_environment os path) (\<lambda>_.
      run_tool os (rm_tool T) [basename (rm_tool T), ''-r'', ''-f'', path]))"

definition chroot_2_3 :: "'w os \<Rightarrow> tools \<Rightarrow> string list \<Rightarrow> (unit, 'w) prog" where
  "chroot_2_3 os T argv =
     (if length argv < 3 then perr os ''too few arguments'' else
      let base = argv ! 2; path = snprintf_path (base @ ''/chroot'') in
      seq (assert_chroot_environment_2_3 os base) (\<lambda>_.
      run_tool os (chroot_tool T) ([basename (chroot_tool T), path] @ drop 3 argv)))"

definition extract_tar_2_3 :: "'w os \<Rightarrow> tools \<Rightarrow> string list \<Rightarrow> (unit, 'w) prog" where
  "extract_tar_2_3 os T argv =
     (if length argv \<noteq> 5 then perr os ''wrong number of arguments'' else
      let base = argv ! 2 in
      seq (assert_chroot_environment_2_3 os base) (\<lambda>_.
      let path = snprintf_path (base @ ''/chroot''); tartype = argv ! 3; file = argv ! 4 in
      seq (tar_option os tartype) (\<lambda>opt.
      run_tool os (tar_tool T) ([basename (tar_tool T), ''-C'', path] @ opt @ [''-xf'', file]))))"

definition set_permissions_2_3 :: "'w os \<Rightarrow> tools \<Rightarrow> string list \<Rightarrow> (unit, 'w) prog" where
  "set_permissions_2_3 os T argv =
     (if length argv \<noteq> 3 then perr os ''wrong number of arguments'' else
      let base = argv ! 2 in
      seq (assert_chroot_environment_2_3 os base) (\<lambda>_.
      let path = snprintf_path (base @ ''/chroot'') in
      run_tool os (chown_tool T) [basename (chown_tool T), ''root:root'', path]))"

definition remove_chroot_2_3 :: "'w os \<Rightarrow> tools \<Rightarrow> string list \<Rightarrow> (unit, 'w) prog" where
  "remove_chroot_2_3 os T argv =
     (if length argv \<noteq> 3 then perr os ''wrong number of arguments'' else
      let base = argv ! 2 in
      seq (assert_chroot_environment_2_3 os base) (\<lambda>_.
      let path = snprintf_path (base @ ''/chroot'') in
      run_tool os (rm_tool T) [basename (rm_tool T), ''-r'', ''-f'', path]))"

definition e2su_main :: "'w os \<Rightarrow> tools \<Rightarrow> string list \<Rightarrow> (unit, 'w) prog" where
  "e2su_main os T argv =
     (if length argv < 3 then perr os ''too few arguments''
      else if 128 < length argv then perr os ''too many arguments''
      else let cmd = argv ! 1 in
        if cmd = ''chroot_2_2'' then chroot_2_2 os T argv
        else if cmd = ''extract_tar_2_2'' then extract_tar_2_2 os T argv
        else if cmd = ''set_permissions_2_2'' then set_permissions_2_2 os T argv
        else if cmd = ''remove_chroot_2_2'' then remove_chroot_2_2 os T argv
        else if cmd = ''chroot_2_3'' then chroot_2_3 os T argv
        else if cmd = ''extract_tar_2_3'' then extract_tar_2_3 os T argv
        else if cmd = ''set_permissions_2_3'' then set_permissions_2_3 os T argv
        else if cmd = ''remove_chroot_2_3'' then remove_chroot_2_3 os T argv
        else perr os ''unknown command'')"

section \<open>linux32\<close>

definition PER_LINUX32 :: int where "PER_LINUX32 = 8"

definition linux32_main :: "'w os \<Rightarrow> string list \<Rightarrow> (unit, 'w) prog" where
  "linux32_main os argv =
     seq (call os (S_personality PER_LINUX32)) (\<lambda>rc.
     if rc < 0 then seq (call os (S_stderr ''Cannot set 8 personality'')) (\<lambda>_. exit 1)
     else if length argv < 2 then exit 0
     else seq (call os (S_execvp (argv ! 1) (drop 1 argv))) (\<lambda>rc.
       if rc = 0 then (\<lambda>w. (Inl (Executed (argv ! 1) (drop 1 argv)), w))
       else seq (call os (S_stderr ''Cannot exec'')) (\<lambda>_. exit 1)))"

section \<open>What the helper may run\<close>

text \<open>
  The contract: for each layout of a chroot environment the marker file that has to be
  readable and the root directory, and for each operation the tool and its arguments. The names of the
  marker and of the root directory are as documented when \<open>nm\<close> is the identity; the buffers of the code cut them,
  so that \<open>nm\<close> is \<open>snprintf_path\<close>.
\<close>

definition tar_flag :: "string \<Rightarrow> string list option" where
  "tar_flag t = map_of [(''tar.gz'', [''--gzip'']), (''tar.bz2'', [''--bzip2'']), (''tar'', [])] t"

definition su_operation :: "tools \<Rightarrow> string \<Rightarrow> string list \<Rightarrow> string \<Rightarrow> (string \<times> string list) option" where
  "su_operation T rootdir rest op =
     (if op = ''chroot'' then Some (chroot_tool T, [basename (chroot_tool T), rootdir] @ rest)
      else if op = ''extract_tar'' then
        (case rest of [t, file] \<Rightarrow> map_option (\<lambda>f. (tar_tool T, [basename (tar_tool T), ''-C'', rootdir] @ f @ [''-xf'', file])) (tar_flag t)
         | _ \<Rightarrow> None)
      else if op = ''set_permissions'' \<and> rest = [] then Some (chown_tool T, [basename (chown_tool T), ''root:root'', rootdir])
      else if op = ''remove_chroot'' \<and> rest = [] then Some (rm_tool T, [basename (rm_tool T), ''-r'', ''-f'', rootdir])
      else None)"

definition su_plan :: "(string \<Rightarrow> string) \<Rightarrow> tools \<Rightarrow> string list \<Rightarrow> (string \<times> string \<times> string list) option" where
  "su_plan nm T argv =
     (if 128 < length argv then None
      else case argv of
        prog # cmd # base # rest \<Rightarrow>
          let op = take (length cmd - 4) cmd; layout = drop (length cmd - 4) cmd in
          if layout = ''_2_2'' then map_option (Pair (nm (base @ ''/emlix-chroot''))) (su_operation T base rest op)
          else if layout = ''_2_3'' then
            map_option (Pair (nm (base @ ''/e2factory-chroot''))) (su_operation T (nm (base @ ''/chroot'')) rest op)
          else None
      | _ \<Rightarrow> None)"

text \<open>The base path leaves room for the longest name that is made from it.\<close>

definition base_fits :: "string list \<Rightarrow> bool" where
  "base_fits argv \<longleftrightarrow> length argv < 3 \<or> length (argv ! 2 @ ''/e2factory-chroot'') < PATH_MAX"

fun privileged :: "syscall \<Rightarrow> bool" where
  "privileged S_clearenv \<longleftrightarrow> True"
| "privileged (S_setuid u) \<longleftrightarrow> True"
| "privileged (S_setgid g) \<longleftrightarrow> True"
| "privileged (S_setgroups gs) \<longleftrightarrow> True"
| "privileged (S_execv t a) \<longleftrightarrow> True"
| "privileged c \<longleftrightarrow> False"

definition success_calls :: "string \<Rightarrow> string \<Rightarrow> string list \<Rightarrow> (syscall \<times> int) list" where
  "success_calls marker tool args = [(S_access marker R_OK, 0), (S_clearenv, 0), (S_setuid 0, 0), (S_setgid 0, 0),
     (S_setgroups [], 0), (S_execv tool args, 0)]"

text \<open>
  A run is within the contract: a program was executed only by the calls of the plan, all
  successful; otherwise the exit status is 99, there was no plan or a call failed, and a privileged call was made only under the plan, after
  its marker had been found readable.
\<close>

definition su_ok :: "(string \<times> string \<times> string list) option \<Rightarrow> (su_end + unit) \<Rightarrow> event list \<Rightarrow> bool" where
  "su_ok plan e tr \<longleftrightarrow> (case e of
     Inr u \<Rightarrow> False
   | Inl (Executed tool args) \<Rightarrow>
       (case plan of None \<Rightarrow> False | Some (marker, tool', args') \<Rightarrow>
          tool' = tool \<and> args' = args \<and> map (\<lambda>(c, r). (c, rv r)) tr = success_calls marker tool args)
   | Inl (Exited n) \<Rightarrow> n = 99 \<and> (plan = None \<or> (\<exists>x \<in> set tr. rv (snd x) \<noteq> 0)) \<and>
       ((\<exists>x \<in> set tr. privileged (fst x)) \<longrightarrow>
        (case plan of None \<Rightarrow> False | Some (marker, tool, args) \<Rightarrow>
          tr \<noteq> [] \<and> fst (hd tr) = S_access marker R_OK \<and> rv (snd (hd tr)) = 0 \<and>
          (\<forall>x \<in> set tr. privileged (fst x) \<longrightarrow> fst x \<in> {S_clearenv, S_setuid 0, S_setgid 0, S_setgroups [], S_execv tool args}))))"

lemma call_traced: "call (traced os) c (w, tr) = (case sys os c w of (r, w) \<Rightarrow> (Inr (rv r), (w, tr @ [(c, r)])))"
  by (simp add: call_def traced_def split: prod.split)

lemma run_tool_ok:
  assumes "sys os (S_access marker R_OK) w = (r, w')" "rv r = 0"
  shows "case run_tool (traced os) tool args (w', [(S_access marker R_OK, r)]) of (e, (w, tr)) \<Rightarrow> su_ok (Some (marker, tool, args)) e tr"
  using assms
  by (simp add: run_tool_def setuid_root_def seq_def call_traced ret_def exit_def perror_exit_def su_ok_def success_calls_def
      split: prod.split)

definition guard :: "'w os \<Rightarrow> string \<Rightarrow> (unit, 'w) prog \<Rightarrow> (unit, 'w) prog" where
  "guard os name k = seq (call os (S_access name R_OK)) (\<lambda>rc. if rc \<noteq> 0 then perr os ''not a chroot environment'' else k)"

lemma seq_guard:
  "seq (assert_chroot_environment os p) (\<lambda>_. k) = guard os (snprintf_path (p @ ''/emlix-chroot'')) k"
  "seq (assert_chroot_environment_2_3 os p) (\<lambda>_. k) = guard os (snprintf_path (p @ ''/e2factory-chroot'')) k"
  by (auto simp: fun_eq_iff guard_def assert_chroot_environment_def assert_chroot_environment_2_3_def seq_def call_def perr_def exit_def
      ret_def split: prod.split)

lemma guard_ok:
  assumes "\<And>r w'. sys os (S_access marker R_OK) w = (r, w') \<Longrightarrow> rv r = 0 \<Longrightarrow>
      case k (w', [(S_access marker R_OK, r)]) of (e, (w, tr)) \<Rightarrow> su_ok plan e tr"
  shows "case guard (traced os) marker k (w, []) of (e, (w, tr)) \<Rightarrow> su_ok plan e tr"
  using assms by (auto simp: guard_def seq_def call_traced perr_def exit_def su_ok_def split: prod.split)

lemma perr_ok: "case perr (traced os) msg (w, []) of (e, (w, tr)) \<Rightarrow> su_ok None e tr"
  by (simp add: perr_def seq_def call_traced exit_def su_ok_def split: prod.split)

lemma guarded_tool_ok:
  "case guard (traced os) marker (run_tool (traced os) tool args) (w, []) of (e, (w, tr)) \<Rightarrow> su_ok (Some (marker, tool, args)) e tr"
  by (rule guard_ok) (rule run_tool_ok)

lemma guarded_tar_ok:
  assumes "map_option (\<lambda>f. (marker, tool, pre @ f @ post)) (tar_flag t) = plan"
  shows "case guard (traced os) marker (seq (tar_option (traced os) t) (\<lambda>opt. run_tool (traced os) tool (pre @ opt @ post))) (w, []) of
    (e, (w, tr)) \<Rightarrow> su_ok plan e tr"
proof (rule guard_ok)
  fix r w' assume a: "sys os (S_access marker R_OK) w = (r, w')" "rv r = 0"
  show "case seq (tar_option (traced os) t) (\<lambda>opt. run_tool (traced os) tool (pre @ opt @ post)) (w', [(S_access marker R_OK, r)]) of
    (e, (w, tr)) \<Rightarrow> su_ok plan e tr"
  proof (cases "tar_flag t")
    case None
    then have "tar_option (traced os) t = perr (traced os) ''wrong tararg argument''"
      by (auto simp: tar_option_def tar_flag_def split: if_splits)
    moreover have "plan = None" using None assms by simp
    ultimately show ?thesis by (simp add: seq_def perr_def call_traced exit_def su_ok_def split: prod.split)
  next
    case (Some f)
    then have "tar_option (traced os) t = ret f" by (auto simp: tar_option_def tar_flag_def split: if_splits)
    then show ?thesis using run_tool_ok [OF a, of tool "pre @ f @ post"] assms Some by (auto simp: seq_def ret_def)
  qed
qed

lemma su_plan_unknown:
  assumes "cmd \<notin> {''chroot_2_2'', ''extract_tar_2_2'', ''set_permissions_2_2'', ''remove_chroot_2_2'',
      ''chroot_2_3'', ''extract_tar_2_3'', ''set_permissions_2_3'', ''remove_chroot_2_3''}"
  shows "su_plan nm T (prog # cmd # base # rest) = None"
proof -
  define op layout where "op = take (length cmd - 4) cmd" and "layout = drop (length cmd - 4) cmd"
  have "cmd = op @ layout" by (simp add: op_def layout_def)
  then have "layout = ''_2_2'' \<or> layout = ''_2_3'' \<Longrightarrow> op \<notin> {''chroot'', ''extract_tar'', ''set_permissions'', ''remove_chroot''}"
    using assms by auto
  then have "layout = ''_2_2'' \<or> layout = ''_2_3'' \<Longrightarrow> su_operation T r rest op = None" for r by (simp add: su_operation_def)
  then show ?thesis by (auto simp: su_plan_def Let_def simp flip: op_def layout_def)
qed

lemma e2su_main_ok:
  "case e2su_main (traced os) T argv (w, []) of (e, (w, tr)) \<Rightarrow> su_ok (su_plan snprintf_path T argv) e tr"
proof (cases "length argv < 3 \<or> 128 < length argv")
  case True
  then have "su_plan snprintf_path T argv = None" by (auto simp: su_plan_def split: list.split)
  then show ?thesis using True perr_ok [where os = os and w = w] by (auto simp: e2su_main_def)
next
  case False
  then obtain prog cmd base rest where argv: "argv = prog # cmd # base # rest"
    by (cases argv; cases "tl argv"; cases "tl (tl argv)") auto
  have short: "\<not> 125 < length rest" using False argv by simp
  note defs = e2su_main_def Let_def argv su_plan_def short su_operation_def
  consider "cmd = ''chroot_2_2''" | "cmd = ''extract_tar_2_2''" | "cmd = ''set_permissions_2_2''" | "cmd = ''remove_chroot_2_2''"
    | "cmd = ''chroot_2_3''" | "cmd = ''extract_tar_2_3''" | "cmd = ''set_permissions_2_3''" | "cmd = ''remove_chroot_2_3''"
    | "cmd \<noteq> ''chroot_2_2''" "cmd \<noteq> ''extract_tar_2_2''" "cmd \<noteq> ''set_permissions_2_2''" "cmd \<noteq> ''remove_chroot_2_2''"
      "cmd \<noteq> ''chroot_2_3''" "cmd \<noteq> ''extract_tar_2_3''" "cmd \<noteq> ''set_permissions_2_3''" "cmd \<noteq> ''remove_chroot_2_3''"
    by argo
  then show ?thesis
  proof cases
    case 1
    then show ?thesis using guarded_tool_ok by (simp add: defs chroot_2_2_def seq_guard)
  next
    case 2
    show ?thesis
    proof (cases "length rest = 2")
      case True
      then obtain t fl where rest: "rest = [t, fl]" by (cases rest; cases "tl rest") auto
      show ?thesis using 2
        by (simp add: defs rest extract_tar_2_2_def seq_guard)
          (rule guarded_tar_ok [where pre = "[basename (tar_tool T), ''-C'', base]", simplified],
           auto simp: option.map_comp o_def)
    next
      case False
      then have "su_plan snprintf_path T argv = None" using 2 by (auto simp: defs split: list.split)
      then show ?thesis using 2 False perr_ok by (simp add: e2su_main_def argv short extract_tar_2_2_def)
    qed
  next
    case 3
    then show ?thesis by (cases rest) (auto simp: defs set_permissions_2_2_def seq_guard intro!: guarded_tool_ok perr_ok)
  next
    case 4
    then show ?thesis by (cases rest) (auto simp: defs remove_chroot_2_2_def seq_guard intro!: guarded_tool_ok perr_ok)
  next
    case 5
    then show ?thesis using guarded_tool_ok by (simp add: defs chroot_2_3_def seq_guard)
  next
    case 6
    show ?thesis
    proof (cases "length rest = 2")
      case True
      then obtain t fl where rest: "rest = [t, fl]" by (cases rest; cases "tl rest") auto
      show ?thesis using 6
        by (simp add: defs rest extract_tar_2_3_def seq_guard)
          (rule guarded_tar_ok [where pre = "[basename (tar_tool T), ''-C'', (snprintf_path (base @ ''/chroot''))]", simplified],
           auto simp: option.map_comp o_def)
    next
      case False
      then have "su_plan snprintf_path T argv = None" using 6 by (auto simp: defs split: list.split)
      then show ?thesis using 6 False perr_ok by (simp add: e2su_main_def argv short extract_tar_2_3_def)
    qed
  next
    case 7
    then show ?thesis by (cases rest) (auto simp: defs set_permissions_2_3_def seq_guard intro!: guarded_tool_ok perr_ok)
  next
    case 8
    then show ?thesis by (cases rest) (auto simp: defs remove_chroot_2_3_def seq_guard intro!: guarded_tool_ok perr_ok)
  next
    case 9
    then have "su_plan snprintf_path T argv = None" unfolding argv by (intro su_plan_unknown) auto
    then show ?thesis using 9 perr_ok by (simp add: e2su_main_def argv short)
  qed
qed

lemma su_plan_fits:
  assumes "base_fits argv"
  shows "su_plan snprintf_path T argv = su_plan (\<lambda>name. name) T argv"
proof -
  have "snprintf_path (base @ x) = base @ x" if "length (base @ ''/e2factory-chroot'') < PATH_MAX" "length x \<le> 17" for base x
    using that by (simp add: snprintf_path_def PATH_MAX_def)
  then show ?thesis using assms by (auto simp: su_plan_def base_fits_def Let_def split: list.split)
qed

definition test_tools :: tools where
  "test_tools = \<lparr>chroot_tool = ''/usr/sbin/chroot'', tar_tool = ''/bin/tar'', chown_tool = ''/bin/chown'', rm_tool = ''/bin/rm''\<rparr>"

text \<open>
  C12 (safety): however the setuid helper is called and whatever the system calls return, it runs a tool as root
  only under the contract: for one of the eight commands with the right number of
  arguments, after the marker of that chroot layout was found readable, with the
  environment cleared and user, group and supplementary groups set, and with exactly the
  arguments of the plan. It does so whenever there is a plan and every call succeeds. In every other case it exits with
  status 99, and an exit before the marker check passed has made no privileged call.
  When the base path leaves room for the names within \<^verbatim>\<open>PATH_MAX\<close>, the marker and the root directory are the
  documented ones; for a longer base path both are the documented names cut to \<^verbatim>\<open>PATH_MAX\<close> - 1
  characters, which need not name a marker at all.
\<close>

theorem e2su_main_contract:
  "case e2su_main (traced os) T argv (w, []) of (e, (w, tr)) \<Rightarrow>
     (base_fits argv \<longrightarrow> su_ok (su_plan (\<lambda>name. name) T argv) e tr) \<and> su_ok (su_plan snprintf_path T argv) e tr"
  using e2su_main_ok [where os = os and T = T and argv = argv and w = w] su_plan_fits [of argv T] by auto

theorem e2su_main_contract_witness:
  "case e2su_main (traced (zero_os :: unit os)) test_tools [''e2-su-2.2'', ''extract_tar_2_3'', ''/tmp/e2'', ''tar.gz'', ''x.tar.gz''] ((), []) of (e, (w, tr)) \<Rightarrow>
     su_ok (Some (''/tmp/e2/e2factory-chroot'', ''/bin/tar'', [''tar'', ''-C'', ''/tmp/e2/chroot'', ''--gzip'', ''-xf'', ''x.tar.gz''])) e tr"
proof -
  let ?argv = "[''e2-su-2.2'', ''extract_tar_2_3'', ''/tmp/e2'', ''tar.gz'', ''x.tar.gz'']"
  have "base_fits ?argv" by (simp add: base_fits_def PATH_MAX_def)
  moreover have "su_plan (\<lambda>name. name) test_tools ?argv =
      Some (''/tmp/e2/e2factory-chroot'', ''/bin/tar'', [''tar'', ''-C'', ''/tmp/e2/chroot'', ''--gzip'', ''-xf'', ''x.tar.gz''])"
    by code_simp
  ultimately show ?thesis
    using e2su_main_contract [where os = zero_os and T = test_tools and argv = ?argv and w = "()"] by auto
qed

text \<open>
  C18 (bounds): the argument vector of the tool that is run, with its terminating null, fits
  into the array of 256 pointers it is built in.
\<close>

theorem e2su_args_fit:
  "case fst (e2su_main (traced os) T argv (w, [])) of Inl (Executed tool args) \<Rightarrow> length args + 1 \<le> 256 | _ \<Rightarrow> True"
proof -
  have "length a + 1 \<le> 256" if p: "su_plan snprintf_path T argv = Some (m, t, a)" for m t a
  proof -
    obtain prog cmd base rest where argv: "argv = prog # cmd # base # rest" "length rest \<le> 125"
      using p by (auto simp: su_plan_def split: if_splits list.splits)
    have op: "length a \<le> 129" if "su_operation T r rest op = Some (t, a)" for r op
      using that argv(2) by (auto simp: su_operation_def tar_flag_def split: if_splits list.splits)
    show ?thesis using p op by (fastforce simp: su_plan_def argv Let_def split: if_splits)
  qed
  then show ?thesis using e2su_main_ok [where os = os and T = T and argv = argv and w = w]
    by (auto simp: su_ok_def split: prod.splits sum.splits su_end.splits option.splits)
qed

text \<open>
  C19 (functional): for a base path that leaves room for the name of the marker within \<^verbatim>\<open>PATH_MAX\<close>,
  \<^verbatim>\<open>remove_chroot_2_3\<close> checks \<^verbatim>\<open>base/e2factory-chroot\<close> and removes \<^verbatim>\<open>base/chroot\<close>.
\<close>

theorem e2su_remove_plan:
  assumes "length base + 17 < PATH_MAX"
  shows "case e2su_main (traced os) T [prog, ''remove_chroot_2_3'', base] (w, []) of (e, (w', tr)) \<Rightarrow>
    su_ok (Some (base @ ''/e2factory-chroot'', rm_tool T, [basename (rm_tool T), ''-r'', ''-f'', base @ ''/chroot''])) e tr"
proof -
  have "su_plan snprintf_path T [prog, ''remove_chroot_2_3'', base] =
      Some (base @ ''/e2factory-chroot'', rm_tool T, [basename (rm_tool T), ''-r'', ''-f'', base @ ''/chroot''])"
    using assms by (simp add: su_plan_def su_operation_def snprintf_path_def PATH_MAX_def Let_def)
  then show ?thesis using e2su_main_ok [where os = os and T = T and w = w and argv = "[prog, ''remove_chroot_2_3'', base]"] by simp
qed

theorem e2su_remove_plan_witness:
  "case e2su_main (traced (zero_os :: unit os)) test_tools [''e2-su-2.2'', ''remove_chroot_2_3'', ''/tmp/e2''] ((), []) of (e, (w', tr)) \<Rightarrow>
    su_ok (Some (''/tmp/e2/e2factory-chroot'', ''/bin/rm'', [''rm'', ''-r'', ''-f'', ''/tmp/e2/chroot''])) e tr"
  using e2su_remove_plan [where base = "''/tmp/e2''" and os = zero_os and T = test_tools and prog = "''e2-su-2.2''" and w = "()"]
  by (simp add: PATH_MAX_def test_tools_def basename_def Let_def)

text \<open>
  C20 (error): with a base path of \<^verbatim>\<open>PATH_MAX\<close> - 1 or more characters both buffers are cut to the same
  string, so that the file that is checked is the directory itself: if it is readable the
  helper removes it recursively as root although no marker file exists.
\<close>

theorem e2su_remove_truncated:
  assumes "PATH_MAX - 1 \<le> length base" and "\<forall>c w. rv (fst (sys os c w)) = 0"
  shows "\<exists>w' es. e2su_main (traced os) T [prog, ''remove_chroot_2_3'', base] (w, []) =
      (Inl (Executed (rm_tool T) [basename (rm_tool T), ''-r'', ''-f'', take 4095 base]), (w', es)) \<and>
    map fst es = [S_access (take 4095 base) R_OK, S_clearenv, S_setuid 0, S_setgid 0, S_setgroups [],
      S_execv (rm_tool T) [basename (rm_tool T), ''-r'', ''-f'', take 4095 base]]"
proof -
  have t: "snprintf_path (base @ x) = take 4095 base" for x using assms(1) by (simp add: snprintf_path_def PATH_MAX_def)
  have z: "sys os c v = (r, v') \<Longrightarrow> rv r = 0" for c v r v' using assms(2) by (metis fst_conv)
  show ?thesis
    by (simp add: e2su_main_def Let_def remove_chroot_2_3_def assert_chroot_environment_2_3_def t run_tool_def setuid_root_def
        seq_def call_traced ret_def z split: prod.split)
qed

theorem e2su_remove_truncated_witness:
  "\<exists>w' es. e2su_main (traced (zero_os :: unit os)) test_tools [''e2-su-2.2'', ''remove_chroot_2_3'', replicate 4092 (CHR ''/'') @ ''etcXXX''] ((), []) =
      (Inl (Executed ''/bin/rm'' [''rm'', ''-r'', ''-f'', replicate 4092 (CHR ''/'') @ ''etc'']), (w', es)) \<and>
    map fst es = [S_access (replicate 4092 (CHR ''/'') @ ''etc'') R_OK, S_clearenv, S_setuid 0, S_setgid 0, S_setgroups [],
      S_execv ''/bin/rm'' [''rm'', ''-r'', ''-f'', replicate 4092 (CHR ''/'') @ ''etc'']]"
proof -
  have "take 4095 (replicate 4092 (CHR ''/'') @ ''etcXXX'') = replicate 4092 (CHR ''/'') @ ''etc''" by (simp add: take_replicate)
  then show ?thesis
    using e2su_remove_truncated [of "replicate 4092 (CHR ''/'') @ ''etcXXX''" zero_os test_tools "''e2-su-2.2''" "()"]
    by (simp add: PATH_MAX_def test_tools_def basename_def Let_def zero_os_def)
qed

text \<open>
  \<^verbatim>\<open>linux32\<close> replaces itself by the program that its arguments name, with these arguments, and only
  after the personality was changed; without arguments it exits with 0, on errors with 1.
\<close>

theorem linux32_runs_argument:
  "case linux32_main (traced os) argv (w, []) of (e, (w', tr)) \<Rightarrow>
     (case e of
        Inl (Executed f a) \<Rightarrow> a = tl argv \<and> a \<noteq> [] \<and> f = hd a \<and> map fst tr = [S_personality PER_LINUX32, S_execvp f a] \<and> 0 \<le> rv (snd (hd tr))
      | Inl (Exited n) \<Rightarrow> n = (if rv (snd (hd tr)) < 0 then 1 else if tl argv = [] then 0 else 1)
      | Inr u \<Rightarrow> False)"
  by (cases argv; cases "tl argv") (auto simp: linux32_main_def seq_def call_traced exit_def split: prod.split)

end
