(* ===== verification/Le2lib.thy ===== *)
theory Le2lib
  imports Lsha Posix
begin

unbundle bit_operations_syntax

text \<open>
  Processes, files and signals for Lua, \<^verbatim>\<open>generic/le2lib.c\<close>. The loops over directory entries and over
  the table of descriptors to poll end only if the directory and the table do, so they are partial
  functions: None is a call that does not return. The static variables of the file are the record
  \<open>le_statics\<close>, with the hook that \<^verbatim>\<open>lua_sethook\<close> installs in the Lua state.
\<close>

record le_statics =
  block_set :: "int list"
  globalL :: bool
  signal_shutdown :: bool
  signal_received_first :: int
  hook :: bool

type_synonym 'w le_state = "(le_statics, 'w) state"
type_synonym 'w le_env = "(le_statics, 'w) env"
type_synonym 'w le_ret = "lua_ret \<times> 'w le_state"

text \<open>Conversion to \<^verbatim>\<open>mode_t\<close>, an unsigned integer of 32 bits.\<close>

definition c_uint :: "int \<Rightarrow> int" where
  "c_uint n = uint (word_of_int n :: 32 word)"

text \<open>A call that returns a negative number or a number other than zero on failure, and true from Lua on success.\<close>

definition neg_fails :: "'w os \<Rightarrow> syscall \<Rightarrow> 'w le_state \<Rightarrow> 'w le_ret" where
  "neg_fails os c L = (case os_call os c L of (rc, L) \<Rightarrow> if rv rc < 0 then push_errno os L else push_true L)"

definition nonzero_fails :: "'w os \<Rightarrow> syscall \<Rightarrow> 'w le_state \<Rightarrow> 'w le_ret" where
  "nonzero_fails os c L = (case os_call os c L of (rc, L) \<Rightarrow> if rv rc \<noteq> 0 then push_errno os L else push_true L)"

definition lua_fork :: "'w os \<Rightarrow> 'w le_state \<Rightarrow> 'w le_ret" where
  "lua_fork os L =
     (case os_call os S_fork L of (rc, L) \<Rightarrow>
      if rv rc < 0 then push_errno os L else (Return 1, lua_pushnumber (cast_num (rv rc)) L))"

definition get_working_directory :: "'w os \<Rightarrow> 'w le_state \<Rightarrow> 'w le_ret" where
  "get_working_directory os L =
     (case os_call os (S_getcwd (PATH_MAX + 1)) L of (cwd, L) \<Rightarrow>
      if rv cwd = 0 then push_errno os L else (Return 1, lua_pushstring (Some (sout cwd)) L))"

section \<open>Files\<close>

text \<open>The members of \<^verbatim>\<open>struct stat\<close> in the order in which the code stores them; \<open>iout\<close> holds them in this order.\<close>

definition stat_members :: "string list" where
  "stat_members = [''dev'', ''ino'', ''mode'', ''nlink'', ''uid'', ''gid'', ''rdev'', ''size'', ''atime'', ''atime_nsec'',
     ''mtime'', ''mtime_nsec'', ''ctime'', ''ctime_nsec'', ''blksize'', ''blocks'']"

definition S_IFMT :: int where "S_IFMT = 0xF000"

definition file_type :: "int \<Rightarrow> string" where
  "file_type st_mode =
     (let m = st_mode AND S_IFMT in
      if m = 0x6000 then ''block-special''
      else if m = 0x2000 then ''character-special''
      else if m = 0x1000 then ''fifo-special''
      else if m = 0x8000 then ''regular''
      else if m = 0x4000 then ''directory''
      else if m = 0xA000 then ''symbolic-link''
      else if m = 0xC000 then ''socket''
      else ''unknown'')"

definition set_member :: "int \<Rightarrow> string \<times> int \<Rightarrow> 'w le_state \<Rightarrow> 'w le_state" where
  "set_member t f L = lua_rawset t (lua_pushnumber (cast_num (snd f)) (lua_pushstring (Some (fst f)) L))"

definition get_file_statistics :: "'w os \<Rightarrow> 'w le_env \<Rightarrow> 'w le_state \<Rightarrow> 'w le_ret" where
  "get_file_statistics os E L =
     check (luaL_checkstring E 1 L) (\<lambda>p L.
     let fl = (lua_gettop L > 1 \<and> lua_toboolean L 2) in
     case os_call os (if \<not> fl then S_lstat p else S_stat p) L of (s, L) \<Rightarrow>
     if rv s < 0 then push_errno os L
     else
       let L = lua_newtable L;
           t = lua_gettop L;
           L = fold (set_member t) (zip stat_members (iout s)) L;
           L = lua_pushstring (Some ''type'') L;
           L = lua_pushstring (Some (file_type (iout s ! 2))) L;
           L = lua_rawset t L
       in (Return 1, L))"

text \<open>The loop of \<^verbatim>\<open>get_directory\<close>; True if it ended at the end of the directory.\<close>

partial_function (option) readdir_loop ::
  "'w os \<Rightarrow> nat \<Rightarrow> bool \<Rightarrow> nat \<Rightarrow> 'w le_state \<Rightarrow> (bool \<times> 'w le_state) option" where
  "readdir_loop os dir df i L =
     (let L = L\<lparr>errno := 0\<rparr> in
      case os_call os (S_readdir dir) L of (de, L) \<Rightarrow>
      if rv de = 0 then Some (errno L = 0, L)
      else if sout de = ''.'' \<or> sout de = ''..'' then readdir_loop os dir df i L
      else if df \<or> take 1 (sout de) \<noteq> ''.'' then
        readdir_loop os dir df (i + 1) (lua_rawseti (-2) i (lua_pushstring (Some (sout de)) L))
      else readdir_loop os dir df i L)"

definition get_directory :: "'w os \<Rightarrow> 'w le_env \<Rightarrow> 'w le_state \<Rightarrow> 'w le_ret option" where
  "get_directory os E L =
     (case luaL_checkstring E 1 L of
        (Inl e, L) \<Rightarrow> Some (Raise e, L)
      | (Inr p, L) \<Rightarrow>
          let df = (lua_gettop L > 1 \<and> lua_toboolean L 2) in
          case os_call os (S_opendir p) L of (dir, L) \<Rightarrow>
          if rv dir = 0 then Some (push_errno os L)
          else
            let L = lua_newtable L in
            case readdir_loop os (nat (rv dir)) df 1 L of
              None \<Rightarrow> None
            | Some (ok, L) \<Rightarrow>
                if ok then (case os_call os (S_closedir (nat (rv dir))) L of (u, L) \<Rightarrow> Some (Return 1, L))
                else
                  let L = lua_pop 1 L;
                      L = lua_pushboolean False L;
                      L = lua_pushstring (Some (strerror os (errno L))) L
                  in case os_call os (S_closedir (nat (rv dir))) L of (u, L) \<Rightarrow> Some (Return 2, L))"

definition file_exists :: "'w os \<Rightarrow> 'w le_env \<Rightarrow> 'w le_state \<Rightarrow> 'w le_ret" where
  "file_exists os E L =
     check (luaL_checkstring E 1 L) (\<lambda>f L.
     let amode = (if lua_gettop L > 1 \<and> lua_toboolean L 2 then X_OK else R_OK) in
     case os_call os (S_access f amode) L of (rc, L) \<Rightarrow> (Return 1, lua_pushboolean (rv rc = 0) L))"

definition change_directory :: "'w os \<Rightarrow> 'w le_env \<Rightarrow> 'w le_state \<Rightarrow> 'w le_ret" where
  "change_directory os E L = check (luaL_checkstring E 1 L) (\<lambda>ptr L. neg_fails os (S_chdir ptr) L)"

definition create_symlink :: "'w os \<Rightarrow> 'w le_env \<Rightarrow> 'w le_state \<Rightarrow> 'w le_ret" where
  "create_symlink os E L =
     check (luaL_checkstring E 1 L) (\<lambda>old L.
     check (luaL_checkstring E 2 L) (\<lambda>new L. nonzero_fails os (S_symlink old new) L))"

definition do_hardlink :: "'w os \<Rightarrow> 'w le_env \<Rightarrow> 'w le_state \<Rightarrow> 'w le_ret" where
  "do_hardlink os E L =
     check (luaL_checkstring E 1 L) (\<lambda>old L.
     check (luaL_checkstring E 2 L) (\<lambda>new L. nonzero_fails os (S_link old new) L))"

section \<open>Waiting for a process\<close>

text \<open>The macros of \<^verbatim>\<open>sys/wait.h\<close>.\<close>

definition WTERMSIG :: "int \<Rightarrow> int" where "WTERMSIG status = status AND 0x7f"
definition WIFEXITED :: "int \<Rightarrow> bool" where "WIFEXITED status \<longleftrightarrow> WTERMSIG status = 0"
definition WEXITSTATUS :: "int \<Rightarrow> int" where "WEXITSTATUS status = drop_bit 8 (status AND 0xff00)"
definition WIFSIGNALED :: "int \<Rightarrow> bool" where
  "WIFSIGNALED status \<longleftrightarrow> 0 < drop_bit 1 (sint (word_of_int ((status AND 0x7f) + 1) :: 8 word))"

definition WNOHANG :: int where "WNOHANG = 1"

definition process_wait :: "'w os \<Rightarrow> 'w le_env \<Rightarrow> 'w le_state \<Rightarrow> 'w le_ret" where
  "process_wait os E L =
     check (luaL_checkinteger E 1 L) (\<lambda>pid L.
     let wnohang = (lua_gettop L > 1 \<and> lua_toboolean L 2);
         options = (if wnohang then WNOHANG else 0) in
     case os_call os (S_waitpid (c_int pid) options) L of (rc, L) \<Rightarrow>
     let status = iout rc ! 0 in
     if rv rc < 0 then push_errno3 os L
     else if rv rc = 0 then (Return 2, lua_pushnumber (cast_num (rv rc)) (lua_pushnumber 255 L))
     else if WIFEXITED status then
       (Return 2, lua_pushnumber (cast_num (rv rc)) (lua_pushnumber (cast_num (WEXITSTATUS status)) L))
     else if WIFSIGNALED status then
       (Return 3, lua_pushnumber (cast_num (WTERMSIG status)) (lua_pushnumber (cast_num (rv rc))
          (lua_pushnumber (cast_num (WTERMSIG status + 128)) L)))
     else (Raise (Run_error ''process_wait: unhandled case, please report''), L))"

section \<open>Polling\<close>

definition POLLIN :: int where "POLLIN = 1"
definition POLLOUT :: int where "POLLOUT = 4"
definition POLLERR :: int where "POLLERR = 8"
definition POLLHUP :: int where "POLLHUP = 16"
definition POLLNVAL :: int where "POLLNVAL = 32"
definition sizeof_pollfd :: nat where "sizeof_pollfd = 8"

text \<open>
  The loop that fills the array: \<open>fds\<close> is the block, \<open>acc\<close> its descriptors. \<open>Inl\<close> is how the function ends if
  it ends here: an element that is no number raises an error, a failed \<^verbatim>\<open>realloc\<close> is not checked.
\<close>

partial_function (option) poll_collect ::
  "'w os \<Rightarrow> 'w le_env \<Rightarrow> nat \<Rightarrow> int list \<Rightarrow> 'w le_state \<Rightarrow> ((lua_ret + nat \<times> int list) \<times> 'w le_state) option" where
  "poll_collect os E fds acc L =
     (let L = lua_rawgeti 2 (length acc + 1) L in
      if lua_type L (-1) = LUA_TNIL then Some (Inr (fds, acc), L)
      else case luaL_checkinteger E (-1) L of
        (Inl e, L) \<Rightarrow> Some (Inl (Raise e), L)
      | (Inr f, L) \<Rightarrow>
          let L = lua_pop 1 L in
          case os_call os (S_realloc fds ((length acc + 1) * sizeof_pollfd)) L of (p, L) \<Rightarrow>
          if rv p = 0 then Some (Inl (Undefined ''fds''), L)
          else poll_collect os E (nat (rv p)) (acc @ [c_int f]) L)"

definition poll_entry :: "int \<Rightarrow> int \<Rightarrow> int \<Rightarrow> 'w le_state \<Rightarrow> 'w le_state" where
  "poll_entry fd pos revents L =
     (let L = lua_createtable 0 4 L;
          L = lua_rawset (-3) (lua_pushnumber (cast_num fd) (lua_pushlstring ''fd'' L));
          L = lua_rawset (-3) (lua_pushnumber (cast_num pos) (lua_pushlstring ''fdvecpos'' L));
          L = lua_rawset (-3) (lua_pushboolean (revents AND POLLIN \<noteq> 0) (lua_pushlstring ''POLLIN'' L));
          L = lua_rawset (-3) (lua_pushboolean (revents AND POLLOUT \<noteq> 0) (lua_pushlstring ''POLLOUT'' L));
          L = lua_rawset (-3) (lua_pushboolean (revents AND POLLERR \<noteq> 0) (lua_pushlstring ''POLLERR'' L));
          L = lua_rawset (-3) (lua_pushboolean (revents AND POLLHUP \<noteq> 0) (lua_pushlstring ''POLLHUP'' L))
      in lua_rawset (-3) (lua_pushboolean (revents AND POLLNVAL \<noteq> 0) (lua_pushlstring ''POLLNVAL'' L)))"

text \<open>The loop over the results, from the last descriptor down; \<open>f\<close> is the number of selected ones.\<close>

fun poll_results :: "int list \<Rightarrow> int list \<Rightarrow> int \<Rightarrow> nat \<Rightarrow> nat \<Rightarrow> 'w le_state \<Rightarrow> 'w le_state" where
  "poll_results fds revents f index nfds L =
     (if int index < f \<and> 0 < nfds then
        let nfds = nfds - 1 in
        if revents ! nfds \<noteq> 0 then
          let L = poll_entry (fds ! nfds) (int nfds + 1) (revents ! nfds) L;
              L = lua_rawseti (-2) (index + 1) L
          in poll_results fds revents f (index + 1) nfds L
        else poll_results fds revents f index nfds L
      else L)"

declare poll_results.simps [simp del]

definition poll_fd :: "'w os \<Rightarrow> 'w le_env \<Rightarrow> 'w le_state \<Rightarrow> 'w le_ret option" where
  "poll_fd os E L =
     (case luaL_checkinteger E 1 L of
        (Inl e, L) \<Rightarrow> Some (Raise e, L)
      | (Inr tmo, L) \<Rightarrow>
     (case luaL_checktype 2 LUA_TTABLE L of
        (Inl e, L) \<Rightarrow> Some (Raise e, L)
      | (Inr u, L) \<Rightarrow>
     (case poll_collect os E 0 [] L of
        None \<Rightarrow> None
      | Some (Inl r, L) \<Rightarrow> Some (r, L)
      | Some (Inr (p, fds), L) \<Rightarrow>
          case os_call os (S_poll (map (\<lambda>fd. (fd, POLLIN OR POLLOUT)) fds) (c_int tmo)) L of (f, L) \<Rightarrow>
          if rv f < 0 then
            case push_errno3 os L of (r, L) \<Rightarrow>
            case os_call os (S_free p) L of (u, L) \<Rightarrow> Some (r, L)
          else
            let L = lua_newtable L;
                L = poll_results fds (iout f) (rv f) 0 (length fds) L
            in case os_call os (S_free p) L of (u, L) \<Rightarrow> Some (Return 1, L))))"

section \<open>More files\<close>

definition do_rename :: "'w os \<Rightarrow> 'w le_env \<Rightarrow> 'w le_state \<Rightarrow> 'w le_ret" where
  "do_rename os E L =
     check (luaL_checkstring E 1 L) (\<lambda>src L.
     check (luaL_checkstring E 2 L) (\<lambda>dst L.
     case os_call os (S_rename src dst) L of (rc, L) \<Rightarrow>
     if rv rc = 0 then push_true L else push_errno3 os L))"

definition O_NONBLOCK :: int where "O_NONBLOCK = 2048"

definition unblock_fd :: "'w os \<Rightarrow> 'w le_env \<Rightarrow> 'w le_state \<Rightarrow> 'w le_ret" where
  "unblock_fd os E L =
     check (luaL_checkinteger E 1 L) (\<lambda>fd L.
     case os_call os (S_fcntl_getfl (c_int fd)) L of (fl, L) \<Rightarrow>
     case os_call os (S_fcntl_setfl (c_int fd) (rv fl OR O_NONBLOCK)) L of (u, L) \<Rightarrow> (Return 0, L))"

definition set_umask :: "'w os \<Rightarrow> 'w le_env \<Rightarrow> 'w le_state \<Rightarrow> 'w le_ret" where
  "set_umask os E L =
     check (luaL_checkinteger E 1 L) (\<lambda>u L.
     case os_call os (S_umask (c_uint (c_int u))) L of (pu, L) \<Rightarrow> (Return 1, lua_pushinteger (rv pu) L))"

definition do_setenv :: "'w os \<Rightarrow> 'w le_env \<Rightarrow> 'w le_state \<Rightarrow> 'w le_ret" where
  "do_setenv os E L =
     check (luaL_checkstring E 1 L) (\<lambda>var L.
     check (luaL_checkstring E 2 L) (\<lambda>val L.
     nonzero_fails os (S_setenv var val (lua_toboolean L 3)) L))"

section \<open>Running a program\<close>

text \<open>The loop that fills \<^verbatim>\<open>argv\<close>: every element is pushed and stays on the stack; an element that is no string is NULL.\<close>

primrec exec_args :: "'w le_env \<Rightarrow> nat \<Rightarrow> nat \<Rightarrow> string option list \<Rightarrow> 'w le_state \<Rightarrow> string option list \<times> 'w le_state" where
  "exec_args E 0 i acc L = (acc, L)"
| "exec_args E (Suc k) i acc L =
     (case lua_tolstring E (lua_rawgeti 2 (i + 1) L) (lua_gettop (lua_rawgeti 2 (i + 1) L)) of
        (s, L) \<Rightarrow> exec_args E k (i + 1) (acc @ [map_option c_str s]) L)"

definition sizeof_ptr :: nat where "sizeof_ptr = 8"

definition do_execvp :: "'w os \<Rightarrow> 'w le_env \<Rightarrow> 'w le_state \<Rightarrow> 'w le_ret" where
  "do_execvp os E L =
     (case lua_tolstring E L 1 of
        (None, L) \<Rightarrow> push_error ''do_execvp: missing/wrong file argument'' L
      | (Some file, L) \<Rightarrow>
          if lua_type L 2 \<noteq> LUA_TTABLE then push_error ''do_execvp: missing/wrong argv argument'' L
          else case lua_objlen E L 2 of (argc, L) \<Rightarrow>
          if argc = 0 then push_error ''do_execvp: 1+ argv arguments required'' L
          else case os_call os (S_malloc ((argc + 1) * sizeof_ptr)) L of (p, L) \<Rightarrow>
          if rv p = 0 then push_error (''do_execvp: malloc failed: '' @ strerror os (errno L)) L
          else case exec_args E argc 0 [] L of (argv, L) \<Rightarrow>
          let args = map the (takeWhile (\<lambda>a. a \<noteq> None) argv) in
          case os_call os (S_execvp (c_str file) args) L of (rc, L) \<Rightarrow>
          if rv rc = 0 then (Exec (c_str file) args, L)
          else case os_call os (S_free (nat (rv p))) L of (u, L) \<Rightarrow> push_errno os L)"

definition do_getpid :: "'w os \<Rightarrow> 'w le_state \<Rightarrow> 'w le_ret" where
  "do_getpid os L = (case os_call os S_getpid L of (pid, L) \<Rightarrow> (Return 1, lua_pushinteger (rv pid) L))"

definition do_unlink :: "'w os \<Rightarrow> 'w le_env \<Rightarrow> 'w le_state \<Rightarrow> 'w le_ret" where
  "do_unlink os E L = check (luaL_checkstring E 1 L) (\<lambda>pathname L. nonzero_fails os (S_unlink pathname) L)"

section \<open>Closing descriptors\<close>

text \<open>\<^verbatim>\<open>atoi\<close> of a string that starts with a digit, converted to \<^verbatim>\<open>int\<close> as the C library does.\<close>

definition atoi :: "string \<Rightarrow> int" where
  "atoi s = c_int (foldl (\<lambda>n c. 10 * n + (of_char c - 48)) 0
     (takeWhile (\<lambda>c. 48 \<le> (of_char c :: nat) \<and> (of_char c :: nat) \<le> 57) s))"

definition starts_with_digit :: "string \<Rightarrow> bool" where
  "starts_with_digit s \<longleftrightarrow> (case s of [] \<Rightarrow> False | c # cs \<Rightarrow> 48 \<le> (of_char c :: nat) \<and> (of_char c :: nat) \<le> 57)"

partial_function (option) closefrom_loop ::
  "'w os \<Rightarrow> nat \<Rightarrow> int \<Rightarrow> int \<Rightarrow> 'w le_state \<Rightarrow> 'w le_state option" where
  "closefrom_loop os d from myself L =
     (case os_call os (S_readdir d) L of (de, L) \<Rightarrow>
      if rv de = 0 then Some L
      else if \<not> starts_with_digit (sout de) then closefrom_loop os d from myself L
      else
        let fd = atoi (sout de) in
        if fd < from \<or> fd = myself then closefrom_loop os d from myself L
        else case os_call os (S_close fd) L of (u, L) \<Rightarrow> closefrom_loop os d from myself L)"

text \<open>The code at the label \<^verbatim>\<open>error\<close>; \<open>d\<close> is 0 if the directory was not opened.\<close>

definition closefrom_error :: "'w os \<Rightarrow> nat \<Rightarrow> 'w le_state \<Rightarrow> 'w le_ret" where
  "closefrom_error os d L =
     (let eno = errno L;
          L = (if d \<noteq> 0 then snd (os_call os (S_closedir d) L) else L)
      in (Return 2, lua_pushstring (Some (strerror os eno)) (lua_pushboolean False L)))"

definition do_closefrom :: "'w os \<Rightarrow> 'w le_env \<Rightarrow> 'w le_state \<Rightarrow> 'w le_ret option" where
  "do_closefrom os E L =
     (case luaL_checkinteger E 1 L of
        (Inl e, L) \<Rightarrow> Some (Raise e, L)
      | (Inr from, L) \<Rightarrow>
          case os_call os (S_opendir ''/proc/self/fd'') L of (d, L) \<Rightarrow>
          if rv d = 0 then Some (closefrom_error os 0 L)
          else case os_call os (S_dirfd (nat (rv d))) L of (myself, L) \<Rightarrow>
          if rv myself < 0 then Some (closefrom_error os (nat (rv d)) L)
          else case closefrom_loop os (nat (rv d)) (c_int from) (rv myself) L of
            None \<Rightarrow> None
          | Some L \<Rightarrow> case os_call os (S_closedir (nat (rv d))) L of (u, L) \<Rightarrow> Some (push_true L))"

section \<open>Directories, modes, temporary files\<close>

definition do_rmdir :: "'w os \<Rightarrow> 'w le_env \<Rightarrow> 'w le_state \<Rightarrow> 'w le_ret" where
  "do_rmdir os E L = check (luaL_checkstring E 1 L) (\<lambda>pathname L. nonzero_fails os (S_rmdir pathname) L)"

definition do_mkdir :: "'w os \<Rightarrow> 'w le_env \<Rightarrow> 'w le_state \<Rightarrow> 'w le_ret" where
  "do_mkdir os E L =
     check (luaL_checkstring E 1 L) (\<lambda>pathname L.
     check (if lua_gettop L > 1 then luaL_checkinteger E 2 L else (Inr 0x1FF, L)) (\<lambda>mode L.
     case os_call os (S_mkdir pathname (c_uint mode)) L of (rc, L) \<Rightarrow>
     if rv rc \<noteq> 0 then push_errno3 os L else push_true L))"

definition do_kill :: "'w os \<Rightarrow> 'w le_env \<Rightarrow> 'w le_state \<Rightarrow> 'w le_ret" where
  "do_kill os E L =
     check (luaL_checkinteger E 1 L) (\<lambda>pid L.
     check (luaL_checkinteger E 2 L) (\<lambda>sig L. neg_fails os (S_kill (c_int pid) (c_int sig)) L))"

definition do_uname_machine :: "'w os \<Rightarrow> 'w le_state \<Rightarrow> 'w le_ret" where
  "do_uname_machine os L =
     (case os_call os S_uname L of (rc, L) \<Rightarrow>
      if rv rc \<noteq> 0 then push_errno os L else (Return 1, lua_pushstring (Some (sout rc)) L))"

definition do_chmod :: "'w os \<Rightarrow> 'w le_env \<Rightarrow> 'w le_state \<Rightarrow> 'w le_ret" where
  "do_chmod os E L =
     check (luaL_checkstring E 1 L) (\<lambda>path L.
     check (luaL_checkinteger E 2 L) (\<lambda>mode L. nonzero_fails os (S_chmod path (c_uint mode)) L))"

definition do_mkdtemp :: "'w os \<Rightarrow> 'w le_env \<Rightarrow> 'w le_state \<Rightarrow> 'w le_ret" where
  "do_mkdtemp os E L =
     check (luaL_checkstring E 1 L) (\<lambda>template_in L.
     if PATH_MAX \<le> length template_in then push_error ''template does not fit in PATH_MAX'' L
     else case os_call os (S_mkdtemp template_in) L of (r, L) \<Rightarrow>
     if rv r = 0 then push_errno os L
     else (Return 3, lua_pushstring (Some (sout r)) (lua_pushnil (lua_pushboolean True L))))"

definition do_mkstemp :: "'w os \<Rightarrow> 'w le_env \<Rightarrow> 'w le_state \<Rightarrow> 'w le_ret" where
  "do_mkstemp os E L =
     check (luaL_checkstring E 1 L) (\<lambda>template_in L.
     if PATH_MAX \<le> length template_in then push_error ''template does not fit in PATH_MAX'' L
     else case os_call os (S_mkstemp template_in) L of (fd, L) \<Rightarrow>
     if rv fd < 0 then push_errno os L
     else (Return 4, lua_pushnumber (cast_num (rv fd)) (lua_pushstring (Some (sout fd)) (lua_pushnil (lua_pushboolean True L)))))"

section \<open>Signals\<close>

definition SIGHUP :: int where "SIGHUP = 1"
definition SIGINT :: int where "SIGINT = 2"
definition SIGFPE :: int where "SIGFPE = 8"
definition SIGKILL :: int where "SIGKILL = 9"
definition SIGPIPE :: int where "SIGPIPE = 13"
definition SIGTERM :: int where "SIGTERM = 15"
definition SIGCONT :: int where "SIGCONT = 18"
definition SIGSTOP :: int where "SIGSTOP = 19"
definition NSIG :: int where "NSIG = 65"

text \<open>The loop over the signals; \<open>Inl\<close> is an early return. The mask of the old action is kept.\<close>

primrec reset_loop :: "'w os \<Rightarrow> int list \<Rightarrow> 'w le_state \<Rightarrow> (lua_ret + unit) \<times> 'w le_state" where
  "reset_loop os [] L = (Inr (), L)"
| "reset_loop os (s # ss) L =
     (case os_call os (S_sigaction_get s) L of (act, L) \<Rightarrow>
      if rv act < 0 then (Inr (), L)
      else if s = SIGKILL \<or> s = SIGSTOP \<or> s = SIGCONT then reset_loop os ss L
      else case os_call os (S_sigaction_set s (if s = SIGFPE then Sig_ign else Sig_dfl) 0 (iout act)) L of (rc, L) \<Rightarrow>
      if rv rc < 0 then (case push_errno os L of (r, L) \<Rightarrow> (Inl r, L))
      else reset_loop os ss L)"

definition signal_reset :: "'w os \<Rightarrow> 'w le_state \<Rightarrow> 'w le_ret" where
  "signal_reset os L =
     (case os_call os (S_prctl_pdeathsig 0) L of (rc, L) \<Rightarrow>
      let L = (if rv rc < 0 then snd (push_errno os L) else L) in
      case reset_loop os [1..NSIG - 1] L of
        (Inl r, L) \<Rightarrow> (r, L)
      | (Inr u, L) \<Rightarrow> push_true L)"

text \<open>The hook that the handler installs; \<open>lua_call\<close> runs Lua code.\<close>

definition lua_signal_handler ::
  "'w le_env \<Rightarrow> (nat \<Rightarrow> nat \<Rightarrow> 'w le_state \<Rightarrow> (lua_err + unit) \<times> 'w le_state) \<Rightarrow> 'w le_state \<Rightarrow> 'w le_ret" where
  "lua_signal_handler E lua_call L =
     (let L = L\<lparr>statics := (statics L)\<lparr>hook := False\<rparr>\<rparr> in
      check (lua_getfield E LUA_GLOBALSINDEX ''require'' L) (\<lambda>_ L.
      check (lua_call 1 1 (lua_pushstring (Some ''e2lib'') L)) (\<lambda>_ L.
      check (lua_getfield E (-1) ''interrupt_hook'' L) (\<lambda>_ L.
      check (lua_call 0 0 (lua_remove (-2) L)) (\<lambda>_ L. (Return 0, L))))))"

definition signal_handler :: "'w os \<Rightarrow> int \<Rightarrow> 'w le_state \<Rightarrow> 'w le_ret" where
  "signal_handler os sig L =
     (if signal_shutdown (statics L) then (Return 0, L)
      else
        let L = L\<lparr>statics := (statics L)\<lparr>signal_shutdown := True, signal_received_first := sig\<rparr>\<rparr> in
        if globalL (statics L) then (Return 0, L\<lparr>statics := (statics L)\<lparr>hook := True\<rparr>\<rparr>)
        else case os_call os (S_stderr ''e2: signal_handler: missing lua context'') L of (u, L) \<Rightarrow> (Exit 1, L))"

definition signals :: "int list" where "signals = [SIGINT, SIGTERM, SIGPIPE, SIGHUP]"

primrec install_loop :: "'w os \<Rightarrow> int list \<Rightarrow> 'w le_state \<Rightarrow> (lua_ret + unit) \<times> 'w le_state" where
  "install_loop os [] L = (Inr (), L)"
| "install_loop os (s # ss) L =
     (case os_call os (S_sigaction_set s Sig_handler 0 (block_set (statics L))) L of (rc, L) \<Rightarrow>
      if rv rc < 0 then (case push_errno os L of (r, L) \<Rightarrow> (Inl r, L))
      else install_loop os ss L)"

definition signal_install :: "'w os \<Rightarrow> 'w le_state \<Rightarrow> 'w le_ret" where
  "signal_install os L =
     (let L = L\<lparr>statics := (statics L)\<lparr>globalL := True, block_set := signals\<rparr>\<rparr> in
      case install_loop os signals L of
        (Inl r, L) \<Rightarrow> (r, L)
      | (Inr u, L) \<Rightarrow>
          case os_call os (S_prctl_pdeathsig SIGINT) L of (rc, L) \<Rightarrow>
          let L = (if rv rc < 0 then snd (push_errno os L) else L) in push_true L)"

definition signal_received :: "'w os \<Rightarrow> 'w le_state \<Rightarrow> 'w le_ret" where
  "signal_received os L =
     (let sig = signal_received_first (statics L);
          s = (if sig \<noteq> 0 then strsignal os sig else Some '''')
      in (Return 2, lua_pushinteger sig (lua_pushstring s L)))"

definition signal_block :: "'w os \<Rightarrow> 'w le_state \<Rightarrow> 'w le_ret" where
  "signal_block os L =
     (case os_call os (S_sigprocmask True (block_set (statics L))) L of (rc, L) \<Rightarrow>
      if rv rc < 0 then (Raise (Run_error (''sigprocmask(SIG_BLOCK) failed: '' @ strerror os (errno L))), L)
      else (Return 0, L))"

definition signal_unblock :: "'w os \<Rightarrow> 'w le_state \<Rightarrow> 'w le_ret" where
  "signal_unblock os L =
     (case os_call os (S_sigprocmask False (block_set (statics L))) L of (rc, L) \<Rightarrow>
      if rv rc < 0 then (Raise (Run_error (''sigprocmask(SIG_UNBLOCK) failed: '' @ strerror os (errno L))), L)
      else (Return 0, L))"

definition ioctl_tiocsig_sigint :: "'w os \<Rightarrow> 'w le_env \<Rightarrow> 'w le_state \<Rightarrow> 'w le_ret" where
  "ioctl_tiocsig_sigint os E L =
     check (luaL_checkinteger E 1 L) (\<lambda>fd L.
     case os_call os (S_ioctl_tiocsig (c_int fd) SIGINT) L of (rc, L) \<Rightarrow>
     if rv rc < 0 then (Raise (Run_error (''ioctl(TIOCSIG, SIGINT) failed: '' @ strerror os (errno L))), L)
     else (Return 0, L))"

definition do_forkpty :: "'w os \<Rightarrow> 'w le_state \<Rightarrow> 'w le_ret" where
  "do_forkpty os L =
     (case os_call os S_forkpty L of (cpid, L) \<Rightarrow>
      if rv cpid < 0 then push_errno os L
      else
        let L = lua_pushnumber (cast_num (rv cpid)) L in
        if rv cpid = 0 then (Return 1, L)
        else (Return 3, lua_pushstring (Some (sout cpid)) (lua_pushnumber (cast_num (iout cpid ! 0)) L)))"

section \<open>Registration\<close>

definition le2lib_lib :: "(string \<times> string) list" where
  "le2lib_lib = [(''chdir'', ''change_directory''), (''chmod'', ''do_chmod''), (''closefrom'', ''do_closefrom''),
     (''cwd'', ''get_working_directory''), (''directory'', ''get_directory''), (''execvp'', ''do_execvp''),
     (''exists'', ''file_exists''), (''fork'', ''lua_fork''), (''forkpty'', ''do_forkpty''), (''getpid'', ''do_getpid''),
     (''hardlink'', ''do_hardlink''), (''ioctl_tiocsig_sigint'', ''ioctl_tiocsig_sigint''), (''kill'', ''do_kill''),
     (''mkdir'', ''do_mkdir''), (''mkdtemp'', ''do_mkdtemp''), (''mkstemp'', ''do_mkstemp''), (''poll'', ''poll_fd''),
     (''rename'', ''do_rename''), (''rmdir'', ''do_rmdir''), (''setenv'', ''do_setenv''), (''signal_block'', ''signal_block''),
     (''signal_install'', ''signal_install''), (''signal_received'', ''signal_received''), (''signal_reset'', ''signal_reset''),
     (''signal_unblock'', ''signal_unblock''), (''stat'', ''get_file_statistics''), (''symlink'', ''create_symlink''),
     (''umask'', ''set_umask''), (''uname_machine'', ''do_uname_machine''), (''unblock'', ''unblock_fd''), (''unlink'', ''do_unlink''),
     (''wait'', ''process_wait'')]"

definition luaopen_le2lib :: "'w le_env \<Rightarrow> 'w le_state \<Rightarrow> 'w le_ret" where
  "luaopen_le2lib E L = luaopen_module E le2lib_lib L"

end
