(* ===== verification/Le2lib_Correct.thy ===== *)
theory Le2lib_Correct
  imports Le2lib
begin

text \<open>
  Properties of the functions of \<^verbatim>\<open>le2lib.c\<close>: decoding of exit statuses, the signal state machine, directory
  loops, the tables that \<^verbatim>\<open>stat\<close>, \<^verbatim>\<open>directory\<close> and \<^verbatim>\<open>poll\<close> return, the argument vector of \<^verbatim>\<open>execvp\<close>, and the
  use of the Lua stack.
\<close>

section \<open>Exit statuses\<close>

text \<open>How the kernel encodes the ways in which a process ends.\<close>

datatype proc_end = Normal int | Killed int bool

fun wait_status :: "proc_end \<Rightarrow> int" where
  "wait_status (Normal code) = 256 * code"
| "wait_status (Killed sig core) = sig + (if core then 128 else 0)"

fun valid_end :: "proc_end \<Rightarrow> bool" where
  "valid_end (Normal code) \<longleftrightarrow> 0 \<le> code \<and> code < 256"
| "valid_end (Killed sig core) \<longleftrightarrow> 1 \<le> sig \<and> sig \<le> 126"

fun wait_values :: "proc_end \<Rightarrow> int \<Rightarrow> lua_value list" where
  "wait_values (Normal code) pid = [LNumber (of_int code), LNumber (of_int pid)]"
| "wait_values (Killed sig core) pid = [LNumber (of_int (sig + 128)), LNumber (of_int pid), LNumber (of_int sig)]"

lemma and_7f: "(n :: int) AND 127 = n mod 128"
  using take_bit_eq_mask [of 7 n] by (simp add: take_bit_eq_mod mask_eq_exp_minus_1 and.commute)

lemma WTERMSIG_eq: "WTERMSIG n = n mod 128"
  by (simp add: WTERMSIG_def and_7f)

lemma WEXITSTATUS_eq: "WEXITSTATUS n = (n div 256) mod 256"
proof -
  have "WEXITSTATUS n = drop_bit 8 n AND 255" by (simp add: WEXITSTATUS_def drop_bit_and)
  also have "\<dots> = take_bit 8 (drop_bit 8 n)" by (simp add: take_bit_eq_mask mask_eq_exp_minus_1)
  finally show ?thesis by (simp add: take_bit_eq_mod drop_bit_eq_div)
qed

lemma WIFSIGNALED_eq: "WIFSIGNALED n \<longleftrightarrow> n mod 128 \<noteq> 0 \<and> n mod 128 \<noteq> 127"
proof -
  define k where "k = n mod 128"
  have k: "0 \<le> k" "k < 128" by (simp_all add: k_def)
  have "signed_take_bit 7 (k + 1) = (if k = 127 then -128 else k + 1)"
    using k by (auto intro: signed_take_bit_int_eq_self)
  then have "sint (word_of_int (k + 1) :: 8 word) = (if k = 127 then -128 else k + 1)"
    using sint_sbintrunc' [of "k + 1", where 'a = 8] by (simp del: of_int_add)
  then have "WIFSIGNALED n \<longleftrightarrow> 0 < (if k = 127 then -128 else k + 1) div 2"
    unfolding WIFSIGNALED_def and_7f drop_bit_eq_div k_def [symmetric] by simp
  then show ?thesis using k by (auto simp: k_def)
qed

text \<open>
  C17 (roundtrip): \<^verbatim>\<open>process_wait\<close> decodes every status that \<^verbatim>\<open>waitpid\<close> reports for a process that
  has ended: the exit code and the process id, or the signal number plus 128, the process id and the signal.
\<close>

theorem process_wait_decodes:
  assumes "sys os (S_waitpid (c_int (lua_number2integer a)) 0) (world L) = (r, w)" "iout r = [wait_status e]" "valid_end e"
    and "0 < rv r" "rv r < 2 ^ 53"
  shows "fst (call_c stale [LNumber a] (process_wait os E) L) = (Return (length (wait_values e (rv r))), wait_values e (rv r))"
proof -
  let ?L = "enter_c stale [LNumber a] L"
  have arg: "luaL_checkinteger E 1 ?L = (Inr (lua_number2integer a), ?L)"
    by (simp add: luaL_checkinteger_def lua_tointeger_def luaV_tonumber_def lua_isnumber_def)
  obtain L' where "os_call os (S_waitpid (c_int (lua_number2integer a)) 0) ?L = (r, L')"
    using assms(1) by (simp add: os_call_def)
  moreover have "cast_num (rv r) = of_int (rv r)" using assms(4,5) by (simp add: cast_num_small)
  moreover have small: "cast_num x = of_int x" if "0 \<le> x" "x < 1000" for x using that by (simp add: cast_num_small)
  ultimately show ?thesis using assms(2-4) arg
    by (cases e) (simp_all add: call_c_def process_wait_def Let_def lua_gettop_def WIFEXITED_def WTERMSIG_eq WEXITSTATUS_eq
        WIFSIGNALED_eq push_eqs results_push small)
qed

definition wait_os :: "unit os" where
  "wait_os = \<lparr>sys = (\<lambda>c w. (\<lparr>rv = 42, eno = None, sout = [], iout = [137]\<rparr>, w)), strerror = (\<lambda>_. []), strsignal = (\<lambda>_. None)\<rparr>"

abbreviation le_start :: "'w \<Rightarrow> 'w le_state" where
  "le_start \<equiv> test_state \<lparr>block_set = [], globalL = True, signal_shutdown = False, signal_received_first = 0, hook = False\<rparr>"

theorem process_wait_decodes_witness:
  "fst (call_c (\<lambda>_. LNil) [LNumber 42] (process_wait wait_os test_env) (le_start ())) =
     (Return 3, [LNumber 137, LNumber 42, LNumber 9])"
  using process_wait_decodes [of wait_os 42 "le_start ()" "\<lparr>rv = 42, eno = None, sout = [], iout = [137]\<rparr>" "()" "Killed 9 True"
      "\<lambda>_. LNil" test_env]
  by (simp add: wait_os_def test_state_def)

section \<open>Signals and the interrupt hook\<close>

text \<open>Lua code and tag methods that leave the static variables of the module alone.\<close>

definition keeps_statics :: "('s, 'w) env \<Rightarrow> (nat \<Rightarrow> nat \<Rightarrow> ('s, 'w) state \<Rightarrow> (lua_err + unit) \<times> ('s, 'w) state) \<Rightarrow> bool" where
  "keeps_statics E lua_call \<longleftrightarrow> (\<forall>a r L x L'. lua_call a r L = (x, L') \<longrightarrow> statics L' = statics L) \<and>
     (\<forall>f a b L x L'. callTMres E f a b L = (x, L') \<longrightarrow> statics L' = statics L)"

lemma luaV_gettable_statics:
  "keeps_statics E lua_call \<Longrightarrow> luaV_gettable k E t key L = (r, L') \<Longrightarrow> statics L' = statics L"
proof (induction k E t key L rule: luaV_gettable.induct)
  case (2 k E t key L)
  have tm: "callTMres E f a b L = (x, L') \<Longrightarrow> statics L' = statics L" for f a b x
    using "2.prems"(1) unfolding keeps_statics_def by blast
  show ?case using 2 tm by (auto simp: Let_def split: lua_value.splits if_splits)
qed simp

lemma lua_getfield_statics:
  "keeps_statics E lua_call \<Longrightarrow> lua_getfield E i k L = (r, L') \<Longrightarrow> statics L' = statics L"
  by (auto simp: lua_getfield_def split: prod.splits sum.splits dest!: luaV_gettable_statics)

lemma check_statics:
  assumes "\<And>x L'. m = (x, L') \<Longrightarrow> statics L' = s" "\<And>a L'. statics L' = s \<Longrightarrow> statics (snd (k a L')) = s"
  shows "statics (snd (check m k)) = s"
  using assms by (auto simp: check_def split: prod.split sum.split)

lemma lua_signal_handler_statics:
  assumes "keeps_statics E lua_call"
  shows "statics (snd (lua_signal_handler E lua_call L)) = (statics L)\<lparr>hook := False\<rparr>"
proof -
  have call: "lua_call a r M = (x, L') \<Longrightarrow> statics L' = statics M" for a r M x L' using assms unfolding keeps_statics_def by blast
  note field = lua_getfield_statics [OF assms]
  have rm: "statics (lua_remove i M) = statics M" for i and M :: "'a le_state" by (simp add: lua_remove_def split: adr.split)
  have ps: "statics (lua_pushstring x M) = statics M" for x and M :: "'a le_state"
    by (cases x) (simp_all add: lua_pushstring_def lua_pushnil_def lua_pushlstring_def)
  show ?thesis unfolding lua_signal_handler_def Let_def
    by (rule check_statics, (simp add: field), rule check_statics, (drule call, simp add: ps), rule check_statics, (simp add: field),
        rule check_statics, (drule call, simp add: rm), simp)
qed

text \<open>
  The states that a process reaches after \<^verbatim>\<open>signal_install\<close>, with the signals delivered so far and the
  number of times the interrupt hook has run. In between, Lua code runs that leaves the static variables
  alone.
\<close>

inductive sig_reach :: "'w os \<Rightarrow> 'w le_env \<Rightarrow> (nat \<Rightarrow> nat \<Rightarrow> 'w le_state \<Rightarrow> (lua_err + unit) \<times> 'w le_state) \<Rightarrow>
    int list \<Rightarrow> nat \<Rightarrow> 'w le_state \<Rightarrow> bool" for os E lua_call where
  installed: "\<not> signal_shutdown (statics L) \<Longrightarrow> \<not> hook (statics L) \<Longrightarrow> signal_received_first (statics L) = 0 \<Longrightarrow>
     signal_install os L = (Return n, L') \<Longrightarrow> sig_reach os E lua_call [] 0 L'"
| other: "sig_reach os E lua_call sigs n L \<Longrightarrow> statics L' = statics L \<Longrightarrow> sig_reach os E lua_call sigs n L'"
| deliver: "sig_reach os E lua_call sigs n L \<Longrightarrow> signal_handler os sig L = (r, L') \<Longrightarrow> sig_reach os E lua_call (sigs @ [sig]) n L'"
| run_hook: "sig_reach os E lua_call sigs n L \<Longrightarrow> hook (statics L) \<Longrightarrow> lua_signal_handler E lua_call L = (r, L') \<Longrightarrow>
     sig_reach os E lua_call sigs (n + 1) L'"

definition sig_inv :: "int list \<Rightarrow> nat \<Rightarrow> le_statics \<Rightarrow> bool" where
  "sig_inv sigs n s \<longleftrightarrow> globalL s \<and> signal_shutdown s = (sigs \<noteq> []) \<and> signal_received_first s = (if sigs = [] then 0 else hd sigs) \<and>
     n + (if hook s then 1 else 0) = (if sigs = [] then 0 else 1)"

lemma signal_install_statics:
  assumes "signal_install os L = (r, L')"
  shows "statics L' = (statics L)\<lparr>globalL := True, block_set := signals\<rparr>"
proof -
  have loop: "install_loop os ss M = (x, M') \<Longrightarrow> statics M' = statics M" for ss x and M M' :: "'a le_state"
    by (induction ss arbitrary: M)
      (auto simp: os_call_def push_errno_def push_error_def push_eqs split: prod.splits if_splits)
  show ?thesis using assms
    by (auto simp: signal_install_def Let_def push_errno_def push_error_def push_true_def push_eqs os_call_def
        split: prod.splits sum.splits if_splits dest!: loop)
qed

lemma sig_reach_inv:
  assumes "sig_reach os E lua_call sigs n L" "keeps_statics E lua_call"
  shows "sig_inv sigs n (statics L)"
  using assms(1)
proof induction
  case (installed L n L')
  then show ?case by (simp add: sig_inv_def signal_install_statics [OF installed(4)])
next
  case (deliver sigs n L sig r L')
  then show ?case
    by (auto simp: sig_inv_def signal_handler_def Let_def split: if_splits prod.splits)
next
  case (run_hook sigs n L r L')
  then show ?case using lua_signal_handler_statics [OF assms(2), of L] by (auto simp: sig_inv_def split: if_splits)
qed simp

text \<open>
  C13 (invariant): however many signals arrive, and whenever the hook gets to run, the
  interrupt hook runs at most once; after the first signal it has run or is pending; and
  \<^verbatim>\<open>signal_received\<close> reports the first signal that was delivered, or 0.
\<close>

theorem interrupt_hook_once:
  assumes "sig_reach os E lua_call sigs n L" "keeps_statics E lua_call"
  shows "n \<le> 1 \<and> (sigs \<noteq> [] \<longrightarrow> n = 1 \<or> hook (statics L)) \<and>
    (\<exists>s. fst (call_c stale [] (signal_received os) L) = (Return 2, [s, LNumber (cast_num (if sigs = [] then 0 else hd sigs))]))"
  using sig_reach_inv [OF assms]
  by (auto simp: sig_inv_def call_c_def signal_received_def Let_def lua_pushinteger_def lua_pushstring_def lua_pushnil_def
      lua_pushlstring_def results_push split: if_splits option.split)

theorem interrupt_hook_once_witness:
  "\<exists>s. fst (call_c (\<lambda>_. LNil) [] (signal_received zero_os)
     (snd (signal_handler zero_os 2 (snd (signal_handler zero_os 15 (snd (signal_install zero_os (le_start ())))))))) =
   (Return 2, [s, LNumber 15])"
proof -
  let ?call = "\<lambda>(a :: nat) (r :: nat) (L :: unit le_state). (Inr () :: lua_err + unit, L)"
  let ?L1 = "snd (signal_install zero_os (le_start ()))"
  have st: "statics (test_state x v) = x" for x and v :: unit by (simp add: test_state_def)
  have i: "fst (signal_install zero_os (le_start ())) = Return 1"
    by (simp add: signal_install_def signals_def zero_os_def os_call_def push_true_def Let_def)
  have "sig_reach zero_os test_env ?call [] 0 ?L1"
    by (rule sig_reach.installed [where L = "le_start ()" and n = 1]) (simp_all add: st i prod_eq_iff)
  then have "sig_reach zero_os test_env ?call ([] @ [15] @ [2]) 0 (snd (signal_handler zero_os 2 (snd (signal_handler zero_os 15 ?L1))))"
    using sig_reach.deliver [OF sig_reach.deliver [OF _ surjective_pairing] surjective_pairing] by fastforce
  moreover have "keeps_statics (test_env :: unit le_env) ?call" by (auto simp: keeps_statics_def test_env_def)
  ultimately show ?thesis using interrupt_hook_once [of zero_os test_env ?call] by (fastforce simp: cast_num_small)
qed

section \<open>Directories\<close>

text \<open>
  What the code relies on of a directory stream \<open>d\<close> whose unread entries are \<open>ents\<close>: \<^verbatim>\<open>readdir\<close> delivers them
  one by one, then NULL without an error; closing descriptors does not change them.
\<close>

definition dir_like :: "'w os \<Rightarrow> nat \<Rightarrow> ('w \<Rightarrow> string list) \<Rightarrow> bool" where
  "dir_like os d ents \<longleftrightarrow>
     (\<forall>w r w'. sys os (S_readdir d) w = (r, w') \<longrightarrow>
        (case ents w of [] \<Rightarrow> rv r = 0 \<and> eno r = None | e # es \<Rightarrow> rv r \<noteq> 0 \<and> sout r = e \<and> ents w' = es)) \<and>
     (\<forall>w fd r w'. sys os (S_close fd) w = (r, w') \<longrightarrow> ents w' = ents w)"

lemma dir_likeD:
  assumes "dir_like os d ents"
  shows "sys os (S_readdir d) w = (r, w') \<Longrightarrow> ents w = [] \<Longrightarrow> rv r = 0 \<and> eno r = None"
    and "sys os (S_readdir d) w = (r, w') \<Longrightarrow> ents w = e # es \<Longrightarrow> rv r \<noteq> 0 \<and> sout r = e \<and> ents w' = es"
    and "sys os (S_close fd) w = (r, w') \<Longrightarrow> ents w' = ents w"
  using assms [unfolded dir_like_def, THEN conjunct1, rule_format, of w r w'] assms [unfolded dir_like_def, THEN conjunct2, rule_format, of fd w r w']
  by auto

text \<open>The descriptors that a trace closes.\<close>

definition closes :: "event list \<Rightarrow> int list" where
  "closes tr = concat (map (\<lambda>(c, r). case c of S_close fd \<Rightarrow> [fd] | _ \<Rightarrow> []) tr)"

lemma closes_simps [simp]:
  "closes [] = []" "closes (xs @ ys) = closes xs @ closes ys" "closes ((S_close fd, r) # tr) = fd # closes tr"
  "closes ((S_readdir d, r) # tr) = closes tr" "closes ((S_opendir p, r) # tr) = closes tr" "closes ((S_dirfd d, r) # tr) = closes tr"
  "closes ((S_closedir d, r) # tr) = closes tr"
  by (simp_all add: closes_def)

definition closefrom_set :: "int \<Rightarrow> int \<Rightarrow> string list \<Rightarrow> int list" where
  "closefrom_set from myself names = filter (\<lambda>fd. from \<le> fd \<and> fd \<noteq> myself) (map atoi (filter starts_with_digit names))"

text \<open>A call changes only the world and \<^verbatim>\<open>errno\<close>.\<close>

definition same_lua :: "('u, 's, 'w) lua_State \<Rightarrow> ('u, 's, 'w) lua_State \<Rightarrow> bool" where
  "same_lua L L' \<longleftrightarrow> slots L' = slots L \<and> top L' = top L \<and> ci_top L' = ci_top L \<and> overrun L' = overrun L \<and>
     tables L' = tables L \<and> next_table L' = next_table L"

lemma same_lua_refl [simp]: "same_lua L L"
  and same_lua_trans: "same_lua L1 L2 \<Longrightarrow> same_lua L2 L3 \<Longrightarrow> same_lua L1 L3"
  by (simp_all add: same_lua_def)

lemma traced_call:
  assumes "sys os c (fst (world L)) = (r, w)"
  shows "\<exists>L'. os_call (traced os) c L = (r, L') \<and> world L' = (w, snd (world L) @ [(c, r)]) \<and> same_lua L L' \<and>
    (eno r = None \<longrightarrow> errno L' = errno L)"
  using assms by (cases "world L") (simp add: os_call_def traced_def same_lua_def)

lemma closefrom_loop_closes:
  assumes "dir_like os d ents"
  shows "\<exists>L'. closefrom_loop (traced os) d from myself L = Some L' \<and> same_lua L L' \<and>
    closes (snd (world L')) = closes (snd (world L)) @ closefrom_set from myself (ents (fst (world L)))"
proof (induction "ents (fst (world L))" arbitrary: L)
  case Nil
  obtain r w where r: "sys os (S_readdir d) (fst (world L)) = (r, w)" by fastforce
  obtain L1 where "os_call (traced os) (S_readdir d) L = (r, L1)" "world L1 = (w, snd (world L) @ [(S_readdir d, r)])" "same_lua L L1"
    using traced_call [OF r] by blast
  then show ?case using dir_likeD(1) [OF assms r] Nil by (subst closefrom_loop.simps) (simp add: closefrom_set_def)
next
  case (Cons x xs)
  obtain r w where r: "sys os (S_readdir d) (fst (world L)) = (r, w)" by fastforce
  obtain L1 where L1: "os_call (traced os) (S_readdir d) L = (r, L1)" "world L1 = (w, snd (world L) @ [(S_readdir d, r)])" "same_lua L L1"
    using traced_call [OF r] by blast
  have d: "rv r \<noteq> 0" "sout r = x" "ents w = xs" using dir_likeD(2) [OF assms r Cons.hyps(2) [symmetric]] by auto
  show ?case
  proof (cases "starts_with_digit x \<and> from \<le> atoi x \<and> atoi x \<noteq> myself")
    case True
    obtain c v where c: "sys os (S_close (atoi x)) w = (c, v)" by fastforce
    obtain L2 where L2: "os_call (traced os) (S_close (atoi x)) L1 = (c, L2)" "world L2 = (v, snd (world L1) @ [(S_close (atoi x), c)])"
        "same_lua L1 L2"
      using traced_call [of os "S_close (atoi x)" L1 c v] c L1(2) by auto
    have "ents (fst (world L2)) = xs" using dir_likeD(3) [OF assms c] d L2(2) by simp
    from Cons.hyps(1) [OF this [symmetric]] obtain L3 where "closefrom_loop (traced os) d from myself L2 = Some L3" "same_lua L2 L3"
        "closes (snd (world L3)) = closes (snd (world L2)) @ closefrom_set from myself xs"
      using \<open>ents (fst (world L2)) = xs\<close> by auto
    then show ?thesis using True d L1 L2 Cons.hyps(2) [symmetric] same_lua_trans [OF same_lua_trans [OF L1(3) L2(3)], of L3]
      by (subst closefrom_loop.simps) (simp add: closefrom_set_def)
  next
    case False
    have "ents (fst (world L1)) = xs" using d L1(2) by simp
    from Cons.hyps(1) [OF this [symmetric]] obtain L3 where "closefrom_loop (traced os) d from myself L1 = Some L3" "same_lua L1 L3"
        "closes (snd (world L3)) = closes (snd (world L1)) @ closefrom_set from myself xs"
      using \<open>ents (fst (world L1)) = xs\<close> by auto
    then show ?thesis using False d L1 Cons.hyps(2) [symmetric] same_lua_trans [OF L1(3), of L3]
      by (subst closefrom_loop.simps) (auto simp: closefrom_set_def Let_def)
  qed
qed

lemma checkinteger_number:
  "value_at L i = LNumber a \<Longrightarrow> luaL_checkinteger E i L = (Inr (lua_number2integer a), L)"
  by (simp add: luaL_checkinteger_def lua_tointeger_def luaV_tonumber_def lua_isnumber_def)

text \<open>
  C16 (termination): \<^verbatim>\<open>closefrom(n)\<close> returns true when \<^verbatim>\<open>/proc/self/fd\<close> has finitely many entries, and the descriptors it closes
  are exactly those listed there that are at least \<open>n\<close>, except the one of the directory itself.
\<close>

theorem do_closefrom_closes:
  assumes "sys os (S_opendir ''/proc/self/fd'') (fst (world L)) = (d, w1)" "0 < rv d"
    and "sys os (S_dirfd (nat (rv d))) w1 = (m, w2)" "0 \<le> rv m"
    and "dir_like os (nat (rv d)) ents"
  shows "\<exists>L'. do_closefrom (traced os) E (enter_c stale [LNumber a] L) = Some (Return 1, L') \<and> results 1 L' = [LBoolean True] \<and>
    closes (snd (world L')) = closes (snd (world L)) @ closefrom_set (c_int (lua_number2integer a)) (rv m) (ents w2)"
proof -
  let ?L = "enter_c stale [LNumber a] L"
  obtain L1 where L1: "os_call (traced os) (S_opendir ''/proc/self/fd'') ?L = (d, L1)"
      "world L1 = (w1, snd (world L) @ [(S_opendir ''/proc/self/fd'', d)])"
    using traced_call [of os "S_opendir ''/proc/self/fd''" ?L d w1] assms(1) by auto
  obtain L2 where L2: "os_call (traced os) (S_dirfd (nat (rv d))) L1 = (m, L2)"
      "world L2 = (w2, snd (world L1) @ [(S_dirfd (nat (rv d)), m)])"
    using traced_call [of os "S_dirfd (nat (rv d))" L1 m w2] assms(3) L1(2) by auto
  obtain L3 where L3: "closefrom_loop (traced os) (nat (rv d)) (c_int (lua_number2integer a)) (rv m) L2 = Some L3"
      "closes (snd (world L3)) = closes (snd (world L2)) @ closefrom_set (c_int (lua_number2integer a)) (rv m) (ents (fst (world L2)))"
    using closefrom_loop_closes [OF assms(5)] by blast
  obtain u w4 where u: "sys os (S_closedir (nat (rv d))) (fst (world L3)) = (u, w4)" by fastforce
  obtain L4 where "os_call (traced os) (S_closedir (nat (rv d))) L3 = (u, L4)"
      "world L4 = (w4, snd (world L3) @ [(S_closedir (nat (rv d)), u)])"
    using traced_call [OF u] by auto
  then show ?thesis using assms(2,4) L1 L2 L3
    by (simp add: do_closefrom_def checkinteger_number push_true_def push_eqs results_push)
qed

text \<open>A process with the descriptors 0 to 3, 7 and 12, and a directory stream with descriptor 3.\<close>

definition fd_os :: "string list os" where
  "fd_os = \<lparr>sys = (\<lambda>c w. case c of
       S_opendir p \<Rightarrow> (\<lparr>rv = 1, eno = None, sout = [], iout = []\<rparr>, [''.'', ''..'', ''0'', ''1'', ''2'', ''3'', ''7'', ''12''])
     | S_dirfd d \<Rightarrow> (\<lparr>rv = 3, eno = None, sout = [], iout = []\<rparr>, w)
     | S_readdir d \<Rightarrow> (case w of [] \<Rightarrow> (\<lparr>rv = 0, eno = None, sout = [], iout = []\<rparr>, w)
         | e # es \<Rightarrow> (\<lparr>rv = 1, eno = None, sout = e, iout = []\<rparr>, es))
     | _ \<Rightarrow> (\<lparr>rv = 0, eno = None, sout = [], iout = []\<rparr>, w)),
     strerror = (\<lambda>_. []), strsignal = (\<lambda>_. None)\<rparr>"

lemma fd_os_dir_like: "dir_like fd_os d id"
  by (auto simp: dir_like_def fd_os_def split: list.splits)

theorem do_closefrom_closes_witness:
  "\<exists>L'. do_closefrom (traced fd_os) test_env (enter_c (\<lambda>_. LNil) [LNumber 3] (le_start ([], []))) = Some (Return 1, L') \<and>
    results 1 L' = [LBoolean True] \<and> closes (snd (world L')) = [7, 12]"
proof -
  let ?ents = "[''.'', ''..'', ''0'', ''1'', ''2'', ''3'', ''7'', ''12'']"
  have "c_int (lua_number2integer 3) = 3" by (simp add: c_int_def lua_number2integer_def)
  moreover have "closefrom_set 3 3 ?ents = [7, 12]"
    by (simp add: closefrom_set_def starts_with_digit_def atoi_def c_int_def)
  ultimately show ?thesis
    using do_closefrom_closes [of fd_os "le_start ([], [])" "\<lparr>rv = 1, eno = None, sout = [], iout = []\<rparr>" ?ents
        "\<lparr>rv = 3, eno = None, sout = [], iout = []\<rparr>" ?ents id test_env "\<lambda>_. LNil" 3] fd_os_dir_like
    by (simp add: test_state_def) (simp add: fd_os_def)
qed

section \<open>Listing a directory\<close>

text \<open>The contents of a table after a list was stored at the indices from \<open>i\<close> on.\<close>

primrec put_list :: "nat \<Rightarrow> lua_value list \<Rightarrow> (lua_value \<Rightarrow> lua_value) \<Rightarrow> lua_value \<Rightarrow> lua_value" where
  "put_list i [] f = f"
| "put_list i (x # xs) f = put_list (i + 1) xs (f(LNumber (of_nat i) := x))"

lemma put_list_other: "(\<And>n. k \<noteq> LNumber (of_nat n)) \<Longrightarrow> put_list i xs f k = f k"
  by (induction xs arbitrary: i f) auto

lemma put_list_index:
  "put_list i xs f (LNumber (of_nat k)) = (if i \<le> k \<and> k < i + length xs then xs ! (k - i) else f (LNumber (of_nat k)))"
proof (induction xs arbitrary: i f)
  case (Cons x xs)
  show ?case by (auto simp: Cons.IH nth_Cons')
qed auto

lemma below_top [simp]: "0 < (n :: nat) \<Longrightarrow> n - Suc 0 \<noteq> n" "0 < n \<Longrightarrow> n \<noteq> n - Suc 0" "n - Suc 0 \<noteq> Suc n" "Suc n \<noteq> n - Suc 0"
  by arith+

lemma rawseti_top:
  assumes "0 < top L" "top L < ci_top L" "slots L (top L - 1) = LTable h"
  shows "lua_rawseti (-2) i (push v L) = (set_raw h (LNumber (of_nat i)) v (push v L))\<lparr>top := top L\<rparr>"
  using assms by (simp add: lua_rawseti_def set_raw_def)

definition visible :: "bool \<Rightarrow> string \<Rightarrow> bool" where
  "visible df s \<longleftrightarrow> s \<noteq> ''.'' \<and> s \<noteq> ''..'' \<and> (df \<or> take 1 s \<noteq> ''.'')"

lemma readdir_loop_table:
  assumes "dir_like os d ents"
  shows "0 < top L \<Longrightarrow> top L < ci_top L \<Longrightarrow> slots L (top L - 1) = LTable h \<Longrightarrow>
    \<exists>L'. readdir_loop (traced os) d df i L = Some (True, L') \<and> top L' = top L \<and> slots L' (top L - 1) = LTable h \<and>
      overrun L' = overrun L \<and> tget (tables L' h) = put_list i (map (LString \<circ> c_str) (filter (visible df) (ents (fst (world L))))) (tget (tables L h))"
proof (induction "ents (fst (world L))" arbitrary: L i)
  case Nil
  obtain r w where r: "sys os (S_readdir d) (fst (world (L\<lparr>errno := 0\<rparr>))) = (r, w)" by fastforce
  obtain L1 where "os_call (traced os) (S_readdir d) (L\<lparr>errno := 0\<rparr>) = (r, L1)" "same_lua (L\<lparr>errno := 0\<rparr>) L1" "eno r = None \<longrightarrow> errno L1 = 0"
    using traced_call [OF r] by auto
  moreover have "rv r = 0" "eno r = None" using dir_likeD(1) [OF assms r] Nil by auto
  ultimately show ?case using Nil by (subst readdir_loop.simps) (simp add: same_lua_def)
next
  case (Cons x xs)
  obtain r w where r: "sys os (S_readdir d) (fst (world (L\<lparr>errno := 0\<rparr>))) = (r, w)" by fastforce
  obtain L1 where L1: "os_call (traced os) (S_readdir d) (L\<lparr>errno := 0\<rparr>) = (r, L1)" "same_lua (L\<lparr>errno := 0\<rparr>) L1" "fst (world L1) = w"
    using traced_call [OF r] by auto
  have d: "rv r \<noteq> 0" "sout r = x" "ents w = xs" using dir_likeD(2) [OF assms r] Cons.hyps(2) [symmetric] by auto
  have f: "0 < top L1" "top L1 < ci_top L1" "slots L1 (top L1 - 1) = LTable h" "top L1 = top L" "overrun L1 = overrun L" "tables L1 = tables L"
    using Cons.prems L1(2) by (simp_all add: same_lua_def)
  show ?case
  proof (cases "visible df x")
    case True
    let ?L2 = "lua_rawseti (-2) i (lua_pushstring (Some x) L1)"
    have L2: "?L2 = (set_raw h (LNumber (of_nat i)) (LString (c_str x)) (push (LString (c_str x)) L1))\<lparr>top := top L1\<rparr>"
      using rawseti_top [OF f(1-3)] by (simp add: push_eqs)
    have "ents (fst (world ?L2)) = xs" using d L1(3) by (simp add: L2)
    with Cons.hyps(1) [of ?L2 "i + 1"] f obtain L3 where "readdir_loop (traced os) d df (i + 1) ?L2 = Some (True, L3)" "top L3 = top L"
        "slots L3 (top L - 1) = LTable h" "overrun L3 = overrun L"
        "tget (tables L3 h) = put_list (i + 1) (map (LString \<circ> c_str) (filter (visible df) xs)) (tget (tables ?L2 h))"
      by (auto simp: L2)
    moreover have "tget (tables ?L2 h) = (tget (tables L h))(LNumber (of_nat i) := LString (c_str x))" by (simp add: L2 f)
    ultimately show ?thesis using True d L1 Cons.hyps(2) [symmetric]
      by (subst readdir_loop.simps) (auto simp: visible_def)
  next
    case False
    have "ents (fst (world L1)) = xs" using d L1(3) by simp
    with Cons.hyps(1) [of L1 i] f obtain L3 where "readdir_loop (traced os) d df i L1 = Some (True, L3)" "top L3 = top L"
        "slots L3 (top L - 1) = LTable h" "overrun L3 = overrun L"
        "tget (tables L3 h) = put_list i (map (LString \<circ> c_str) (filter (visible df) xs)) (tget (tables L h))"
      by auto
    then show ?thesis using False d L1 Cons.hyps(2) [symmetric]
      by (subst readdir_loop.simps) (auto simp: visible_def)
  qed
qed

lemma checkstring_string: "value_at L i = LString s \<Longrightarrow> luaL_checkstring E i L = (Inr (c_str s), L)"
  by (simp add: luaL_checkstring_def luaL_checklstring_def lua_tolstring_def)

text \<open>
  C15 (liveness): \<^verbatim>\<open>directory(path, dotfiles)\<close> returns for every directory with finitely many entries. The result is an array of the
  entries in order, without \<^verbatim>\<open>.\<close> and \<^verbatim>\<open>..\<close>, and without the other entries that start with a dot unless
  they are asked for; and the directory is closed at the end.
\<close>

theorem get_directory_lists:
  fixes v :: lua_value
  assumes "sys os (S_opendir (c_str p)) (fst (world L)) = (d, w1)" "0 < rv d" "dir_like os (nat (rv d)) ents"
  defines "names \<equiv> filter (visible (\<not> l_isfalse v)) (ents w1)"
  shows "\<exists>L' h tr r. get_directory (traced os) E (enter_c stale [LString p, v] L) = Some (Return 1, L') \<and> results 1 L' = [LTable h] \<and>
    (\<forall>k. tget (tables L' h) (LNumber (of_nat k)) =
       (if 1 \<le> k \<and> k \<le> length names then LString (c_str (names ! (k - 1))) else LNil)) \<and>
    snd (world L') = tr @ [(S_closedir (nat (rv d)), r)]"
proof -
  let ?L = "enter_c stale [LString p, v] L"
  obtain L1 where L1: "os_call (traced os) (S_opendir (c_str p)) ?L = (d, L1)" "fst (world L1) = w1" "same_lua ?L L1"
    using traced_call [of os "S_opendir (c_str p)" ?L d w1] assms(1) by auto
  let ?L2 = "lua_newtable L1" and ?h = "next_table L1"
  have L2: "top ?L2 = 3" "ci_top ?L2 = 22" "slots ?L2 2 = LTable ?h" "fst (world ?L2) = w1" "tget (tables ?L2 ?h) = (\<lambda>_. LNil)"
    using L1 by (simp_all add: lua_newtable_def lua_createtable_def Let_def same_lua_def)
  obtain L3 where L3: "readdir_loop (traced os) (nat (rv d)) (\<not> l_isfalse v) 1 ?L2 = Some (True, L3)" "top L3 = 3" "slots L3 2 = LTable ?h"
      "tget (tables L3 ?h) = put_list 1 (map (LString \<circ> c_str) names) (\<lambda>_. LNil)"
    using readdir_loop_table [OF assms(3), of ?L2 ?h "\<not> l_isfalse v" 1] L2 by (auto simp: names_def)
  obtain u w4 where u: "sys os (S_closedir (nat (rv d))) (fst (world L3)) = (u, w4)" by fastforce
  obtain L4 where L4: "os_call (traced os) (S_closedir (nat (rv d))) L3 = (u, L4)" "same_lua L3 L4"
      "snd (world L4) = snd (world L3) @ [(S_closedir (nat (rv d)), u)]"
    using traced_call [OF u] by auto
  have "get_directory (traced os) E ?L = Some (Return 1, L4)"
    using assms(2) L1(1) L3(1) L4(1) by (simp add: get_directory_def checkstring_string lua_gettop_def lua_toboolean_def Let_def)
  moreover have "results 1 L4 = [LTable ?h]" using L4(2) L3 by (simp add: results_def same_lua_def upt_rec)
  moreover have "tget (tables L4 ?h) (LNumber (of_nat k)) =
      (if 1 \<le> k \<and> k \<le> length names then LString (c_str (names ! (k - 1))) else LNil)" for k
    using L4(2) L3(4) put_list_index [of 1 "map (LString \<circ> c_str) names" "\<lambda>_. LNil" k] by (auto simp: same_lua_def)
  ultimately show ?thesis using L4(3) by blast
qed

theorem get_directory_lists_witness:
  "\<exists>L' h. get_directory (traced fd_os) test_env (enter_c (\<lambda>_. LNil) [LString ''/proc/self/fd'', LNil] (le_start ([], []))) = Some (Return 1, L') \<and>
    results 1 L' = [LTable h] \<and> tget (tables L' h) (LNumber (of_nat 6)) = LString ''12'' \<and> tget (tables L' h) (LNumber (of_nat 7)) = LNil"
proof -
  let ?ents = "[''.'', ''..'', ''0'', ''1'', ''2'', ''3'', ''7'', ''12'']"
  have names: "filter (visible (\<not> l_isfalse LNil)) (id ?ents) = [''0'', ''1'', ''2'', ''3'', ''7'', ''12'']"
    by (simp add: visible_def l_isfalse_def)
  have "sys fd_os (S_opendir (c_str ''/proc/self/fd'')) (fst (world (le_start ([], [] :: event list)))) =
      (\<lparr>rv = 1, eno = None, sout = [], iout = []\<rparr>, ?ents)" by (simp add: fd_os_def)
  from get_directory_lists [OF this _ fd_os_dir_like, of test_env "\<lambda>_. LNil" LNil, unfolded names]
  obtain L' h where "get_directory (traced fd_os) test_env (enter_c (\<lambda>_. LNil) [LString ''/proc/self/fd'', LNil] (le_start ([], []))) =
      Some (Return 1, L')" "results 1 L' = [LTable h]"
    "\<And>k. tget (tables L' h) (LNumber (of_nat k)) = (if 1 \<le> k \<and> k \<le> length [''0'', ''1'', ''2'', ''3'', ''7'', ''12'']
       then LString (c_str ([''0'', ''1'', ''2'', ''3'', ''7'', ''12''] ! (k - 1))) else LNil)" by auto
  then show ?thesis by (intro exI conjI) (assumption, assumption, simp_all only:, simp_all add: c_str_def)
qed

section \<open>File statistics\<close>

lemma rawset_top:
  assumes "0 < top L" "top L + 1 < ci_top L" "slots L (top L - 1) = LTable h" "i = int (top L)"
  shows "lua_rawset i (push v (push k L)) = (set_raw h k v (push v (push k L)))\<lparr>top := top L\<rparr>"
  using assms by (simp add: lua_rawset_def index2adr_pos)

definition put_member :: "string \<times> int \<Rightarrow> (lua_value \<Rightarrow> lua_value) \<Rightarrow> lua_value \<Rightarrow> lua_value" where
  "put_member f g = g(LString (c_str (fst f)) := LNumber (cast_num (snd f)))"

lemma put_member_at: "put_member f g k = (if k = LString (c_str (fst f)) then LNumber (cast_num (snd f)) else g k)"
  by (simp add: put_member_def)

lemma set_members:
  assumes "0 < top L" "top L + 1 < ci_top L" "slots L (top L - 1) = LTable h" "i = int (top L)"
  shows "let L' = fold (set_member i) fs L in top L' = top L \<and> ci_top L' = ci_top L \<and> slots L' (top L - 1) = LTable h \<and>
    overrun L' = overrun L \<and> tget (tables L' h) = fold put_member fs (tget (tables L h))"
  using assms
proof (induction fs arbitrary: L)
  case (Cons f fs)
  let ?L = "set_member i f L"
  have L: "?L = (set_raw h (LString (c_str (fst f))) (LNumber (cast_num (snd f)))
      (push (LNumber (cast_num (snd f))) (push (LString (c_str (fst f))) L)))\<lparr>top := top L\<rparr>"
    unfolding set_member_def push_eqs using rawset_top [OF Cons.prems] by simp
  have f: "top ?L = top L" "ci_top ?L = ci_top L" "slots ?L (top L - 1) = LTable h" "overrun ?L = overrun L"
    "tget (tables ?L h) = put_member f (tget (tables L h))"
    using Cons.prems(1-3) by (simp_all add: L put_member_def)
  then show ?case using Cons.IH [of ?L] Cons.prems by (simp add: Let_def)
qed simp

lemma fold_members:
  assumes "distinct (map (c_str \<circ> fst) fs)" "(n, v) \<in> set fs"
  shows "fold put_member fs g (LString (c_str n)) = LNumber (cast_num v)"
  using assms
proof (induction fs arbitrary: g)
  case (Cons f fs)
  have other: "x \<notin> (c_str \<circ> fst) ` set fs \<Longrightarrow>
      fold put_member fs g' (LString x) = g' (LString x)" for x g'
    by (induction fs arbitrary: g') (auto simp: put_member_at)
  show ?case
  proof (cases "f = (n, v)")
    case True
    then have "fold put_member fs (put_member f g) (LString (c_str n)) = put_member f g (LString (c_str n))"
      using Cons.prems(1) by (intro other) auto
    then show ?thesis using True by (simp add: put_member_at [of "(n, v)" g])
  next
    case False
    then show ?thesis using Cons by simp
  qed
qed simp

text \<open>
  \<^verbatim>\<open>stat(path)\<close> returns a table with the sixteen members of the status that \<^verbatim>\<open>lstat\<close> reports, exact as
  long as they are below \<open>2 ^ 53\<close> in magnitude, and with the file type that the mode encodes.
\<close>

theorem get_file_statistics_table:
  assumes "sys os (S_lstat (c_str p)) (world L) = (s, w)" "0 \<le> rv s" "length (iout s) = 16" "list_all (\<lambda>x. \<bar>x\<bar> < 2 ^ 53) (iout s)"
    and "j < 16"
  shows "\<exists>h L'. call_c stale [LString p] (get_file_statistics os E) L = ((Return 1, [LTable h]), L') \<and>
    tget (tables L' h) (LString (stat_members ! j)) = LNumber (of_int (iout s ! j)) \<and>
    tget (tables L' h) (LString ''type'') = LString (file_type (iout s ! 2))"
proof -
  let ?L = "enter_c stale [LString p] L" and ?fs = "zip stat_members (iout s)"
  obtain L1 where L1: "os_call os (S_lstat (c_str p)) ?L = (s, L1)" "same_lua ?L L1"
    using assms(1) by (simp add: os_call_def same_lua_def)
  let ?L2 = "lua_newtable L1" and ?h = "next_table L1"
  have L2: "top ?L2 = 2" "ci_top ?L2 = 21" "slots ?L2 1 = LTable ?h"
    using L1(2) by (simp_all add: lua_newtable_def lua_createtable_def Let_def same_lua_def)
  define L3 where "L3 = fold (set_member 2) ?fs ?L2"
  define g where "g = fold put_member ?fs (tget (tables ?L2 ?h))"
  have L3: "top L3 = 2" "ci_top L3 = 21" "slots L3 1 = LTable ?h" "tget (tables L3 ?h) = g"
    using set_members [of ?L2 ?h 2 ?fs] L2 by (simp_all add: L3_def g_def Let_def)
  let ?L4 = "lua_rawset 2 (lua_pushstring (Some (file_type (iout s ! 2))) (lua_pushstring (Some ''type'') L3))"
  have L4: "?L4 = (set_raw ?h (LString (c_str ''type'')) (LString (c_str (file_type (iout s ! 2))))
      (push (LString (c_str (file_type (iout s ! 2)))) (push (LString (c_str ''type'')) L3)))\<lparr>top := 2\<rparr>"
    unfolding push_eqs using rawset_top [of L3 ?h 2] L3 by simp
  have names: "map c_str stat_members = stat_members" "length stat_members = 16" "distinct stat_members" "''type'' \<notin> set stat_members"
    by (simp_all add: stat_members_def c_str_def)
  then have cs: "c_str (stat_members ! j) = stat_members ! j" using assms(5) by (metis nth_map)
  have "(stat_members ! j, iout s ! j) \<in> set ?fs" using assms(3,5) names(2) by (force simp: set_zip)
  moreover have "map (c_str \<circ> fst) ?fs = stat_members" using assms(3) names(1,2) by (simp flip: map_map)
  ultimately have "g (LString (stat_members ! j)) = LNumber (cast_num (iout s ! j))"
    using fold_members [of ?fs "stat_members ! j" "iout s ! j"] names(3) by (simp add: g_def cs)
  moreover have "cast_num (iout s ! j) = of_int (iout s ! j)" using assms(3-5) by (simp add: list_all_length cast_num_small)
  moreover have "stat_members ! j \<noteq> ''type''" using names(2,4) assms(5) by (metis nth_mem)
  moreover have "c_str (file_type m) = file_type m" for m by (simp add: file_type_def Let_def c_str_def)
  ultimately have "tget (tables ?L4 ?h) (LString (stat_members ! j)) = LNumber (of_int (iout s ! j))"
      "tget (tables ?L4 ?h) (LString ''type'') = LString (file_type (iout s ! 2))" "results 1 ?L4 = [LTable ?h]"
    using L3 by (simp_all add: L4 results_def c_str_def upt_rec)
  moreover have "get_file_statistics os E ?L = (Return 1, ?L4)"
    using L1(1) assms(2) L2(1) by (simp add: get_file_statistics_def checkstring_string lua_gettop_def Let_def L3_def)
  ultimately show ?thesis by (simp add: call_c_def)
qed

definition stat_os :: "unit os" where
  "stat_os = \<lparr>sys = (\<lambda>c w. (\<lparr>rv = 0, eno = None, sout = [], iout = [1, 2, 0x81A4, 1, 0, 0, 0, 4096, 5, 6, 7, 8, 9, 10, 512, 8]\<rparr>, w)),
     strerror = (\<lambda>_. []), strsignal = (\<lambda>_. None)\<rparr>"

theorem get_file_statistics_table_witness:
  "\<exists>h L'. call_c (\<lambda>_. LNil) [LString ''/etc/passwd''] (get_file_statistics stat_os test_env) (le_start ()) = ((Return 1, [LTable h]), L') \<and>
    tget (tables L' h) (LString ''size'') = LNumber 4096 \<and> tget (tables L' h) (LString ''type'') = LString ''regular''"
proof -
  have "file_type 0x81A4 = ''regular''" by (simp add: file_type_def S_IFMT_def)
  then show ?thesis
    using get_file_statistics_table [of stat_os "''/etc/passwd''" "le_start ()"
        "\<lparr>rv = 0, eno = None, sout = [], iout = [1, 2, 0x81A4, 1, 0, 0, 0, 4096, 5, 6, 7, 8, 9, 10, 512, 8]\<rparr>" "()" 7 "\<lambda>_. LNil" test_env]
    by (simp add: stat_os_def stat_members_def)
qed

end
