(* ===== verification/Lobject.thy ===== *)
theory Lobject
  imports LuaApi
begin

unbundle bit_operations_syntax

text \<open>
  Arithmetic helpers of the interpreter: the floating point bytes that encode table sizes in
  instructions and the integer logarithm (\<^verbatim>\<open>lobject.c\<close>), and the hash of strings (\<^verbatim>\<open>lstring.c\<close>).
\<close>

section \<open>Floating point bytes\<close>

function int2fb_loop :: "u32 \<Rightarrow> nat \<Rightarrow> u32 \<times> nat" where
  "int2fb_loop x e = (if 16 \<le> x then int2fb_loop (drop_bit 1 (x + 1)) (e + 1) else (x, e))"
  by pat_completeness auto
termination
proof (relation "measure (\<lambda>(x, e). unat x)")
  fix x :: u32 and e :: nat
  assume a: "16 \<le> x"
  have "unat (drop_bit 1 (x + 1)) = unat (x + 1) div 2" by (simp add: drop_bit_eq_div unat_div)
  also have "\<dots> < unat x"
  proof -
    have "16 \<le> unat x" using a by (simp add: word_le_nat_alt)
    moreover have "unat (x + 1) \<le> unat x + 1" by (metis unat_1 unat_word_ariths(1) mod_less_eq_dividend)
    ultimately show ?thesis by linarith
  qed
  finally show "((drop_bit 1 (x + 1), e + 1), x, e) \<in> measure (\<lambda>(x, e). unat x)" by simp
qed simp

declare int2fb_loop.simps [simp del]

definition luaO_int2fb :: "u32 \<Rightarrow> u32" where
  "luaO_int2fb x =
     (case int2fb_loop x 0 of (x, e) \<Rightarrow>
      if x < 8 then x else push_bit 3 (of_nat (e + 1)) OR (x - 8))"

definition luaO_fb2int :: "u32 \<Rightarrow> u32" where
  "luaO_fb2int x =
     (let e = drop_bit 3 x AND 31 in
      if e = 0 then x else push_bit (unat e - 1) ((x AND 7) + 8))"

section \<open>Logarithm\<close>

definition log_2 :: "nat list" where
  "log_2 = [0, 1, 2, 2] @ replicate 4 3 @ replicate 8 4 @ replicate 16 5 @ replicate 32 6 @ replicate 64 7 @ replicate 128 8"

function log2_loop :: "u32 \<Rightarrow> int \<Rightarrow> u32 \<times> int" where
  "log2_loop x l = (if 256 \<le> x then log2_loop (drop_bit 8 x) (l + 8) else (x, l))"
  by pat_completeness auto
termination
proof (relation "measure (\<lambda>(x, l). unat x)")
  fix x :: u32 and l :: int
  assume a: "256 \<le> x"
  have "unat (drop_bit 8 x) = unat x div 256" by (simp add: drop_bit_eq_div unat_div)
  moreover have "256 \<le> unat x" using a by (simp add: word_le_nat_alt)
  ultimately show "((drop_bit 8 x, l + 8), x, l) \<in> measure (\<lambda>(x, l). unat x)" by simp
qed simp

declare log2_loop.simps [simp del]

definition luaO_log2 :: "u32 \<Rightarrow> int" where
  "luaO_log2 x = (case log2_loop x (-1) of (x, l) \<Rightarrow> l + int (log_2 ! unat x))"

definition ceillog2 :: "nat \<Rightarrow> nat" where
  "ceillog2 x = nat (luaO_log2 (of_nat x - 1) + 1)"

section \<open>The hash of a string\<close>

text \<open>Long strings: only every \<open>step\<close>-th character, from the last one down.\<close>

function str_hash_loop :: "string \<Rightarrow> nat \<Rightarrow> nat \<Rightarrow> u32 \<Rightarrow> u32" where
  "str_hash_loop s step l1 h =
     (if step \<le> l1 \<and> 0 < step then
        str_hash_loop s step (l1 - step) (h XOR (push_bit 5 h + drop_bit 2 h + of_char (s ! (l1 - 1))))
      else h)"
  by pat_completeness auto
termination by (relation "measure (\<lambda>(s, step, l1, h). l1)") auto

declare str_hash_loop.simps [simp del]

definition str_hash :: "string \<Rightarrow> u32" where
  "str_hash s = (let l = length s in str_hash_loop s (l div 32 + 1) l (of_nat l))"

section \<open>What the logarithm computes\<close>

lemma log_2_table: "list_all (\<lambda>y. 2 ^ (log_2 ! y - 1) \<le> y \<and> y < 2 ^ (log_2 ! y) \<and> 0 < log_2 ! y) [1..<256]"
  by code_simp

lemma log_2_bounds:
  assumes "0 < y" "y < 256"
  shows "2 ^ (log_2 ! y - 1) \<le> y" "y < 2 ^ (log_2 ! y)" "0 < log_2 ! y"
  using log_2_table assms by (auto simp: list_all_iff)

lemma log2_loop_bounds:
  assumes "0 < unat x" "log2_loop x l = (y, l')"
  shows "\<exists>a. l' + int (log_2 ! unat y) = l + int a \<and> 0 < a \<and> 2 ^ (a - 1) \<le> unat x \<and> unat x < 2 ^ a"
  using assms
proof (induction x l rule: log2_loop.induct)
  case (1 x l)
  show ?case
  proof (cases "256 \<le> x")
    case True
    have u: "unat (drop_bit 8 x) = unat x div 256" by (simp add: drop_bit_eq_div unat_div)
    have x: "256 \<le> unat x" using True by (simp add: word_le_nat_alt)
    obtain a where a: "l' + int (log_2 ! unat y) = l + 8 + int a" "0 < a" "2 ^ (a - 1) \<le> unat x div 256" "unat x div 256 < 2 ^ a"
    proof -
      have "log2_loop (drop_bit 8 x) (l + 8) = (y, l')" using 1(3) True by (simp add: log2_loop.simps [of x l])
      moreover have "0 < unat (drop_bit 8 x)" using x u by (simp add: div_greater_zero_iff)
      ultimately show ?thesis using that 1(1) [OF True] u by auto
    qed
    have "2 ^ (a - 1) * 256 \<le> unat x" "unat x < 2 ^ a * 256"
      using a(3,4) by (simp_all add: less_eq_div_iff_mult_less_eq div_less_iff_less_mult)
    moreover have "(2 :: nat) ^ (a + 8 - 1) = 2 ^ (a - 1) * 256" using a(2) by (cases a) (simp_all add: power_add)
    ultimately show ?thesis using a(1,2) by (intro exI [of _ "a + 8"]) (simp add: power_add)
  next
    case False
    then have "unat x < 256" by (simp add: word_le_nat_alt word_less_nat_alt not_le)
    then show ?thesis using False 1(2,3) log_2_bounds [of "unat x"] by (auto simp: log2_loop.simps [of x l])
  qed
qed

lemma luaO_log2_0: "luaO_log2 0 = -1"
  by (simp add: luaO_log2_def log2_loop.simps log_2_def)

lemma ceillog2_bounds:
  assumes "0 < x" "x < 2 ^ 32"
  shows "x \<le> 2 ^ ceillog2 x" and "1 < x \<Longrightarrow> 2 ^ (ceillog2 x - 1) < x"
proof -
  show "x \<le> 2 ^ ceillog2 x" "1 < x \<Longrightarrow> 2 ^ (ceillog2 x - 1) < x"
  proof (atomize (full), cases "x = 1")
    case True
    then show "x \<le> 2 ^ ceillog2 x \<and> (1 < x \<longrightarrow> 2 ^ (ceillog2 x - 1) < x)" by simp
  next
    case False
    have "(of_nat x :: u32) - 1 = of_nat (x - 1)" using assms by (simp add: of_nat_diff)
    moreover have "unat (of_nat (x - 1) :: u32) = x - 1" using assms by (subst unat_of_nat) simp
    ultimately have u: "unat (of_nat x - 1 :: u32) = x - 1" by metis
    obtain y l' where l: "log2_loop (of_nat x - 1) (-1) = (y, l')" by (metis surj_pair)
    obtain a where a: "l' + int (log_2 ! unat y) = -1 + int a" "0 < a" "2 ^ (a - 1) \<le> x - 1" "x - 1 < 2 ^ a"
      using log2_loop_bounds [OF _ l] u False assms by auto
    have "ceillog2 x = a" using l a(1) by (simp add: ceillog2_def luaO_log2_def)
    then show "x \<le> 2 ^ ceillog2 x \<and> (1 < x \<longrightarrow> 2 ^ (ceillog2 x - 1) < x)" using a False assms by auto
  qed
qed

lemma ceillog2_le_iff:
  assumes "0 < x" "x < 2 ^ 32"
  shows "ceillog2 x \<le> i \<longleftrightarrow> x \<le> 2 ^ i"
proof
  assume "ceillog2 x \<le> i"
  then show "x \<le> 2 ^ i" using ceillog2_bounds(1) [OF assms] power_increasing [of "ceillog2 x" i "2 :: nat"] by linarith
next
  assume a: "x \<le> 2 ^ i"
  show "ceillog2 x \<le> i"
  proof (cases "x = 1")
    case True
    then show ?thesis by (simp add: ceillog2_def luaO_log2_0)
  next
    case False
    then have "2 ^ (ceillog2 x - 1) < (2 :: nat) ^ i" using ceillog2_bounds(2) [OF assms] assms(1) a by linarith
    then have "ceillog2 x - 1 < i" by (rule power_less_imp_less_exp [rotated]) simp
    then show ?thesis by simp
  qed
qed

section \<open>What floating point bytes represent\<close>

lemma int2fb_loop_spec:
  assumes "unat x < 2 ^ 32 - 1" "int2fb_loop x e = (y, e')"
  shows "\<exists>d. e' = e + d \<and> unat x \<le> unat y * 2 ^ d \<and> unat y * 2 ^ d < unat x + 2 ^ d \<and> unat y < 16 \<and> (0 < d \<longrightarrow> 8 \<le> unat y)"
  using assms
proof (induction x e rule: int2fb_loop.induct)
  case (1 x e)
  show ?case
  proof (cases "16 \<le> x")
    case False
    then show ?thesis using 1(3) by (auto simp: int2fb_loop.simps [of x e] word_le_nat_alt)
  next
    case True
    have s: "unat (x + 1) = unat x + 1" using 1(2) by (simp add: unat_word_ariths)
    have u: "unat (drop_bit 1 (x + 1)) = (unat x + 1) div 2" by (simp add: drop_bit_eq_div unat_div s)
    have x: "16 \<le> unat x" using True by (simp add: word_le_nat_alt)
    have l: "int2fb_loop (drop_bit 1 (x + 1)) (e + 1) = (y, e')" using 1(3) True by (simp add: int2fb_loop.simps [of x e])
    obtain d where d: "e' = e + 1 + d" "(unat x + 1) div 2 \<le> unat y * 2 ^ d" "unat y * 2 ^ d < (unat x + 1) div 2 + 2 ^ d"
      "unat y < 16" "0 < d \<longrightarrow> 8 \<le> unat y"
    proof -
      have "unat (drop_bit 1 (x + 1)) < 2 ^ 32 - 1" unfolding u using 1(2) by simp
      then show ?thesis using that 1(1) [OF True _ l] u by auto
    qed
    have "8 \<le> unat y"
    proof (cases d)
      case 0
      then show ?thesis using d(2) x by simp
    qed (use d(5) in simp)
    moreover have "unat x \<le> unat y * 2 ^ (d + 1)" "unat y * 2 ^ (d + 1) < unat x + 2 ^ (d + 1)" using d(2,3) by simp_all
    ultimately show ?thesis using d(1,4) by (intro exI [of _ "d + 1"]) simp
  qed
qed

lemma fb_decode: "list_all (\<lambda>d. list_all (\<lambda>y. luaO_fb2int (push_bit 3 (of_nat (d + 1)) OR (of_nat y - 8)) = push_bit d (of_nat y) \<and>
    (push_bit 3 (of_nat (d + 1)) OR (of_nat y - 8) :: u32) < 256) [8..<16]) [0..<29]"
  by code_simp

text \<open>
  The floating point byte of a table size is a byte, and decoding it gives a size that is large enough and at most
  a seventh too large.
\<close>

theorem int2fb_rounds_up:
  assumes "unat x \<le> 2 ^ 31"
  shows "unat x \<le> unat (luaO_fb2int (luaO_int2fb x)) \<and> 7 * unat (luaO_fb2int (luaO_int2fb x)) \<le> 8 * unat x \<and> luaO_int2fb x < 256"
proof -
  obtain y e where l: "int2fb_loop x 0 = (y, e)" by (metis surj_pair)
  have d: "unat x \<le> unat y * 2 ^ e" "unat y * 2 ^ e < unat x + 2 ^ e" "unat y < 16" "0 < e \<longrightarrow> 8 \<le> unat y"
    using int2fb_loop_spec [OF _ l] assms by auto
  show ?thesis
  proof (cases "unat y < 8")
    case True
    then have "e = 0" using d(4) by linarith
    then have "unat y = unat x" using d(1,2) by simp
    then have "y = x" by (simp add: word_unat_eq_iff)
    have "x < 8" using True \<open>y = x\<close> by (simp add: word_less_nat_alt)
    moreover have "drop_bit 3 x = 0" using True \<open>y = x\<close> by (simp add: drop_bit_eq_div word_unat_eq_iff unat_div)
    moreover have "x < 256" using True \<open>y = x\<close> by (simp add: word_less_nat_alt)
    ultimately show ?thesis using l \<open>y = x\<close> by (simp add: luaO_int2fb_def luaO_fb2int_def Let_def)
  next
    case False
    have e7: "7 * 2 ^ e < unat x"
    proof -
      have "8 * 2 ^ e \<le> unat y * 2 ^ e" using False by simp
      then show ?thesis using d(2) by linarith
    qed
    then have "(2 :: nat) ^ e < 2 ^ 29" using assms by simp
    then have e: "e < 29" by (rule power_less_imp_less_exp [rotated]) simp
    have b: "luaO_int2fb x = push_bit 3 (of_nat (e + 1)) OR (of_nat (unat y) - 8)" using l False by (simp add: luaO_int2fb_def word_less_nat_alt)
    have "luaO_fb2int (luaO_int2fb x) = push_bit e (of_nat (unat y)) \<and> luaO_int2fb x < 256"
      unfolding b by (rule fb_decode [unfolded list_all_iff, rule_format]) (use e d(3) False in \<open>simp_all only: set_upt atLeastLessThan_iff not_less le0 simp_thms\<close>)
    moreover have "unat (push_bit e (of_nat (unat y)) :: u32) = unat y * 2 ^ e"
    proof -
      have "push_bit e (of_nat (unat y)) = (of_nat (unat y * 2 ^ e) :: u32)" by (simp add: push_bit_eq_mult)
      then show ?thesis using d(2) e7 assms by (simp only: unat_of_nat) simp
    qed
    ultimately show ?thesis using d(1,2) e7 by simp
  qed
qed

theorem int2fb_rounds_up_witness:
  "(100 :: nat) \<le> unat (luaO_fb2int (luaO_int2fb 100)) \<and> 7 * unat (luaO_fb2int (luaO_int2fb 100)) \<le> 800"
  using int2fb_rounds_up [of 100] by simp

end
