(* ===== verification/Ltable.thy ===== *)
theory Ltable
  imports Lobject
begin

unbundle bit_operations_syntax

text \<open>
  The tables of the interpreter, \<^verbatim>\<open>ltable.c\<close>: an array part and a hash part, a chained scatter
  table with Brent's variation. Nodes are the elements of a list, links are indices. A pointer to a
  value in the table is a \<open>tv_ref\<close>. The representation of doubles and the addresses of objects, which the
  hash function reads, are a parameter (\<open>hash_env\<close>). Strings are interned, so that comparing their
  pointers is comparing their contents. Allocation is taken to succeed. Loops along
  links and the recursion of \<^verbatim>\<open>newkey\<close> through \<^verbatim>\<open>rehash\<close> may not end on arbitrary tables: None
  stands for a call that does not return.
\<close>

section \<open>Representation\<close>

record Node =
  i_val :: lua_value
  i_key :: lua_value
  nxt :: "nat option"

record hTable =
  flags :: nat
  lsizenode :: nat
  array :: "lua_value list"
  node :: "Node list"
  isdummy :: bool
  lastfree :: int

record hash_env =
  num_image :: "lua_Number \<Rightarrow> u32 \<times> u32"
  IntPoint :: "lua_value \<Rightarrow> u32"

datatype tv_ref = NilObject | Arr nat | Nod nat

type_synonym 'a res = "(lua_err + 'a) option"

definition rbind :: "'a res \<Rightarrow> ('a \<Rightarrow> 'b res) \<Rightarrow> 'b res" where
  "rbind m f = (case m of None \<Rightarrow> None | Some (Inl e) \<Rightarrow> Some (Inl e) | Some (Inr a) \<Rightarrow> f a)"

lemma rbind_simps [simp]:
  "rbind None f = None" "rbind (Some (Inl e)) f = Some (Inl e)" "rbind (Some (Inr a)) f = f a"
  by (simp_all add: rbind_def)

definition MAXBITS :: nat where "MAXBITS = 26"
definition MAXASIZE :: nat where "MAXASIZE = 2 ^ MAXBITS"

definition sizenode :: "hTable \<Rightarrow> nat" where "sizenode t = 2 ^ lsizenode t"

definition dummy_Node :: Node where
  "dummy_Node = \<lparr>i_val = LNil, i_key = LNil, nxt = None\<rparr>"

definition deref :: "hTable \<Rightarrow> tv_ref \<Rightarrow> lua_value" where
  "deref t r = (case r of NilObject \<Rightarrow> LNil | Arr i \<Rightarrow> array t ! i | Nod i \<Rightarrow> i_val (node t ! i))"

definition setobj :: "tv_ref \<Rightarrow> lua_value \<Rightarrow> hTable \<Rightarrow> hTable" where
  "setobj r v t = (case r of NilObject \<Rightarrow> t | Arr i \<Rightarrow> t\<lparr>array := (array t)[i := v]\<rparr>
     | Nod i \<Rightarrow> t\<lparr>node := (node t)[i := (node t ! i)\<lparr>i_val := v\<rparr>]\<rparr>)"

section \<open>Hashing\<close>

definition hashpow2 :: "nat \<Rightarrow> u32 \<Rightarrow> nat" where
  "hashpow2 lsize n = unat (n AND (2 ^ lsize - 1))"

definition hashmod :: "nat \<Rightarrow> u32 \<Rightarrow> nat" where
  "hashmod lsize n = unat (n mod ((2 ^ lsize - 1) OR 1))"

definition hashnum :: "hash_env \<Rightarrow> nat \<Rightarrow> lua_Number \<Rightarrow> nat" where
  "hashnum E lsize n = (if n = 0 then 0 else case num_image E n of (a0, a1) \<Rightarrow> hashmod lsize (a0 + a1))"

definition mainposition :: "hash_env \<Rightarrow> nat \<Rightarrow> lua_value \<Rightarrow> nat" where
  "mainposition E lsize key =
     (case key of
        LNumber n \<Rightarrow> hashnum E lsize n
      | LString s \<Rightarrow> hashpow2 lsize (str_hash s)
      | LBoolean b \<Rightarrow> hashpow2 lsize (of_bool b)
      | _ \<Rightarrow> hashmod lsize (IntPoint E key))"

definition lua_number2int :: "lua_Number \<Rightarrow> int" where
  "lua_number2int r =
     (let i = (if 0 \<le> r then \<lfloor>r\<rfloor> else - \<lfloor>- r\<rfloor>)
      in if - (2 ^ 31) \<le> i \<and> i < 2 ^ 31 then i else - (2 ^ 31))"

definition arrayindex :: "lua_value \<Rightarrow> int" where
  "arrayindex key =
     (case key of
        LNumber n \<Rightarrow> let k = lua_number2int n in if cast_num k = n then k else -1
      | _ \<Rightarrow> -1)"

section \<open>Search\<close>

partial_function (option) chain_find :: "(Node \<Rightarrow> bool) \<Rightarrow> Node list \<Rightarrow> nat \<Rightarrow> nat option option" where
  "chain_find P ns i =
     (if P (ns ! i) then Some (Some i)
      else case nxt (ns ! i) of None \<Rightarrow> Some None | Some j \<Rightarrow> chain_find P ns j)"

definition node_ref :: "nat option option \<Rightarrow> tv_ref option" where
  "node_ref = map_option (\<lambda>r. case r of None \<Rightarrow> NilObject | Some i \<Rightarrow> Nod i)"

definition luaH_getnum :: "hash_env \<Rightarrow> hTable \<Rightarrow> int \<Rightarrow> tv_ref option" where
  "luaH_getnum E t key =
     (let i = word_of_int (key - 1) :: u32 in
      if i < of_nat (length (array t)) then Some (Arr (unat i))
      else
        let nk = cast_num key in
        node_ref (chain_find (\<lambda>n. i_key n = LNumber nk) (node t) (hashnum E (lsizenode t) nk)))"

definition luaH_getstr :: "hash_env \<Rightarrow> hTable \<Rightarrow> string \<Rightarrow> tv_ref option" where
  "luaH_getstr E t key =
     node_ref (chain_find (\<lambda>n. i_key n = LString key) (node t) (hashpow2 (lsizenode t) (str_hash key)))"

definition luaH_getany :: "hash_env \<Rightarrow> hTable \<Rightarrow> lua_value \<Rightarrow> tv_ref option" where
  "luaH_getany E t key =
     node_ref (chain_find (\<lambda>n. luaO_rawequalObj (i_key n) key) (node t) (mainposition E (lsizenode t) key))"

definition luaH_get :: "hash_env \<Rightarrow> hTable \<Rightarrow> lua_value \<Rightarrow> tv_ref option" where
  "luaH_get E t key =
     (case key of
        LNil \<Rightarrow> Some NilObject
      | LString s \<Rightarrow> luaH_getstr E t s
      | LNumber n \<Rightarrow>
          let k = lua_number2int n in
          if cast_num k = n then luaH_getnum E t k else luaH_getany E t key
      | _ \<Rightarrow> luaH_getany E t key)"

section \<open>Traversal\<close>

text \<open>
  \<^verbatim>\<open>findindex\<close>; keys of collected objects (\<^verbatim>\<open>LUA_TDEADKEY\<close>) do not occur without garbage collection.
\<close>

definition findindex :: "hash_env \<Rightarrow> hTable \<Rightarrow> lua_value \<Rightarrow> int res" where
  "findindex E t key =
     (if key = LNil then Some (Inr (-1))
      else
        let i = arrayindex key in
        if 0 < i \<and> i \<le> int (length (array t)) then Some (Inr (i - 1))
        else case chain_find (\<lambda>n. luaO_rawequalObj (i_key n) key) (node t) (mainposition E (lsizenode t) key) of
          None \<Rightarrow> None
        | Some None \<Rightarrow> Some (Inl (Run_error (''invalid key to '' @ [CHR 0x27] @ ''next'' @ [CHR 0x27])))
        | Some (Some j) \<Rightarrow> Some (Inr (int j + int (length (array t)))))"

text \<open>The two loops of \<^verbatim>\<open>luaH_next\<close>, over the remaining slots of the array part and the remaining nodes.\<close>

fun next_array :: "nat \<Rightarrow> lua_value list \<Rightarrow> (lua_value \<times> lua_value) option" where
  "next_array i [] = None"
| "next_array i (v # vs) = (if v \<noteq> LNil then Some (LNumber (cast_num (int (i + 1))), v) else next_array (i + 1) vs)"

fun next_node :: "Node list \<Rightarrow> (lua_value \<times> lua_value) option" where
  "next_node [] = None"
| "next_node (n # ns) = (if i_val n \<noteq> LNil then Some (i_key n, i_val n) else next_node ns)"

definition luaH_next :: "hash_env \<Rightarrow> hTable \<Rightarrow> lua_value \<Rightarrow> (lua_value \<times> lua_value) option res" where
  "luaH_next E t key =
     rbind (findindex E t key) (\<lambda>i.
     let i = nat (i + 1) in
     Some (Inr (case next_array i (drop i (array t)) of
       Some kv \<Rightarrow> Some kv
     | None \<Rightarrow> next_node (drop (i - length (array t)) (node t)))))"

section \<open>Rehash\<close>

text \<open>
  \<^verbatim>\<open>computesizes\<close>: \<open>i\<close> and \<open>2 ^ i\<close> run together. The result is the number of elements that go to
  the array part and its size.
\<close>

function computesizes_loop :: "nat list \<Rightarrow> nat \<Rightarrow> nat \<Rightarrow> nat \<Rightarrow> nat \<Rightarrow> nat \<Rightarrow> nat \<times> nat" where
  "computesizes_loop nums narray i a na n =
     (let twotoi = 2 ^ i in
      if twotoi div 2 < narray then
        let (a, na, n) =
          (if 0 < nums ! i then
             let a = a + nums ! i in
             if twotoi div 2 < a then (a, a, twotoi) else (a, na, n)
           else (a, na, n)) in
        if a = narray then (na, n) else computesizes_loop nums narray (i + 1) a na n
      else (na, n))"
  by pat_completeness auto
termination
proof (relation "measure (\<lambda>(nums, narray, i, a, na, n). narray + 1 - i)", goal_cases)
  case (2 nums narray i a na n twotoi)
  have "i \<le> narray"
  proof (cases i)
    case (Suc j)
    have "2 ^ j < narray" using 2(1,2) Suc by simp
    then have "j < narray" using less_exp less_trans by blast
    then show ?thesis using Suc by simp
  qed simp
  then show ?case by simp
qed simp

declare computesizes_loop.simps [simp del]

definition computesizes :: "nat list \<Rightarrow> nat \<Rightarrow> nat \<times> nat" where
  "computesizes nums narray = computesizes_loop nums narray 0 0 0 0"

definition countint :: "lua_value \<Rightarrow> nat list \<Rightarrow> nat \<times> nat list" where
  "countint key nums =
     (let k = arrayindex key in
      if 0 < k \<and> k \<le> int MAXASIZE then
        let i = ceillog2 (nat k) in (1, nums[i := nums ! i + 1])
      else (0, nums))"

text \<open>Elements in use among the array slots \<open>i\<close> to \<open>lm\<close>, counted from 1.\<close>

definition count_slice :: "lua_value list \<Rightarrow> nat \<Rightarrow> nat \<Rightarrow> nat" where
  "count_slice a i lm = length (filter (\<lambda>j. a ! (j - 1) \<noteq> LNil) [i..<lm + 1])"

function numusearray_loop :: "lua_value list \<Rightarrow> nat \<Rightarrow> nat \<Rightarrow> nat list \<Rightarrow> nat \<Rightarrow> nat \<times> nat list" where
  "numusearray_loop arr lg i nums ause =
     (if lg \<le> MAXBITS then
        let ttlg = 2 ^ lg; lm = (if length arr < ttlg then length arr else ttlg) in
        if length arr < ttlg \<and> lm < i then (ause, nums)
        else
          let lc = count_slice arr i lm in
          numusearray_loop arr (lg + 1) (max i (lm + 1)) (nums[lg := nums ! lg + lc]) (ause + lc)
      else (ause, nums))"
  by pat_completeness auto
termination by (relation "measure (\<lambda>(arr, lg, i, nums, ause). MAXBITS + 1 - lg)") auto

declare numusearray_loop.simps [simp del]

definition numusearray :: "hTable \<Rightarrow> nat list \<Rightarrow> nat \<times> nat list" where
  "numusearray t nums = numusearray_loop (array t) 0 1 nums 0"

text \<open>The nodes are visited from the last one down; results are \<open>totaluse\<close>, \<open>ause\<close> and \<open>nums\<close>.\<close>

fun numusehash_loop :: "Node list \<Rightarrow> nat list \<Rightarrow> nat \<times> nat \<times> nat list" where
  "numusehash_loop [] nums = (0, 0, nums)"
| "numusehash_loop (n # ns) nums =
     (case numusehash_loop ns nums of (totaluse, ause, nums) \<Rightarrow>
      if i_val n \<noteq> LNil then
        case countint (i_key n) nums of (c, nums) \<Rightarrow> (totaluse + 1, ause + c, nums)
      else (totaluse, ause, nums))"

definition numusehash :: "hTable \<Rightarrow> nat list \<Rightarrow> nat \<times> nat \<times> nat list" where
  "numusehash t nums = numusehash_loop (node t) nums"

definition setarrayvector :: "nat \<Rightarrow> hTable \<Rightarrow> hTable" where
  "setarrayvector sz t = t\<lparr>array := take sz (array t) @ replicate (sz - length (array t)) LNil\<rparr>"

definition setnodevector :: "nat \<Rightarrow> hTable \<Rightarrow> hTable res" where
  "setnodevector sz t =
     (if sz = 0 then
        Some (Inr (t\<lparr>node := [dummy_Node], isdummy := True, lsizenode := 0, lastfree := 0\<rparr>))
      else
        let lsize = ceillog2 sz in
        if MAXBITS < lsize then Some (Inl (Run_error ''table overflow''))
        else
          let sz = 2 ^ lsize in
          Some (Inr (t\<lparr>node := replicate sz \<lparr>i_val = LNil, i_key = LNil, nxt = None\<rparr>, isdummy := False,
            lsizenode := lsize, lastfree := int sz\<rparr>)))"

definition luaH_new :: "nat \<Rightarrow> nat \<Rightarrow> hTable res" where
  "luaH_new narray nhash =
     setnodevector nhash (setarrayvector narray
       \<lparr>flags = 255, lsizenode = 0, array = [], node = [dummy_Node], isdummy = True, lastfree = 0\<rparr>)"

function getfreepos_loop :: "Node list \<Rightarrow> int \<Rightarrow> nat option \<times> int" where
  "getfreepos_loop ns lf =
     (if 0 < lf then
        if i_key (ns ! nat (lf - 1)) = LNil then (Some (nat (lf - 1)), lf - 1) else getfreepos_loop ns (lf - 1)
      else (None, lf - 1))"
  by pat_completeness auto
termination by (relation "measure (\<lambda>(ns, lf). nat lf)") auto

declare getfreepos_loop.simps [simp del]

definition getfreepos :: "hTable \<Rightarrow> nat option \<times> hTable" where
  "getfreepos t = (case getfreepos_loop (node t) (lastfree t) of (n, lf) \<Rightarrow> (n, t\<lparr>lastfree := lf\<rparr>))"

section \<open>Insertion\<close>

text \<open>The predecessor of \<open>mp\<close> in the chain from \<open>othern\<close>.\<close>

partial_function (option) find_prev :: "Node list \<Rightarrow> nat \<Rightarrow> nat \<Rightarrow> nat option" where
  "find_prev ns othern mp =
     (case nxt (ns ! othern) of None \<Rightarrow> None
      | Some j \<Rightarrow> if j = mp then Some othern else find_prev ns j mp)"

definition move_colliding :: "nat \<Rightarrow> nat \<Rightarrow> nat \<Rightarrow> Node list \<Rightarrow> Node list" where
  "move_colliding prev mp n ns =
     (let ns = ns[prev := (ns ! prev)\<lparr>nxt := Some n\<rparr>];
          ns = ns[n := ns ! mp]
      in ns[mp := (ns ! mp)\<lparr>nxt := None, i_val := LNil\<rparr>])"

definition chain_free :: "nat \<Rightarrow> nat \<Rightarrow> Node list \<Rightarrow> Node list" where
  "chain_free mp n ns =
     (let ns = ns[n := (ns ! n)\<lparr>nxt := nxt (ns ! mp)\<rparr>]
      in ns[mp := (ns ! mp)\<lparr>nxt := Some n\<rparr>])"

definition put_key :: "nat \<Rightarrow> lua_value \<Rightarrow> Node list \<Rightarrow> Node list" where
  "put_key i key ns = ns[i := (ns ! i)\<lparr>i_key := key\<rparr>]"

text \<open>
  \<^verbatim>\<open>newkey\<close> and the functions it is recursive with; \<open>nk\<close> is \<^verbatim>\<open>newkey\<close> for the calls made from within
  \<^verbatim>\<open>rehash\<close> and after it.
\<close>

type_synonym newkey_t = "hash_env \<Rightarrow> hTable \<Rightarrow> lua_value \<Rightarrow> (tv_ref \<times> hTable) res"

definition luaH_set_with :: "newkey_t \<Rightarrow> newkey_t" where
  "luaH_set_with nk E t key =
     (case luaH_get E t key of None \<Rightarrow> None | Some p \<Rightarrow>
      let t = t\<lparr>flags := 0\<rparr> in
      if p \<noteq> NilObject then Some (Inr (p, t))
      else if key = LNil then Some (Inl (Run_error ''table index is nil''))
      else nk E t key)"

definition luaH_setnum_with :: "newkey_t \<Rightarrow> hash_env \<Rightarrow> hTable \<Rightarrow> int \<Rightarrow> (tv_ref \<times> hTable) res" where
  "luaH_setnum_with nk E t key =
     (case luaH_getnum E t key of None \<Rightarrow> None | Some p \<Rightarrow>
      if p \<noteq> NilObject then Some (Inr (p, t)) else nk E t (LNumber (cast_num key)))"

definition luaH_setstr_with :: "newkey_t \<Rightarrow> hash_env \<Rightarrow> hTable \<Rightarrow> string \<Rightarrow> (tv_ref \<times> hTable) res" where
  "luaH_setstr_with nk E t key =
     (case luaH_getstr E t key of None \<Rightarrow> None | Some p \<Rightarrow>
      if p \<noteq> NilObject then Some (Inr (p, t)) else nk E t (LString key))"

text \<open>Re-insertion of the slots \<open>i\<close>, \<open>i + 1\<close>, \<open>\<dots>\<close> of the vanishing slice, and of the old nodes from the last one down.\<close>

fun reinsert_array :: "newkey_t \<Rightarrow> hash_env \<Rightarrow> nat \<Rightarrow> lua_value list \<Rightarrow> hTable \<Rightarrow> hTable res" where
  "reinsert_array nk E i [] t = Some (Inr t)"
| "reinsert_array nk E i (v # vs) t =
     rbind (if v \<noteq> LNil then rbind (luaH_setnum_with nk E t (int (i + 1))) (\<lambda>(r, t). Some (Inr (setobj r v t))) else Some (Inr t))
       (reinsert_array nk E (i + 1) vs)"

fun reinsert_nodes :: "newkey_t \<Rightarrow> hash_env \<Rightarrow> Node list \<Rightarrow> hTable \<Rightarrow> hTable res" where
  "reinsert_nodes nk E [] t = Some (Inr t)"
| "reinsert_nodes nk E (old # ns) t =
     rbind (if i_val old \<noteq> LNil then rbind (luaH_set_with nk E t (i_key old)) (\<lambda>(r, t). Some (Inr (setobj r (i_val old) t)))
            else Some (Inr t))
       (reinsert_nodes nk E ns)"

definition resize_with :: "newkey_t \<Rightarrow> hash_env \<Rightarrow> hTable \<Rightarrow> nat \<Rightarrow> nat \<Rightarrow> hTable res" where
  "resize_with nk E t nasize nhsize =
     (let oldarray = array t;
          nold = node t;
          t = (if length oldarray < nasize then setarrayvector nasize t else t) in
      rbind (setnodevector nhsize t) (\<lambda>t.
      rbind (if nasize < length oldarray
             then reinsert_array nk E nasize (drop nasize oldarray) (t\<lparr>array := take nasize oldarray\<rparr>)
             else Some (Inr t)) (\<lambda>t.
      reinsert_nodes nk E (rev nold) t)))"

definition rehash_with :: "newkey_t \<Rightarrow> hash_env \<Rightarrow> hTable \<Rightarrow> lua_value \<Rightarrow> hTable res" where
  "rehash_with nk E t ek =
     (let nums = replicate (MAXBITS + 1) 0;
          (nasize, nums) = numusearray t nums;
          totaluse = nasize;
          (tu, au, nums) = numusehash t nums;
          totaluse = totaluse + tu;
          nasize = nasize + au;
          (c, nums) = countint ek nums;
          nasize = nasize + c;
          totaluse = totaluse + 1;
          (na, nasize) = computesizes nums nasize
      in resize_with nk E t nasize (totaluse - na))"

text \<open>\<^verbatim>\<open>newkey\<close>; the first argument bounds the depth of nested calls.\<close>

primrec newkey :: "nat \<Rightarrow> newkey_t" where
  "newkey 0 E t key = None"
| "newkey (Suc k) E t key =
     (let mp = mainposition E (lsizenode t) key in
      if i_val (node t ! mp) \<noteq> LNil \<or> isdummy t then
        (case getfreepos t of
           (None, t) \<Rightarrow> rbind (rehash_with (newkey k) E t key) (\<lambda>t. luaH_set_with (newkey k) E t key)
         | (Some n, t) \<Rightarrow>
             let othern = mainposition E (lsizenode t) (i_key (node t ! mp)) in
             if othern \<noteq> mp then
               (case find_prev (node t) othern mp of
                  None \<Rightarrow> None
                | Some prev \<Rightarrow> Some (Inr (Nod mp, t\<lparr>node := put_key mp key (move_colliding prev mp n (node t))\<rparr>)))
             else Some (Inr (Nod n, t\<lparr>node := put_key n key (chain_free mp n (node t))\<rparr>)))
      else Some (Inr (Nod mp, t\<lparr>node := put_key mp key (node t)\<rparr>)))"

text \<open>Two levels are enough: a rehashed table has room for all its keys and the new one.\<close>

definition luaH_set :: newkey_t where "luaH_set = luaH_set_with (newkey 2)"

definition luaH_setnum :: "hash_env \<Rightarrow> hTable \<Rightarrow> int \<Rightarrow> (tv_ref \<times> hTable) res" where
  "luaH_setnum = luaH_setnum_with (newkey 2)"

definition luaH_setstr :: "hash_env \<Rightarrow> hTable \<Rightarrow> string \<Rightarrow> (tv_ref \<times> hTable) res" where
  "luaH_setstr = luaH_setstr_with (newkey 2)"

definition luaH_resizearray :: "hash_env \<Rightarrow> hTable \<Rightarrow> nat \<Rightarrow> hTable res" where
  "luaH_resizearray E t nasize =
     resize_with (newkey 2) E t nasize (if isdummy t then 0 else sizenode t)"

section \<open>Access from the interface\<close>

text \<open>
  What \<^verbatim>\<open>lua_rawget\<close>, \<^verbatim>\<open>lua_rawgeti\<close>, \<^verbatim>\<open>lua_rawset\<close> and \<^verbatim>\<open>lua_rawseti\<close> do to the table: the value
  is read or assigned through the reference that the table functions return.
\<close>

definition raw_get :: "hash_env \<Rightarrow> hTable \<Rightarrow> lua_value \<Rightarrow> lua_value option" where
  "raw_get E t key = map_option (deref t) (luaH_get E t key)"

definition raw_geti :: "hash_env \<Rightarrow> hTable \<Rightarrow> int \<Rightarrow> lua_value option" where
  "raw_geti E t n = map_option (deref t) (luaH_getnum E t n)"

definition raw_set :: "hash_env \<Rightarrow> hTable \<Rightarrow> lua_value \<Rightarrow> lua_value \<Rightarrow> hTable res" where
  "raw_set E t key v = rbind (luaH_set E t key) (\<lambda>(r, t). Some (Inr (setobj r v t)))"

definition raw_seti :: "hash_env \<Rightarrow> hTable \<Rightarrow> int \<Rightarrow> lua_value \<Rightarrow> hTable res" where
  "raw_seti E t n v = rbind (luaH_setnum E t n) (\<lambda>(r, t). Some (Inr (setobj r v t)))"

text \<open>The entries that \<^verbatim>\<open>lua_next\<close> delivers when it is called with nil and then with each key it returned.\<close>

partial_function (option) traverse :: "hash_env \<Rightarrow> hTable \<Rightarrow> lua_value \<Rightarrow> (lua_value \<times> lua_value) list res" where
  "traverse E t key =
     (case luaH_next E t key of
        None \<Rightarrow> None
      | Some (Inl e) \<Rightarrow> Some (Inl e)
      | Some (Inr None) \<Rightarrow> Some (Inr [])
      | Some (Inr (Some (k, v))) \<Rightarrow>
          Option.bind (traverse E t k) (\<lambda>r. Some (case r of Inl e \<Rightarrow> Inl e | Inr kvs \<Rightarrow> Inr ((k, v) # kvs))))"

end
