(* ===== verification/Ltable_Nodes.thy ===== *)
theory Ltable_Nodes
  imports Ltable
begin

text \<open>
  The node part of a table: the invariant of the chained scatter table and that the three ways in
  which \<^verbatim>\<open>newkey\<close> places a key preserve it. What the proofs need of the hash function is the locale \<open>scatter\<close>:
  main positions are positions of the node vector.
\<close>

section \<open>Links and the invariant\<close>

definition links :: "Node list \<Rightarrow> (nat \<times> nat) set" where
  "links ns = {(i, j). i < length ns \<and> nxt (ns ! i) = Some j}"

abbreviation nkey :: "Node list \<Rightarrow> nat \<Rightarrow> lua_value" where "nkey ns i \<equiv> i_key (ns ! i)"

text \<open>
  Every key is reachable from its main position, and the node there holds a key that is in its own
  main position; chains do not branch backwards and have no cycles; keys are distinct; a node
  without key is empty and not linked.
\<close>

definition chain_inv :: "(lua_value \<Rightarrow> nat) \<Rightarrow> Node list \<Rightarrow> bool" where
  "chain_inv mp ns \<longleftrightarrow>
     (\<forall>i<length ns. nkey ns i = LNil \<longrightarrow> i_val (ns ! i) = LNil \<and> nxt (ns ! i) = None) \<and>
     (\<forall>i j. (i, j) \<in> links ns \<longrightarrow> j < length ns \<and> nkey ns j \<noteq> LNil) \<and>
     (\<forall>i j k. (i, k) \<in> links ns \<longrightarrow> (j, k) \<in> links ns \<longrightarrow> i = j) \<and>
     (\<exists>r :: nat \<Rightarrow> rat. \<forall>i j. (i, j) \<in> links ns \<longrightarrow> r i < r j) \<and>
     (\<forall>i j. i < length ns \<longrightarrow> j < length ns \<longrightarrow> nkey ns i = nkey ns j \<longrightarrow> nkey ns i \<noteq> LNil \<longrightarrow> i = j) \<and>
     (\<forall>i<length ns. nkey ns i \<noteq> LNil \<longrightarrow> (mp (nkey ns i), i) \<in> (links ns)\<^sup>*) \<and>
     (\<forall>i<length ns. nkey ns i \<noteq> LNil \<longrightarrow>
        nkey ns (mp (nkey ns i)) \<noteq> LNil \<and> mp (nkey ns (mp (nkey ns i))) = mp (nkey ns i))"

lemma chain_invI:
  assumes "\<And>i. i < length ns \<Longrightarrow> nkey ns i = LNil \<Longrightarrow> i_val (ns ! i) = LNil \<and> nxt (ns ! i) = None"
    and "\<And>i j. (i, j) \<in> links ns \<Longrightarrow> j < length ns \<and> nkey ns j \<noteq> LNil"
    and "\<And>i j k. (i, k) \<in> links ns \<Longrightarrow> (j, k) \<in> links ns \<Longrightarrow> i = j"
    and "\<And>i j. (i, j) \<in> links ns \<Longrightarrow> r i < (r j :: rat)"
    and "\<And>i j. i < length ns \<Longrightarrow> j < length ns \<Longrightarrow> nkey ns i = nkey ns j \<Longrightarrow> nkey ns i \<noteq> LNil \<Longrightarrow> i = j"
    and "\<And>i. i < length ns \<Longrightarrow> nkey ns i \<noteq> LNil \<Longrightarrow> (mp (nkey ns i), i) \<in> (links ns)\<^sup>*"
    and "\<And>i. i < length ns \<Longrightarrow> nkey ns i \<noteq> LNil \<Longrightarrow>
        nkey ns (mp (nkey ns i)) \<noteq> LNil \<and> mp (nkey ns (mp (nkey ns i))) = mp (nkey ns i)"
  shows "chain_inv mp ns"
  unfolding chain_inv_def
proof (intro conjI)
  show "\<exists>r :: nat \<Rightarrow> rat. \<forall>i j. (i, j) \<in> links ns \<longrightarrow> r i < r j" using assms(4) by blast
qed (use assms(1) in blast, use assms(2) in blast, use assms(3) in blast, use assms(5) in blast, use assms(6) in blast, use assms(7) in blast)

lemma chain_invD:
  assumes "chain_inv mp ns"
  shows chain_nil: "i < length ns \<Longrightarrow> nkey ns i = LNil \<Longrightarrow> i_val (ns ! i) = LNil \<and> nxt (ns ! i) = None"
    and chain_target: "(i, j) \<in> links ns \<Longrightarrow> j < length ns \<and> nkey ns j \<noteq> LNil"
    and chain_inj: "(i, k) \<in> links ns \<Longrightarrow> (j, k) \<in> links ns \<Longrightarrow> i = j"
    and chain_rank: "\<exists>r :: nat \<Rightarrow> rat. \<forall>i j. (i, j) \<in> links ns \<longrightarrow> r i < r j"
    and chain_distinct: "i < length ns \<Longrightarrow> j < length ns \<Longrightarrow> nkey ns i = nkey ns j \<Longrightarrow> nkey ns i \<noteq> LNil \<Longrightarrow> i = j"
    and chain_reach: "i < length ns \<Longrightarrow> nkey ns i \<noteq> LNil \<Longrightarrow> (mp (nkey ns i), i) \<in> (links ns)\<^sup>*"
    and chain_head: "i < length ns \<Longrightarrow> nkey ns i \<noteq> LNil \<Longrightarrow>
        nkey ns (mp (nkey ns i)) \<noteq> LNil \<and> mp (nkey ns (mp (nkey ns i))) = mp (nkey ns i)"
proof -
  note parts = assms [unfolded chain_inv_def]
  show "i < length ns \<Longrightarrow> nkey ns i = LNil \<Longrightarrow> i_val (ns ! i) = LNil \<and> nxt (ns ! i) = None"
    using parts [THEN conjunct1] by blast
  note parts = parts [THEN conjunct2]
  show "(i, j) \<in> links ns \<Longrightarrow> j < length ns \<and> nkey ns j \<noteq> LNil" using parts [THEN conjunct1] by blast
  note parts = parts [THEN conjunct2]
  show "(i, k) \<in> links ns \<Longrightarrow> (j, k) \<in> links ns \<Longrightarrow> i = j" using parts [THEN conjunct1] by blast
  note parts = parts [THEN conjunct2]
  show "\<exists>r :: nat \<Rightarrow> rat. \<forall>i j. (i, j) \<in> links ns \<longrightarrow> r i < r j" by (rule parts [THEN conjunct1])
  note parts = parts [THEN conjunct2]
  show "i < length ns \<Longrightarrow> j < length ns \<Longrightarrow> nkey ns i = nkey ns j \<Longrightarrow> nkey ns i \<noteq> LNil \<Longrightarrow> i = j"
    using parts [THEN conjunct1] by blast
  note parts = parts [THEN conjunct2]
  show "i < length ns \<Longrightarrow> nkey ns i \<noteq> LNil \<Longrightarrow> (mp (nkey ns i), i) \<in> (links ns)\<^sup>*" using parts [THEN conjunct1] by blast
  show "i < length ns \<Longrightarrow> nkey ns i \<noteq> LNil \<Longrightarrow>
      nkey ns (mp (nkey ns i)) \<noteq> LNil \<and> mp (nkey ns (mp (nkey ns i))) = mp (nkey ns i)" using parts [THEN conjunct2] by blast
qed

lemma links_iff: "(i, j) \<in> links ns \<longleftrightarrow> i < length ns \<and> nxt (ns ! i) = Some j"
  by (simp add: links_def)

lemma wf_links:
  assumes "chain_inv mp ns"
  shows "wf ((links ns)\<inverse>)"
proof (rule finite_acyclic_wf)
  have "links ns \<subseteq> {..<length ns} \<times> {..<length ns}" using chain_target [OF assms] by (auto simp: links_iff)
  then show "finite ((links ns)\<inverse>)" using finite_subset by blast
  obtain r :: "nat \<Rightarrow> rat" where "\<forall>i j. (i, j) \<in> links ns \<longrightarrow> r i < r j" using chain_rank [OF assms] by blast
  then show "acyclic ((links ns)\<inverse>)" by (intro acyclicI_order [where f = r]) auto
qed

lemma links_irrefl: "chain_inv mp ns \<Longrightarrow> (i, i) \<notin> links ns"
  using wf_links [of mp ns] by (metis converse_iff wf_irrefl)

section \<open>Searching a chain\<close>

lemma chain_find_spec:
  assumes inv: "chain_inv mp ns" and i: "i < length ns"
  shows "\<exists>r. chain_find P ns i = Some r \<and>
    (case r of None \<Rightarrow> \<forall>j. (i, j) \<in> (links ns)\<^sup>* \<longrightarrow> \<not> P (ns ! j)
     | Some j \<Rightarrow> (i, j) \<in> (links ns)\<^sup>* \<and> j < length ns \<and> P (ns ! j))"
  using i
proof (induction i rule: wf_induct_rule [OF wf_links [OF inv]])
  case (1 i)
  show ?case
  proof (cases "P (ns ! i)")
    case True
    then show ?thesis using 1 by (auto simp: chain_find.simps [of P ns i])
  next
    case False
    show ?thesis
    proof (cases "nxt (ns ! i)")
      case None
      then have "(i, j) \<in> (links ns)\<^sup>* \<Longrightarrow> j = i" for j by (auto elim: converse_rtranclE simp: links_iff)
      then show ?thesis using False None by (auto simp: chain_find.simps [of P ns i])
    next
      case (Some k)
      then have l: "(i, k) \<in> links ns" using 1 by (simp add: links_iff)
      then obtain r where r: "chain_find P ns k = Some r"
        "case r of None \<Rightarrow> \<forall>j. (k, j) \<in> (links ns)\<^sup>* \<longrightarrow> \<not> P (ns ! j)
         | Some j \<Rightarrow> (k, j) \<in> (links ns)\<^sup>* \<and> j < length ns \<and> P (ns ! j)"
        using 1(1) [of k] chain_target [OF inv l] by auto
      have "(i, j) \<in> (links ns)\<^sup>* \<Longrightarrow> j = i \<or> (k, j) \<in> (links ns)\<^sup>*" for j
        using Some by (auto elim: converse_rtranclE simp: links_iff)
      then show ?thesis using r False Some l
        by (auto simp: chain_find.simps [of P ns i] split: option.splits intro: converse_rtrancl_into_rtrancl)
    qed
  qed
qed

lemma find_prev_spec:
  assumes inv: "chain_inv mp ns" and i: "i < length ns" and r: "(i, m) \<in> (links ns)\<^sup>+"
  shows "\<exists>p. find_prev ns i m = Some p \<and> (p, m) \<in> links ns"
  using i r
proof (induction i rule: wf_induct_rule [OF wf_links [OF inv]])
  case (1 i)
  obtain k where k: "(i, k) \<in> links ns" "k = m \<or> (k, m) \<in> (links ns)\<^sup>+"
    using 1(3) by (metis converse_tranclE)
  have n: "nxt (ns ! i) = Some k" using k(1) by (simp add: links_iff)
  show ?case
  proof (cases "k = m")
    case True
    then show ?thesis using n k by (simp add: find_prev.simps [of ns i m])
  next
    case False
    then show ?thesis using 1(1) [of k] k chain_target [OF inv k(1)] n by (auto simp: find_prev.simps [of ns i m])
  qed
qed

section \<open>The contents of the nodes\<close>

definition node_map :: "Node list \<Rightarrow> lua_value \<Rightarrow> lua_value" where
  "node_map ns k = (if k = LNil then LNil else case find (\<lambda>n. i_key n = k) ns of None \<Rightarrow> LNil | Some n \<Rightarrow> i_val n)"

lemma node_map_at:
  assumes "chain_inv mp ns" "i < length ns" "nkey ns i = k" "k \<noteq> LNil"
  shows "node_map ns k = i_val (ns ! i)"
proof -
  have "find (\<lambda>n. i_key n = k) ns \<noteq> None" using nth_mem [OF assms(2)] assms(3) by (auto simp: find_None_iff)
  then obtain n where n: "find (\<lambda>n. i_key n = k) ns = Some n" by blast
  then obtain j where j: "j < length ns" "nkey ns j = k" "n = ns ! j" by (auto simp: find_Some_iff)
  have "i = j" by (rule chain_distinct [OF assms(1)]) (use assms j in simp_all)
  then show ?thesis using n assms(4) j by (simp add: node_map_def)
qed

lemma node_map_absent:
  assumes "\<And>i. i < length ns \<Longrightarrow> nkey ns i \<noteq> k"
  shows "node_map ns k = LNil"
proof -
  have "find (\<lambda>n. i_key n = k) ns = None" using assms by (auto simp: find_None_iff in_set_conv_nth)
  then show ?thesis by (simp add: node_map_def)
qed

text \<open>The entries with a value.\<close>

definition live :: "Node list \<Rightarrow> (lua_value \<times> lua_value) set" where
  "live ns = {(nkey ns i, i_val (ns ! i)) | i. i < length ns \<and> i_val (ns ! i) \<noteq> LNil}"

lemma node_map_live:
  assumes inv: "chain_inv mp ns"
  shows "(k, v) \<in> live ns \<longleftrightarrow> node_map ns k = v \<and> v \<noteq> LNil"
proof
  assume "(k, v) \<in> live ns"
  then obtain i where i: "i < length ns" "nkey ns i = k" "i_val (ns ! i) = v" "v \<noteq> LNil" by (auto simp: live_def)
  then have "k \<noteq> LNil" using chain_nil [OF inv, of i] by auto
  then show "node_map ns k = v \<and> v \<noteq> LNil" using node_map_at [OF inv, of i k] i by simp
next
  assume a: "node_map ns k = v \<and> v \<noteq> LNil"
  then obtain i where "i < length ns" "nkey ns i = k" using node_map_absent [of ns k] by auto
  moreover have "k \<noteq> LNil" using a by (auto simp: node_map_def)
  ultimately show "(k, v) \<in> live ns" using a node_map_at [OF inv, of i k] by (auto simp: live_def)
qed

lemma node_map_eqI:
  assumes "chain_inv mp ns" "chain_inv mp' ns'" "live ns' = live ns"
  shows "node_map ns' = node_map ns"
proof
  fix k
  show "node_map ns' k = node_map ns k"
    using node_map_live [OF assms(1), of k] node_map_live [OF assms(2), of k] assms(3) by (cases "node_map ns k = LNil") metis+
qed

lemma live_subI:
  assumes "\<And>i. i < length ns \<Longrightarrow> i_val (ns ! i) \<noteq> LNil \<Longrightarrow>
    f i < length ns' \<and> nkey ns' (f i) = nkey ns i \<and> i_val (ns' ! f i) = i_val (ns ! i)"
  shows "live ns \<subseteq> live ns'"
proof (rule subrelI)
  fix k v assume "(k, v) \<in> live ns"
  then obtain i where "i < length ns" "nkey ns i = k" "i_val (ns ! i) = v" "v \<noteq> LNil" by (auto simp: live_def)
  then show "(k, v) \<in> live ns'" using assms [of i] by (auto simp: live_def intro!: exI [of _ "f i"])
qed

section \<open>Placing a key\<close>

lemma length_put_key [simp]: "length (put_key i k ns) = length ns"
  by (simp add: put_key_def)

lemma length_chain_free [simp]: "length (chain_free m f ns) = length ns"
  by (simp add: chain_free_def Let_def)

lemma length_move_colliding [simp]: "length (move_colliding p m f ns) = length ns"
  by (simp add: move_colliding_def Let_def)

lemma put_key_nth:
  assumes "m < length ns"
  shows "nkey (put_key m k ns) i = (if i = m then k else nkey ns i)" "i_val (put_key m k ns ! i) = i_val (ns ! i)"
    "nxt (put_key m k ns ! i) = nxt (ns ! i)"
  using assms by (auto simp: put_key_def nth_list_update)

lemma chain_free_nth:
  assumes "m < length ns" "f < length ns" "f \<noteq> m"
  shows "nkey (put_key f k (chain_free m f ns)) i = (if i = f then k else nkey ns i)"
    "i_val (put_key f k (chain_free m f ns) ! i) = i_val (ns ! i)"
    "nxt (put_key f k (chain_free m f ns) ! i) = (if i = f then nxt (ns ! m) else if i = m then Some f else nxt (ns ! i))"
  using assms by (auto simp: put_key_def chain_free_def Let_def nth_list_update)

lemma move_colliding_nth:
  assumes "m < length ns" "f < length ns" "p < length ns" "f \<noteq> m" "p \<noteq> m" "p \<noteq> f"
  shows "nkey (put_key m k (move_colliding p m f ns)) i = (if i = m then k else if i = f then nkey ns m else nkey ns i)"
    "i_val (put_key m k (move_colliding p m f ns) ! i) = (if i = m then LNil else if i = f then i_val (ns ! m) else i_val (ns ! i))"
    "nxt (put_key m k (move_colliding p m f ns) ! i) =
       (if i = m then None else if i = f then nxt (ns ! m) else if i = p then Some f else nxt (ns ! i))"
  using assms by (auto simp: put_key_def move_colliding_def Let_def nth_list_update)

locale scatter =
  fixes mp :: "lua_value \<Rightarrow> nat" and n :: nat
  assumes mp_less: "mp k < n"
begin

lemma find_key:
  assumes "chain_inv mp ns" "length ns = n" "k \<noteq> LNil"
  shows "i < n \<Longrightarrow> nkey ns i = k \<Longrightarrow> chain_find (\<lambda>n. i_key n = k) ns (mp k) = Some (Some i)"
    and "(\<And>i. i < n \<Longrightarrow> nkey ns i \<noteq> k) \<Longrightarrow> chain_find (\<lambda>n. i_key n = k) ns (mp k) = Some None"
proof -
  obtain r where r: "chain_find (\<lambda>n. i_key n = k) ns (mp k) = Some r"
    "case r of None \<Rightarrow> \<forall>j. (mp k, j) \<in> (links ns)\<^sup>* \<longrightarrow> nkey ns j \<noteq> k
     | Some j \<Rightarrow> (mp k, j) \<in> (links ns)\<^sup>* \<and> j < length ns \<and> nkey ns j = k"
    using chain_find_spec [OF assms(1), of "mp k" "\<lambda>n. i_key n = k"] mp_less assms by auto
  show "i < n \<Longrightarrow> nkey ns i = k \<Longrightarrow> chain_find (\<lambda>n. i_key n = k) ns (mp k) = Some (Some i)"
  proof -
    assume i: "i < n" "nkey ns i = k"
    then have "(mp k, i) \<in> (links ns)\<^sup>*" using chain_reach [OF assms(1), of i] assms by simp
    then obtain j where j: "r = Some j" "j < length ns" "nkey ns j = k" using r(2) i by (cases r) auto
    have "i = j" by (rule chain_distinct [OF assms(1)]) (use assms i j in simp_all)
    then show ?thesis using r(1) j by simp
  qed
  show "(\<And>i. i < n \<Longrightarrow> nkey ns i \<noteq> k) \<Longrightarrow> chain_find (\<lambda>n. i_key n = k) ns (mp k) = Some None"
    using r assms(2) by (cases r) auto
qed

lemma put_key_inv:
  assumes inv: "chain_inv mp ns" and len: "length ns = n" and k: "k \<noteq> LNil"
    and new: "\<And>i. i < n \<Longrightarrow> nkey ns i \<noteq> k" and v: "i_val (ns ! mp k) = LNil"
  shows "chain_inv mp (put_key (mp k) k ns)"
proof -
  let ?m = "mp k"
  let ?ns = "put_key ?m k ns"
  have m: "?m < length ns" using mp_less len by simp
  note [simp] = put_key_nth [OF m]
  have l [simp]: "links ?ns = links ns" by (simp add: links_def)
  obtain r :: "nat \<Rightarrow> rat" where r: "\<forall>i j. (i, j) \<in> links ns \<longrightarrow> r i < r j" using chain_rank [OF inv] by blast
  show ?thesis
  proof (rule chain_invI [where r = r])
    fix i j assume "i < length ?ns" "j < length ?ns" "nkey ?ns i = nkey ?ns j" "nkey ?ns i \<noteq> LNil"
    then show "i = j" using new [of i] new [of j] len chain_distinct [OF inv, of i j] by (auto split: if_splits)
  next
    fix i assume "i < length ?ns" "nkey ?ns i \<noteq> LNil"
    then show "(mp (nkey ?ns i), i) \<in> (links ?ns)\<^sup>*" using chain_reach [OF inv, of i] by auto
  next
    fix i assume "i < length ?ns" "nkey ?ns i \<noteq> LNil"
    then show "nkey ?ns (mp (nkey ?ns i)) \<noteq> LNil \<and> mp (nkey ?ns (mp (nkey ?ns i))) = mp (nkey ?ns i)"
      using chain_head [OF inv, of i] k by auto
  qed (use r chain_nil [OF inv] chain_target [OF inv] chain_inj [OF inv] k in \<open>auto split: if_splits\<close>)
qed

lemma chain_free_inv:
  assumes inv: "chain_inv mp ns" and len: "length ns = n" and k: "k \<noteq> LNil"
    and new: "\<And>i. i < n \<Longrightarrow> nkey ns i \<noteq> k" and v: "i_val (ns ! mp k) \<noteq> LNil"
    and f: "f < n" "nkey ns f = LNil" and home: "mp (nkey ns (mp k)) = mp k"
  shows "chain_inv mp (put_key f k (chain_free (mp k) f ns))"
proof -
  let ?m = "mp k"
  let ?ns = "put_key f k (chain_free ?m f ns)"
  have m: "?m < length ns" using mp_less len by simp
  have km: "nkey ns ?m \<noteq> LNil" using chain_nil [OF inv m] v by auto
  have fm: "f \<noteq> ?m" using km f by auto
  have f0: "i_val (ns ! f) = LNil" "nxt (ns ! f) = None" using chain_nil [OF inv, of f] f len by auto
  note [simp] = chain_free_nth [OF m f(1) [folded len] fm]
  have l: "(i, j) \<in> links ?ns \<longleftrightarrow> (if i = f then (?m, j) \<in> links ns else if i = ?m then j = f else (i, j) \<in> links ns)" for i j
    using m f len by (auto simp: links_iff)
  have nof: "(i, f) \<notin> links ns" "(f, i) \<notin> links ns" for i using chain_target [OF inv, of i f] f f0 by (auto simp: links_iff)
  obtain r :: "nat \<Rightarrow> rat" where r: "\<And>i j. (i, j) \<in> links ns \<Longrightarrow> r i < r j" using chain_rank [OF inv] by blast
  define r' where "r' = r(f := case nxt (ns ! ?m) of None \<Rightarrow> r ?m + 1 | Some x \<Rightarrow> (r ?m + r x) / 2)"
  have mono: "(links ns)\<^sup>* \<subseteq> (links ?ns)\<^sup>*"
  proof (rule rtrancl_subset_rtrancl, rule subrelI)
    fix i j assume a: "(i, j) \<in> links ns"
    show "(i, j) \<in> (links ?ns)\<^sup>*"
    proof (cases "i = ?m")
      case True
      have "(?m, f) \<in> links ?ns" "(f, j) \<in> links ?ns" using a True fm by (simp_all add: l)
      then show ?thesis using True by (meson converse_rtrancl_into_rtrancl r_into_rtrancl)
    next
      case False
      then have "(i, j) \<in> links ?ns" using a nof by (auto simp: l)
      then show ?thesis by blast
    qed
  qed
  show ?thesis
  proof (rule chain_invI [where r = r'])
    fix i j assume a: "(i, j) \<in> links ?ns"
    show "j < length ?ns \<and> nkey ?ns j \<noteq> LNil"
      using a chain_target [OF inv, of ?m j] chain_target [OF inv, of i j] f len k by (auto simp: l split: if_splits)
    show "r' i < r' j"
    proof (cases "i = f")
      case True
      then have "nxt (ns ! ?m) = Some j" "j \<noteq> f" using a nof(1) [of ?m] m by (auto simp: l links_iff)
      moreover have "r ?m < r j" using a True r by (simp add: l)
      ultimately show ?thesis using True by (simp add: r'_def)
    next
      case False
      show ?thesis
      proof (cases "i = ?m")
        case True
        then have "j = f" using a False by (simp add: l)
        moreover have "nxt (ns ! ?m) = Some x \<Longrightarrow> r ?m < r x" for x using r m by (simp add: links_iff)
        ultimately show ?thesis using True fm by (auto simp: r'_def split: option.splits)
      next
        case F: False
        then show ?thesis using a False r nof by (auto simp: l r'_def)
      qed
    qed
  next
    fix i j x assume "(i, x) \<in> links ?ns" "(j, x) \<in> links ?ns"
    then show "i = j" using chain_inj [OF inv] nof fm by (auto simp: l split: if_splits)
  next
    fix i j assume "i < length ?ns" "j < length ?ns" "nkey ?ns i = nkey ?ns j" "nkey ?ns i \<noteq> LNil"
    then show "i = j" using new [of i] new [of j] len chain_distinct [OF inv, of i j] by (auto split: if_splits)
  next
    fix i assume a: "i < length ?ns" "nkey ?ns i \<noteq> LNil"
    show "(mp (nkey ?ns i), i) \<in> (links ?ns)\<^sup>*"
    proof (cases "i = f")
      case True
      then show ?thesis using fm by (auto simp: l)
    next
      case False
      then show ?thesis using a chain_reach [OF inv, of i] mono by auto
    qed
    show "nkey ?ns (mp (nkey ?ns i)) \<noteq> LNil \<and> mp (nkey ?ns (mp (nkey ?ns i))) = mp (nkey ?ns i)"
      using a chain_head [OF inv, of i] f km fm home by (auto split: if_splits)
  next
    fix i assume "i < length ?ns" "nkey ?ns i = LNil"
    then show "i_val (?ns ! i) = LNil \<and> nxt (?ns ! i) = None"
      using chain_nil [OF inv, of i] km k by (auto split: if_splits)
  qed
qed

lemma move_colliding_inv:
  assumes inv: "chain_inv mp ns" and len: "length ns = n" and k: "k \<noteq> LNil"
    and new: "\<And>i. i < n \<Longrightarrow> nkey ns i \<noteq> k" and v: "i_val (ns ! mp k) \<noteq> LNil"
    and f: "f < n" "nkey ns f = LNil" and away: "mp (nkey ns (mp k)) \<noteq> mp k" and p: "(p, mp k) \<in> links ns"
  shows "chain_inv mp (put_key (mp k) k (move_colliding p (mp k) f ns))"
proof -
  let ?m = "mp k"
  let ?ns = "put_key ?m k (move_colliding p ?m f ns)"
  define phi where "phi x = (if x = ?m then f else x)" for x
  have m: "?m < length ns" using mp_less len by simp
  have km: "nkey ns ?m \<noteq> LNil" using chain_nil [OF inv m] v by auto
  have fm: "f \<noteq> ?m" using km f by auto
  have f0: "i_val (ns ! f) = LNil" "nxt (ns ! f) = None" using chain_nil [OF inv, of f] f len by auto
  have pp: "p < length ns" "nxt (ns ! p) = Some ?m" using p by (auto simp: links_iff)
  have pm: "p \<noteq> ?m" "p \<noteq> f" using links_irrefl [OF inv] p f0 pp by auto
  note [simp] = move_colliding_nth [OF m f(1) [folded len] pp(1) fm pm]
  have nof: "(i, f) \<notin> links ns" "(f, i) \<notin> links ns" for i using chain_target [OF inv, of i f] f f0 by (auto simp: links_iff)
  have only: "(i, ?m) \<in> links ns \<Longrightarrow> i = p" for i using chain_inj [OF inv] p by blast
  have fwd: "(phi i, phi j) \<in> links ?ns" if "(i, j) \<in> links ns" for i j
  proof (cases "j = ?m")
    case True
    then have "i = p" using only that by simp
    then show ?thesis using True pm pp(1) fm by (simp add: phi_def links_iff)
  next
    case False
    then have "i \<noteq> p" "i < length ns" "nxt (ns ! i) = Some j" using that pp by (auto simp: links_iff)
    then show ?thesis using False nof that f len fm by (auto simp: phi_def links_iff)
  qed
  have bwd: "\<exists>x y. (x, y) \<in> links ns \<and> i = phi x \<and> j = phi y" if a: "(i, j) \<in> links ?ns" for i j
  proof -
    have i: "i < length ns" "i \<noteq> ?m" using a by (auto simp: links_iff split: if_splits)
    consider "i = f" "nxt (ns ! ?m) = Some j" | "i = p" "i \<noteq> f" "j = f" | "i \<noteq> f" "i \<noteq> p" "nxt (ns ! i) = Some j"
      using a i by (auto simp: links_iff split: if_splits)
    then show ?thesis
    proof cases
      case 1
      then have l: "(?m, j) \<in> links ns" using m by (simp add: links_iff)
      then have "j \<noteq> ?m" using links_irrefl [OF inv] by auto
      then show ?thesis using l 1 by (auto simp: phi_def)
    next
      case 2
      then show ?thesis using p pm by (auto simp: phi_def)
    next
      case 3
      then have l: "(i, j) \<in> links ns" using i by (simp add: links_iff)
      then have "j \<noteq> ?m" using only 3 by auto
      then show ?thesis using l i by (auto simp: phi_def)
    qed
  qed
  have inj: "phi x = phi y \<Longrightarrow> x \<noteq> f \<Longrightarrow> y \<noteq> f \<Longrightarrow> x = y" for x y by (auto simp: phi_def split: if_splits)
  have walk: "(phi i, phi j) \<in> (links ?ns)\<^sup>*" if "(i, j) \<in> (links ns)\<^sup>*" for i j
    using that by (induction rule: rtrancl_induct) (auto dest: fwd intro: rtrancl_into_rtrancl)
  obtain r :: "nat \<Rightarrow> rat" where r: "\<And>i j. (i, j) \<in> links ns \<Longrightarrow> r i < r j" using chain_rank [OF inv] by blast
  have head: "mp (nkey ns i) \<noteq> ?m \<and> mp (nkey ns i) \<noteq> f" if "i < length ns" "nkey ns i \<noteq> LNil" for i
    using chain_head [OF inv that] away f by auto
  show ?thesis
  proof (rule chain_invI [where r = "r(f := r ?m)"])
    fix i j assume a: "(i, j) \<in> links ?ns"
    obtain x y where xy: "(x, y) \<in> links ns" "i = phi x" "j = phi y" using bwd [OF a] by blast
    have ne: "x \<noteq> f" "y \<noteq> f" using xy nof by auto
    show "j < length ?ns \<and> nkey ?ns j \<noteq> LNil"
      using chain_target [OF inv xy(1)] xy(3) ne(2) f len km by (auto simp: phi_def)
    show "(r(f := r ?m)) i < (r(f := r ?m)) j" using r [OF xy(1)] xy ne by (auto simp: phi_def)
  next
    fix i j x assume a: "(i, x) \<in> links ?ns" "(j, x) \<in> links ?ns"
    obtain i' x' where 1: "(i', x') \<in> links ns" "i = phi i'" "x = phi x'" using bwd [OF a(1)] by blast
    obtain j' y' where 2: "(j', y') \<in> links ns" "j = phi j'" "x = phi y'" using bwd [OF a(2)] by blast
    have "x' = y'" using 1 2 nof inj by metis
    then have "i' = j'" using chain_inj [OF inv] 1 2 by blast
    then show "i = j" using 1 2 by simp
  next
    fix i j assume "i < length ?ns" "j < length ?ns" "nkey ?ns i = nkey ?ns j" "nkey ?ns i \<noteq> LNil"
    then show "i = j" using new [of i] new [of j] new [of ?m] m len chain_distinct [OF inv, of i j] chain_distinct [OF inv, of ?m i]
        chain_distinct [OF inv, of ?m j] by (auto split: if_splits)
  next
    fix i assume a: "i < length ?ns" "nkey ?ns i \<noteq> LNil"
    consider "i = ?m" | "i = f" "i \<noteq> ?m" | "i \<noteq> ?m" "i \<noteq> f" by blast
    then show "(mp (nkey ?ns i), i) \<in> (links ?ns)\<^sup>*"
    proof cases
      case 2
      then show ?thesis using walk [OF chain_reach [OF inv m km]] head [OF m km] by (simp add: phi_def)
    next
      case 3
      then show ?thesis using a walk [OF chain_reach [OF inv, of i]] head [of i] by (simp add: phi_def)
    qed simp
    show "nkey ?ns (mp (nkey ?ns i)) \<noteq> LNil \<and> mp (nkey ?ns (mp (nkey ?ns i))) = mp (nkey ?ns i)"
      using a k chain_head [OF inv m km] chain_head [OF inv, of i] head [OF m km] head [of i] by (auto split: if_splits)
  next
    fix i assume "i < length ?ns" "nkey ?ns i = LNil"
    then show "i_val (?ns ! i) = LNil \<and> nxt (?ns ! i) = None"
      using chain_nil [OF inv, of i] km k pp pm by (auto split: if_splits)
  qed
qed

end

text \<open>None of them changes the entries with a value.\<close>

lemma put_key_live:
  assumes "m < length ns" "i_val (ns ! m) = LNil"
  shows "live (put_key m k ns) = live ns"
  by (intro equalityI live_subI [where f = id]) (use assms in \<open>auto simp: put_key_nth split: if_splits\<close>)

lemma chain_free_live:
  assumes "m < length ns" "f < length ns" "f \<noteq> m" "i_val (ns ! f) = LNil"
  shows "live (put_key f k (chain_free m f ns)) = live ns"
  by (intro equalityI live_subI [where f = id]) (use assms in \<open>auto simp: chain_free_nth split: if_splits\<close>)

lemma move_colliding_live:
  assumes "m < length ns" "f < length ns" "p < length ns" "f \<noteq> m" "p \<noteq> m" "p \<noteq> f" "i_val (ns ! f) = LNil"
  shows "live (put_key m k (move_colliding p m f ns)) = live ns"
proof (intro equalityI)
  show "live ns \<subseteq> live (put_key m k (move_colliding p m f ns))"
    by (rule live_subI [where f = "\<lambda>i. if i = m then f else i"]) (use assms in \<open>auto simp: move_colliding_nth split: if_splits\<close>)
  show "live (put_key m k (move_colliding p m f ns)) \<subseteq> live ns"
    by (rule live_subI [where f = "\<lambda>i. if i = f then m else i"]) (use assms in \<open>auto simp: move_colliding_nth split: if_splits\<close>)
qed

end
