(* ===== verification/Ltable_Map.thy ===== *)
theory Ltable_Map
  imports Ltable_Nodes
begin

unbundle bit_operations_syntax

text \<open>
  The tables of the interpreter as maps: the abstraction \<open>tbl_map\<close> and the invariant \<open>tbl_inv\<close>, lookup
  against the abstraction, and the assignment of a key in a table that has room for it.
\<close>

section \<open>Main positions are positions\<close>

lemma hashpow2_less: "hashpow2 l n < 2 ^ l"
proof -
  have "n AND (2 ^ l - 1) = take_bit l n" by (simp add: take_bit_eq_mask mask_eq_exp_minus_1)
  then have "hashpow2 l n = take_bit l (unat n)" by (simp add: hashpow2_def unsigned_take_bit_eq)
  then show ?thesis by simp
qed

lemma hashmod_less: "hashmod l n < 2 ^ l"
proof (cases "l = 0")
  case True
  then show ?thesis by (simp add: hashmod_def)
next
  case False
  let ?d = "(2 ^ l - 1) OR 1 :: u32"
  have "?d \<noteq> 0" by (metis bit_1_iff bit_or_iff bit_0_eq bot_apply bit_0_eq or_eq_0_iff one_neq_zero)
  then have "unat (n mod ?d) < unat ?d" by (simp add: unat_mod word_unat_eq_iff)
  moreover have "unat ?d < 2 ^ l"
  proof -
    have "?d = mask l OR 1" by (simp add: mask_eq_exp_minus_1)
    also have "\<dots> = mask l" using False by (intro bit_word_eqI) (auto simp: bit_simps)
    finally have "unat ?d = unat (mask l :: u32)" by simp
    also have "\<dots> = take_bit l (unat (- 1 :: u32))" by (metis take_bit_minus_one_eq_mask unsigned_take_bit_eq)
    finally show ?thesis by simp
  qed
  ultimately show ?thesis by (simp add: hashmod_def)
qed

interpretation table_pos: scatter "mainposition E l" "2 ^ l" for E l
  by unfold_locales (auto simp: mainposition_def hashnum_def hashpow2_less hashmod_less split: lua_value.split prod.split)

section \<open>Integer keys\<close>

lemma number2int_of_int: "- (2 ^ 31) \<le> i \<Longrightarrow> i < 2 ^ 31 \<Longrightarrow> lua_number2int (of_int i) = i"
  by (simp add: lua_number2int_def Let_def)

lemma number2int_range: "- (2 ^ 31) \<le> lua_number2int n \<and> lua_number2int n < 2 ^ 31"
  by (auto simp: lua_number2int_def Let_def)

lemma cast_num_int: "- (2 ^ 31) \<le> i \<Longrightarrow> i < 2 ^ 31 \<Longrightarrow> cast_num i = of_int i"
  by (rule cast_num_small) auto

lemma arrayindex_iff:
  assumes "0 < i" "i < 2 ^ 31"
  shows "arrayindex k = i \<longleftrightarrow> k = LNumber (of_int i)"
proof
  assume a: "arrayindex k = i"
  then obtain n where n: "k = LNumber n" "lua_number2int n = i" "cast_num i = n"
    using assms by (auto simp: arrayindex_def Let_def split: lua_value.splits if_splits)
  then show "k = LNumber (of_int i)" using cast_num_int [of i] assms by simp
qed (use assms in \<open>simp add: arrayindex_def number2int_of_int cast_num_int\<close>)

lemma arrayindex_LNumber: "- (2 ^ 31) \<le> i \<Longrightarrow> i < 2 ^ 31 \<Longrightarrow> arrayindex (LNumber (of_int i)) = i"
  by (simp add: arrayindex_def number2int_of_int cast_num_int)

section \<open>The invariant\<close>

text \<open>The slot of the array part for a key.\<close>

definition array_slot :: "hTable \<Rightarrow> lua_value \<Rightarrow> nat option" where
  "array_slot t k = (if 0 < arrayindex k \<and> arrayindex k \<le> int (length (array t)) then Some (nat (arrayindex k) - 1) else None)"

definition tbl_map :: "hTable \<Rightarrow> lua_value \<Rightarrow> lua_value" where
  "tbl_map t k = (case array_slot t k of Some i \<Rightarrow> array t ! i | None \<Rightarrow> node_map (node t) k)"

definition tbl_inv :: "hash_env \<Rightarrow> hTable \<Rightarrow> bool" where
  "tbl_inv E t \<longleftrightarrow>
     length (node t) = 2 ^ lsizenode t \<and> lsizenode t \<le> MAXBITS \<and> length (array t) \<le> MAXASIZE \<and>
     chain_inv (mainposition E (lsizenode t)) (node t) \<and>
     (\<forall>i<length (node t). array_slot t (nkey (node t) i) = None) \<and>
     (if isdummy t then node t = [dummy_Node] \<and> lastfree t \<le> 0
      else lastfree t \<le> 2 ^ lsizenode t \<and> (\<forall>i<length (node t). lastfree t \<le> int i \<longrightarrow> nkey (node t) i \<noteq> LNil))"

lemma tbl_invD:
  assumes "tbl_inv E t"
  shows tbl_len: "length (node t) = 2 ^ lsizenode t" and tbl_lsize: "lsizenode t \<le> MAXBITS" and tbl_alen: "length (array t) \<le> MAXASIZE"
    and tbl_chain: "chain_inv (mainposition E (lsizenode t)) (node t)"
    and tbl_disj: "i < length (node t) \<Longrightarrow> array_slot t (nkey (node t) i) = None"
    and tbl_dummy: "isdummy t \<Longrightarrow> node t = [dummy_Node] \<and> lastfree t \<le> 0"
    and tbl_free: "\<not> isdummy t \<Longrightarrow> lastfree t \<le> int (length (node t))"
    and tbl_used: "\<not> isdummy t \<Longrightarrow> i < length (node t) \<Longrightarrow> lastfree t \<le> int i \<Longrightarrow> nkey (node t) i \<noteq> LNil"
  using assms unfolding tbl_inv_def by (auto split: if_splits)

lemma array_slot_iff:
  assumes "length (array t) \<le> MAXASIZE"
  shows "array_slot t k = Some i \<longleftrightarrow> k = LNumber (of_nat (i + 1)) \<and> i < length (array t)"
proof -
  have m: "int (length (array t)) < 2 ^ 31" using assms by (simp add: MAXASIZE_def MAXBITS_def)
  show ?thesis
  proof
    assume a: "array_slot t k = Some i"
    then have r: "0 < arrayindex k" "arrayindex k \<le> int (length (array t))" "i = nat (arrayindex k) - 1"
      by (auto simp: array_slot_def split: if_splits)
    then have "k = LNumber (of_int (arrayindex k))" using arrayindex_iff [of "arrayindex k" k] m by simp
    moreover have "arrayindex k = int (i + 1)" using r by simp
    ultimately show "k = LNumber (of_nat (i + 1)) \<and> i < length (array t)" using r by (metis of_int_of_nat_eq nat_int Suc_eq_plus1 Suc_le_lessD nat_le_iff of_nat_le_iff)
  next
    assume a: "k = LNumber (of_nat (i + 1)) \<and> i < length (array t)"
    then have "arrayindex k = int (i + 1)" using arrayindex_LNumber [of "int (i + 1)"] m by simp
    then show "array_slot t k = Some i" using a by (auto simp: array_slot_def)
  qed
qed

lemma array_slot_cong: "length (array t) = length (array t') \<Longrightarrow> array_slot t = array_slot t'"
  by (simp add: array_slot_def fun_eq_iff)

section \<open>Lookup\<close>

lemma find_node:
  assumes "tbl_inv E t" "k \<noteq> LNil"
  shows "i < length (node t) \<Longrightarrow> nkey (node t) i = k \<Longrightarrow>
      chain_find (\<lambda>n. i_key n = k) (node t) (mainposition E (lsizenode t) k) = Some (Some i)"
    and "(\<And>i. i < length (node t) \<Longrightarrow> nkey (node t) i \<noteq> k) \<Longrightarrow>
      chain_find (\<lambda>n. i_key n = k) (node t) (mainposition E (lsizenode t) k) = Some None"
  using table_pos.find_key [OF tbl_chain [OF assms(1)] tbl_len [OF assms(1)] assms(2)] tbl_len [OF assms(1)] by simp_all

text \<open>All the search functions look at the array slot of the key, or else for its node from its main position.\<close>

lemma luaH_getnum_eq:
  assumes "length (array t) \<le> MAXASIZE" "- (2 ^ 31) \<le> key" "key < 2 ^ 31"
  defines "k \<equiv> LNumber (of_int key)"
  shows "luaH_getnum E t key = (case array_slot t k of Some i \<Rightarrow> Some (Arr i)
    | None \<Rightarrow> node_ref (chain_find (\<lambda>n. i_key n = k) (node t) (mainposition E (lsizenode t) k)))"
proof -
  let ?w = "word_of_int (key - 1) :: u32"
  define u where "u = unat ?w"
  have m: "length (array t) < 2 ^ 30" using assms(1) by (simp add: MAXASIZE_def MAXBITS_def)
  have l: "?w < of_nat (length (array t)) \<longleftrightarrow> unat ?w < length (array t)" using m by (simp add: word_less_nat_alt unat_of_nat)
  have ai: "arrayindex k = key" using arrayindex_LNumber assms(2,3) by (simp add: k_def)
  have i: "int u = (key - 1) mod 2 ^ 32" unfolding u_def by (simp only: uint_nat [symmetric] uint_word_of_int) simp
  have pos: "u = nat key - 1" if "0 < key"
  proof -
    have "(key - 1) mod 2 ^ 32 = key - 1" using assms(3) that by (intro mod_pos_pos_trivial) auto
    then show ?thesis using i by arith
  qed
  have lt: "u < length (array t) \<longleftrightarrow> 0 < key \<and> key \<le> int (length (array t))"
  proof (cases "0 < key")
    case True
    then show ?thesis using pos by auto
  next
    case False
    have "(key - 1) mod 2 ^ 32 = (key - 1 + 2 ^ 32) mod 2 ^ 32" by (rule mod_add_self2 [symmetric])
    also have "\<dots> = key - 1 + 2 ^ 32" using False assms(2) by (intro mod_pos_pos_trivial) auto
    finally have "2 ^ 30 \<le> int u" using i assms(2) by simp
    then show ?thesis using False m by simp
  qed
  have "luaH_getnum E t key = (if u < length (array t) then Some (Arr u)
      else node_ref (chain_find (\<lambda>n. i_key n = k) (node t) (mainposition E (lsizenode t) k)))"
    using assms(2,3) unfolding luaH_getnum_def Let_def l u_def by (simp add: k_def mainposition_def cast_num_int)
  then show ?thesis using lt pos ai by (auto simp: array_slot_def)
qed

lemma luaH_getstr_eq:
  "luaH_getstr E t s = (case array_slot t (LString s) of Some i \<Rightarrow> Some (Arr i)
    | None \<Rightarrow> node_ref (chain_find (\<lambda>n. i_key n = LString s) (node t) (mainposition E (lsizenode t) (LString s))))"
  by (simp add: luaH_getstr_def array_slot_def arrayindex_def mainposition_def)

lemma luaH_get_eq:
  assumes "length (array t) \<le> MAXASIZE" "k \<noteq> LNil"
  shows "luaH_get E t k = (case array_slot t k of Some i \<Rightarrow> Some (Arr i)
    | None \<Rightarrow> node_ref (chain_find (\<lambda>n. i_key n = k) (node t) (mainposition E (lsizenode t) k)))"
proof -
  have any: "luaH_getany E t k = (case array_slot t k of Some i \<Rightarrow> Some (Arr i)
    | None \<Rightarrow> node_ref (chain_find (\<lambda>n. i_key n = k) (node t) (mainposition E (lsizenode t) k)))" if "arrayindex k = -1"
    using that by (simp add: luaH_getany_def luaO_rawequalObj_def array_slot_def)
  show ?thesis
  proof (cases k)
    case (LNumber n)
    let ?i = "lua_number2int n"
    show ?thesis
    proof (cases "cast_num ?i = n")
      case True
      have n: "of_int ?i = n" using True cast_num_int [of ?i] number2int_range [of n] by simp
      show ?thesis using True luaH_getnum_eq [OF assms(1), of ?i E, unfolded n] number2int_range [of n] LNumber
        unfolding LNumber by (simp add: luaH_get_def Let_def)
    next
      case False
      then show ?thesis using any LNumber by (simp add: luaH_get_def arrayindex_def)
    qed
  next
    case (LString s)
    show ?thesis unfolding LString using luaH_getstr_eq by (simp add: luaH_get_def)
  qed (use any assms in \<open>simp_all add: luaH_get_def arrayindex_def\<close>)
qed

lemma luaH_get_cases:
  assumes "tbl_inv E t" "k \<noteq> LNil"
  obtains (Array) i where "array_slot t k = Some i" "i < length (array t)" "luaH_get E t k = Some (Arr i)"
  | (Node) i where "array_slot t k = None" "i < length (node t)" "nkey (node t) i = k" "luaH_get E t k = Some (Nod i)"
  | (Absent) "array_slot t k = None" "\<And>i. i < length (node t) \<Longrightarrow> nkey (node t) i \<noteq> k" "luaH_get E t k = Some NilObject"
proof (cases "array_slot t k")
  case (Some i)
  moreover have "i < length (array t)" using Some array_slot_iff [OF tbl_alen [OF assms(1)]] by blast
  moreover have "luaH_get E t k = Some (Arr i)" using Some luaH_get_eq [OF tbl_alen [OF assms(1)] assms(2), of E] by simp
  ultimately show thesis by (rule Array)
next
  case None
  show thesis
  proof (cases "\<exists>i<length (node t). nkey (node t) i = k")
    case True
    then obtain i where "i < length (node t)" "nkey (node t) i = k" by blast
    then show thesis using Node None luaH_get_eq [OF tbl_alen [OF assms(1)] assms(2), of E] find_node(1) [OF assms, of i]
      by (simp add: node_ref_def)
  next
    case False
    then show thesis using Absent None luaH_get_eq [OF tbl_alen [OF assms(1)] assms(2), of E] find_node(2) [OF assms]
      by (simp add: node_ref_def)
  qed
qed

lemma luaH_get_map:
  assumes "tbl_inv E t"
  shows "\<exists>r. luaH_get E t k = Some r \<and> deref t r = tbl_map t k"
proof (cases "k = LNil")
  case True
  then show ?thesis by (simp add: luaH_get_def deref_def tbl_map_def array_slot_def arrayindex_def node_map_def)
next
  case False
  show ?thesis
  proof (cases rule: luaH_get_cases [OF assms False])
    case (1 i)
    then show ?thesis by (simp add: deref_def tbl_map_def)
  next
    case (2 i)
    then show ?thesis using node_map_at [OF tbl_chain [OF assms], of i k] False by (simp add: deref_def tbl_map_def)
  next
    case 3
    then show ?thesis using node_map_absent [of "node t" k] by (simp add: deref_def tbl_map_def)
  qed
qed

section \<open>Assignment through a reference\<close>

definition ref_for :: "hTable \<Rightarrow> lua_value \<Rightarrow> tv_ref \<Rightarrow> bool" where
  "ref_for t k r = (case r of NilObject \<Rightarrow> False | Arr i \<Rightarrow> array_slot t k = Some i
     | Nod i \<Rightarrow> i < length (node t) \<and> nkey (node t) i = k \<and> k \<noteq> LNil)"

lemma chain_inv_setval:
  assumes inv: "chain_inv mp ns" and i: "i < length ns" "nkey ns i \<noteq> LNil"
  shows "chain_inv mp (ns[i := (ns ! i)\<lparr>i_val := v\<rparr>])"
proof -
  let ?ns = "ns[i := (ns ! i)\<lparr>i_val := v\<rparr>]"
  have at [simp]: "nkey ?ns j = nkey ns j" "nxt (?ns ! j) = nxt (ns ! j)" for j using i by (simp_all add: nth_list_update)
  have [simp]: "links ?ns = links ns" by (simp add: links_def)
  obtain r :: "nat \<Rightarrow> rat" where r: "\<And>i j. (i, j) \<in> links ns \<Longrightarrow> r i < r j" using chain_rank [OF inv] by blast
  show ?thesis
  proof (rule chain_invI [where r = r])
    fix j assume "j < length ?ns" "nkey ?ns j = LNil"
    then show "i_val (?ns ! j) = LNil \<and> nxt (?ns ! j) = None" using chain_nil [OF inv, of j] i by (cases "j = i") auto
  next
    fix j l assume "(j, l) \<in> links ?ns"
    then show "l < length ?ns \<and> nkey ?ns l \<noteq> LNil" using chain_target [OF inv, of j l] by simp
  next
    fix a b c assume "(a, c) \<in> links ?ns" "(b, c) \<in> links ?ns"
    then show "a = b" using chain_inj [OF inv, of a c b] by simp
  next
    fix a b assume "a < length ?ns" "b < length ?ns" "nkey ?ns a = nkey ?ns b" "nkey ?ns a \<noteq> LNil"
    then show "a = b" using chain_distinct [OF inv, of a b] by simp
  next
    fix a assume "a < length ?ns" "nkey ?ns a \<noteq> LNil"
    then show "(mp (nkey ?ns a), a) \<in> (links ?ns)\<^sup>*" using chain_reach [OF inv, of a] by simp
  next
    fix a assume "a < length ?ns" "nkey ?ns a \<noteq> LNil"
    then show "nkey ?ns (mp (nkey ?ns a)) \<noteq> LNil \<and> mp (nkey ?ns (mp (nkey ?ns a))) = mp (nkey ?ns a)"
      using chain_head [OF inv, of a] by simp
  qed (use r in simp)
qed

lemma setobj_spec:
  assumes inv: "tbl_inv E t" and r: "ref_for t k r"
  shows "tbl_inv E (setobj r v t)" and "tbl_map (setobj r v t) = (tbl_map t)(k := v)"
proof -
  have "tbl_inv E (setobj r v t) \<and> tbl_map (setobj r v t) = (tbl_map t)(k := v)"
  proof (cases r)
    case (Arr i)
    have i: "array_slot t k = Some i" "k = LNumber (of_nat (i + 1))" "i < length (array t)"
      using r Arr array_slot_iff [OF tbl_alen [OF inv]] by (auto simp: ref_for_def)
    let ?t = "t\<lparr>array := (array t)[i := v]\<rparr>"
    have sl: "array_slot ?t = array_slot t" by (rule array_slot_cong) simp
    have "tbl_inv E ?t" using inv by (simp add: tbl_inv_def sl)
    moreover have "tbl_map ?t x = ((tbl_map t)(k := v)) x" for x
    proof (cases "array_slot t x")
      case None
      then show ?thesis using i by (auto simp: tbl_map_def sl)
    next
      case (Some j)
      then have "x = LNumber (of_nat (j + 1))" "j < length (array t)" using array_slot_iff [OF tbl_alen [OF inv]] by auto
      then show ?thesis using Some i by (auto simp: tbl_map_def sl nth_list_update)
    qed
    ultimately show ?thesis using Arr by (auto simp: setobj_def)
  next
    case (Nod i)
    have i: "i < length (node t)" "nkey (node t) i = k" "k \<noteq> LNil" using r Nod by (auto simp: ref_for_def)
    let ?ns = "(node t)[i := (node t ! i)\<lparr>i_val := v\<rparr>]"
    let ?t = "t\<lparr>node := ?ns\<rparr>"
    have sl: "array_slot ?t = array_slot t" by (rule array_slot_cong) simp
    have ch: "chain_inv (mainposition E (lsizenode t)) ?ns" using chain_inv_setval [OF tbl_chain [OF inv]] i by simp
    have at: "nkey ?ns j = nkey (node t) j" for j using i by (simp add: nth_list_update)
    have nd: "\<not> isdummy t" using tbl_dummy [OF inv] i by (auto simp: dummy_Node_def)
    have "tbl_inv E ?t" using inv ch nd by (simp add: tbl_inv_def sl at)
    moreover have "tbl_map ?t x = ((tbl_map t)(k := v)) x" for x
    proof (cases "x = k")
      case True
      have "array_slot t k = None" using tbl_disj [OF inv i(1)] i(2) by simp
      moreover have "node_map ?ns k = v" using node_map_at [OF ch, of i k] i by (simp add: at)
      ultimately show ?thesis using True by (simp add: tbl_map_def sl)
    next
      case False
      have "node_map ?ns x = node_map (node t) x"
      proof (cases "x \<noteq> LNil \<and> (\<exists>j<length (node t). nkey (node t) j = x)")
        case True
        then obtain j where j: "j < length (node t)" "nkey (node t) j = x" "x \<noteq> LNil" by blast
        then have "j \<noteq> i" using False i by auto
        then show ?thesis using node_map_at [OF ch, of j x] node_map_at [OF tbl_chain [OF inv], of j x] j by (simp add: at)
      next
        case F: False
        show ?thesis
        proof (cases "x = LNil")
          case False
          then show ?thesis using node_map_absent [of "node t" x] node_map_absent [of ?ns x] F at by auto
        qed (simp add: node_map_def)
      qed
      then show ?thesis using False by (simp add: tbl_map_def sl split: option.split)
    qed
    ultimately show ?thesis using Nod by (auto simp: setobj_def)
  qed (use r in \<open>simp add: ref_for_def\<close>)
  then show "tbl_inv E (setobj r v t)" "tbl_map (setobj r v t) = (tbl_map t)(k := v)" by auto
qed

section \<open>Placing a key in a table with room\<close>

lemma getfreepos_loop_spec:
  assumes "getfreepos_loop ns lf = (r, lf')"
  shows "case r of None \<Rightarrow> lf' < 0 \<and> (\<forall>i. int i < lf \<longrightarrow> nkey ns i \<noteq> LNil)
    | Some n \<Rightarrow> int n < lf \<and> lf' = int n \<and> nkey ns n = LNil \<and> (\<forall>i. n < i \<longrightarrow> int i < lf \<longrightarrow> nkey ns i \<noteq> LNil)"
  using assms
proof (induction ns lf rule: getfreepos_loop.induct)
  case (1 ns lf)
  show ?case
  proof (cases "0 < lf")
    case True
    show ?thesis
    proof (cases "nkey ns (nat (lf - 1)) = LNil")
      case F: True
      then show ?thesis using True 1(2) by (auto simp: getfreepos_loop.simps [of ns lf])
    next
      case False
      then have g: "getfreepos_loop ns (lf - 1) = (r, lf')" using True 1(2) by (simp add: getfreepos_loop.simps [of ns lf])
      have step: "int i < lf \<longleftrightarrow> int i < lf - 1 \<or> i = nat (lf - 1)" for i using True by auto
      show ?thesis using 1(1) [OF True False g] False step by (cases r) auto
    qed
  next
    case False
    then show ?thesis using 1(2) by (auto simp: getfreepos_loop.simps [of ns lf])
  qed
qed

definition free_nodes :: "hTable \<Rightarrow> nat set" where
  "free_nodes t = {i. i < length (node t) \<and> nkey (node t) i = LNil}"

lemma finite_free_nodes [simp]: "finite (free_nodes t)"
  by (simp add: free_nodes_def)

text \<open>What placing a key does: the node holds the key and no value yet, nothing else changes and at most one free node is used up.\<close>

definition placed :: "hash_env \<Rightarrow> hTable \<Rightarrow> lua_value \<Rightarrow> nat \<Rightarrow> hTable \<Rightarrow> bool" where
  "placed E t k i t' \<longleftrightarrow> tbl_inv E t' \<and> ref_for t' k (Nod i) \<and> tbl_map t' = tbl_map t \<and> array t' = array t \<and> \<not> isdummy t' \<and>
     card (free_nodes t) \<le> Suc (card (free_nodes t'))"

lemma card_le_Suc_if_subset:
  assumes "finite B" "A - {x} \<subseteq> B"
  shows "card A \<le> Suc (card B)"
proof -
  have "card A \<le> Suc (card (A - {x}))" by (metis card_Diff_singleton_if card.infinite diff_le_self le_SucI card_Suc_Diff1 order_refl finite_subset assms finite_Diff2 finite.emptyI finite_insert)
  then show ?thesis using card_mono [OF assms] by linarith
qed

lemma placedI:
  assumes inv: "tbl_inv E t" and nd: "\<not> isdummy t"
    and ns: "length ns = length (node t)" "chain_inv (mainposition E (lsizenode t)) ns" "live ns = live (node t)"
    and keys: "\<And>j. j < length ns \<Longrightarrow> nkey ns j \<noteq> LNil \<Longrightarrow> nkey ns j = k \<or> (\<exists>j'<length ns. nkey ns j = nkey (node t) j')"
    and k: "i < length ns" "nkey ns i = k" "k \<noteq> LNil" "array_slot t k = None"
    and free: "\<And>j. j < length ns \<Longrightarrow> nkey (node t) j = LNil \<Longrightarrow> j \<noteq> x \<Longrightarrow> nkey ns j = LNil"
    and lf: "lf \<le> int (length ns)" "\<And>j. j < length ns \<Longrightarrow> lf \<le> int j \<Longrightarrow> nkey ns j \<noteq> LNil"
  shows "placed E t k i (t\<lparr>lastfree := lf, node := ns\<rparr>)"
proof -
  let ?t = "t\<lparr>lastfree := lf, node := ns\<rparr>"
  have sl: "array_slot ?t = array_slot t" by (rule array_slot_cong) simp
  have "array_slot t (nkey ns j) = None" if "j < length ns" for j
  proof (cases "nkey ns j = LNil")
    case True
    then show ?thesis by (simp add: array_slot_def arrayindex_def)
  next
    case False
    then show ?thesis using keys [OF that] k tbl_disj [OF inv] ns(1) by auto
  qed
  then have "tbl_inv E ?t" using inv nd ns lf by (simp add: tbl_inv_def sl)
  moreover have "tbl_map ?t = tbl_map t"
    using node_map_eqI [OF tbl_chain [OF inv] ns(2,3)] by (simp add: tbl_map_def fun_eq_iff sl split: option.split)
  moreover have "free_nodes t - {x} \<subseteq> free_nodes ?t" using free ns(1) by (auto simp: free_nodes_def)
  then have "card (free_nodes t) \<le> Suc (card (free_nodes ?t))" by (rule card_le_Suc_if_subset [rotated]) simp
  ultimately show ?thesis using k nd by (simp add: placed_def ref_for_def)
qed

text \<open>Either the key is placed, or there was no free node and the table is rehashed.\<close>

lemma newkey_cases:
  assumes inv: "tbl_inv E t" and k: "k \<noteq> LNil" "array_slot t k = None" and new: "\<And>i. i < length (node t) \<Longrightarrow> nkey (node t) i \<noteq> k"
  obtains (Placed) i t' where "newkey (Suc j) E t k = Some (Inr (Nod i, t'))" "placed E t k i t'"
  | (Full) lf where "isdummy t \<or> free_nodes t = {}" "tbl_inv E (t\<lparr>lastfree := lf\<rparr>)"
      "newkey (Suc j) E t k = rbind (rehash_with (newkey j) E (t\<lparr>lastfree := lf\<rparr>) k) (\<lambda>t. luaH_set_with (newkey j) E t k)"
proof -
  let ?mp = "mainposition E (lsizenode t)"
  let ?m = "?mp k"
  note ch = tbl_chain [OF inv] and len = tbl_len [OF inv]
  note new' = new [unfolded len]
  have m: "?m < length (node t)" using table_pos.mp_less len by simp
  show thesis
  proof (cases "i_val (node t ! ?m) = LNil \<and> \<not> isdummy t")
    case True
    let ?ns = "put_key ?m k (node t)"
    have "placed E t k ?m (t\<lparr>lastfree := lastfree t, node := ?ns\<rparr>)"
    proof (rule placedI [where x = ?m])
      show "chain_inv ?mp ?ns" using True by (intro table_pos.put_key_inv [OF ch len k(1) new']) auto
      show "live ?ns = live (node t)" using True m by (intro put_key_live) auto
    qed (use inv True k m tbl_free [OF inv] tbl_used [OF inv] in \<open>auto simp: put_key_nth [OF m] split: if_splits\<close>)
    then show thesis using Placed True by (simp add: Let_def)
  next
    case F: False
    obtain r lf where g: "getfreepos_loop (node t) (lastfree t) = (r, lf)" by (metis surj_pair)
    note gs = getfreepos_loop_spec [OF g]
    have gf: "getfreepos t = (r, t\<lparr>lastfree := lf\<rparr>)" by (simp add: getfreepos_def g)
    show thesis
    proof (cases r)
      case None
      have all: "\<not> isdummy t \<Longrightarrow> i < length (node t) \<Longrightarrow> nkey (node t) i \<noteq> LNil" for i
        using gs None tbl_used [OF inv, of i] by (cases "int i < lastfree t") auto
      have sl: "array_slot (t\<lparr>lastfree := lf\<rparr>) = array_slot t" by (rule array_slot_cong) simp
      have pos: "lf \<le> 2 ^ lsizenode t" using gs None order_trans [of lf 0 "2 ^ lsizenode t"] by simp
      have "tbl_inv E (t\<lparr>lastfree := lf\<rparr>)" using inv all gs None pos by (auto simp: tbl_inv_def sl)
      moreover have "isdummy t \<or> free_nodes t = {}" using all by (auto simp: free_nodes_def)
      moreover have "newkey (Suc j) E t k = rbind (rehash_with (newkey j) E (t\<lparr>lastfree := lf\<rparr>) k) (\<lambda>t. luaH_set_with (newkey j) E t k)"
        using F gf None by (auto simp: Let_def)
      ultimately show thesis using Full by blast
    next
      case (Some f)
      have nd: "\<not> isdummy t" using gs Some tbl_dummy [OF inv] by auto
      have v: "i_val (node t ! ?m) \<noteq> LNil" using F nd by simp
      have f: "f < length (node t)" "nkey (node t) f = LNil" "lf = int f" using gs Some tbl_free [OF inv nd] by auto
      have f0: "i_val (node t ! f) = LNil" using chain_nil [OF ch f(1,2)] by simp
      have km: "nkey (node t) ?m \<noteq> LNil" using chain_nil [OF ch m] v by auto
      have fm: "f \<noteq> ?m" using km f by auto
      have used: "lf \<le> int i \<Longrightarrow> i < length (node t) \<Longrightarrow> i \<noteq> f \<Longrightarrow> nkey (node t) i \<noteq> LNil" for i
        using gs Some f tbl_used [OF inv nd, of i] by (cases "int i < lastfree t") auto
      show thesis
      proof (cases "?mp (nkey (node t) ?m) = ?m")
        case True
        let ?ns = "put_key f k (chain_free ?m f (node t))"
        have "placed E t k f (t\<lparr>lastfree := lf, node := ?ns\<rparr>)"
        proof (rule placedI [where x = f])
          show "chain_inv ?mp ?ns" by (rule table_pos.chain_free_inv [OF ch len k(1) new' v f(1) [unfolded len] f(2) True])
          show "live ?ns = live (node t)" using m f fm f0 by (intro chain_free_live) auto
        qed (use inv nd k m f used in \<open>auto simp: chain_free_nth [OF m f(1) fm] split: if_splits\<close>)
        moreover have "newkey (Suc j) E t k = Some (Inr (Nod f, t\<lparr>lastfree := lf, node := ?ns\<rparr>))"
          using v gf Some True by (simp add: Let_def)
        ultimately show thesis by (intro Placed)
      next
        case False
        have o: "?mp (nkey (node t) ?m) < length (node t)" using table_pos.mp_less len by simp
        have "(?mp (nkey (node t) ?m), ?m) \<in> (links (node t))\<^sup>+"
          using chain_reach [OF ch m km] False by (metis rtranclD)
        then obtain p where p: "find_prev (node t) (?mp (nkey (node t) ?m)) ?m = Some p" "(p, ?m) \<in> links (node t)"
          using find_prev_spec [OF ch o] by blast
        have pl: "p < length (node t)" "nxt (node t ! p) = Some ?m" using p by (auto simp: links_iff)
        have pm: "p \<noteq> ?m" "p \<noteq> f" using links_irrefl [OF ch] p chain_nil [OF ch f(1,2)] pl by auto
        let ?ns = "put_key ?m k (move_colliding p ?m f (node t))"
        have "placed E t k ?m (t\<lparr>lastfree := lf, node := ?ns\<rparr>)"
        proof (rule placedI [where x = f])
          show "chain_inv ?mp ?ns"
            by (rule table_pos.move_colliding_inv [OF ch len k(1) new' v f(1) [unfolded len] f(2) False p(2)])
          show "live ?ns = live (node t)" using m f fm f0 pl pm by (intro move_colliding_live) auto
          fix i assume "i < length ?ns" "nkey ?ns i \<noteq> LNil"
          then show "nkey ?ns i = k \<or> (\<exists>i'<length ?ns. nkey ?ns i = nkey (node t) i')"
            using m by (auto simp: move_colliding_nth [OF m f(1) pl(1) fm pm] split: if_splits)
        qed (use inv nd k m f km used in \<open>auto simp: move_colliding_nth [OF m f(1) pl(1) fm pm] split: if_splits\<close>)
        moreover have "newkey (Suc j) E t k = Some (Inr (Nod ?m, t\<lparr>lastfree := lf, node := ?ns\<rparr>))"
          using v gf Some False p(1) by (simp add: Let_def)
        ultimately show thesis by (intro Placed)
      qed
    qed
  qed
qed

declare newkey.simps(2) [simp del]

section \<open>Assignment in a table with room\<close>

lemma flags_irrelevant [simp]:
  "tbl_inv E (t\<lparr>flags := x\<rparr>) = tbl_inv E t" "tbl_map (t\<lparr>flags := x\<rparr>) = tbl_map t" "array_slot (t\<lparr>flags := x\<rparr>) = array_slot t"
  "luaH_get E (t\<lparr>flags := x\<rparr>) k = luaH_get E t k" "ref_for (t\<lparr>flags := x\<rparr>) k r = ref_for t k r"
proof -
  show sl: "array_slot (t\<lparr>flags := x\<rparr>) = array_slot t" by (rule array_slot_cong) simp
  show "tbl_inv E (t\<lparr>flags := x\<rparr>) = tbl_inv E t" by (simp add: tbl_inv_def sl)
  show "tbl_map (t\<lparr>flags := x\<rparr>) = tbl_map t" by (simp add: tbl_map_def fun_eq_iff sl split: option.split)
  show "luaH_get E (t\<lparr>flags := x\<rparr>) k = luaH_get E t k"
    by (simp add: luaH_get_def luaH_getstr_def luaH_getnum_def luaH_getany_def Let_def split: lua_value.split)
  show "ref_for (t\<lparr>flags := x\<rparr>) k r = ref_for t k r" by (simp add: ref_for_def sl split: tv_ref.split)
qed

definition room :: "hTable \<Rightarrow> nat" where
  "room t = (if isdummy t then 0 else card (free_nodes t))"

lemma room_cong: "node t' = node t \<Longrightarrow> isdummy t' = isdummy t \<Longrightarrow> room t' = room t"
  by (simp add: room_def free_nodes_def)

lemma room_setobj [simp]: "room (setobj r v t) = room t"
proof (cases r)
  case (Nod i)
  have "nkey ((node t)[i := (node t ! i)\<lparr>i_val := v\<rparr>]) j = nkey (node t) j" for j by (cases "i < length (node t)") (auto simp: nth_list_update list_update_beyond)
  then show ?thesis using Nod by (simp add: room_def free_nodes_def setobj_def)
qed (simp_all add: room_def free_nodes_def setobj_def)

lemma length_array_setobj [simp]: "length (array (setobj r v t)) = length (array t)"
  by (cases r) (simp_all add: setobj_def)

text \<open>The part that the assignment functions share.\<close>

definition put_with :: "newkey_t \<Rightarrow> newkey_t" where
  "put_with nk E t k = (case luaH_get E t k of None \<Rightarrow> None | Some p \<Rightarrow>
     if p \<noteq> NilObject then Some (Inr (p, t)) else nk E t k)"

lemma luaH_set_put: "k \<noteq> LNil \<Longrightarrow> luaH_set_with nk E t k = put_with nk E (t\<lparr>flags := 0\<rparr>) k"
  by (simp add: luaH_set_with_def put_with_def Let_def split: option.split)

lemma luaH_setnum_put:
  assumes "length (array t) \<le> MAXASIZE" "- (2 ^ 31) \<le> key" "key < 2 ^ 31"
  shows "luaH_setnum_with nk E t key = put_with nk E t (LNumber (of_int key))"
proof -
  have "luaH_getnum E t key = luaH_get E t (LNumber (of_int key))"
    using luaH_getnum_eq [OF assms, of E] luaH_get_eq [OF assms(1), of "LNumber (of_int key)" E] by simp
  then show ?thesis unfolding luaH_setnum_with_def put_with_def cast_num_int [OF assms(2,3)] by simp
qed

lemma luaH_setstr_put: "luaH_setstr_with nk E t s = put_with nk E t (LString s)"
  by (simp add: luaH_setstr_with_def put_with_def luaH_get_def)

definition assigned :: "hash_env \<Rightarrow> hTable \<Rightarrow> lua_value \<Rightarrow> tv_ref \<Rightarrow> hTable \<Rightarrow> bool" where
  "assigned E t k r t' \<longleftrightarrow> tbl_inv E t' \<and> ref_for t' k r \<and> tbl_map t' = tbl_map t \<and> length (array t') = length (array t) \<and>
     room t \<le> room t' + (if array_slot t k = None then 1 else 0)"

lemma put_cases:
  assumes inv: "tbl_inv E t" and k: "k \<noteq> LNil"
  obtains (Assigned) r t' where "put_with (newkey (Suc j)) E t k = Some (Inr (r, t'))" "assigned E t k r t'"
  | (Full) lf where "room t = 0" "array_slot t k = None" "tbl_inv E (t\<lparr>lastfree := lf\<rparr>)"
      "\<And>i. i < length (node t) \<Longrightarrow> nkey (node t) i \<noteq> k"
      "put_with (newkey (Suc j)) E t k = rbind (rehash_with (newkey j) E (t\<lparr>lastfree := lf\<rparr>) k) (\<lambda>t. luaH_set_with (newkey j) E t k)"
proof (cases rule: luaH_get_cases [OF inv k])
  case (1 i)
  then show thesis using Assigned [of "Arr i" t] inv by (simp add: put_with_def assigned_def ref_for_def)
next
  case (2 i)
  then show thesis using Assigned [of "Nod i" t] inv k by (simp add: put_with_def assigned_def ref_for_def)
next
  case 3
  show thesis
  proof (rule newkey_cases [OF inv k 3(1) 3(2), of j])
    fix i t' assume a: "newkey (Suc j) E t k = Some (Inr (Nod i, t'))" "placed E t k i t'"
    then have "assigned E t k (Nod i) t'" using 3 by (auto simp: placed_def assigned_def room_def)
    then show thesis using Assigned [of "Nod i" t'] a 3 by (simp add: put_with_def)
  next
    fix lf assume "isdummy t \<or> free_nodes t = {}" "tbl_inv E (t\<lparr>lastfree := lf\<rparr>)"
      "newkey (Suc j) E t k = rbind (rehash_with (newkey j) E (t\<lparr>lastfree := lf\<rparr>) k) (\<lambda>t. luaH_set_with (newkey j) E t k)"
    then show thesis using Full 3 by (auto simp: put_with_def room_def)
  qed
qed

lemma put_room:
  assumes "tbl_inv E t" "k \<noteq> LNil" "array_slot t k = None \<Longrightarrow> 0 < room t"
  shows "\<exists>r t'. put_with (newkey (Suc j)) E t k = Some (Inr (r, t')) \<and> assigned E t k r t'"
  by (rule put_cases [OF assms(1,2), of j]) (use assms(3) in auto)

end
