(* ===== verification/Ltable_Resize.thy ===== *)
theory Ltable_Resize
  imports Ltable_Map
begin

text \<open>
  Resizing a table: the entries outside the new array part are inserted again, none is lost, and the new
  node vector has room for as many keys as it was asked for.
\<close>

section \<open>Re-insertion\<close>

fun arr_entries :: "nat \<Rightarrow> lua_value list \<Rightarrow> (lua_value \<times> lua_value) list" where
  "arr_entries i [] = []"
| "arr_entries i (v # vs) = (if v \<noteq> LNil then (LNumber (of_nat (i + 1)), v) # arr_entries (i + 1) vs else arr_entries (i + 1) vs)"

definition node_entries :: "Node list \<Rightarrow> (lua_value \<times> lua_value) list" where
  "node_entries ns = map (\<lambda>n. (i_key n, i_val n)) (filter (\<lambda>n. i_val n \<noteq> LNil) ns)"

abbreviation upds :: "(lua_value \<times> lua_value) list \<Rightarrow> (lua_value \<Rightarrow> lua_value) \<Rightarrow> lua_value \<Rightarrow> lua_value" where
  "upds kvs \<equiv> fold (\<lambda>(k, v) m. m(k := v)) kvs"

abbreviation outside :: "hTable \<Rightarrow> (lua_value \<times> lua_value) list \<Rightarrow> nat" where
  "outside t kvs \<equiv> length (filter (\<lambda>(k, v). array_slot t k = None) kvs)"

definition reinserted :: "hash_env \<Rightarrow> hTable \<Rightarrow> (lua_value \<times> lua_value) list \<Rightarrow> hTable \<Rightarrow> bool" where
  "reinserted E t kvs t' \<longleftrightarrow> tbl_inv E t' \<and> tbl_map t' = upds kvs (tbl_map t) \<and> length (array t') = length (array t) \<and>
     room t \<le> room t' + outside t kvs"

lemma reinserted_step:
  assumes inv: "tbl_inv E t" and k: "k \<noteq> LNil" and out: "outside t ((k, v) # kvs) \<le> room t"
  obtains r t1 where "put_with (newkey (Suc j)) E t k = Some (Inr (r, t1))" "tbl_inv E (setobj r v t1)"
    "outside (setobj r v t1) kvs \<le> room (setobj r v t1)" "length (array (setobj r v t1)) = length (array t)"
    "\<And>t'. reinserted E (setobj r v t1) kvs t' \<Longrightarrow> reinserted E t ((k, v) # kvs) t'"
proof -
  have rm: "array_slot t k = None \<Longrightarrow> 0 < room t" using out by (auto split: if_splits)
  obtain r t1 where a: "put_with (newkey (Suc j)) E t k = Some (Inr (r, t1))" "assigned E t k r t1"
    using put_room [OF inv k rm, of j] by blast
  let ?t = "setobj r v t1"
  have inv1: "tbl_inv E t1" "ref_for t1 k r" "tbl_map t1 = tbl_map t" "length (array t1) = length (array t)"
    "room t \<le> room t1 + (if array_slot t k = None then 1 else 0)"
    using a(2) by (auto simp: assigned_def)
  have sl: "array_slot ?t = array_slot t" by (rule array_slot_cong) (simp add: inv1)
  show thesis
  proof (rule that [OF a(1)])
    show "tbl_inv E ?t" by (rule setobj_spec [OF inv1(1,2)])
    show "outside ?t kvs \<le> room ?t" using out inv1(5) by (auto simp: sl split: if_splits)
    show "length (array ?t) = length (array t)" by (simp add: inv1)
    fix t' assume "reinserted E ?t kvs t'"
    then show "reinserted E t ((k, v) # kvs) t'"
      using setobj_spec(2) [OF inv1(1,2), of v] inv1(3,4,5) by (auto simp: reinserted_def sl split: if_splits)
  qed
qed

lemma reinsert_array_spec:
  assumes "tbl_inv E t" "i + length vs \<le> MAXASIZE" "outside t (arr_entries i vs) \<le> room t"
  shows "\<exists>t'. reinsert_array (newkey (Suc j)) E i vs t = Some (Inr t') \<and> reinserted E t (arr_entries i vs) t'"
  using assms
proof (induction vs arbitrary: i t)
  case Nil
  then show ?case by (simp add: reinserted_def)
next
  case (Cons v vs)
  show ?case
  proof (cases "v = LNil")
    case True
    then show ?thesis using Cons.IH [of t "i + 1"] Cons.prems by simp
  next
    case False
    let ?k = "LNumber (of_nat (i + 1))"
    have out: "outside t ((?k, v) # arr_entries (i + 1) vs) \<le> room t" using Cons.prems(3) False by simp
    obtain r t1 where st: "put_with (newkey (Suc j)) E t ?k = Some (Inr (r, t1))" "tbl_inv E (setobj r v t1)"
      "outside (setobj r v t1) (arr_entries (i + 1) vs) \<le> room (setobj r v t1)" "length (array (setobj r v t1)) = length (array t)"
      "\<And>t'. reinserted E (setobj r v t1) (arr_entries (i + 1) vs) t' \<Longrightarrow> reinserted E t ((?k, v) # arr_entries (i + 1) vs) t'"
      using reinserted_step [OF Cons.prems(1) _ out, of j] by blast
    obtain t' where t': "reinsert_array (newkey (Suc j)) E (i + 1) vs (setobj r v t1) = Some (Inr t')"
      "reinserted E (setobj r v t1) (arr_entries (i + 1) vs) t'"
      using Cons.IH [OF st(2) _ st(3)] Cons.prems(2) by auto
    have "luaH_setnum_with (newkey (Suc j)) E t (int (i + 1)) = Some (Inr (r, t1))"
      using luaH_setnum_put [OF tbl_alen [OF Cons.prems(1)], of "int (i + 1)" "newkey (Suc j)" E] st(1) Cons.prems(2)
      by (simp add: MAXASIZE_def MAXBITS_def)
    then show ?thesis using t' st(5) [OF t'(2)] False by simp
  qed
qed

lemma reinsert_nodes_spec:
  assumes "tbl_inv E t" "\<And>n. n \<in> set ns \<Longrightarrow> i_val n \<noteq> LNil \<Longrightarrow> i_key n \<noteq> LNil" "outside t (node_entries ns) \<le> room t"
  shows "\<exists>t'. reinsert_nodes (newkey (Suc j)) E ns t = Some (Inr t') \<and> reinserted E t (node_entries ns) t'"
  using assms
proof (induction ns arbitrary: t)
  case Nil
  then show ?case by (simp add: reinserted_def node_entries_def)
next
  case (Cons n ns)
  show ?case
  proof (cases "i_val n = LNil")
    case True
    then show ?thesis using Cons.IH [of t] Cons.prems by (simp add: node_entries_def)
  next
    case False
    let ?k = "i_key n" and ?v = "i_val n" and ?t = "t\<lparr>flags := 0\<rparr>"
    have ne: "node_entries (n # ns) = (?k, ?v) # node_entries ns" using False by (simp add: node_entries_def)
    have k: "?k \<noteq> LNil" using Cons.prems(2) [of n] False by simp
    have rm: "room ?t = room t" by (rule room_cong) simp_all
    have out: "outside ?t ((?k, ?v) # node_entries ns) \<le> room ?t" using Cons.prems(3) by (simp add: ne rm)
    obtain r t1 where st: "put_with (newkey (Suc j)) E ?t ?k = Some (Inr (r, t1))" "tbl_inv E (setobj r ?v t1)"
      "outside (setobj r ?v t1) (node_entries ns) \<le> room (setobj r ?v t1)" "length (array (setobj r ?v t1)) = length (array ?t)"
      "\<And>t'. reinserted E (setobj r ?v t1) (node_entries ns) t' \<Longrightarrow> reinserted E ?t ((?k, ?v) # node_entries ns) t'"
      using reinserted_step [OF _ k out, of E j] Cons.prems(1) by auto
    obtain t' where t': "reinsert_nodes (newkey (Suc j)) E ns (setobj r ?v t1) = Some (Inr t')"
      "reinserted E (setobj r ?v t1) (node_entries ns) t'"
      using Cons.IH [OF st(2) _ st(3)] Cons.prems(2) by auto
    have "reinserted E t (node_entries (n # ns)) t'" using st(5) [OF t'(2)] by (simp add: ne reinserted_def rm)
    then show ?thesis using t' False st(1) luaH_set_put [OF k, of "newkey (Suc j)" E t] by simp
  qed
qed

section \<open>Resizing\<close>

lemma distinct_map_filterI:
  assumes "\<And>i j. i < length xs \<Longrightarrow> j < length xs \<Longrightarrow> P (xs ! i) \<Longrightarrow> P (xs ! j) \<Longrightarrow> f (xs ! i) = f (xs ! j) \<Longrightarrow> i = j"
  shows "distinct (map f (filter P xs))"
  using assms
proof (induction xs)
  case (Cons x xs)
  have "distinct (map f (filter P xs))"
  proof (rule Cons.IH)
    fix i j assume "i < length xs" "j < length xs" "P (xs ! i)" "P (xs ! j)" "f (xs ! i) = f (xs ! j)"
    then show "i = j" using Cons.prems [of "Suc i" "Suc j"] by simp
  qed
  moreover have "f x \<notin> f ` {y \<in> set xs. P y}" if "P x"
  proof
    assume "f x \<in> f ` {y \<in> set xs. P y}"
    then obtain j where "j < length xs" "P (xs ! j)" "f x = f (xs ! j)" by (auto simp: in_set_conv_nth)
    then show False using Cons.prems [of 0 "Suc j"] that by simp
  qed
  ultimately show ?case by auto
qed simp

lemma set_arr_entries: "set (arr_entries i vs) = {(LNumber (of_nat (i + j + 1)), vs ! j) | j. j < length vs \<and> vs ! j \<noteq> LNil}"
proof (induction vs arbitrary: i)
  case (Cons v vs)
  have "{(LNumber (of_nat (i + j + 1)), (v # vs) ! j) | j. j < length (v # vs) \<and> (v # vs) ! j \<noteq> LNil} =
      (if v \<noteq> LNil then {(LNumber (of_nat (i + 1)), v)} else {}) \<union>
      {(LNumber (of_nat (Suc i + j + 1)), vs ! j) | j. j < length vs \<and> vs ! j \<noteq> LNil}" (is "?L = ?R")
  proof (intro set_eqI iffI)
    fix x assume "x \<in> ?L"
    then obtain j where "x = (LNumber (of_nat (i + j + 1)), (v # vs) ! j)" "j < length (v # vs)" "(v # vs) ! j \<noteq> LNil" by blast
    then show "x \<in> ?R" by (cases j) auto
  next
    fix x assume "x \<in> ?R"
    then consider "v \<noteq> LNil" "x = (LNumber (of_nat (i + 1)), v)"
      | j where "x = (LNumber (of_nat (Suc i + j + 1)), vs ! j)" "j < length vs" "vs ! j \<noteq> LNil" by (auto split: if_splits)
    then show "x \<in> ?L"
    proof cases
      case 1
      then show ?thesis by (auto intro!: exI [of _ 0])
    next
      case (2 j)
      then show ?thesis by (auto intro!: exI [of _ "Suc j"])
    qed
  qed
  then show ?case using Cons.IH [of "Suc i"] by simp
qed simp

lemma distinct_arr_entries: "distinct (map fst (arr_entries i vs))"
  by (induction vs arbitrary: i) (auto simp: set_arr_entries simp flip: of_nat_Suc of_nat_add)

lemma set_node_entries: "set (node_entries ns) = live ns"
  by (auto simp: node_entries_def live_def in_set_conv_nth)

lemma distinct_node_entries:
  assumes "chain_inv mp ns"
  shows "distinct (map fst (node_entries ns))"
proof -
  have "distinct (map i_key (filter (\<lambda>n. i_val n \<noteq> LNil) ns))"
  proof (rule distinct_map_filterI)
    fix i j assume "i < length ns" "j < length ns" "i_val (ns ! i) \<noteq> LNil" "i_val (ns ! j) \<noteq> LNil" "nkey ns i = nkey ns j"
    then show "i = j" using chain_distinct [OF assms, of i j] chain_nil [OF assms, of i] by auto
  qed
  then show ?thesis by (simp add: node_entries_def comp_def)
qed

lemma upds_agree:
  assumes "\<And>k v. (k, v) \<in> set kvs \<Longrightarrow> v = f k"
  shows "upds kvs m k = (if k \<in> fst ` set kvs then f k else m k)"
  using assms
proof (induction kvs arbitrary: m)
  case (Cons x kvs)
  obtain a b where x: "x = (a, b)" by (cases x)
  have "b = f a" using Cons.prems x by simp
  then show ?case using Cons.IH [of "m(a := b)"] Cons.prems x by auto
qed simp

lemma chain_inv_empty:
  assumes "\<And>i. i < length ns \<Longrightarrow> ns ! i = dummy_Node"
  shows "chain_inv mp ns"
  by (rule chain_invI [where r = "\<lambda>_. 0"]) (use assms in \<open>auto simp: links_iff dummy_Node_def\<close>)

lemma setnodevector_spec:
  assumes "nh < 2 ^ 32"
  obtains (Error) "setnodevector nh t = Some (Inl (Run_error ''table overflow''))" "2 ^ MAXBITS < nh"
  | (Fresh) t' where "setnodevector nh t = Some (Inr t')" "array t' = array t" "node_map (node t') = (\<lambda>_. LNil)" "nh \<le> room t'"
      "\<And>a. length a \<le> MAXASIZE \<Longrightarrow> tbl_inv E (t'\<lparr>array := a\<rparr>)"
proof (cases "nh = 0")
  case True
  let ?t = "t\<lparr>node := [dummy_Node], isdummy := True, lsizenode := 0, lastfree := 0\<rparr>"
  have "tbl_inv E (?t\<lparr>array := a\<rparr>)" if "length a \<le> MAXASIZE" for a
    using that by (auto simp: tbl_inv_def dummy_Node_def array_slot_def arrayindex_def intro!: chain_inv_empty)
  moreover have "node_map (node ?t) = (\<lambda>_. LNil)" by (auto simp: node_map_def dummy_Node_def)
  ultimately show thesis using Fresh [of ?t] True by (simp add: setnodevector_def)
next
  case False
  note cl = ceillog2_le_iff [of nh MAXBITS] ceillog2_bounds(1) [of nh]
  show thesis
  proof (cases "MAXBITS < ceillog2 nh")
    case True
    then show thesis using Error False cl(1) assms by (simp add: setnodevector_def)
  next
    case ok: False
    let ?l = "ceillog2 nh"
    let ?n = "\<lparr>i_val = LNil, i_key = LNil, nxt = None\<rparr> :: Node"
    let ?t = "t\<lparr>node := replicate (2 ^ ?l) ?n, isdummy := False, lsizenode := ?l, lastfree := int (2 ^ ?l)\<rparr>"
    have "tbl_inv E (?t\<lparr>array := a\<rparr>)" if "length a \<le> MAXASIZE" for a
    proof -
      have "chain_inv mp (replicate (2 ^ ?l) ?n)" for mp by (rule chain_inv_empty) (simp add: dummy_Node_def)
      then show ?thesis using that ok by (auto simp: tbl_inv_def array_slot_def arrayindex_def)
    qed
    moreover have "node_map (node ?t) = (\<lambda>_. LNil)"
    proof
      fix k show "node_map (node ?t) k = LNil"
      proof (cases "k = LNil")
        case False
        then show ?thesis by (intro node_map_absent) auto
      qed (simp add: node_map_def)
    qed
    moreover have "nh \<le> room ?t"
    proof -
      have "free_nodes ?t = {..<2 ^ ?l}" by (auto simp: free_nodes_def)
      then show ?thesis using cl(2) False assms by (simp add: room_def)
    qed
    moreover have "setnodevector nh t = Some (Inr ?t)" using ok False by (simp add: setnodevector_def Let_def)
    ultimately show thesis using Fresh [of ?t] by simp
  qed
qed

text \<open>The keys with a value that have no place in an array part of size \<open>n\<close>.\<close>

definition out_keys :: "hTable \<Rightarrow> nat \<Rightarrow> lua_value set" where
  "out_keys t n = {k. tbl_map t k \<noteq> LNil \<and> (\<forall>i. 0 < i \<longrightarrow> i \<le> n \<longrightarrow> k \<noteq> LNumber (of_nat i))}"

lemma entries_sound:
  assumes inv: "tbl_inv E t"
  shows "(k, v) \<in> set (arr_entries n (drop n (array t))) \<Longrightarrow> v = tbl_map t k \<and> v \<noteq> LNil \<and> array_slot t k \<noteq> None"
    and "(k, v) \<in> set (node_entries (node t)) \<Longrightarrow> v = tbl_map t k \<and> v \<noteq> LNil \<and> array_slot t k = None"
proof -
  assume "(k, v) \<in> set (arr_entries n (drop n (array t)))"
  then obtain j where j: "k = LNumber (of_nat (n + j + 1))" "v = drop n (array t) ! j" "j < length (drop n (array t))" "v \<noteq> LNil"
    unfolding set_arr_entries by blast
  then have "n + j < length (array t)" by simp
  then have "array_slot t k = Some (n + j)" using array_slot_iff [OF tbl_alen [OF inv], of k "n + j"] j(1) by blast
  then show "v = tbl_map t k \<and> v \<noteq> LNil \<and> array_slot t k \<noteq> None" using j by (simp add: tbl_map_def)
next
  assume "(k, v) \<in> set (node_entries (node t))"
  then have l: "(k, v) \<in> live (node t)" by (simp add: set_node_entries)
  then obtain i where "i < length (node t)" "nkey (node t) i = k" by (auto simp: live_def)
  then have "array_slot t k = None" using tbl_disj [OF inv, of i] by simp
  then show "v = tbl_map t k \<and> v \<noteq> LNil \<and> array_slot t k = None"
    using l node_map_live [OF tbl_chain [OF inv], of k v] by (simp add: tbl_map_def)
qed

lemma entries_complete:
  assumes inv: "tbl_inv E t" and v: "tbl_map t k \<noteq> LNil"
  shows "(\<exists>i. i < n \<and> array_slot t k = Some i) \<or> (k, tbl_map t k) \<in> set (arr_entries n (drop n (array t))) \<or>
    array_slot t k = None \<and> (k, tbl_map t k) \<in> set (node_entries (node t))"
proof (cases "array_slot t k")
  case None
  then have "(k, tbl_map t k) \<in> live (node t)" using node_map_live [OF tbl_chain [OF inv], of k] v by (simp add: tbl_map_def)
  then show ?thesis using None by (simp add: set_node_entries)
next
  case (Some i)
  have i: "k = LNumber (of_nat (i + 1))" "i < length (array t)" using Some array_slot_iff [OF tbl_alen [OF inv]] by auto
  show ?thesis
  proof (cases "i < n")
    case True
    then show ?thesis using Some by simp
  next
    case False
    have "(k, tbl_map t k) \<in> set (arr_entries n (drop n (array t)))"
      unfolding set_arr_entries using False i v Some by (auto simp: tbl_map_def intro!: exI [of _ "i - n"])
    then show ?thesis by simp
  qed
qed

lemma finite_supp:
  assumes "tbl_inv E t"
  shows "finite {k. tbl_map t k \<noteq> LNil}"
proof -
  have "{k. tbl_map t k \<noteq> LNil} \<subseteq> fst ` set (arr_entries 0 (drop 0 (array t))) \<union> fst ` set (node_entries (node t))"
    using entries_complete [OF assms, of _ 0] by force
  then show ?thesis using finite_subset by blast
qed

lemma outside_le:
  assumes "distinct (map fst kvs)" "finite S" "\<And>k v. (k, v) \<in> set kvs \<Longrightarrow> array_slot t k = None \<Longrightarrow> k \<in> S"
  shows "outside t kvs \<le> card S"
proof -
  let ?f = "filter (\<lambda>(k, v). array_slot t k = None) kvs"
  have "outside t kvs = card (set (map fst ?f))"
    using distinct_card [of "map fst ?f"] distinct_map_filter [OF assms(1)] by simp
  also have "\<dots> \<le> card S" using assms(2,3) by (intro card_mono) auto
  finally show ?thesis .
qed

text \<open>The entries that \<^verbatim>\<open>resize\<close> moves: the vanishing slice of the array part, then the nodes.\<close>

definition moved :: "hTable \<Rightarrow> nat \<Rightarrow> (lua_value \<times> lua_value) list" where
  "moved t n = arr_entries n (drop n (array t)) @ node_entries (rev (node t))"

lemma node_entries_rev: "node_entries (rev ns) = rev (node_entries ns)"
  by (simp add: node_entries_def rev_map rev_filter)

lemma moved_sound: "tbl_inv E t \<Longrightarrow> (k, v) \<in> set (moved t n) \<Longrightarrow> v = tbl_map t k \<and> v \<noteq> LNil"
  using entries_sound [of E t k v] by (auto simp: moved_def node_entries_rev)

lemma moved_distinct:
  assumes "tbl_inv E t"
  shows "distinct (map fst (moved t n))"
proof -
  have "fst ` set (arr_entries n (drop n (array t))) \<inter> fst ` set (node_entries (node t)) = {}"
    using entries_sound [OF assms] by fastforce
  then show ?thesis using distinct_arr_entries distinct_node_entries [OF tbl_chain [OF assms]]
    by (simp add: moved_def node_entries_rev rev_map [symmetric])
qed

text \<open>A table whose nodes are empty and whose array part is the old one, cut or extended, to which the moved entries are added.\<close>

lemma moved_restores:
  assumes inv: "tbl_inv E t" and len: "length a = n" "n \<le> MAXASIZE"
    and a: "\<And>i. i < n \<Longrightarrow> a ! i = (if i < length (array t) then array t ! i else LNil)"
    and t0: "array t0 = a" "node_map (node t0) = (\<lambda>_. LNil)"
  shows "upds (moved t n) (tbl_map t0) = tbl_map t"
proof
  fix k
  have s0: "array_slot t0 k = Some i \<longleftrightarrow> k = LNumber (of_nat (i + 1)) \<and> i < n" for i
    using array_slot_iff [of t0 k i] len t0 by simp
  have s: "array_slot t k = Some i \<longleftrightarrow> k = LNumber (of_nat (i + 1)) \<and> i < length (array t)" for i
    by (rule array_slot_iff [OF tbl_alen [OF inv]])
  have "upds (moved t n) (tbl_map t0) k = (if k \<in> fst ` set (moved t n) then tbl_map t k else tbl_map t0 k)"
    using moved_sound [OF inv] by (intro upds_agree) blast
  moreover have "tbl_map t0 k = tbl_map t k" if nk: "k \<notin> fst ` set (moved t n)"
  proof -
    have sm: "tbl_map t k \<noteq> LNil \<Longrightarrow> \<exists>i<n. array_slot t k = Some i"
      using entries_complete [OF inv, of k n] nk by (force simp: moved_def node_entries_rev)
    show ?thesis
    proof (cases "array_slot t0 k")
      case None
      then have "tbl_map t k = LNil" using sm s s0 by force
      then show ?thesis using None t0 by (simp add: tbl_map_def)
    next
      case (Some i)
      then have i: "k = LNumber (of_nat (i + 1))" "i < n" using s0 by auto
      show ?thesis
      proof (cases "i < length (array t)")
        case True
        then have "array_slot t k = Some i" using i s by blast
        then show ?thesis using Some a [OF i(2)] True t0 by (simp add: tbl_map_def)
      next
        case False
        then have "array_slot t k = None" using i s by (cases "array_slot t k") auto
        then have "tbl_map t k = LNil" using sm by force
        then show ?thesis using Some a [OF i(2)] False t0 by (simp add: tbl_map_def)
      qed
    qed
  qed
  ultimately show "upds (moved t n) (tbl_map t0) k = tbl_map t k" by simp
qed

definition resized :: "hash_env \<Rightarrow> hTable \<Rightarrow> nat \<Rightarrow> nat \<Rightarrow> hTable \<Rightarrow> bool" where
  "resized E t n nh t' \<longleftrightarrow> tbl_inv E t' \<and> tbl_map t' = tbl_map t \<and> length (array t') = n \<and> nh \<le> room t' + card (out_keys t n)"

lemma resize_spec:
  assumes inv: "tbl_inv E t" and n: "n \<le> MAXASIZE" and nh: "nh < 2 ^ 32" "card (out_keys t n) \<le> nh"
  obtains (Error) "resize_with (newkey (Suc j)) E t n nh = Some (Inl (Run_error ''table overflow''))" "2 ^ MAXBITS < nh"
  | (Resized) t' where "resize_with (newkey (Suc j)) E t n nh = Some (Inr t')" "resized E t n nh t'"
proof -
  let ?old = "array t"
  let ?t = "if length ?old < n then setarrayvector n t else t"
  show thesis
  proof (cases rule: setnodevector_spec [OF nh(1), where t = ?t and E = E])
    case 1
    then show thesis using Error by (simp add: resize_with_def Let_def)
  next
    case (2 t1)
    let ?A = "arr_entries n (drop n ?old)" and ?N = "node_entries (rev (node t))"
    define t0 where "t0 = (if n < length ?old then t1\<lparr>array := take n ?old\<rparr> else t1)"
    have a0: "length (array t0) = n" "\<And>i. i < n \<Longrightarrow> array t0 ! i = (if i < length ?old then ?old ! i else LNil)"
      using 2(2) by (auto simp: t0_def setarrayvector_def nth_append)
    have nodes0: "node t0 = node t1" "isdummy t0 = isdummy t1" by (simp_all add: t0_def)
    have t0eq: "t0 = t1\<lparr>array := array t0\<rparr>" by (simp add: t0_def)
    have inv0: "tbl_inv E t0" using 2(5) [of "array t0"] a0(1) n t0eq by simp
    have room0: "nh \<le> room t0" using 2(4) room_cong [OF nodes0] by simp
    have fin: "finite (out_keys t n)" by (rule finite_subset [OF _ finite_supp [OF inv]]) (auto simp: out_keys_def)
    have out: "outside t0 (moved t n) \<le> card (out_keys t n)"
    proof (rule outside_le [OF moved_distinct [OF inv] fin])
      fix k v assume a: "(k, v) \<in> set (moved t n)" "array_slot t0 k = None"
      have "k \<noteq> LNumber (of_nat i)" if "0 < i" "i \<le> n" for i
        using a(2) array_slot_iff [of t0 k "i - 1"] that a0(1) n by auto
      then show "k \<in> out_keys t n" using moved_sound [OF inv a(1)] by (auto simp: out_keys_def)
    qed
    have outs: "outside t0 ?A + outside t0 ?N \<le> card (out_keys t n)" using out by (simp add: moved_def)
    have sl: "n + length (drop n ?old) \<le> MAXASIZE" using n tbl_alen [OF inv] by simp
    have "outside t0 ?A \<le> room t0" using outs nh(2) room0 by linarith
    then obtain t2 where t2: "reinsert_array (newkey (Suc j)) E n (drop n ?old) t0 = Some (Inr t2)" "reinserted E t0 ?A t2"
      using reinsert_array_spec [OF inv0 sl, where j = j] by blast
    have i2: "tbl_inv E t2" "tbl_map t2 = upds ?A (tbl_map t0)" "length (array t2) = n" "room t0 \<le> room t2 + outside t0 ?A"
      using t2(2) a0(1) by (auto simp: reinserted_def)
    have sl2: "array_slot t2 = array_slot t0" by (rule array_slot_cong) (simp add: i2 a0)
    have keys: "\<And>m. m \<in> set (rev (node t)) \<Longrightarrow> i_val m \<noteq> LNil \<Longrightarrow> i_key m \<noteq> LNil"
      using chain_nil [OF tbl_chain [OF inv]] by (auto simp: in_set_conv_nth)
    have "outside t2 ?N \<le> room t2" using outs nh(2) room0 i2(4) by (simp add: sl2)
    then obtain t3 where t3: "reinsert_nodes (newkey (Suc j)) E (rev (node t)) t2 = Some (Inr t3)" "reinserted E t2 ?N t3"
      using reinsert_nodes_spec [OF i2(1) keys, where j = j] by blast
    have i3: "tbl_inv E t3" "tbl_map t3 = upds (moved t n) (tbl_map t0)" "length (array t3) = n"
      "room t2 \<le> room t3 + outside t0 ?N" using t3(2) i2(2,3) by (auto simp: reinserted_def sl2 moved_def)
    have "tbl_map t3 = tbl_map t"
      unfolding i3(2) by (rule moved_restores [OF inv a0(1) n a0(2)]) (use 2(3) nodes0 in simp_all)
    then have "resized E t n nh t3" using i3 outs room0 i2(4) by (simp add: resized_def)
    moreover have "resize_with (newkey (Suc j)) E t n nh = Some (Inr t3)"
    proof (cases "n < length ?old")
      case True
      then show ?thesis using 2(1) t2(1) t3(1) by (simp add: resize_with_def Let_def t0_def)
    next
      case False
      then have "t2 = t1" using t2(1) by (simp add: t0_def)
      then show ?thesis using False 2(1) t3(1) by (simp add: resize_with_def Let_def)
    qed
    ultimately show thesis by (rule Resized [rotated])
  qed
qed

end
