(* ===== verification/Ltable_Rehash.thy ===== *)
theory Ltable_Rehash
  imports Ltable_Resize
begin

text \<open>
  Rehashing: the keys are counted by powers of two, the size of the array part follows from the counts,
  and the resized table has room for the key that caused the rehash. So \<^verbatim>\<open>newkey\<close> calls itself at most
  once, and every assignment function returns a reference to the value of its key.
\<close>

section \<open>Counting keys\<close>

lemma ceillog2_MAXBITS: "0 < x \<Longrightarrow> x \<le> MAXASIZE \<Longrightarrow> ceillog2 x \<le> MAXBITS"
  using ceillog2_le_iff [of x MAXBITS] by (simp add: MAXASIZE_def MAXBITS_def)

lemma ceillog2_le_iff': "0 < x \<Longrightarrow> x \<le> MAXASIZE \<Longrightarrow> ceillog2 x \<le> i \<longleftrightarrow> x \<le> 2 ^ i"
  using ceillog2_le_iff [of x i] by (simp add: MAXASIZE_def MAXBITS_def)

definition array_ints :: "lua_value list \<Rightarrow> nat set" where
  "array_ints a = {x. 0 < x \<and> x \<le> length a \<and> a ! (x - 1) \<noteq> LNil}"

lemma finite_array_ints [simp]: "finite (array_ints a)"
  by (rule finite_subset [of _ "{..length a}"]) (auto simp: array_ints_def)

lemma count_slice_card: "count_slice a i lm = card {x. i \<le> x \<and> x \<le> lm \<and> a ! (x - 1) \<noteq> LNil}"
proof -
  have "count_slice a i lm = card (set (filter (\<lambda>j. a ! (j - 1) \<noteq> LNil) [i..<lm + 1]))"
    unfolding count_slice_def by (rule distinct_card [symmetric]) simp
  moreover have "set (filter (\<lambda>j. a ! (j - 1) \<noteq> LNil) [i..<lm + 1]) = {x. i \<le> x \<and> x \<le> lm \<and> a ! (x - 1) \<noteq> LNil}" by auto
  ultimately show ?thesis by simp
qed

lemma numusearray_loop_spec:
  assumes "length a \<le> MAXASIZE" "length nums = MAXBITS + 1" "0 < i"
    "\<And>x. 0 < x \<Longrightarrow> x \<le> length a \<Longrightarrow> i \<le> x \<longleftrightarrow> lg \<le> ceillog2 x" "numusearray_loop a lg i nums ause = (ause', nums')"
  shows "ause' = ause + card {x \<in> array_ints a. lg \<le> ceillog2 x} \<and> length nums' = MAXBITS + 1 \<and>
    (\<forall>l\<le>MAXBITS. nums' ! l = nums ! l + (if lg \<le> l then card {x \<in> array_ints a. ceillog2 x = l} else 0))"
  using assms
proof (induction a lg i nums ause rule: numusearray_loop.induct)
  case (1 a lg i nums ause)
  let ?lm = "if length a < 2 ^ lg then length a else 2 ^ lg"
  consider (End) "MAXBITS < lg" | (Break) "lg \<le> MAXBITS" "length a < 2 ^ lg" "length a < i" | (Step) "lg \<le> MAXBITS" "\<not> (length a < 2 ^ lg \<and> ?lm < i)"
    by (cases "length a < 2 ^ lg"; cases "lg \<le> MAXBITS"; cases "length a < i") (auto simp: not_le)
  then show ?case
  proof cases
    case End
    have "\<not> lg \<le> ceillog2 x" if "x \<in> array_ints a" for x
      using ceillog2_MAXBITS [of x] that 1(2) End by (simp add: array_ints_def)
    then have em: "{x \<in> array_ints a. lg \<le> ceillog2 x} = {}" by blast
    have "numusearray_loop a lg i nums ause = (ause, nums)" using End by (subst numusearray_loop.simps) simp
    then show ?thesis using 1(6) End 1(3) em by simp
  next
    case Break
    have "\<not> lg \<le> ceillog2 x" if "x \<in> array_ints a" for x
      using 1(5) [of x] that Break(3) by (auto simp: array_ints_def)
    then have em: "{x \<in> array_ints a. lg \<le> ceillog2 x} = {}" by blast
    then have "lg \<le> l \<Longrightarrow> {x \<in> array_ints a. ceillog2 x = l} = {}" for l by blast
    moreover have "numusearray_loop a lg i nums ause = (ause, nums)" using Break by (subst numusearray_loop.simps) (simp add: Let_def)
    ultimately show ?thesis using 1(6) em 1(3) by simp
  next
    case Step
    let ?i = "max i (?lm + 1)" and ?c = "count_slice a i ?lm"
    have c: "?c = card {x \<in> array_ints a. ceillog2 x = lg}"
    proof -
      have "{x. i \<le> x \<and> x \<le> ?lm \<and> a ! (x - 1) \<noteq> LNil} = {x \<in> array_ints a. ceillog2 x = lg}"
      proof (intro set_eqI)
        fix x
        show "x \<in> {x. i \<le> x \<and> x \<le> ?lm \<and> a ! (x - 1) \<noteq> LNil} \<longleftrightarrow> x \<in> {x \<in> array_ints a. ceillog2 x = lg}"
        proof (cases "0 < x \<and> x \<le> length a")
          case True
          then have "x \<le> ?lm \<longleftrightarrow> ceillog2 x \<le> lg" using ceillog2_le_iff' [of x lg] 1(2) by auto
          then show ?thesis using 1(5) [of x] True by (auto simp: array_ints_def)
        next
          case False
          then show ?thesis using 1(4) by (auto simp: array_ints_def split: if_splits)
        qed
      qed
      then show ?thesis by (simp add: count_slice_card)
    qed
    have lp: "numusearray_loop a (lg + 1) ?i (nums[lg := nums ! lg + ?c]) (ause + ?c) = (ause', nums')"
      using 1(6) Step by (subst (asm) numusearray_loop.simps) (simp only: Let_def if_True if_False)
    have st: "?i \<le> x \<longleftrightarrow> lg + 1 \<le> ceillog2 x" if "0 < x" "x \<le> length a" for x
      using 1(5) [OF that] ceillog2_le_iff' [of x lg] that 1(2) by auto
    have ih: "ause' = ause + ?c + card {x \<in> array_ints a. lg + 1 \<le> ceillog2 x} \<and> length nums' = MAXBITS + 1 \<and>
        (\<forall>l\<le>MAXBITS. nums' ! l = nums[lg := nums ! lg + ?c] ! l + (if lg + 1 \<le> l then card {x \<in> array_ints a. ceillog2 x = l} else 0))"
      by (rule 1(1) [OF Step(1) refl refl Step(2) refl 1(2) _ _ st lp]) (use 1(3) in simp_all)
    have "{x \<in> array_ints a. lg \<le> ceillog2 x} = {x \<in> array_ints a. ceillog2 x = lg} \<union> {x \<in> array_ints a. lg + 1 \<le> ceillog2 x}" by auto
    then have "card {x \<in> array_ints a. lg \<le> ceillog2 x} = ?c + card {x \<in> array_ints a. lg + 1 \<le> ceillog2 x}"
      unfolding c by (simp add: card_Un_disjoint [symmetric] disjoint_iff)
    moreover have "lg \<le> l \<longleftrightarrow> l = lg \<or> lg + 1 \<le> l" for l by auto
    ultimately show ?thesis using ih c 1(3) Step(1) by (simp add: nth_list_update)
  qed
qed

lemma numusearray_spec:
  assumes "length (array t) \<le> MAXASIZE" "length nums = MAXBITS + 1"
  obtains nums' where "numusearray t nums = (card (array_ints (array t)), nums')" "length nums' = MAXBITS + 1"
    "\<And>l. l \<le> MAXBITS \<Longrightarrow> nums' ! l = nums ! l + card {x \<in> array_ints (array t). ceillog2 x = l}"
proof -
  obtain a nums' where l: "numusearray_loop (array t) 0 1 nums 0 = (a, nums')" by (metis surj_pair)
  show thesis using numusearray_loop_spec [OF assms(1) assms(2) _ _ l] that [of nums'] l by (auto simp: numusearray_def)
qed

definition key_ints :: "lua_value set \<Rightarrow> nat set" where
  "key_ints K = {x. 0 < x \<and> x \<le> MAXASIZE \<and> LNumber (of_nat x) \<in> K}"

lemma finite_key_ints [simp]: "finite (key_ints K)"
  by (rule finite_subset [of _ "{..MAXASIZE}"]) (auto simp: key_ints_def)

lemma key_ints_range: "x \<in> key_ints K \<Longrightarrow> 0 < x \<and> x \<le> MAXASIZE"
  by (simp add: key_ints_def)

lemma key_ints_insert:
  "key_ints (insert k K) = (if \<exists>x. 0 < x \<and> x \<le> MAXASIZE \<and> k = LNumber (of_nat x) then insert (nat (arrayindex k)) (key_ints K) else key_ints K)"
proof -
  have "nat (arrayindex (LNumber (of_nat x))) = x" if "0 < x" "x \<le> MAXASIZE" for x
    using arrayindex_LNumber [of "int x"] that by (simp add: MAXASIZE_def MAXBITS_def)
  then show ?thesis by (auto simp: key_ints_def)
qed

lemma countint_spec:
  assumes "length nums = MAXBITS + 1" "k \<notin> K" "\<And>l. l \<le> MAXBITS \<Longrightarrow> nums ! l = b l + card {x \<in> key_ints K. ceillog2 x = l}"
  obtains c nums' where "countint k nums = (c, nums')" "length nums' = MAXBITS + 1" "card (key_ints (insert k K)) = card (key_ints K) + c"
    "\<And>l. l \<le> MAXBITS \<Longrightarrow> nums' ! l = b l + card {x \<in> key_ints (insert k K). ceillog2 x = l}"
proof (cases "\<exists>x. 0 < x \<and> x \<le> MAXASIZE \<and> k = LNumber (of_nat x)")
  case True
  then obtain x where x: "0 < x" "x \<le> MAXASIZE" "k = LNumber (of_nat x)" by blast
  have ix: "arrayindex k = int x" using arrayindex_LNumber [of "int x"] x by (simp add: MAXASIZE_def MAXBITS_def)
  have ki: "key_ints (insert k K) = insert x (key_ints K)" using True ix by (simp add: key_ints_insert)
  have nx: "x \<notin> key_ints K" using assms(2) x by (simp add: key_ints_def)
  have cl: "ceillog2 x \<le> MAXBITS" using ceillog2_MAXBITS x by simp
  have "{y \<in> insert x (key_ints K). ceillog2 y = l} = (if l = ceillog2 x then insert x {y \<in> key_ints K. ceillog2 y = l} else {y \<in> key_ints K. ceillog2 y = l})" for l
    by auto
  then have "card {y \<in> insert x (key_ints K). ceillog2 y = l} = card {y \<in> key_ints K. ceillog2 y = l} + (if l = ceillog2 x then 1 else 0)" for l
    using nx by simp
  then show thesis using assms(1,3) cl ix x nx ki
    by (intro that [of 1 "nums[ceillog2 x := nums ! ceillog2 x + 1]"]) (auto simp: countint_def Let_def nth_list_update)
next
  case False
  have "\<not> (0 < arrayindex k \<and> arrayindex k \<le> int MAXASIZE)"
  proof
    assume a: "0 < arrayindex k \<and> arrayindex k \<le> int MAXASIZE"
    then have "arrayindex k < 2 ^ 31" by (simp add: MAXASIZE_def MAXBITS_def)
    then have "k = LNumber (of_int (arrayindex k))" using arrayindex_iff [of "arrayindex k" k] a by simp
    then have "k = LNumber (of_nat (nat (arrayindex k)))" using a by simp
    then show False using False a by (metis nat_le_iff zero_less_nat_eq)
  qed
  then show thesis using False assms by (intro that [of 0 nums]) (auto simp: countint_def Let_def key_ints_insert)
qed

lemma numusehash_loop_spec:
  assumes "distinct (map fst (node_entries ns))" "length nums = MAXBITS + 1"
  shows "\<exists>nums'. numusehash_loop ns nums = (length (node_entries ns), card (key_ints (fst ` set (node_entries ns))), nums') \<and>
    length nums' = MAXBITS + 1 \<and> (\<forall>l\<le>MAXBITS. nums' ! l = nums ! l + card {x \<in> key_ints (fst ` set (node_entries ns)). ceillog2 x = l})"
  using assms
proof (induction ns)
  case Nil
  then show ?case by (simp add: node_entries_def key_ints_def)
next
  case (Cons n ns)
  let ?K = "fst ` set (node_entries ns)"
  have d: "distinct (map fst (node_entries ns))" using Cons.prems(1) by (simp add: node_entries_def split: if_splits)
  obtain nums1 where ih: "numusehash_loop ns nums = (length (node_entries ns), card (key_ints ?K), nums1)" "length nums1 = MAXBITS + 1"
    "\<And>l. l \<le> MAXBITS \<Longrightarrow> nums1 ! l = nums ! l + card {x \<in> key_ints ?K. ceillog2 x = l}"
    using Cons.IH [OF d Cons.prems(2)] by blast
  show ?case
  proof (cases "i_val n = LNil")
    case True
    then have "node_entries (n # ns) = node_entries ns" by (simp add: node_entries_def)
    then show ?thesis using ih True by simp
  next
    case False
    then have ne: "node_entries (n # ns) = (i_key n, i_val n) # node_entries ns" by (simp add: node_entries_def)
    then have "i_key n \<notin> ?K" using Cons.prems(1) by simp
    then obtain c nums' where c: "countint (i_key n) nums1 = (c, nums')" "length nums' = MAXBITS + 1"
      "card (key_ints (insert (i_key n) ?K)) = card (key_ints ?K) + c"
      "\<And>l. l \<le> MAXBITS \<Longrightarrow> nums' ! l = nums ! l + card {x \<in> key_ints (insert (i_key n) ?K). ceillog2 x = l}"
      using countint_spec [OF ih(2) _ ih(3), of "i_key n"] by blast
    then show ?thesis using ih(1) False by (simp add: ne)
  qed
qed

section \<open>The size of the array part\<close>

lemma computesizes_loop_spec:
  assumes "S \<subseteq> {1..MAXASIZE}" "\<And>l. l \<le> MAXBITS \<Longrightarrow> nums ! l = card {x \<in> S. ceillog2 x = l}"
    "a = card {x \<in> S. ceillog2 x < i}" "na = card {x \<in> S. x \<le> n}" "n \<le> MAXASIZE"
    "computesizes_loop nums (card S) i a na n = (na', n')"
  shows "na' = card {x \<in> S. x \<le> n'} \<and> n' \<le> MAXASIZE"
  using assms
proof (induction nums "card S" i a na n rule: computesizes_loop.induct)
  case (1 nums i a na n)
  have fin: "finite S" using 1(2) finite_subset by blast
  show ?case
  proof (cases "2 ^ i div 2 < card S")
    case True
    have "card S \<le> 2 ^ MAXBITS" using card_mono [OF _ 1(2)] by (simp add: MAXASIZE_def)
    then have i: "i \<le> MAXBITS"
    proof (cases i)
      case (Suc j)
      then have "2 ^ j < card S" using True by simp
      then have "(2::nat) ^ j < 2 ^ MAXBITS" using \<open>card S \<le> 2 ^ MAXBITS\<close> by (rule less_le_trans)
      then have "j < MAXBITS" by (rule power_less_imp_less_exp [rotated]) simp
      then show ?thesis using Suc by simp
    qed simp
    let ?a = "a + nums ! i"
    have "{x \<in> S. ceillog2 x < i + 1} = {x \<in> S. ceillog2 x < i} \<union> {x \<in> S. ceillog2 x = i}" by auto
    then have a: "?a = card {x \<in> S. ceillog2 x < i + 1}"
      using fin 1(3) [OF i] 1(4) by (simp add: card_Un_disjoint [symmetric] disjoint_iff)
    have "{x \<in> S. ceillog2 x < i + 1} = {x \<in> S. x \<le> 2 ^ i}" using ceillog2_le_iff' [of _ i] 1(2) by (force simp: less_Suc_eq_le)
    then have a2: "?a = card {x \<in> S. x \<le> 2 ^ i}" using a by simp
    have m: "2 ^ i \<le> MAXASIZE" unfolding MAXASIZE_def using i by (intro power_increasing) simp_all
    let ?p = "if 0 < nums ! i \<and> 2 ^ i div 2 < ?a then (?a, 2 ^ i) else (na, n)"
    obtain na1 n1 where p: "?p = (na1, n1)" by (metis surj_pair)
    have p1: "na1 = card {x \<in> S. x \<le> n1}" "n1 \<le> MAXASIZE" using p a2 m 1(5,6) by (auto split: if_splits)
    have tup: "(if 0 < nums ! i then let a = a + nums ! i in if 2 ^ i div 2 < a then (a, a, 2 ^ i) else (a, na, n) else (a, na, n)) = (?a, na1, n1)"
      using p by (auto simp: Let_def split: if_splits)
    have eq: "computesizes_loop nums (card S) i a na n = (if ?a = card S then (na1, n1) else computesizes_loop nums (card S) (i + 1) ?a na1 n1)"
      unfolding computesizes_loop.simps [of nums "card S" i] using True tup by (simp only: Let_def if_True prod.case)
    show ?thesis
    proof (cases "?a = card S")
      case True
      then show ?thesis using eq 1(7) p1 by simp
    next
      case False
      show ?thesis
        by (rule 1(1) [OF refl True refl tup [symmetric] refl False 1(2,3) a p1]) (use eq False 1(7) in simp_all)
    qed
  next
    case False
    then show ?thesis using 1(5-7) by (auto simp: computesizes_loop.simps [of nums "card S" i])
  qed
qed

section \<open>Rehashing\<close>

lemma card_supp:
  assumes inv: "tbl_inv E t"
  shows "card {k. tbl_map t k \<noteq> LNil} = card (array_ints (array t)) + length (node_entries (node t))"
proof -
  have s: "{k. tbl_map t k \<noteq> LNil} = fst ` set (moved t 0)"
  proof (intro set_eqI iffI)
    fix k assume "k \<in> {k. tbl_map t k \<noteq> LNil}"
    then show "k \<in> fst ` set (moved t 0)" using entries_complete [OF inv, of k 0] by (force simp: moved_def node_entries_rev)
  next
    fix k assume "k \<in> fst ` set (moved t 0)"
    then show "k \<in> {k. tbl_map t k \<noteq> LNil}" using moved_sound [OF inv] by fastforce
  qed
  have "card (fst ` set (moved t 0)) = length (moved t 0)" using distinct_card [OF moved_distinct [OF inv, of 0]] by simp
  moreover have "length (arr_entries 0 (array t)) = card (array_ints (array t))"
  proof -
    have "fst ` set (arr_entries 0 (array t)) = (\<lambda>x. LNumber (of_nat x)) ` array_ints (array t)" (is "?L = ?R")
    proof (intro set_eqI iffI)
      fix k assume "k \<in> ?L"
      then obtain j where "k = LNumber (of_nat (j + 1))" "j < length (array t)" "array t ! j \<noteq> LNil" by (auto simp: set_arr_entries)
      then show "k \<in> ?R" by (intro image_eqI [of _ _ "j + 1"]) (simp_all add: array_ints_def)
    next
      fix k assume "k \<in> ?R"
      then obtain x where x: "k = LNumber (of_nat x)" "0 < x" "x \<le> length (array t)" "array t ! (x - 1) \<noteq> LNil" by (auto simp: array_ints_def)
      then have "(k, array t ! (x - 1)) \<in> set (arr_entries 0 (array t))" unfolding set_arr_entries by (auto intro: exI [of _ "x - 1"])
      then show "k \<in> ?L" by force
    qed
    moreover have "inj_on (\<lambda>x. LNumber (of_nat x)) (array_ints (array t))" by (rule inj_onI) simp
    ultimately show ?thesis using distinct_card [OF distinct_arr_entries [of 0 "array t"]] by (simp add: card_image)
  qed
  ultimately show ?thesis unfolding s by (simp add: moved_def node_entries_rev)
qed

lemma out_keys_card:
  assumes inv: "tbl_inv E t" and ek: "tbl_map t ek = LNil" and n: "n \<le> MAXASIZE"
  shows "card (out_keys t n) + (if \<exists>i. 0 < i \<and> i \<le> n \<and> ek = LNumber (of_nat i) then 0 else 1) =
    card {k. tbl_map t k \<noteq> LNil} + 1 - card {x \<in> key_ints (insert ek {k. tbl_map t k \<noteq> LNil}). x \<le> n}"
proof -
  let ?K = "insert ek {k. tbl_map t k \<noteq> LNil}" and ?in = "\<lambda>k. \<exists>i. 0 < i \<and> i \<le> n \<and> k = LNumber (of_nat i)"
  have fin: "finite ?K" using finite_supp [OF inv] by simp
  have cK: "card ?K = card {k. tbl_map t k \<noteq> LNil} + 1" using ek finite_supp [OF inv] by simp
  have "{k \<in> ?K. ?in k} = (\<lambda>x. LNumber (of_nat x)) ` {x \<in> key_ints ?K. x \<le> n}" using n by (auto simp: key_ints_def)
  moreover have "inj_on (\<lambda>x. LNumber (of_nat x)) {x \<in> key_ints ?K. x \<le> n}" by (rule inj_onI) simp
  ultimately have ci: "card {k \<in> ?K. ?in k} = card {x \<in> key_ints ?K. x \<le> n}" by (simp add: card_image)
  have o: "?K - {k \<in> ?K. ?in k} = (if ?in ek then out_keys t n else insert ek (out_keys t n))" by (auto simp: out_keys_def)
  have "ek \<notin> out_keys t n" "finite (out_keys t n)" using ek fin by (auto simp: out_keys_def)
  then have "card (?K - {k \<in> ?K. ?in k}) = card (out_keys t n) + (if ?in ek then 0 else 1)" unfolding o by (cases "?in ek") (simp_all only: if_True if_False card_insert_disjoint, simp_all)
  moreover have "card (?K - {k \<in> ?K. ?in k}) = card ?K - card {k \<in> ?K. ?in k}" using fin by (intro card_Diff_subset) auto
  ultimately show ?thesis using cK ci by linarith
qed

lemma key_ints_split:
  assumes inv: "tbl_inv E t" and ek: "array_slot t ek = None"
  shows "key_ints (insert ek {k. tbl_map t k \<noteq> LNil}) = array_ints (array t) \<union> key_ints (insert ek (fst ` set (node_entries (node t))))"
    and "array_ints (array t) \<inter> key_ints (insert ek (fst ` set (node_entries (node t)))) = {}"
proof -
  let ?N = "fst ` set (node_entries (node t))"
  note alen = tbl_alen [OF inv]
  have slot: "array_slot t (LNumber (of_nat x)) = Some (x - 1)" if "0 < x" "x \<le> length (array t)" for x
    using that array_slot_iff [OF alen, of "LNumber (of_nat x)" "x - 1"] by simp
  have N: "array_slot t k = None" if k: "k \<in> insert ek ?N" for k
  proof (cases "k = ek")
    case False
    then obtain v where "(k, v) \<in> set (node_entries (node t))" using k by auto
    then show ?thesis using entries_sound(2) [OF inv, of k v] by simp
  qed (use ek in simp)
  have A: "LNumber (of_nat x) \<notin> insert ek ?N" if "x \<in> array_ints (array t)" for x
    using N [of "LNumber (of_nat x)"] slot [of x] that by (auto simp: array_ints_def)
  then show "array_ints (array t) \<inter> key_ints (insert ek ?N) = {}" by (auto simp: key_ints_def)
  have mem: "tbl_map t (LNumber (of_nat x)) \<noteq> LNil \<longleftrightarrow> x \<in> array_ints (array t) \<or> LNumber (of_nat x) \<in> ?N" if x: "0 < x" for x
  proof (cases "x \<le> length (array t)")
    case True
    have "LNumber (of_nat x) \<notin> ?N" using slot [OF x True] N [of "LNumber (of_nat x)"] by auto
    then show ?thesis using slot [OF x True] True x by (simp add: tbl_map_def array_ints_def)
  next
    case False
    have none: "array_slot t (LNumber (of_nat x)) = None"
    proof (cases "array_slot t (LNumber (of_nat x))")
      case (Some i)
      then have "(of_nat x :: rat) = of_nat (i + 1)" "i < length (array t)" using array_slot_iff [OF alen, of "LNumber (of_nat x)" i] by blast+
      then show ?thesis using False by (simp only: of_nat_eq_iff)
    qed
    have "(LNumber (of_nat x), tbl_map t (LNumber (of_nat x))) \<in> set (node_entries (node t))" if "tbl_map t (LNumber (of_nat x)) \<noteq> LNil"
      using entries_complete [OF inv that, of 0] entries_sound(1) [OF inv, of "LNumber (of_nat x)" "tbl_map t (LNumber (of_nat x))" 0] none by auto
    moreover have "tbl_map t (LNumber (of_nat x)) \<noteq> LNil" if xN: "LNumber (of_nat x) \<in> ?N"
    proof -
      obtain v where "(LNumber (of_nat x), v) \<in> set (node_entries (node t))" using xN by auto
      then show ?thesis using entries_sound(2) [OF inv, of "LNumber (of_nat x)" v] by auto
    qed
    ultimately show ?thesis using False by (auto simp: array_ints_def intro: rev_image_eqI)
  qed
  show "key_ints (insert ek {k. tbl_map t k \<noteq> LNil}) = array_ints (array t) \<union> key_ints (insert ek ?N)"
  proof (rule set_eqI)
    fix x
    have "x \<in> array_ints (array t) \<Longrightarrow> 0 < x \<and> x \<le> MAXASIZE" using alen by (simp add: array_ints_def)
    then show "x \<in> key_ints (insert ek {k. tbl_map t k \<noteq> LNil}) \<longleftrightarrow> x \<in> array_ints (array t) \<union> key_ints (insert ek ?N)"
      using mem [of x] by (auto simp: key_ints_def)
  qed
qed

lemma rehash_counts:
  assumes inv: "tbl_inv E t" and ek: "tbl_map t ek = LNil" "array_slot t ek = None"
  defines "K \<equiv> insert ek {k. tbl_map t k \<noteq> LNil}"
  obtains n where "n \<le> MAXASIZE"
    "rehash_with nk E t ek = resize_with nk E t n (card {k. tbl_map t k \<noteq> LNil} + 1 - card {x \<in> key_ints K. x \<le> n})"
proof -
  let ?A = "array_ints (array t)" and ?N = "fst ` set (node_entries (node t))"
  let ?L = "length (node_entries (node t))"
  obtain nums1 where a: "numusearray t (replicate (MAXBITS + 1) 0) = (card ?A, nums1)" "length nums1 = MAXBITS + 1"
    "\<And>l. l \<le> MAXBITS \<Longrightarrow> nums1 ! l = replicate (MAXBITS + 1) 0 ! l + card {x \<in> ?A. ceillog2 x = l}"
    using numusearray_spec [OF tbl_alen [OF inv] length_replicate] by blast
  have a0: "nums1 ! l = card {x \<in> ?A. ceillog2 x = l}" if "l \<le> MAXBITS" for l
    unfolding a(3) [OF that] using that by (simp add: nth_replicate del: replicate.simps replicate_Suc)
  obtain nums2 where h: "numusehash t nums1 = (?L, card (key_ints ?N), nums2)" "length nums2 = MAXBITS + 1"
    "\<And>l. l \<le> MAXBITS \<Longrightarrow> nums2 ! l = card {x \<in> ?A. ceillog2 x = l} + card {x \<in> key_ints ?N. ceillog2 x = l}"
    using numusehash_loop_spec [OF distinct_node_entries [OF tbl_chain [OF inv]] a(2)] a0 by (auto simp: numusehash_def)
  have "ek \<notin> ?N" using entries_sound(2) [OF inv] ek(1) by fastforce
  then obtain c nums3 where c: "countint ek nums2 = (c, nums3)" "length nums3 = MAXBITS + 1"
    "card (key_ints (insert ek ?N)) = card (key_ints ?N) + c"
    "\<And>l. l \<le> MAXBITS \<Longrightarrow> nums3 ! l = card {x \<in> ?A. ceillog2 x = l} + card {x \<in> key_ints (insert ek ?N). ceillog2 x = l}"
    using countint_spec [OF h(2) _ h(3), of ek] by blast
  note sp = key_ints_split [OF inv ek(2), folded K_def]
  have cS: "card ?A + card (key_ints ?N) + c = card (key_ints K)"
    unfolding sp(1) using c(3) sp(2) by (simp add: card_Un_disjoint)
  have nums: "nums3 ! l = card {x \<in> key_ints K. ceillog2 x = l}" if "l \<le> MAXBITS" for l
  proof -
    have "{x \<in> key_ints K. ceillog2 x = l} = {x \<in> ?A. ceillog2 x = l} \<union> {x \<in> key_ints (insert ek ?N). ceillog2 x = l}"
      unfolding sp(1) by blast
    moreover have "{x \<in> ?A. ceillog2 x = l} \<inter> {x \<in> key_ints (insert ek ?N). ceillog2 x = l} = {}" using sp(2) by blast
    ultimately show ?thesis using c(4) [OF that] by (simp add: card_Un_disjoint)
  qed
  obtain na n where cs: "computesizes_loop nums3 (card (key_ints K)) 0 0 0 0 = (na, n)" by (metis surj_pair)
  have "na = card {x \<in> key_ints K. x \<le> n} \<and> n \<le> MAXASIZE"
    by (rule computesizes_loop_spec [OF _ nums _ _ _ cs]) (auto dest: key_ints_range)
  moreover have "rehash_with nk E t ek = resize_with nk E t n (card ?A + ?L + 1 - na)"
    using a(1) h(1) c(1) cS cs by (simp add: rehash_with_def computesizes_def)
  ultimately show thesis using card_supp [OF inv] that [of n] by simp
qed

lemma rehash_spec:
  assumes inv: "tbl_inv E t" and ek: "tbl_map t ek = LNil" "array_slot t ek = None"
  obtains (Error) "rehash_with (newkey (Suc j)) E t ek = Some (Inl (Run_error ''table overflow''))" "2 ^ MAXBITS \<le> card {k. tbl_map t k \<noteq> LNil}"
  | (Room) t' where "rehash_with (newkey (Suc j)) E t ek = Some (Inr t')" "tbl_inv E t'" "tbl_map t' = tbl_map t"
      "array_slot t' ek = None \<Longrightarrow> 0 < room t'"
proof -
  let ?S = "{k. tbl_map t k \<noteq> LNil}"
  obtain n where n: "n \<le> MAXASIZE"
    and rh: "rehash_with (newkey (Suc j)) E t ek = resize_with (newkey (Suc j)) E t n (card ?S + 1 - card {x \<in> key_ints (insert ek ?S). x \<le> n})"
    using rehash_counts [OF inv ek] by blast
  let ?nh = "card ?S + 1 - card {x \<in> key_ints (insert ek ?S). x \<le> n}"
  have oc: "card (out_keys t n) + (if \<exists>i. 0 < i \<and> i \<le> n \<and> ek = LNumber (of_nat i) then 0 else 1) = ?nh" by (rule out_keys_card [OF inv ek(1) n])
  have "card (array_ints (array t)) \<le> MAXASIZE"
  proof -
    have "array_ints (array t) \<subseteq> {1..length (array t)}" by (auto simp: array_ints_def)
    then have "card (array_ints (array t)) \<le> length (array t)" using card_mono [of "{1..length (array t)}"] by fastforce
    then show ?thesis using tbl_alen [OF inv] by simp
  qed
  moreover have "length (node_entries (node t)) \<le> 2 ^ MAXBITS"
  proof -
    have "length (node_entries (node t)) \<le> 2 ^ lsizenode t" using tbl_len [OF inv] by (simp add: node_entries_def) (metis length_filter_le)
    moreover have "(2::nat) ^ lsizenode t \<le> 2 ^ MAXBITS" using tbl_lsize [OF inv] by (intro power_increasing) simp_all
    ultimately show ?thesis by (rule le_trans)
  qed
  ultimately have lt: "?nh < 2 ^ 32" using card_supp [OF inv] by (simp add: MAXASIZE_def MAXBITS_def)
  have le: "card (out_keys t n) \<le> ?nh" using oc by linarith
  show thesis
  proof (cases rule: resize_spec [OF inv n lt le, of j])
    case 1
    then show ?thesis using rh that(1) by simp
  next
    case (2 t')
    have "0 < room t'" if "array_slot t' ek = None"
    proof -
      have "\<not> (\<exists>i. 0 < i \<and> i \<le> n \<and> ek = LNumber (of_nat i))"
      proof
        assume "\<exists>i. 0 < i \<and> i \<le> n \<and> ek = LNumber (of_nat i)"
        then obtain i where i: "0 < i" "i \<le> n" "ek = LNumber (of_nat i)" by blast
        have "array_slot t' ek = Some (i - 1)" using array_slot_iff [of t' ek "i - 1"] 2(2) i n by (simp add: resized_def)
        then show False using that by simp
      qed
      then have "card (out_keys t n) + 1 = ?nh" using oc by (simp only: if_False)
      then show ?thesis using 2(2) unfolding resized_def by linarith
    qed
    then show ?thesis using rh 2 that(2) [of t'] by (simp add: resized_def)
  qed
qed

section \<open>Assignment\<close>

abbreviation supp :: "hTable \<Rightarrow> lua_value set" where
  "supp t \<equiv> {k. tbl_map t k \<noteq> LNil}"

text \<open>
  What the assignment functions give for a key that is not nil: a reference to the value of the key in a
  table with the same contents, or the error of a table with more than \<open>2 ^ MAXBITS\<close> entries in its hash part.
\<close>

definition refers :: "hash_env \<Rightarrow> hTable \<Rightarrow> lua_value \<Rightarrow> (tv_ref \<times> hTable) res \<Rightarrow> bool" where
  "refers E t k res \<longleftrightarrow>
     (\<exists>r t'. res = Some (Inr (r, t')) \<and> tbl_inv E t' \<and> ref_for t' k r \<and> tbl_map t' = tbl_map t) \<or>
     res = Some (Inl (Run_error ''table overflow'')) \<and> 2 ^ MAXBITS \<le> card (supp t)"

lemma tbl_inv_flags [simp]: "tbl_inv E (t\<lparr>flags := f\<rparr>) = tbl_inv E t"
  by (simp add: tbl_inv_def array_slot_def)

lemma tbl_map_update [simp]:
  "tbl_map (t\<lparr>flags := f\<rparr>) = tbl_map t" "tbl_map (t\<lparr>lastfree := l\<rparr>) = tbl_map t"
  by (simp_all add: tbl_map_def array_slot_def fun_eq_iff)

lemma put_refers:
  assumes inv: "tbl_inv E t" and k: "k \<noteq> LNil"
  shows "refers E t k (put_with (newkey (Suc (Suc j))) E t k)"
proof (cases rule: put_cases [OF inv k, of "Suc j"])
  case (1 r t')
  then show ?thesis by (auto simp: refers_def assigned_def)
next
  case (2 lf)
  let ?t = "t\<lparr>lastfree := lf\<rparr>"
  have nil: "tbl_map ?t k = LNil"
    using 2(2) node_map_absent [OF 2(4)] by (simp add: tbl_map_def)
  have sl: "array_slot ?t k = None" using 2(2) by (simp add: array_slot_def)
  show ?thesis
  proof (cases rule: rehash_spec [OF 2(3) nil sl, of j])
    case 1
    then show ?thesis using 2(5) by (simp add: refers_def)
  next
    case (2 t')
    have "array_slot (t'\<lparr>flags := 0\<rparr>) k = None \<Longrightarrow> 0 < room (t'\<lparr>flags := 0\<rparr>)"
      using 2(4) room_cong [of "t'\<lparr>flags := 0\<rparr>" t'] by (simp add: array_slot_def)
    then obtain r t'' where "put_with (newkey (Suc j)) E (t'\<lparr>flags := 0\<rparr>) k = Some (Inr (r, t''))" "assigned E (t'\<lparr>flags := 0\<rparr>) k r t''"
      using put_room [of E "t'\<lparr>flags := 0\<rparr>" k j] 2(2) k by auto
    then show ?thesis using 2 \<open>put_with (newkey (Suc (Suc j))) E t k = _\<close>
      by (simp add: refers_def assigned_def luaH_set_put [OF k])
  qed
qed

end
