(* ===== verification/Ltable_Correct.thy ===== *)
theory Ltable_Correct
  imports Ltable_Rehash
begin

text \<open>
  The tables of the interpreter are maps, whatever the hash function is: new tables are empty, assignments
  update the abstraction \<open>tbl_map\<close> and keep the invariant, lookups read it, a traversal delivers every
  entry once.
\<close>

section \<open>New tables\<close>

lemma tbl_map_empty:
  assumes "node_map (node t) = (\<lambda>_. LNil)" "length (array t) \<le> MAXASIZE" "\<And>i. i < length (array t) \<Longrightarrow> array t ! i = LNil"
  shows "tbl_map t = (\<lambda>_. LNil)"
  using assms array_slot_iff [OF assms(2)] by (fastforce simp: tbl_map_def fun_eq_iff split: option.split)

lemma luaH_new_spec:
  assumes "luaH_new narray nhash = Some (Inr t)" "narray \<le> MAXASIZE" "nhash < 2 ^ 32"
  shows "tbl_inv E t" "tbl_map t = (\<lambda>_. LNil)"
proof -
  let ?t0 = "setarrayvector narray \<lparr>flags = 255, lsizenode = 0, array = [], node = [dummy_Node], isdummy = True, lastfree = 0\<rparr>"
  have a: "array ?t0 = replicate narray LNil" by (simp add: setarrayvector_def)
  have "tbl_inv E t \<and> tbl_map t = (\<lambda>_. LNil)"
  proof (cases rule: setnodevector_spec [OF assms(3), where t = ?t0 and E = E])
    case 1
    then show ?thesis using assms(1) by (simp add: luaH_new_def)
  next
    case (2 t')
    then have t: "t = t'" using assms(1) by (simp add: luaH_new_def)
    have "tbl_inv E (t'\<lparr>array := array t'\<rparr>)" by (rule 2(5)) (use 2(2) a assms(2) in simp)
    then have "tbl_inv E t'" by simp
    then show ?thesis using 2(2,3) a assms(2) unfolding t by (auto intro!: tbl_map_empty)
  qed
  then show "tbl_inv E t" "tbl_map t = (\<lambda>_. LNil)" by simp_all
qed

section \<open>Assignment functions\<close>

lemma luaH_set_refers:
  assumes "tbl_inv E t" "k \<noteq> LNil"
  shows "refers E t k (luaH_set E t k)"
  using put_refers [of E "t\<lparr>flags := 0\<rparr>" k 0] assms
  by (simp add: luaH_set_def luaH_set_put numeral_2_eq_2 refers_def)

lemma luaH_setnum_refers:
  assumes "tbl_inv E t" "- (2 ^ 31) \<le> n" "n < 2 ^ 31"
  shows "refers E t (LNumber (of_int n)) (luaH_setnum E t n)"
  using put_refers [of E t "LNumber (of_int n)" 0] assms
  by (simp add: luaH_setnum_def luaH_setnum_put [OF tbl_alen [OF assms(1)]] numeral_2_eq_2)

lemma luaH_setstr_refers:
  assumes "tbl_inv E t"
  shows "refers E t (LString s) (luaH_setstr E t s)"
  using put_refers [of E t "LString s" 0] assms by (simp add: luaH_setstr_def luaH_setstr_put numeral_2_eq_2)

lemma refersD:
  assumes "refers E t k (Some (Inr (r, t')))"
  shows "tbl_inv E (setobj r v t')" "tbl_map (setobj r v t') = (tbl_map t)(k := v)"
  using assms setobj_spec [of E t' k r v] by (auto simp: refers_def)

lemma raw_set_refers:
  assumes "refers E t k res"
  shows "(\<exists>t'. rbind res (\<lambda>(r, t). Some (Inr (setobj r v t))) = Some (Inr t') \<and> tbl_inv E t' \<and> tbl_map t' = (tbl_map t)(k := v)) \<or>
    rbind res (\<lambda>(r, t). Some (Inr (setobj r v t))) = Some (Inl (Run_error ''table overflow'')) \<and> 2 ^ MAXBITS \<le> card (supp t)"
  using assms setobj_spec [of E _ k _ v] by (fastforce simp: refers_def)

section \<open>Growing the array part\<close>

lemma luaH_resizearray_spec:
  assumes inv: "tbl_inv E t" and n: "length (array t) \<le> n" "n \<le> MAXASIZE" and res: "luaH_resizearray E t n = Some (Inr t')"
  shows "tbl_inv E t' \<and> tbl_map t' = tbl_map t \<and> length (array t') = n"
proof -
  let ?nh = "if isdummy t then 0 else sizenode t" and ?N = "fst ` set (node_entries (node t))"
  have "out_keys t n \<subseteq> ?N"
  proof
    fix k assume k: "k \<in> out_keys t n"
    then have "tbl_map t k \<noteq> LNil" by (simp add: out_keys_def)
    then have "(\<exists>i. i < n \<and> array_slot t k = Some i) \<or> (k, tbl_map t k) \<in> set (node_entries (node t))"
      using entries_complete [OF inv, of k n] n(1) by auto
    then show "k \<in> ?N"
    proof
      assume "\<exists>i. i < n \<and> array_slot t k = Some i"
      then obtain i where "i < n" "k = LNumber (of_nat (i + 1))" using array_slot_iff [OF tbl_alen [OF inv]] by blast
      then show ?thesis using k unfolding out_keys_def by force
    qed force
  qed
  moreover have "card ?N \<le> length (node_entries (node t))" by (metis card_length length_map list.set_map)
  moreover have "length (node_entries (node t)) \<le> ?nh"
    using tbl_len [OF inv] tbl_dummy [OF inv] length_filter_le [of "\<lambda>n. i_val n \<noteq> LNil" "node t"]
    by (auto simp: node_entries_def sizenode_def dummy_Node_def)
  ultimately have le: "card (out_keys t n) \<le> ?nh" using card_mono [of ?N "out_keys t n"] by simp
  have "(2::nat) ^ lsizenode t \<le> 2 ^ MAXBITS" using tbl_lsize [OF inv] by (intro power_increasing) simp_all
  then have lt: "?nh < 2 ^ 32" by (simp add: sizenode_def MAXBITS_def)
  show ?thesis
    by (cases rule: resize_spec [OF inv n(2) lt le, of 1])
      (use res in \<open>simp_all add: luaH_resizearray_def resized_def numeral_2_eq_2\<close>)
qed

section \<open>The tables that the interpreter can build\<close>

inductive table_reach :: "hash_env \<Rightarrow> hTable \<Rightarrow> bool" for E where
  new: "luaH_new narray nhash = Some (Inr t) \<Longrightarrow> narray \<le> MAXASIZE \<Longrightarrow> nhash < 2 ^ 32 \<Longrightarrow> table_reach E t"
| set: "table_reach E t \<Longrightarrow> luaH_set E t k = Some (Inr (r, t')) \<Longrightarrow> table_reach E (setobj r v t')"
| setnum: "table_reach E t \<Longrightarrow> luaH_setnum E t n = Some (Inr (r, t')) \<Longrightarrow> - (2 ^ 31) \<le> n \<Longrightarrow> n < 2 ^ 31 \<Longrightarrow> table_reach E (setobj r v t')"
| setstr: "table_reach E t \<Longrightarrow> luaH_setstr E t s = Some (Inr (r, t')) \<Longrightarrow> table_reach E (setobj r v t')"
| resize: "table_reach E t \<Longrightarrow> luaH_resizearray E t n = Some (Inr t') \<Longrightarrow> length (array t) \<le> n \<Longrightarrow> n \<le> MAXASIZE \<Longrightarrow> table_reach E t'"

lemma luaH_set_nil:
  "luaH_set E t LNil = Some (Inl (Run_error ''table index is nil''))"
  by (simp add: luaH_set_def luaH_set_with_def luaH_get_def)

lemma reach_inv: "table_reach E t \<Longrightarrow> tbl_inv E t"
proof (induction rule: table_reach.induct)
  case (new narray nhash t)
  then show ?case by (rule luaH_new_spec(1))
next
  case (set t k r t' v)
  have "k \<noteq> LNil" using set.hyps(2) by (auto simp: luaH_set_nil)
  then show ?case using luaH_set_refers [OF set.IH, of k] set.hyps(2) refersD(1) by simp
next
  case (setnum t n r t' v)
  then show ?case using luaH_setnum_refers [OF setnum.IH, of n] refersD(1) by simp
next
  case (setstr t s r t' v)
  then show ?case using luaH_setstr_refers [OF setstr.IH, of s] refersD(1) by simp
next
  case (resize t n t')
  then show ?case using luaH_resizearray_spec by blast
qed

section \<open>Traversal\<close>

text \<open>The entries from position \<open>i\<close> on, positions counted through the array part and then the nodes.\<close>

definition entries_from :: "hTable \<Rightarrow> nat \<Rightarrow> (lua_value \<times> lua_value) list" where
  "entries_from t i = arr_entries i (drop i (array t)) @ node_entries (drop (i - length (array t)) (node t))"

lemma cast_num_Suc: "Suc i \<le> MAXASIZE \<Longrightarrow> cast_num (int (i + 1)) = of_nat (i + 1)"
  using cast_num_int [of "int (i + 1)"] by (simp add: MAXASIZE_def MAXBITS_def)

lemma next_array_entries:
  "i + length vs \<le> MAXASIZE \<Longrightarrow> next_array i vs = (case arr_entries i vs of [] \<Rightarrow> None | kv # _ \<Rightarrow> Some kv)"
  by (induction vs arbitrary: i) (use cast_num_Suc in auto)

lemma next_node_entries: "next_node ns = (case node_entries ns of [] \<Rightarrow> None | kv # _ \<Rightarrow> Some kv)"
  by (induction ns) (auto simp: node_entries_def)

lemma luaH_next_entries:
  assumes inv: "tbl_inv E t" and i: "findindex E t key = Some (Inr i)" "-1 \<le> i"
  shows "luaH_next E t key = Some (Inr (case entries_from t (nat (i + 1)) of [] \<Rightarrow> None | kv # _ \<Rightarrow> Some kv))"
proof -
  let ?i = "nat (i + 1)"
  have "next_array ?i (drop ?i (array t)) = (case arr_entries ?i (drop ?i (array t)) of [] \<Rightarrow> None | kv # _ \<Rightarrow> Some kv)"
  proof (cases "?i \<le> length (array t)")
    case True
    then show ?thesis using tbl_alen [OF inv] by (intro next_array_entries) simp
  qed simp
  then show ?thesis unfolding luaH_next_def i
    by (auto simp: entries_from_def next_node_entries Let_def split: list.split)
qed

text \<open>The position of the key that a traversal delivered, and the entries after it.\<close>

lemma arr_entries_hd:
  "arr_entries i vs = (k, v) # kvs \<Longrightarrow> \<exists>j<length vs. k = LNumber (of_nat (i + j + 1)) \<and> kvs = arr_entries (i + j + 1) (drop (j + 1) vs)"
proof (induction vs arbitrary: i)
  case (Cons x vs)
  show ?case
  proof (cases "x = LNil")
    case True
    then obtain j where "j < length vs" "k = LNumber (of_nat (Suc i + j + 1))" "kvs = arr_entries (Suc i + j + 1) (drop (j + 1) vs)"
      using Cons.IH [of "Suc i"] Cons.prems by auto
    then show ?thesis by (intro exI [of _ "Suc j"]) simp
  next
    case False
    then show ?thesis using Cons.prems by (intro exI [of _ 0]) auto
  qed
qed simp

lemma node_entries_hd:
  "node_entries ns = (k, v) # kvs \<Longrightarrow> \<exists>j<length ns. i_key (ns ! j) = k \<and> i_val (ns ! j) \<noteq> LNil \<and> kvs = node_entries (drop (j + 1) ns)"
proof (induction ns)
  case (Cons n ns)
  show ?case
  proof (cases "i_val n = LNil")
    case True
    then obtain j where "j < length ns" "i_key (ns ! j) = k" "i_val (ns ! j) \<noteq> LNil" "kvs = node_entries (drop (j + 1) ns)"
      using Cons by (auto simp: node_entries_def)
    then show ?thesis by (intro exI [of _ "Suc j"]) simp
  next
    case False
    then show ?thesis using Cons.prems by (intro exI [of _ 0]) (auto simp: node_entries_def)
  qed
qed (simp add: node_entries_def)

lemma entries_from_hd:
  assumes inv: "tbl_inv E t" and e: "entries_from t i = (k, v) # kvs"
  shows "\<exists>j. findindex E t k = Some (Inr (int j)) \<and> kvs = entries_from t (j + 1)"
proof (cases "arr_entries i (drop i (array t))")
  case (Cons kv kvs')
  then have "arr_entries i (drop i (array t)) = (k, v) # kvs'" using e by (simp add: entries_from_def)
  then obtain j where j: "j < length (drop i (array t))" "k = LNumber (of_nat (i + j + 1))" "kvs' = arr_entries (i + j + 1) (drop (j + 1) (drop i (array t)))"
    using arr_entries_hd by blast
  have lt: "i + j < length (array t)" using j(1) by simp
  then have "array_slot t k = Some (i + j)" using array_slot_iff [OF tbl_alen [OF inv], of k "i + j"] j(2) by blast
  then have "findindex E t k = Some (Inr (int (i + j)))"
    using j(2) by (auto simp: findindex_def array_slot_def Let_def split: if_splits)
  moreover have "kvs = entries_from t (i + j + 1)"
    using e Cons j lt \<open>arr_entries i (drop i (array t)) = (k, v) # kvs'\<close> by (simp add: entries_from_def drop_drop add.commute add.left_commute)
  ultimately show ?thesis by blast
next
  case Nil
  let ?d = "i - length (array t)"
  have "node_entries (drop ?d (node t)) = (k, v) # kvs" using e Nil by (simp add: entries_from_def)
  then obtain j where j: "j < length (drop ?d (node t))" "i_key (drop ?d (node t) ! j) = k" "i_val (drop ?d (node t) ! j) \<noteq> LNil"
    "kvs = node_entries (drop (j + 1) (drop ?d (node t)))" using node_entries_hd by blast
  have lt: "?d + j < length (node t)" using j(1) by simp
  have at: "nkey (node t) (?d + j) = k" "i_val (node t ! (?d + j)) \<noteq> LNil" using j(2,3) lt by (simp_all add: nth_drop)
  then have k: "k \<noteq> LNil" using chain_nil [OF tbl_chain [OF inv], of "?d + j"] lt by auto
  have sl: "array_slot t k = None" using tbl_disj [OF inv lt] at(1) by simp
  have "chain_find (\<lambda>n. i_key n = k) (node t) (mainposition E (lsizenode t) k) = Some (Some (?d + j))"
    by (rule find_node(1) [OF inv k lt at(1)])
  then have "findindex E t k = Some (Inr (int (?d + j) + int (length (array t))))"
    using k sl by (simp add: findindex_def array_slot_def Let_def luaO_rawequalObj_def split: if_splits)
  moreover have "kvs = entries_from t (?d + j + length (array t) + 1)" using j(4) by (simp add: entries_from_def drop_drop add.commute)
  ultimately show ?thesis by (intro exI [of _ "?d + j + length (array t)"]) simp
qed

lemma traverse_from:
  assumes inv: "tbl_inv E t"
  shows "findindex E t key = Some (Inr i) \<Longrightarrow> -1 \<le> i \<Longrightarrow> traverse E t key = Some (Inr (entries_from t (nat (i + 1))))"
proof (induction "length (entries_from t (nat (i + 1)))" arbitrary: key i rule: less_induct)
  case less
  show ?case
  proof (cases "entries_from t (nat (i + 1))")
    case Nil
    then show ?thesis using luaH_next_entries [OF inv less.prems] by (simp add: traverse.simps)
  next
    case (Cons kv kvs)
    obtain k v where kv: "kv = (k, v)" by (cases kv)
    obtain j where j: "findindex E t k = Some (Inr (int j))" "kvs = entries_from t (j + 1)"
      using entries_from_hd [OF inv Cons [unfolded kv]] by blast
    have "nat (int j + 1) = j + 1" by simp
    then have "traverse E t k = Some (Inr kvs)" using less.hyps [of "int j" k] j Cons by simp
    then show ?thesis using luaH_next_entries [OF inv less.prems] Cons kv by (simp add: traverse.simps [of E t key])
  qed
qed

lemma entries_from_0:
  assumes inv: "tbl_inv E t"
  shows "distinct (map fst (entries_from t 0))" "set (entries_from t 0) = {(k, tbl_map t k) | k. tbl_map t k \<noteq> LNil}"
proof -
  have "set (map fst (node_entries (rev (node t)))) = set (map fst (node_entries (node t)))" by (simp add: node_entries_rev)
  then show "distinct (map fst (entries_from t 0))"
    using moved_distinct [OF inv, of 0] distinct_node_entries [OF tbl_chain [OF inv]] unfolding moved_def entries_from_def by (simp add: node_entries_rev)
  show "set (entries_from t 0) = {(k, tbl_map t k) | k. tbl_map t k \<noteq> LNil}"
  proof (intro set_eqI iffI)
    fix kv assume kv: "kv \<in> set (entries_from t 0)"
    then have "kv \<in> set (moved t 0)" by (auto simp: entries_from_def moved_def node_entries_rev)
    then show "kv \<in> {(k, tbl_map t k) | k. tbl_map t k \<noteq> LNil}" using moved_sound [OF inv, of "fst kv" "snd kv" 0] by (intro CollectI exI [of _ "fst kv"]) (auto simp: prod_eq_iff)
  next
    fix kv assume "kv \<in> {(k, tbl_map t k) | k. tbl_map t k \<noteq> LNil}"
    then show "kv \<in> set (entries_from t 0)" using entries_complete [OF inv, of _ 0] by (auto simp: entries_from_def)
  qed
qed

section \<open>Tables as the interface sees them\<close>

text \<open>
  The contract that callers rely on: an invariant, the contents as a function, lookup and assignment, and
  the number of entries below which an assignment succeeds.
\<close>

fun assign_all :: "('t \<Rightarrow> lua_value \<Rightarrow> lua_value \<Rightarrow> 't res) \<Rightarrow> (lua_value \<times> lua_value) list \<Rightarrow> 't \<Rightarrow> 't res" where
  "assign_all st [] t = Some (Inr t)"
| "assign_all st ((k, v) # kvs) t = rbind (st t k v) (assign_all st kvs)"

locale value_map =
  fixes inv :: "'t \<Rightarrow> bool" and val :: "'t \<Rightarrow> lua_value \<Rightarrow> lua_value" and get :: "'t \<Rightarrow> lua_value \<Rightarrow> lua_value option"
    and st :: "'t \<Rightarrow> lua_value \<Rightarrow> lua_value \<Rightarrow> 't res" and cap :: nat
  assumes get_val: "inv t \<Longrightarrow> get t k = Some (val t k)"
    and fin: "inv t \<Longrightarrow> finite {k. val t k \<noteq> LNil}"
    and st_val: "inv t \<Longrightarrow> k \<noteq> LNil \<Longrightarrow> card {k. val t k \<noteq> LNil} < cap \<Longrightarrow>
      \<exists>t'. st t k v = Some (Inr t') \<and> inv t' \<and> val t' = (val t)(k := v)"
begin

lemma assign_all_val:
  assumes "inv t" "\<forall>kv \<in> set kvs. fst kv \<noteq> LNil" "card ({k. val t k \<noteq> LNil} \<union> fst ` set kvs) < cap"
  shows "\<exists>t'. assign_all st kvs t = Some (Inr t') \<and> inv t' \<and> val t' = upds kvs (val t)"
  using assms
proof (induction kvs arbitrary: t)
  case (Cons kv kvs)
  obtain k v where kv: "kv = (k, v)" by (cases kv)
  let ?S = "\<lambda>t. {k. val t k \<noteq> LNil}"
  have f: "finite (?S t \<union> fst ` set (kv # kvs))" using fin [OF Cons.prems(1)] by simp
  have "card (?S t) \<le> card (?S t \<union> fst ` set (kv # kvs))" by (rule card_mono [OF f]) auto
  then have "card (?S t) < cap" using Cons.prems(3) by simp
  then obtain t1 where t1: "st t k v = Some (Inr t1)" "inv t1" "val t1 = (val t)(k := v)"
    using st_val [OF Cons.prems(1), of k v] Cons.prems(2) kv by auto
  have "?S t1 \<union> fst ` set kvs \<subseteq> ?S t \<union> fst ` set (kv # kvs)" using t1(3) kv by auto
  then have "card (?S t1 \<union> fst ` set kvs) \<le> card (?S t \<union> fst ` set (kv # kvs))" by (rule card_mono [OF f])
  then have c: "card (?S t1 \<union> fst ` set kvs) < cap" using Cons.prems(3) by (rule le_less_trans)
  have "\<forall>kv \<in> set kvs. fst kv \<noteq> LNil" using Cons.prems(2) by simp
  then obtain t' where "assign_all st kvs t1 = Some (Inr t')" "inv t'" "val t' = upds kvs (val t1)" using Cons.IH [OF t1(2) _ c] by blast
  then show ?case using t1 kv by (intro exI [of _ t']) (simp del: fun_upd_apply)
qed simp

lemma assign_all_get:
  assumes "inv t" "\<forall>kv \<in> set kvs. fst kv \<noteq> LNil" "card ({k. val t k \<noteq> LNil} \<union> fst ` set kvs) < cap"
  shows "\<exists>t'. assign_all st kvs t = Some (Inr t') \<and> inv t' \<and> (\<forall>k. get t' k = Some (upds kvs (val t) k))"
  using assign_all_val [OF assms] get_val by force

end

lemma raw_get_map: "tbl_inv E t \<Longrightarrow> raw_get E t k = Some (tbl_map t k)"
  using luaH_get_map [of E t k] by (auto simp: raw_get_def)

lemma raw_set_map:
  assumes "tbl_inv E t" "k \<noteq> LNil"
  shows "(\<exists>t'. raw_set E t k v = Some (Inr t') \<and> tbl_inv E t' \<and> tbl_map t' = (tbl_map t)(k := v)) \<or>
    raw_set E t k v = Some (Inl (Run_error ''table overflow'')) \<and> 2 ^ MAXBITS \<le> card (supp t)"
  unfolding raw_set_def by (rule raw_set_refers [OF luaH_set_refers [OF assms]])

interpretation raw_table: value_map "tbl_inv E" tbl_map "raw_get E" "raw_set E" "2 ^ MAXBITS" for E
proof
  fix t k v assume "tbl_inv E t" "k \<noteq> LNil" "card (supp t) < 2 ^ MAXBITS"
  then show "\<exists>t'. raw_set E t k v = Some (Inr t') \<and> tbl_inv E t' \<and> tbl_map t' = (tbl_map t)(k := v)" using raw_set_map [of E t k v] by auto
qed (simp_all add: raw_get_map finite_supp)

section \<open>Properties\<close>

text \<open>
  C21 (refinement): a table implements a map from values to values. On a table that satisfies the
  invariant \<^verbatim>\<open>lua_rawget\<close> reads the map; \<^verbatim>\<open>lua_rawset\<close> refuses nil as a key, and for every other key it
  returns a table that satisfies the invariant and represents the updated map, through any
  collision and rehash, unless the table already has \<open>2 ^ MAXBITS\<close> entries and the hash part cannot grow.
\<close>

theorem raw_set_refines_update:
  assumes "tbl_inv E t"
  shows "raw_get E t k = Some (tbl_map t k) \<and>
    (if k = LNil then raw_set E t k v = Some (Inl (Run_error ''table index is nil''))
     else (\<exists>t'. raw_set E t k v = Some (Inr t') \<and> tbl_inv E t' \<and> tbl_map t' = (tbl_map t)(k := v)) \<or>
       raw_set E t k v = Some (Inl (Run_error ''table overflow'')) \<and> 2 ^ MAXBITS \<le> card (supp t))"
  using raw_get_map [OF assms] raw_set_map [OF assms] by (simp add: raw_set_def luaH_set_nil)

definition hash0 :: hash_env where "hash0 = \<lparr>num_image = (\<lambda>_. (0, 0)), IntPoint = (\<lambda>_. 0)\<rparr>"

definition table1 :: hTable where
  "table1 = \<lparr>flags = 255, lsizenode = 0, array = [LBoolean True, LNil], node = [dummy_Node], isdummy = True, lastfree = 0\<rparr>"

lemma table1_inv: "tbl_inv E table1"
proof -
  have "chain_inv mp [dummy_Node]" for mp by (rule chain_inv_empty) simp
  then show ?thesis by (simp add: tbl_inv_def table1_def array_slot_def arrayindex_def dummy_Node_def MAXASIZE_def MAXBITS_def)
qed

theorem raw_set_refines_update_witness:
  "raw_get hash0 table1 (LNumber 1) = Some (LBoolean True) \<and>
   (\<exists>t'. raw_set hash0 table1 (LString ''x'') (LNumber 7) = Some (Inr t') \<and> tbl_inv hash0 t' \<and>
     tbl_map t' (LString ''x'') = LNumber 7 \<and> tbl_map t' (LNumber 1) = LBoolean True)"
proof -
  have m: "tbl_map table1 (LNumber 1) = LBoolean True"
    by (simp add: tbl_map_def array_slot_def arrayindex_LNumber [of 1, simplified] table1_def)
  have "supp table1 \<subseteq> {LNumber 1}"
  proof
    fix k assume "k \<in> supp table1"
    then have k: "tbl_map table1 k \<noteq> LNil" by simp
    show "k \<in> {LNumber 1}"
    proof (cases "array_slot table1 k")
      case None
      then show ?thesis using k by (simp add: tbl_map_def table1_def node_map_def dummy_Node_def split: if_splits)
    next
      case (Some i)
      then show ?thesis using k array_slot_iff [of table1 k i] by (auto simp: tbl_map_def table1_def MAXASIZE_def MAXBITS_def nth_Cons split: nat.splits)
    qed
  qed
  then have "card (supp table1) \<le> card {LNumber 1}" by (rule card_mono [rotated]) simp
  then have "\<not> 2 ^ MAXBITS \<le> card (supp table1)" by (simp add: MAXBITS_def)
  then show ?thesis
    using raw_set_refines_update [OF table1_inv, of hash0 "LNumber 1"] raw_set_refines_update [OF table1_inv, of hash0 "LString ''x''" "LNumber 7"] m
    by auto
qed

text \<open>
  C22 (roundtrip): whatever sequence of fewer than \<open>2 ^ MAXBITS\<close> assignments to keys other than nil is made to
  a new table, every assignment succeeds, and afterwards each key reads back the value assigned
  to it last, nil if there was none. This holds for every hash function of numbers and objects.
\<close>

theorem table_assignments_roundtrip:
  assumes "luaH_new narray nhash = Some (Inr t)" "narray \<le> MAXASIZE" "nhash < 2 ^ 32"
    and "\<forall>kv \<in> set kvs. fst kv \<noteq> LNil" "length kvs < 2 ^ MAXBITS"
  shows "\<exists>t'. assign_all (raw_set E) kvs t = Some (Inr t') \<and>
    (\<forall>k. raw_get E t' k = Some (case map_of (rev kvs) k of None \<Rightarrow> LNil | Some v \<Rightarrow> v))"
proof -
  have m: "upds kvs (\<lambda>_. LNil) k = (case map_of (rev kvs) k of None \<Rightarrow> LNil | Some v \<Rightarrow> v)" for k
    by (induction kvs rule: rev_induct) auto
  have "card (fst ` set kvs) \<le> length kvs" by (metis card_length length_map list.set_map)
  then have "card ({k. tbl_map t k \<noteq> LNil} \<union> fst ` set kvs) < 2 ^ MAXBITS"
    using assms(5) luaH_new_spec(2) [OF assms(1-3)] by simp
  then show ?thesis
    using raw_table.assign_all_get [OF luaH_new_spec(1) [OF assms(1-3), of E] assms(4)] m luaH_new_spec(2) [OF assms(1-3)] by auto
qed

theorem table_assignments_roundtrip_witness:
  "\<exists>t t'. luaH_new 0 0 = Some (Inr t) \<and>
    assign_all (raw_set hash0) [(LNumber 1, LString ''a''), (LString ''k'', LNumber 2), (LNumber 1, LNil)] t = Some (Inr t') \<and>
    raw_get hash0 t' (LNumber 1) = Some LNil \<and> raw_get hash0 t' (LString ''k'') = Some (LNumber 2)"
proof -
  have n: "luaH_new 0 0 = Some (Inr \<lparr>flags = 255, lsizenode = 0, array = [], node = [dummy_Node], isdummy = True, lastfree = 0\<rparr>)"
    by (simp add: luaH_new_def setnodevector_def setarrayvector_def)
  show ?thesis
    using table_assignments_roundtrip [OF n, where E = hash0 and kvs = "[(LNumber 1, LString ''a''), (LString ''k'', LNumber 2), (LNumber 1, LNil)]"] n
    by (auto simp: MAXBITS_def simp del: assign_all.simps)
qed

text \<open>
  C23 (invariant): every table that the interpreter can build, by creating one, by assignments
  through the references of \<^verbatim>\<open>luaH_set\<close>, \<^verbatim>\<open>luaH_setnum\<close> and \<^verbatim>\<open>luaH_setstr\<close>, and by growing the array
  part, satisfies the invariant: the chains of its nodes are free of cycles, each node is on the
  chain of the main position of its key, no key occurs twice, and no node above the free pointer
  is free. So every lookup in it ends.
\<close>

theorem reachable_tables_ok:
  assumes "table_reach E t"
  shows "tbl_inv E t \<and> (\<forall>k. \<exists>r. luaH_get E t k = Some r) \<and>
    (\<forall>i<length (node t). \<forall>j<length (node t). i_key (node t ! i) = i_key (node t ! j) \<and> i_key (node t ! i) \<noteq> LNil \<longrightarrow> i = j)"
proof -
  have inv: "tbl_inv E t" by (rule reach_inv [OF assms])
  then show ?thesis using luaH_get_map [OF inv] chain_distinct [OF tbl_chain [OF inv]] by metis
qed

theorem reachable_tables_ok_witness:
  "\<exists>t r t'. luaH_new 0 0 = Some (Inr t) \<and> luaH_set hash0 t (LString ''k'') = Some (Inr (r, t')) \<and> tbl_inv hash0 (setobj r (LNumber 2) t')"
proof -
  obtain t where t: "luaH_new 0 0 = Some (Inr t)" by (simp add: luaH_new_def setnodevector_def)
  have inv: "tbl_inv hash0 t" and m: "tbl_map t = (\<lambda>_. LNil)" using luaH_new_spec(1) [OF t, of hash0] luaH_new_spec(2) [OF t] by simp_all
  obtain r t' where s: "luaH_set hash0 t (LString ''k'') = Some (Inr (r, t'))"
    using luaH_set_refers [OF inv, of "LString ''k''"] m by (auto simp: refers_def)
  have "table_reach hash0 (setobj r (LNumber 2) t')" by (rule table_reach.set [OF table_reach.new [OF t] s]) simp_all
  then show ?thesis using reachable_tables_ok t s by blast
qed

text \<open>
  C24 (liveness): calling \<^verbatim>\<open>lua_next\<close> with nil and then with each key it returned comes to an end
  without an error and delivers every key that has a value exactly once, with its value.
\<close>

theorem traverse_all_entries:
  assumes "tbl_inv E t"
  shows "\<exists>kvs. traverse E t LNil = Some (Inr kvs) \<and> distinct (map fst kvs) \<and> set kvs = {(k, tbl_map t k) | k. tbl_map t k \<noteq> LNil}"
  using traverse_from [OF assms, of LNil "-1"] entries_from_0 [OF assms] by (simp add: findindex_def)

theorem traverse_all_entries_witness:
  "\<exists>kvs. traverse hash0 table1 LNil = Some (Inr kvs) \<and> (LNumber 1, LBoolean True) \<in> set kvs"
proof -
  have "tbl_map table1 (LNumber 1) = LBoolean True"
    by (simp add: tbl_map_def array_slot_def arrayindex_LNumber [of 1, simplified] table1_def)
  then show ?thesis using traverse_all_entries [OF table1_inv, of hash0] by auto
qed

end
