(* ===== verification/Ltablib.thy ===== *)
theory Ltablib
  imports Ltable "HOL-Library.List_Lexorder" "HOL-Library.Char_ord"
begin

text \<open>
  The order of Lua values (\<^verbatim>\<open>lvm.c\<close>) and the library of table functions (\<^verbatim>\<open>ltablib.c\<close>). A table is seen through
  \<^verbatim>\<open>lua_rawgeti\<close> and \<^verbatim>\<open>lua_rawseti\<close>, as a function from integers to values (\<open>arr\<close>); the length that \<^verbatim>\<open>aux_getn\<close>
  gives is an argument. What \<^verbatim>\<open>sort\<close> does with an order function that is no order may not end, so it is
  a partial function.
\<close>

section \<open>The order of strings\<close>

text \<open>
  \<^verbatim>\<open>strcoll\<close> in the locale of the C standard, in which a program starts: bytes up to the first zero.
\<close>

fun byte_cmp :: "string \<Rightarrow> string \<Rightarrow> int" where
  "byte_cmp [] [] = 0"
| "byte_cmp [] (y # ys) = -1"
| "byte_cmp (x # xs) [] = 1"
| "byte_cmp (x # xs) (y # ys) = (if x = y then byte_cmp xs ys else of_char x - of_char y)"

definition strcoll :: "string \<Rightarrow> string \<Rightarrow> int" where
  "strcoll l r = byte_cmp (c_str l) (c_str r)"

definition strlen :: "string \<Rightarrow> nat" where "strlen s = length (c_str s)"

lemma strlen_le: "strlen s \<le> length s"
  by (simp add: strlen_def c_str_def length_takeWhile_le)

function l_strcmp :: "string \<Rightarrow> string \<Rightarrow> int" where
  "l_strcmp l r =
     (let temp = strcoll l r in
      if temp \<noteq> 0 then temp
      else
        let len = strlen l in
        if len = length r then (if len = length l then 0 else 1)
        else if len = length l then -1
        else l_strcmp (drop (len + 1) l) (drop (len + 1) r))"
  by pat_completeness auto
termination
proof (relation "measure (\<lambda>(l, r). length l)", goal_cases)
  case (2 l r temp len)
  then show ?case using strlen_le [of l] by simp
qed simp

declare l_strcmp.simps [simp del]

definition luaG_ordererror :: "lua_value \<Rightarrow> lua_value \<Rightarrow> lua_err" where
  "luaG_ordererror p1 p2 =
     (let t1 = luaT_typenames ! nat (ttype p1); t2 = luaT_typenames ! nat (ttype p2) in
      if t1 ! 2 = t2 ! 2 then Run_error (''attempt to compare two '' @ t1 @ '' values'')
      else Run_error (''attempt to compare '' @ t1 @ '' with '' @ t2))"

text \<open>
  \<open>tm\<close> is what \<^verbatim>\<open>call_orderTM\<close> gives for the event \<^verbatim>\<open>__lt\<close>: the answer of a Lua function, None if there is no
  common metamethod.
\<close>

type_synonym order_tm = "lua_value \<Rightarrow> lua_value \<Rightarrow> bool option"

definition luaV_lessthan :: "order_tm \<Rightarrow> lua_value \<Rightarrow> lua_value \<Rightarrow> lua_err + bool" where
  "luaV_lessthan tm l r =
     (if ttype l \<noteq> ttype r then Inl (luaG_ordererror l r)
      else case (l, r) of
        (LNumber x, LNumber y) \<Rightarrow> Inr (x < y)
      | (LString x, LString y) \<Rightarrow> Inr (l_strcmp x y < 0)
      | _ \<Rightarrow> (case tm l r of Some b \<Rightarrow> Inr b | None \<Rightarrow> Inl (luaG_ordererror l r)))"

section \<open>Insertion, removal, concatenation\<close>

type_synonym arr = "int \<Rightarrow> lua_value"

function move_up :: "arr \<Rightarrow> int \<Rightarrow> int \<Rightarrow> arr" where
  "move_up a i pos = (if pos < i then move_up (a(i := a (i - 1))) (i - 1) pos else a)"
  by pat_completeness auto
termination by (relation "measure (\<lambda>(a, i, pos). nat (i - pos))") auto

declare move_up.simps [simp del]

text \<open>\<^verbatim>\<open>table.insert\<close> with two and with three arguments; \<open>n\<close> is the length of the table.\<close>

definition tinsert2 :: "int \<Rightarrow> arr \<Rightarrow> lua_value \<Rightarrow> arr" where
  "tinsert2 n a v = (let e = n + 1; pos = e in a(pos := v))"

definition tinsert3 :: "int \<Rightarrow> arr \<Rightarrow> int \<Rightarrow> lua_value \<Rightarrow> arr" where
  "tinsert3 n a pos v =
     (let e = n + 1;
          e = (if e < pos then pos else e);
          a = move_up a e pos
      in a(pos := v))"

function move_down :: "arr \<Rightarrow> int \<Rightarrow> int \<Rightarrow> arr" where
  "move_down a pos e = (if pos < e then move_down (a(pos := a (pos + 1))) (pos + 1) e else a)"
  by pat_completeness auto
termination by (relation "measure (\<lambda>(a, pos, e). nat (e - pos))") auto

declare move_down.simps [simp del]

definition tremove :: "int \<Rightarrow> arr \<Rightarrow> int \<Rightarrow> lua_value option \<times> arr" where
  "tremove n a pos =
     (let e = n in
      if \<not> (1 \<le> pos \<and> pos \<le> e) then (None, a)
      else
        let result = a pos;
            a = move_down a pos e
        in (Some result, a(e := LNil)))"

text \<open>\<open>num\<close> is the text of a number.\<close>

function tconcat :: "(lua_Number \<Rightarrow> string) \<Rightarrow> arr \<Rightarrow> string \<Rightarrow> int \<Rightarrow> int \<Rightarrow> lua_err + string" where
  "tconcat num a sep i hi =
     (if i \<le> hi then
        case (case a i of LString s \<Rightarrow> Some s | LNumber n \<Rightarrow> Some (num n) | _ \<Rightarrow> None) of
          None \<Rightarrow> Inl (Arg_error 1 ''table contains non-strings'')
        | Some s \<Rightarrow>
            (case tconcat num a sep (i + 1) hi of
               Inl e \<Rightarrow> Inl e
             | Inr rest \<Rightarrow> Inr (s @ (if i \<noteq> hi then sep else []) @ rest))
      else Inr [])"
  by pat_completeness auto
termination by (relation "measure (\<lambda>(num, a, sep, i, hi). nat (hi + 1 - i))") auto

declare tconcat.simps [simp del]

section \<open>Quicksort\<close>

type_synonym comp = "lua_value \<Rightarrow> lua_value \<Rightarrow> lua_err + bool"

definition swap_at :: "(int \<Rightarrow> 'v) \<Rightarrow> int \<Rightarrow> int \<Rightarrow> int \<Rightarrow> 'v" where
  "swap_at a i j = a(i := a j, j := a i)"

definition ebind :: "'e + 'a \<Rightarrow> ('a \<Rightarrow> 'e + 'b) \<Rightarrow> 'e + 'b" where
  "ebind m f = (case m of Inl e \<Rightarrow> Inl e | Inr x \<Rightarrow> f x)"

lemma ebind_simps [simp]: "ebind (Inl e) f = Inl e" "ebind (Inr x) f = f x"
  by (simp_all add: ebind_def)

lemma ebind_InrE: "ebind m f = Inr y \<Longrightarrow> (\<And>x. m = Inr x \<Longrightarrow> f x = Inr y \<Longrightarrow> thesis) \<Longrightarrow> thesis"
  by (cases m) auto

definition order_err :: lua_err where "order_err = Run_error ''invalid order function for sorting''"

text \<open>The first two comparisons: the ends of the range, then its middle with both.\<close>

definition sort_ends :: "comp \<Rightarrow> arr \<Rightarrow> int \<Rightarrow> int \<Rightarrow> lua_err + arr" where
  "sort_ends sort_comp a l u =
     ebind (sort_comp (a u) (a l)) (\<lambda>b. Inr (if b then swap_at a l u else a))"

definition sort_mid :: "comp \<Rightarrow> arr \<Rightarrow> int \<Rightarrow> int \<Rightarrow> lua_err + arr" where
  "sort_mid sort_comp a l u =
     (let i = (l + u) div 2 in
      ebind (sort_comp (a i) (a l)) (\<lambda>b.
      if b then Inr (swap_at a i l)
      else ebind (sort_comp (a u) (a i)) (\<lambda>b. Inr (if b then swap_at a i u else a))))"

text \<open>The loops that look for an element that is not below, and one that is not above, the pivot.\<close>

function scan_up :: "comp \<Rightarrow> lua_value \<Rightarrow> arr \<Rightarrow> int \<Rightarrow> int \<Rightarrow> lua_err + int" where
  "scan_up sort_comp P a u i =
     (let i = i + 1 in
      case sort_comp (a i) P of
        Inl e \<Rightarrow> Inl e
      | Inr b \<Rightarrow> if b then (if u < i then Inl order_err else scan_up sort_comp P a u i) else Inr i)"
  by pat_completeness auto
termination by (relation "measure (\<lambda>(sort_comp, P, a, u, i). nat (u + 1 - i))") auto

function scan_down :: "comp \<Rightarrow> lua_value \<Rightarrow> arr \<Rightarrow> int \<Rightarrow> int \<Rightarrow> lua_err + int" where
  "scan_down sort_comp P a l j =
     (let j = j - 1 in
      case sort_comp P (a j) of
        Inl e \<Rightarrow> Inl e
      | Inr b \<Rightarrow> if b then (if j < l then Inl order_err else scan_down sort_comp P a l j) else Inr j)"
  by pat_completeness auto
termination by (relation "measure (\<lambda>(sort_comp, P, a, l, j). nat (j + 1 - l))") auto

declare scan_up.simps [simp del] scan_down.simps [simp del]

lemma scan_up_greater: "scan_up c P a u i = Inr i' \<Longrightarrow> i < i'"
proof (induction c P a u i rule: scan_up.induct)
  case (1 c P a u i)
  then show ?case by (subst (asm) (2) scan_up.simps) (fastforce simp: Let_def split: sum.splits if_splits)
qed

lemma scan_down_less: "scan_down c P a l j = Inr j' \<Longrightarrow> j' < j"
proof (induction c P a l j rule: scan_down.induct)
  case (1 c P a l j)
  then show ?case by (subst (asm) (2) scan_down.simps) (fastforce simp: Let_def split: sum.splits if_splits)
qed

function part_loop :: "comp \<Rightarrow> lua_value \<Rightarrow> int \<Rightarrow> int \<Rightarrow> arr \<Rightarrow> int \<Rightarrow> int \<Rightarrow> lua_err + arr \<times> int" where
  "part_loop sort_comp P l u a i j =
     (case scan_up sort_comp P a u i of
        Inl e \<Rightarrow> Inl e
      | Inr i' \<Rightarrow>
          (case scan_down sort_comp P a l j of
             Inl e \<Rightarrow> Inl e
           | Inr j' \<Rightarrow> if j' < i' then Inr (a, i') else part_loop sort_comp P l u (swap_at a i' j') i' j'))"
  by pat_completeness auto
termination
proof (relation "measure (\<lambda>(sort_comp, P, l, u, a, i, j). nat (j - i))", goal_cases)
  case (2 c P l u a i j i' j')
  then show ?case using scan_up_greater [of c P a u i i'] scan_down_less [of c P a l j j'] by simp
qed simp

declare part_loop.simps [simp del]

text \<open>One round: the range is ready, or it is split at \<open>i\<close>.\<close>

definition sort_round :: "comp \<Rightarrow> arr \<Rightarrow> int \<Rightarrow> int \<Rightarrow> lua_err + arr \<times> int option" where
  "sort_round sort_comp a l u =
     ebind (sort_ends sort_comp a l u) (\<lambda>a.
     if u - l = 1 then Inr (a, None)
     else ebind (sort_mid sort_comp a l u) (\<lambda>a.
     if u - l = 2 then Inr (a, None)
     else
       let i = (l + u) div 2; P = a i; a = swap_at a i (u - 1) in
       ebind (part_loop sort_comp P l u a l (u - 1)) (\<lambda>(a, i). Inr (swap_at a (u - 1) i, Some i))))"

lemma rbind_bind: "rbind m g = Option.bind m (\<lambda>r. case r of Inl e \<Rightarrow> Some (Inl e) | Inr x \<Rightarrow> g x)"
  by (cases m) (auto simp: rbind_def split: sum.split)

lemma rbind_mono [partial_function_mono]:
  assumes "mono_option B" "\<And>y. mono_option (\<lambda>f. C y f)"
  shows "mono_option (\<lambda>f. rbind (B f) (\<lambda>y. C y f))"
proof -
  have "mono_option (\<lambda>f. case r of Inl e \<Rightarrow> Some (Inl e) | Inr x \<Rightarrow> C x f)" for r
    using assms(2) by (cases r) (auto intro!: monotoneI simp: flat_ord_def)
  then have "mono_option (\<lambda>f. Option.bind (B f) (\<lambda>r. case r of Inl e \<Rightarrow> Some (Inl e) | Inr x \<Rightarrow> C x f))"
    by (rule bind_mono [OF assms(1)])
  then show ?thesis by (simp add: rbind_bind)
qed

partial_function (option) auxsort :: "comp \<Rightarrow> arr \<Rightarrow> int \<Rightarrow> int \<Rightarrow> arr res" where
  "auxsort sort_comp a l u =
     (if l < u then
        case sort_round sort_comp a l u of
          Inl e \<Rightarrow> Some (Inl e)
        | Inr (a, None) \<Rightarrow> Some (Inr a)
        | Inr (a, Some i) \<Rightarrow>
            if i - l < u - i
            then rbind (auxsort sort_comp a l (i - 1)) (\<lambda>a. auxsort sort_comp a (i + 1) u)
            else rbind (auxsort sort_comp a (i + 1) u) (\<lambda>a. auxsort sort_comp a l (i - 1))
      else Some (Inr a))"

definition table_sort :: "comp \<Rightarrow> int \<Rightarrow> arr \<Rightarrow> arr res" where
  "table_sort sort_comp n a = auxsort sort_comp a 1 n"

end
