(* ===== verification/Ltablib_Correct.thy ===== *)
theory Ltablib_Correct
  imports Ltablib "HOL-Library.Multiset"
begin

text \<open>
  The order of strings is the lexicographic order of their bytes, the table functions work on the list of
  the values at \<open>1, 2, \<dots>\<close>, and \<^verbatim>\<open>table.sort\<close> sorts: for every strict weak order it ends, leaves a permutation
  of the values and puts them in order.
\<close>

section \<open>Strings\<close>

lemma c_str_simps [simp]: "c_str [] = []" "c_str (x # xs) = (if x = CHR 0x00 then [] else x # c_str xs)"
  by (simp_all add: c_str_def)

lemma of_char_less_iff: "(of_char x :: int) < of_char y \<longleftrightarrow> x < y"
proof -
  have "(of_char c :: int) = int (of_char c)" for c by (simp add: of_nat_of_char)
  then show ?thesis by (simp add: less_char_def)
qed

lemma zero_char_least: "CHR 0x00 < x \<longleftrightarrow> x \<noteq> CHR 0x00" "\<not> x < CHR 0x00"
proof -
  have "of_char (CHR 0x00) = (0::nat)" by simp
  moreover have "of_char x = (0::nat) \<Longrightarrow> x = CHR 0x00" by (metis calculation of_char_eq_iff)
  ultimately show "CHR 0x00 < x \<longleftrightarrow> x \<noteq> CHR 0x00" "\<not> x < CHR 0x00" unfolding less_char_def by auto
qed

lemma byte_cmp_0: "byte_cmp xs ys = 0 \<longleftrightarrow> xs = ys"
  by (induction xs ys rule: byte_cmp.induct) auto

lemma strcoll_decides: "strcoll l r \<noteq> 0 \<Longrightarrow> strcoll l r < 0 \<longleftrightarrow> l < r"
  unfolding strcoll_def
proof (induction l arbitrary: r)
  case Nil
  then show ?case by (cases r) (auto split: if_splits)
next
  case (Cons x l)
  then show ?case using of_char_less_iff zero_char_least
    by (cases r) (auto split: if_splits)
qed

lemma c_str_split: "s = c_str s \<or> (\<exists>t. s = c_str s @ CHR 0x00 # t)"
  by (induction s) auto

lemma append_less_same: "(xs @ ys < xs @ zs) = (ys < (zs :: string))"
  by (induction xs) auto

lemma l_strcmp_spec: "(l_strcmp l r < 0) = (l < r) \<and> (l_strcmp l r = 0) = (l = r)"
proof (induction l r rule: l_strcmp.induct)
  case (1 l r)
  let ?n = "strlen l"
  show ?case
  proof (cases "strcoll l r = 0")
    case False
    then have "l \<noteq> r" by (auto simp: strcoll_def byte_cmp_0)
    then show ?thesis using False strcoll_decides [OF False] by (subst (1 2) l_strcmp.simps) (auto simp: Let_def)
  next
    case True
    then have eq: "c_str l = c_str r" by (simp add: strcoll_def byte_cmp_0)
    define p where "p = c_str l"
    have n: "?n = length p" by (simp add: strlen_def p_def)
    have "l = p \<or> (\<exists>s. l = p @ CHR 0x00 # s)" unfolding p_def by (rule c_str_split)
    moreover have "r = p \<or> (\<exists>t. r = p @ CHR 0x00 # t)" unfolding p_def eq by (rule c_str_split)
    ultimately consider (R) "r = p" "l = p" | (Rl) s where "r = p" "l = p @ CHR 0x00 # s" | (L) t where "l = p" "r = p @ CHR 0x00 # t"
      | (Both) s t where "l = p @ CHR 0x00 # s" "r = p @ CHR 0x00 # t" by blast
    then show ?thesis
    proof cases
      case R
      then show ?thesis using True n by (subst (1 2) l_strcmp.simps) simp
    next
      case (Rl s)
      then have "l_strcmp l r = 1" using True n by (subst l_strcmp.simps) simp
      then show ?thesis using Rl append_less_same [of p "CHR 0x00 # s" "[]"] by simp
    next
      case (L t)
      then have "l_strcmp l r = -1" using True n by (subst l_strcmp.simps) simp
      then show ?thesis using L append_less_same [of p "[]" "CHR 0x00 # t"] by simp
    next
      case (Both s t)
      have d: "drop (?n + 1) l = s" "drop (?n + 1) r = t" "?n \<noteq> length l" "?n \<noteq> length r" unfolding n using Both by simp_all
      have "l_strcmp l r = l_strcmp s t" using True d by (subst l_strcmp.simps) simp
      moreover have "(l_strcmp s t < 0) = (s < t) \<and> (l_strcmp s t = 0) = (s = t)" using 1 [OF refl _ refl] True d by simp
      ultimately show ?thesis using Both append_less_same [of p "CHR 0x00 # s" "CHR 0x00 # t"] by simp
    qed
  qed
qed

section \<open>Rearrangements of a range\<close>

definition rearr :: "int \<Rightarrow> int \<Rightarrow> (int \<Rightarrow> 'v) \<Rightarrow> (int \<Rightarrow> 'v) \<Rightarrow> bool" where
  "rearr l u a a' \<longleftrightarrow> (\<exists>p. bij p \<and> (\<forall>k. \<not> (l \<le> k \<and> k \<le> u) \<longrightarrow> p k = k) \<and> a' = a \<circ> p)"

lemma rearr_refl [simp, intro]: "rearr l u a a"
  unfolding rearr_def by (intro exI [of _ id]) auto

lemma rearr_trans:
  assumes "rearr l u a b" "rearr l u b c"
  shows "rearr l u a c"
proof -
  obtain p q where p: "bij p" "\<And>k. \<not> (l \<le> k \<and> k \<le> u) \<Longrightarrow> p k = k" "b = a \<circ> p"
    and q: "bij q" "\<And>k. \<not> (l \<le> k \<and> k \<le> u) \<Longrightarrow> q k = k" "c = b \<circ> q"
    using assms unfolding rearr_def by blast
  show ?thesis unfolding rearr_def
    by (rule exI [of _ "p \<circ> q"]) (use p q bij_comp in \<open>auto simp: o_assoc\<close>)
qed

lemma rearr_mono: "rearr l' u' a b \<Longrightarrow> l \<le> l' \<Longrightarrow> u' \<le> u \<Longrightarrow> rearr l u a b"
  unfolding rearr_def by (metis order_trans)

lemma rearr_swap:
  assumes "l \<le> i" "i \<le> u" "l \<le> j" "j \<le> u"
  shows "rearr l u a (swap_at a i j)"
proof -
  let ?p = "id(i := j, j := i)"
  have "?p (?p k) = k" for k by auto
  then have "bij ?p" by (intro o_bij [of ?p]) (auto simp: fun_eq_iff)
  moreover have "swap_at a i j = a \<circ> ?p" by (auto simp: swap_at_def fun_eq_iff)
  ultimately show ?thesis unfolding rearr_def using assms by (intro exI [of _ ?p]) auto
qed

lemma rearr_outside: "rearr l u a b \<Longrightarrow> \<not> (l \<le> k \<and> k \<le> u) \<Longrightarrow> b k = a k"
  unfolding rearr_def by auto

lemma rearr_perm:
  assumes "rearr l u a b"
  obtains p where "bij p" "p ` {l..u} = {l..u}" "b = a \<circ> p"
proof -
  obtain p where p: "bij p" "\<And>k. \<not> (l \<le> k \<and> k \<le> u) \<Longrightarrow> p k = k" "b = a \<circ> p" using assms unfolding rearr_def by blast
  have "p ` (- {l..u}) = - {l..u}" using p(2) by (auto simp: image_iff)
  then have "p ` {l..u} = {l..u}" using bij_image_Compl_eq [OF p(1), of "- {l..u}"] by simp
  then show thesis using that p by blast
qed

lemma rearr_values:
  assumes "rearr l u a b" "\<And>k. l \<le> k \<Longrightarrow> k \<le> u \<Longrightarrow> Q (a k)" "l \<le> k" "k \<le> u"
  shows "Q (b k)"
proof -
  obtain p where p: "p ` {l..u} = {l..u}" "b = a \<circ> p" using rearr_perm [OF assms(1)] by blast
  then have "p k \<in> {l..u}" using assms(3,4) by auto
  then show ?thesis using p(2) assms(2) by simp
qed

lemma rearr_mset:
  assumes "rearr l u a b"
  shows "mset (map b [l..u]) = mset (map a [l..u])"
proof -
  obtain p where p: "bij p" "p ` {l..u} = {l..u}" "b = a \<circ> p" using rearr_perm [OF assms] by blast
  have m: "mset [l..u] = mset_set {l..u}" by (simp add: mset_set_set [symmetric])
  have "inj_on p {l..u}" using p(1) by (meson bij_is_inj inj_on_subset subset_UNIV)
  then have "image_mset p (mset_set {l..u}) = mset_set {l..u}" using p(2) by (simp add: image_mset_mset_set)
  then have "image_mset (a \<circ> p) (mset_set {l..u}) = image_mset a (mset_set {l..u})"
    by (simp add: multiset.map_comp [symmetric])
  then show ?thesis using m p(3) by simp
qed

section \<open>Sorting with a strict weak order\<close>

locale sort_order =
  fixes sort_comp :: comp and lt :: "lua_value \<Rightarrow> lua_value \<Rightarrow> bool" and V :: "lua_value set"
  assumes comp_lt: "x \<in> V \<Longrightarrow> y \<in> V \<Longrightarrow> sort_comp x y = Inr (lt x y)"
    and lt_asym: "x \<in> V \<Longrightarrow> y \<in> V \<Longrightarrow> lt x y \<Longrightarrow> \<not> lt y x"
    and le_trans: "x \<in> V \<Longrightarrow> y \<in> V \<Longrightarrow> z \<in> V \<Longrightarrow> \<not> lt y x \<Longrightarrow> \<not> lt z y \<Longrightarrow> \<not> lt z x"
begin

lemma scan_up_spec:
  assumes "\<And>k. l \<le> k \<Longrightarrow> k \<le> u \<Longrightarrow> a k \<in> V" "P \<in> V" "l \<le> i" "i < m" "m \<le> u" "\<not> lt (a m) P"
  shows "\<exists>i'. scan_up sort_comp P a u i = Inr i' \<and> i < i' \<and> i' \<le> m \<and> \<not> lt (a i') P \<and> (\<forall>k. i < k \<and> k < i' \<longrightarrow> lt (a k) P)"
  using assms
proof (induction "nat (m - i)" arbitrary: i rule: less_induct)
  case less
  have c: "sort_comp (a (i + 1)) P = Inr (lt (a (i + 1)) P)" using less.prems by (intro comp_lt) auto
  show ?case
  proof (cases "lt (a (i + 1)) P")
    case True
    then have "i + 1 < m" using less.prems(4,6) by (metis zless_add1_eq add.commute less_le_not_le linorder_neqE zle_add1_eq_le)
    then obtain i' where i': "scan_up sort_comp P a u (i + 1) = Inr i'" "i + 1 < i'" "i' \<le> m" "\<not> lt (a i') P"
      "\<And>k. i + 1 < k \<and> k < i' \<Longrightarrow> lt (a k) P" using less.hyps [of "i + 1"] less.prems by force
    have "scan_up sort_comp P a u i = Inr i'" using c True i'(1) less.prems \<open>i + 1 < m\<close> by (subst scan_up.simps) (simp add: Let_def)
    moreover have "lt (a k) P" if "i < k \<and> k < i'" for k using that True i'(5) [of k] by (cases "k = i + 1") auto
    ultimately show ?thesis using i' by auto
  next
    case False
    then have "scan_up sort_comp P a u i = Inr (i + 1)" using c by (subst scan_up.simps) (simp add: Let_def)
    then show ?thesis using False less.prems by auto
  qed
qed

lemma scan_down_spec:
  assumes "\<And>k. l \<le> k \<Longrightarrow> k \<le> u \<Longrightarrow> a k \<in> V" "P \<in> V" "j \<le> u" "m < j" "l \<le> m" "\<not> lt P (a m)"
  shows "\<exists>j'. scan_down sort_comp P a l j = Inr j' \<and> m \<le> j' \<and> j' < j \<and> \<not> lt P (a j') \<and> (\<forall>k. j' < k \<and> k < j \<longrightarrow> lt P (a k))"
  using assms
proof (induction "nat (j - m)" arbitrary: j rule: less_induct)
  case less
  have c: "sort_comp P (a (j - 1)) = Inr (lt P (a (j - 1)))" using less.prems by (intro comp_lt) auto
  show ?case
  proof (cases "lt P (a (j - 1))")
    case True
    then have "m \<noteq> j - 1" using less.prems(6) by blast
    then have mj: "m < j - 1" using less.prems(4) by simp
    then obtain j' where j': "scan_down sort_comp P a l (j - 1) = Inr j'" "m \<le> j'" "j' < j - 1" "\<not> lt P (a j')"
      "\<And>k. j' < k \<and> k < j - 1 \<Longrightarrow> lt P (a k)" using less.hyps [of "j - 1"] less.prems by force
    have "scan_down sort_comp P a l j = Inr j'" using c True j'(1) less.prems mj by (subst scan_down.simps) (simp add: Let_def)
    moreover have "lt P (a k)" if "j' < k \<and> k < j" for k using that True j'(5) [of k] by (cases "k = j - 1") auto
    ultimately show ?thesis using j' by auto
  next
    case False
    then have "scan_down sort_comp P a l j = Inr (j - 1)" using c by (subst scan_down.simps) (simp add: Let_def)
    then show ?thesis using False less.prems by auto
  qed
qed

text \<open>What holds between two rounds of the partition loop.\<close>

lemma part_loop_spec:
  assumes "\<And>k. l \<le> k \<Longrightarrow> k \<le> u \<Longrightarrow> a k \<in> V" "P \<in> V" "l \<le> i" "i < u - 1" "l < j" "j \<le> u - 1" "a (u - 1) = P"
    "\<And>k. l \<le> k \<Longrightarrow> k \<le> i \<Longrightarrow> \<not> lt P (a k)" "\<And>k. j \<le> k \<Longrightarrow> k \<le> u \<Longrightarrow> \<not> lt (a k) P"
  shows "\<exists>a' i'. part_loop sort_comp P l u a i j = Inr (a', i') \<and> rearr (l + 1) (u - 2) a a' \<and> l < i' \<and> i' \<le> u - 1 \<and>
    (\<forall>k. l \<le> k \<and> k < i' \<longrightarrow> \<not> lt P (a' k)) \<and> (\<forall>k. i' \<le> k \<and> k \<le> u \<longrightarrow> \<not> lt (a' k) P)"
  using assms
proof (induction "nat (j - i)" arbitrary: a i j rule: less_induct)
  case less
  note pr = less.prems
  obtain i' where i': "scan_up sort_comp P a u i = Inr i'" "i < i'" "i' \<le> u - 1" "\<not> lt (a i') P" "\<And>k. i < k \<and> k < i' \<Longrightarrow> lt (a k) P"
    using scan_up_spec [of l u a P i "u - 1"] pr lt_asym [of P P] by auto
  obtain j' where j': "scan_down sort_comp P a l j = Inr j'" "l \<le> j'" "j' < j" "\<not> lt P (a j')" "\<And>k. j' < k \<and> k < j \<Longrightarrow> lt P (a k)"
    using scan_down_spec [of l u a P j l] pr by auto
  have low: "\<not> lt P (a k)" if "l \<le> k" "k < i'" for k
  proof (cases "k \<le> i")
    case False
    then show ?thesis using i'(5) [of k] lt_asym [of "a k" P] pr(1) [of k] pr(2) that i'(3) by auto
  qed (use pr(8) that in blast)
  have high: "\<not> lt (a k) P" if "j' < k" "k \<le> u" for k
  proof (cases "j \<le> k")
    case False
    then show ?thesis using j'(5) [of k] lt_asym [of P "a k"] pr(1) [of k] pr(2) that j'(2) by auto
  qed (use pr(9) that in blast)
  show ?case
  proof (cases "j' < i'")
    case True
    then have "part_loop sort_comp P l u a i j = Inr (a, i')" using i'(1) j'(1) by (subst part_loop.simps) simp
    moreover have "\<not> lt (a k) P" if "i' \<le> k" "k \<le> u" for k using high [of k] True that by simp
    ultimately show ?thesis using i' low pr(3) by auto
  next
    case False
    let ?a = "swap_at a i' j'"
    have at: "?a k = (if k = i' then a j' else if k = j' then a i' else a k)" for k by (auto simp: swap_at_def)
    have r: "l < i'" "j' < u - 1" using i'(2) j'(3) pr(3,6) by auto
    have sw: "rearr (l + 1) (u - 2) a ?a" using False r by (intro rearr_swap) auto
    have eq: "part_loop sort_comp P l u a i j = part_loop sort_comp P l u ?a i' j'" using i'(1) j'(1) False by (subst part_loop.simps) simp
    have "\<exists>a' i''. part_loop sort_comp P l u ?a i' j' = Inr (a', i'') \<and> rearr (l + 1) (u - 2) ?a a' \<and> l < i'' \<and> i'' \<le> u - 1 \<and>
        (\<forall>k. l \<le> k \<and> k < i'' \<longrightarrow> \<not> lt P (a' k)) \<and> (\<forall>k. i'' \<le> k \<and> k \<le> u \<longrightarrow> \<not> lt (a' k) P)"
    proof (rule less.hyps)
      show "nat (j' - i') < nat (j - i)" using False i'(2) j'(3) by simp
      show "?a k \<in> V" if "l \<le> k" "k \<le> u" for k using that pr(1) False r by (auto simp: at)
      show "\<not> lt P (?a k)" if "l \<le> k" "k \<le> i'" for k using that low j'(4) False by (auto simp: at)
      show "\<not> lt (?a k) P" if "j' \<le> k" "k \<le> u" for k using that high i'(4) False by (auto simp: at)
    qed (use pr False r in \<open>auto simp: at\<close>)
    then show ?thesis unfolding eq using rearr_trans [OF sw] by blast
  qed
qed

lemma sort_ends_spec:
  assumes "\<And>k. l \<le> k \<Longrightarrow> k \<le> u \<Longrightarrow> a k \<in> V" "l < u"
  shows "\<exists>a'. sort_ends sort_comp a l u = Inr a' \<and> rearr l u a a' \<and> \<not> lt (a' u) (a' l)"
proof -
  have "sort_comp (a u) (a l) = Inr (lt (a u) (a l))" using assms by (intro comp_lt) auto
  then show ?thesis using assms lt_asym [of "a u" "a l"] rearr_swap [of l l u u a]
    by (auto simp: sort_ends_def swap_at_def)
qed

lemma sort_mid_spec:
  assumes V: "\<And>k. l \<le> k \<Longrightarrow> k \<le> u \<Longrightarrow> a k \<in> V" and lu: "l + 1 < u" and ends: "\<not> lt (a u) (a l)"
  defines "i \<equiv> (l + u) div 2"
  shows "\<exists>a'. sort_mid sort_comp a l u = Inr a' \<and> rearr l u a a' \<and> \<not> lt (a' i) (a' l) \<and> \<not> lt (a' u) (a' i)"
proof -
  have i: "l < i" "i < u" using lu unfolding i_def by auto
  have c: "sort_comp (a i) (a l) = Inr (lt (a i) (a l))" "sort_comp (a u) (a i) = Inr (lt (a u) (a i))"
    using V i by (auto intro!: comp_lt)
  have v: "a l \<in> V" "a i \<in> V" "a u \<in> V" using V i by auto
  show ?thesis
  proof (cases "lt (a i) (a l)")
    case True
    then show ?thesis using c i v ends lt_asym [of "a i" "a l"] rearr_swap [of l i u l a]
      by (intro exI [of _ "swap_at a i l"]) (auto simp: sort_mid_def i_def [symmetric] swap_at_def)
  next
    case False
    show ?thesis
    proof (cases "lt (a u) (a i)")
      case True
      then show ?thesis using c i v ends False lt_asym [of "a u" "a i"] rearr_swap [of l i u u a]
        by (intro exI [of _ "swap_at a i u"]) (auto simp: sort_mid_def i_def [symmetric] swap_at_def)
    next
      case False': False
      then show ?thesis using c False by (intro exI [of _ a]) (auto simp: sort_mid_def i_def [symmetric])
    qed
  qed
qed

lemma sort_round_spec:
  assumes V0: "\<forall>k. l \<le> k \<and> k \<le> u \<longrightarrow> a k \<in> V" and lu: "l < u"
  obtains (Done) a' where "sort_round sort_comp a l u = Inr (a', None)" "rearr l u a a'"
      "\<And>i j. l \<le> i \<Longrightarrow> i \<le> j \<Longrightarrow> j \<le> u \<Longrightarrow> \<not> lt (a' j) (a' i)"
  | (Split) a' i where "sort_round sort_comp a l u = Inr (a', Some i)" "rearr l u a a'" "l < i" "i < u"
      "\<And>k. l \<le> k \<Longrightarrow> k < i \<Longrightarrow> \<not> lt (a' i) (a' k)" "\<And>k. i < k \<Longrightarrow> k \<le> u \<Longrightarrow> \<not> lt (a' k) (a' i)"
proof -
  have V: "a k \<in> V" if "l \<le> k" "k \<le> u" for k using V0 that by blast
  obtain a1 where a1: "sort_ends sort_comp a l u = Inr a1" "rearr l u a a1" "\<not> lt (a1 u) (a1 l)" using sort_ends_spec [of l u a] V lu by blast
  have V1: "a1 k \<in> V" if "l \<le> k" "k \<le> u" for k using rearr_values [OF a1(2), of "\<lambda>x. x \<in> V"] V that by blast
  have refl: "\<not> lt x x" if "x \<in> V" for x using lt_asym [OF that that] by blast
  show thesis
  proof (cases "u - l = 1")
    case True
    have "\<not> lt (a1 j) (a1 i)" if "l \<le> i" "i \<le> j" "j \<le> u" for i j
    proof (cases "i = j")
      case False
      then have "i = l" "j = u" using that True by auto
      then show ?thesis using a1(3) by simp
    qed (use refl V1 that in auto)
    then show thesis using Done [of a1] a1 True by (simp add: sort_round_def)
  next
    case ne1: False
    let ?i = "(l + u) div 2"
    have i: "l < ?i" "?i < u" using lu ne1 by auto
    obtain a2 where a2: "sort_mid sort_comp a1 l u = Inr a2" "rearr l u a1 a2" "\<not> lt (a2 ?i) (a2 l)" "\<not> lt (a2 u) (a2 ?i)"
      using sort_mid_spec [of l u a1] V1 a1(3) lu ne1 by auto
    have r2: "rearr l u a a2" using rearr_trans a1(2) a2(2) by blast
    have V2: "a2 k \<in> V" if "l \<le> k" "k \<le> u" for k using rearr_values [OF r2, of "\<lambda>x. x \<in> V"] V that by blast
    have lu2: "\<not> lt (a2 u) (a2 l)" using le_trans [of "a2 l" "a2 ?i" "a2 u"] a2(3,4) V2 i by auto
    show thesis
    proof (cases "u - l = 2")
      case True
      then have ii: "?i = l + 1" by auto
      have "\<not> lt (a2 j) (a2 i)" if ij: "l \<le> i" "i \<le> j" "j \<le> u" for i j
      proof -
        consider "i = j" | "i = l" "j = ?i" | "i = l" "j = u" | "i = ?i" "j = u" using ij True ii by linarith
        then show ?thesis using refl V2 ij a2(3,4) lu2 by cases auto
      qed
      then show thesis using Done [of a2] a1 a2 r2 True ne1 by (simp add: sort_round_def)
    next
      case ne2: False
      define P a3 where "P = a2 ?i" and "a3 = swap_at a2 ?i (u - 1)"
      have iu: "?i < u - 1" "l < u - 1" using lu ne1 ne2 by auto
      have r3: "rearr l u a2 a3" unfolding a3_def using i iu by (intro rearr_swap) auto
      have V3: "a3 k \<in> V" if "l \<le> k" "k \<le> u" for k using rearr_values [OF r3, of "\<lambda>x. x \<in> V"] V2 that by blast
      have PV: "P \<in> V" unfolding P_def using V2 i by auto
      have a3: "a3 (u - 1) = P" "a3 l = a2 l" "a3 u = a2 u" unfolding a3_def P_def swap_at_def using i iu by auto
      have lo: "\<not> lt P (a3 k)" if "l \<le> k" "k \<le> l" for k using that a3(2) a2(3) P_def by simp
      have hi: "\<not> lt (a3 k) P" if "u - 1 \<le> k" "k \<le> u" for k
      proof (cases "k = u")
        case False
        then have "k = u - 1" using that by simp
        then show ?thesis using a3(1) refl PV by simp
      qed (use a3 a2(4) P_def in simp)
      obtain a4 i' where a4: "part_loop sort_comp P l u a3 l (u - 1) = Inr (a4, i')" "rearr (l + 1) (u - 2) a3 a4" "l < i'" "i' \<le> u - 1"
        "\<And>k. l \<le> k \<Longrightarrow> k < i' \<Longrightarrow> \<not> lt P (a4 k)" "\<And>k. i' \<le> k \<Longrightarrow> k \<le> u \<Longrightarrow> \<not> lt (a4 k) P"
        using part_loop_spec [of l u a3 P l "u - 1", OF V3 PV _ iu(2) iu(2) _ a3(1) lo hi] by auto
      let ?a = "swap_at a4 (u - 1) i'"
      have u1: "a4 (u - 1) = P" using rearr_outside [OF a4(2), of "u - 1"] a3(1) by simp
      have at: "?a i' = P" "k \<noteq> i' \<Longrightarrow> ?a k = (if k = u - 1 then a4 i' else a4 k)" for k using u1 by (auto simp: swap_at_def)
      have "rearr l u a3 ?a" using rearr_trans [OF rearr_mono [OF a4(2), of l u] rearr_swap] a4(3,4) iu by auto
      then have "rearr l u a ?a" using rearr_trans [OF r2 rearr_trans [OF r3]] by blast
      moreover have "sort_round sort_comp a l u = Inr (?a, Some i')"
        using a1(1) a2(1) a4(1) ne1 ne2 by (simp add: sort_round_def P_def a3_def Let_def)
      moreover have "\<not> lt (?a i') (?a k)" if "l \<le> k" "k < i'" for k using that a4(4,5) at by auto
      moreover have "\<not> lt (?a k) (?a i')" if "i' < k" "k \<le> u" for k using that a4(4,6) at by auto
      ultimately show thesis using Split [of ?a i'] a4(3,4) by auto
    qed
  qed
qed

lemma sorted_join:
  fixes l u i x y :: int and c :: arr
  assumes V: "\<And>k. l \<le> k \<Longrightarrow> k \<le> u \<Longrightarrow> c k \<in> V" and i: "l < i" "i < u"
    and lo: "\<And>k. l \<le> k \<Longrightarrow> k \<le> i - 1 \<Longrightarrow> \<not> lt (c i) (c k)" "\<And>x y. l \<le> x \<Longrightarrow> x \<le> y \<Longrightarrow> y \<le> i - 1 \<Longrightarrow> \<not> lt (c y) (c x)"
    and hi: "\<And>k. i + 1 \<le> k \<Longrightarrow> k \<le> u \<Longrightarrow> \<not> lt (c k) (c i)" "\<And>x y. i + 1 \<le> x \<Longrightarrow> x \<le> y \<Longrightarrow> y \<le> u \<Longrightarrow> \<not> lt (c y) (c x)"
    and xy: "l \<le> x" "x \<le> y" "y \<le> u"
  shows "\<not> lt (c y) (c x)"
proof -
  have v: "c x \<in> V" "c y \<in> V" "c i \<in> V" using xy i by (simp_all add: V)
  have lx: "\<not> lt (c i) (c x)" if "x \<le> i" using that lo(1) [of x] lt_asym [of "c i" "c i"] v xy(1) by (cases "x = i") auto
  have hy: "\<not> lt (c y) (c i)" if "i \<le> y" using that hi(1) [of y] lt_asym [of "c i" "c i"] v xy(3) by (cases "y = i") auto
  show ?thesis
  proof (cases "x \<le> i \<and> i \<le> y")
    case True
    then show ?thesis using le_trans [OF v(1) v(3) v(2)] lx hy by blast
  next
    case False
    then consider "y \<le> i - 1" | "i + 1 \<le> x" by linarith
    then show ?thesis using lo(2) hi(2) xy by cases auto
  qed
qed

lemma halves_sorted:
  assumes V: "\<And>k. l \<le> k \<Longrightarrow> k \<le> u \<Longrightarrow> a k \<in> V" and i: "l < i" "i < u"
    and lo: "\<And>k. l \<le> k \<Longrightarrow> k < i \<Longrightarrow> \<not> lt (a i) (a k)" and hi: "\<And>k. i < k \<Longrightarrow> k \<le> u \<Longrightarrow> \<not> lt (a k) (a i)"
    and b: "rearr l (i - 1) a b" and c: "rearr (i + 1) u a c" and d: "\<And>k. d k = (if k < i then b k else c k)"
    and sb: "\<And>x y. l \<le> x \<Longrightarrow> x \<le> y \<Longrightarrow> y \<le> i - 1 \<Longrightarrow> \<not> lt (b y) (b x)"
    and sc: "\<And>x y. i + 1 \<le> x \<Longrightarrow> x \<le> y \<Longrightarrow> y \<le> u \<Longrightarrow> \<not> lt (c y) (c x)"
    and xy: "l \<le> x" "x \<le> y" "y \<le> u"
  shows "\<not> lt (d y) (d x)"
proof (rule sorted_join [OF _ i _ _ _ _ xy])
  have ci: "c i = a i" using rearr_outside [OF c, of i] by simp
  have bk: "b k \<in> V \<and> \<not> lt (a i) (b k)" if "l \<le> k" "k < i" for k
    using rearr_values [OF b, of "\<lambda>v. v \<in> V \<and> \<not> lt (a i) v" k] V lo i that by auto
  have ck: "c k \<in> V \<and> \<not> lt (c k) (a i)" if "i < k" "k \<le> u" for k
    using rearr_values [OF c, of "\<lambda>v. v \<in> V \<and> \<not> lt v (a i)" k] V hi i that by auto
  show "d k \<in> V" if "l \<le> k" "k \<le> u" for k using that bk [of k] ck [of k] V [of i] ci i d [of k] by (cases "k = i") (auto split: if_splits)
  show "\<not> lt (d i) (d k)" if "l \<le> k" "k \<le> i - 1" for k using that bk [of k] ci d by auto
  show "\<not> lt (d k) (d i)" if "i + 1 \<le> k" "k \<le> u" for k using that ck [of k] ci d by auto
  show "\<not> lt (d y) (d x)" if "l \<le> x" "x \<le> y" "y \<le> i - 1" for x y using that sb d by auto
  show "\<not> lt (d y) (d x)" if "i + 1 \<le> x" "x \<le> y" "y \<le> u" for x y using that sc d by auto
qed

end

lemma rearr_apart:
  assumes "rearr l u a b" "rearr l' u' b c" "u < l' \<or> u' < l"
  obtains e where "rearr l' u' a e" "\<And>k. c k = (if l' \<le> k \<and> k \<le> u' then e k else b k)"
proof -
  obtain p where p: "bij p" "\<And>k. \<not> (l' \<le> k \<and> k \<le> u') \<Longrightarrow> p k = k" "c = b \<circ> p" using assms(2) unfolding rearr_def by blast
  have im: "p k \<in> {l'..u'}" if "l' \<le> k" "k \<le> u'" for k
    using that p(1,2) by (metis atLeastAtMost_iff bij_pointE)
  have "c k = (if l' \<le> k \<and> k \<le> u' then (a \<circ> p) k else b k)" for k
    using im [of k] p(2,3) rearr_outside [OF assms(1), of "p k"] assms(3) by auto
  moreover have "rearr l' u' a (a \<circ> p)" unfolding rearr_def using p by blast
  ultimately show thesis using that by blast
qed

context sort_order
begin

lemma auxsort_spec:
  assumes "\<And>k. l \<le> k \<Longrightarrow> k \<le> u \<Longrightarrow> a k \<in> V"
  shows "\<exists>a'. auxsort sort_comp a l u = Some (Inr a') \<and> rearr l u a a' \<and> (\<forall>i j. l \<le> i \<and> i \<le> j \<and> j \<le> u \<longrightarrow> \<not> lt (a' j) (a' i))"
  using assms
proof (induction "nat (u - l)" arbitrary: a l u rule: less_induct)
  case less
  show ?case
  proof (cases "l < u")
    case False
    have "\<not> lt (a j) (a i)" if "l \<le> i \<and> i \<le> j \<and> j \<le> u" for i j
    proof -
      have "i = j" using that False by simp
      then show ?thesis using lt_asym [of "a i" "a i"] less.prems that by auto
    qed
    then show ?thesis using False by (auto simp: auxsort.simps)
  next
    case lu: True
    show ?thesis
    proof (cases rule: sort_round_spec [OF _ lu, of a])
      case 1
      then show ?case using less.prems by blast
    next
      case (2 a')
      then show ?thesis using lu by (auto simp: auxsort.simps)
    next
      case (3 a1 i)
      have V1: "a1 k \<in> V" if "l \<le> k" "k \<le> u" for k using rearr_values [OF 3(2), of "\<lambda>x. x \<in> V"] less.prems that by blast
      obtain b c d where bd: "auxsort sort_comp a l u = Some (Inr d)" "rearr l (i - 1) a1 b" "rearr (i + 1) u a1 c"
        "\<And>k. d k = (if k < i then b k else c k)" "rearr l u a1 d"
        "\<And>x y. l \<le> x \<Longrightarrow> x \<le> y \<Longrightarrow> y \<le> i - 1 \<Longrightarrow> \<not> lt (b y) (b x)" "\<And>x y. i + 1 \<le> x \<Longrightarrow> x \<le> y \<Longrightarrow> y \<le> u \<Longrightarrow> \<not> lt (c y) (c x)"
      proof (cases "i - l < u - i")
        case True
        obtain b where b: "auxsort sort_comp a1 l (i - 1) = Some (Inr b)" "rearr l (i - 1) a1 b"
          "\<And>x y. l \<le> x \<and> x \<le> y \<and> y \<le> i - 1 \<Longrightarrow> \<not> lt (b y) (b x)"
          using less.hyps [of "i - 1" l a1] V1 3(3,4) by auto
        have b1: "b k = a1 k" if "i \<le> k" for k using rearr_outside [OF b(2), of k] that by simp
        obtain d where d: "auxsort sort_comp b (i + 1) u = Some (Inr d)" "rearr (i + 1) u b d"
          "\<And>x y. i + 1 \<le> x \<and> x \<le> y \<and> y \<le> u \<Longrightarrow> \<not> lt (d y) (d x)"
          using less.hyps [of u "i + 1" b] V1 b1 3(3,4) by auto
        obtain e where e: "rearr (i + 1) u a1 e" "\<And>k. d k = (if i + 1 \<le> k \<and> k \<le> u then e k else b k)"
          using rearr_apart [OF b(2) d(2)] by auto
        have "auxsort sort_comp a l u = Some (Inr d)" using lu 3(1) True b(1) d(1) by (simp add: auxsort.simps [of _ a l u])
        moreover have "d k = (if k < i then b k else e k)" for k using e b1 [of k] rearr_outside [OF e(1), of k] by auto
        moreover have "rearr l u a1 d" using rearr_trans [OF rearr_mono [OF b(2)] rearr_mono [OF d(2)], of l u] 3(3,4) by auto
        moreover have "\<not> lt (e y) (e x)" if "i + 1 \<le> x" "x \<le> y" "y \<le> u" for x y using d(3) [of x y] e(2) that by auto
        ultimately show thesis using that [of d b e] b(2,3) e(1) by blast
      next
        case False
        obtain c where c: "auxsort sort_comp a1 (i + 1) u = Some (Inr c)" "rearr (i + 1) u a1 c"
          "\<And>x y. i + 1 \<le> x \<and> x \<le> y \<and> y \<le> u \<Longrightarrow> \<not> lt (c y) (c x)"
          using less.hyps [of u "i + 1" a1] V1 3(3,4) by auto
        have c1: "c k = a1 k" if "k \<le> i" for k using rearr_outside [OF c(2), of k] that by simp
        obtain d where d: "auxsort sort_comp c l (i - 1) = Some (Inr d)" "rearr l (i - 1) c d"
          "\<And>x y. l \<le> x \<and> x \<le> y \<and> y \<le> i - 1 \<Longrightarrow> \<not> lt (d y) (d x)"
          using less.hyps [of "i - 1" l c] V1 c1 3(3,4) by auto
        obtain e where e: "rearr l (i - 1) a1 e" "\<And>k. d k = (if l \<le> k \<and> k \<le> i - 1 then e k else c k)"
          using rearr_apart [OF c(2) d(2)] by auto
        have "auxsort sort_comp a l u = Some (Inr d)" using lu 3(1) False c(1) d(1) by (simp add: auxsort.simps [of _ a l u])
        moreover have "d k = (if k < i then e k else c k)" for k using e c1 [of k] rearr_outside [OF e(1), of k] by auto
        moreover have "rearr l u a1 d" using rearr_trans [OF rearr_mono [OF c(2)] rearr_mono [OF d(2)], of l u] 3(3,4) by auto
        moreover have "\<not> lt (e y) (e x)" if "l \<le> x" "x \<le> y" "y \<le> i - 1" for x y using d(3) [of x y] e(2) that by auto
        ultimately show thesis using that [of d e c] c(2,3) e(1) by blast
      qed
      have "\<not> lt (d y) (d x)" if "l \<le> x \<and> x \<le> y \<and> y \<le> u" for x y
        using halves_sorted [of l u a1, OF V1 3(3,4) 3(5,6) bd(2,3,4) bd(6,7)] that by blast
      then show ?thesis using bd(1,5) rearr_trans [OF 3(2)] by blast
    qed
  qed
qed

end

section \<open>Lists as tables\<close>

definition arr_of :: "lua_value list \<Rightarrow> arr" where
  "arr_of xs i = (if 1 \<le> i \<and> i \<le> int (length xs) then xs ! nat (i - 1) else LNil)"

lemma map_arr_of: "map (arr_of xs) [1..int (length xs)] = xs"
  by (rule nth_equalityI) (auto simp: arr_of_def nth_upto)

lemma arr_of_eqI:
  assumes "\<And>i. 1 \<le> i \<Longrightarrow> i \<le> int (length xs) \<Longrightarrow> a i = xs ! nat (i - 1)" "\<And>i. \<not> (1 \<le> i \<and> i \<le> int (length xs)) \<Longrightarrow> a i = LNil"
  shows "a = arr_of xs"
  using assms by (auto simp: arr_of_def fun_eq_iff)

text \<open>The functions of the library on lists of values.\<close>

lemma tinsert2_list: "tinsert2 (int (length xs)) (arr_of xs) v = arr_of (xs @ [v])"
  by (rule arr_of_eqI) (auto simp: tinsert2_def arr_of_def nth_append nat_diff_distrib)

lemma move_up_at: "move_up a i pos k = (if pos < k \<and> k \<le> i then a (k - 1) else a k)"
proof (induction a i pos rule: move_up.induct)
  case (1 a i pos)
  show ?case
  proof (cases "pos < i")
    case True
    have "move_up a i pos k = move_up (a(i := a (i - 1))) (i - 1) pos k" using True by (subst move_up.simps) (simp only: if_True)
    also have "\<dots> = (if pos < k \<and> k \<le> i - 1 then (a(i := a (i - 1))) (k - 1) else (a(i := a (i - 1))) k)" by (rule "1.IH" [OF True])
    finally show ?thesis using True by auto
  qed (subst move_up.simps, auto)
qed

lemma tinsert3_list:
  assumes "p \<le> length xs"
  shows "tinsert3 (int (length xs)) (arr_of xs) (int p + 1) v = arr_of (take p xs @ v # drop p xs)"
proof (rule arr_of_eqI)
  let ?ys = "take p xs @ v # drop p xs"
  have at: "tinsert3 (int (length xs)) (arr_of xs) (int p + 1) v i =
      (if i = int p + 1 then v else if int p + 1 < i \<and> i \<le> int (length xs) + 1 then arr_of xs (i - 1) else arr_of xs i)" for i
    using assms by (auto simp: tinsert3_def move_up_at Let_def)
  fix i
  show "tinsert3 (int (length xs)) (arr_of xs) (int p + 1) v i = ?ys ! nat (i - 1)" if "1 \<le> i" "i \<le> int (length ?ys)"
  proof -
    have "int (nat (i - 1)) = i - 1" using that by simp
    then obtain q where q1: "i = int q + 1" by (metis diff_add_cancel)
    then have q: "i = int q + 1" "q \<le> length xs" using that assms by simp_all
    show ?thesis unfolding at q(1) using q(2) assms by (auto simp: arr_of_def nth_append nth_Cons' nat_diff_distrib)
  qed
  show "tinsert3 (int (length xs)) (arr_of xs) (int p + 1) v i = LNil" if "\<not> (1 \<le> i \<and> i \<le> int (length ?ys))"
    using that assms unfolding at by (auto simp: arr_of_def)
qed

lemma move_down_at: "move_down a pos e k = (if pos \<le> k \<and> k < e then a (k + 1) else a k)"
proof (induction a pos e rule: move_down.induct)
  case (1 a pos e)
  show ?case
  proof (cases "pos < e")
    case True
    have "move_down a pos e k = move_down (a(pos := a (pos + 1))) (pos + 1) e k" using True by (subst move_down.simps) (simp only: if_True)
    also have "\<dots> = (if pos + 1 \<le> k \<and> k < e then (a(pos := a (pos + 1))) (k + 1) else (a(pos := a (pos + 1))) k)" by (rule "1.IH" [OF True])
    finally show ?thesis using True by auto
  qed (subst move_down.simps, auto)
qed

lemma tremove_list:
  assumes "p < length xs"
  shows "tremove (int (length xs)) (arr_of xs) (int p + 1) = (Some (xs ! p), arr_of (take p xs @ drop (p + 1) xs))"
proof -
  let ?ys = "take p xs @ drop (p + 1) xs" and ?a = "(move_down (arr_of xs) (int p + 1) (int (length xs)))(int (length xs) := LNil)"
  have "?a = arr_of ?ys"
  proof (rule arr_of_eqI)
    fix i
    show "?a i = ?ys ! nat (i - 1)" if "1 \<le> i" "i \<le> int (length ?ys)"
    proof -
      have "int (nat (i - 1)) = i - 1" using that by simp
      then obtain q where q: "i = int q + 1" by (metis diff_add_cancel)
      then have "q < length xs - 1" using that assms by simp
      then show ?thesis unfolding q using assms by (auto simp: move_down_at arr_of_def nth_append nat_add_distrib min_def)
    qed
    show "?a i = LNil" if "\<not> (1 \<le> i \<and> i \<le> int (length ?ys))"
      using that assms by (auto simp: move_down_at arr_of_def min_def)
  qed
  then show ?thesis using assms by (simp add: tremove_def arr_of_def)
qed

section \<open>Sorting lists\<close>


context sort_order
begin

lemma table_sort_list:
  assumes "set xs \<subseteq> V"
  shows "\<exists>ys. table_sort sort_comp (int (length xs)) (arr_of xs) = Some (Inr (arr_of ys)) \<and> mset ys = mset xs \<and> sorted_wrt (\<lambda>x y. \<not> lt y x) ys"
proof -
  let ?n = "int (length xs)"
  have "arr_of xs k \<in> V" if "1 \<le> k" "k \<le> ?n" for k using that assms by (auto simp: arr_of_def subset_iff)
  then obtain a where a: "auxsort sort_comp (arr_of xs) 1 ?n = Some (Inr a)" "rearr 1 ?n (arr_of xs) a"
    "\<And>i j. 1 \<le> i \<and> i \<le> j \<and> j \<le> ?n \<Longrightarrow> \<not> lt (a j) (a i)" using auxsort_spec [of 1 ?n "arr_of xs"] by blast
  let ?ys = "map a [1..?n]"
  have n: "length ?ys = length xs" by simp
  have at: "?ys ! m = a (int m + 1)" if "m < length xs" for m using that by (simp add: nth_upto add.commute)
  have "a = arr_of ?ys"
  proof (rule arr_of_eqI)
    fix i
    show "a i = ?ys ! nat (i - 1)" if "1 \<le> i" "i \<le> int (length ?ys)" using that by (subst at) (simp_all add: nat_less_iff)
    show "a i = LNil" if "\<not> (1 \<le> i \<and> i \<le> int (length ?ys))" using rearr_outside [OF a(2), of i] that unfolding n by (auto simp: arr_of_def)
  qed
  moreover have "mset ?ys = mset xs" using rearr_mset [OF a(2)] by (simp only: map_arr_of)
  moreover have "sorted_wrt (\<lambda>x y. \<not> lt y x) ?ys"
    unfolding sorted_wrt_iff_nth_less n using a(3) by (simp add: at del: length_map nth_map)
  ultimately show ?thesis using a(1) unfolding table_sort_def by metis
qed

end

lemma luaV_lessthan_string [simp]: "luaV_lessthan tm (LString x) (LString y) = Inr (x < y)"
  using l_strcmp_spec [of x y] by (simp add: luaV_lessthan_def)

lemma luaV_lessthan_number [simp]: "luaV_lessthan tm (LNumber x) (LNumber y) = Inr (x < y)"
  by (simp add: luaV_lessthan_def)

interpretation string_sort: sort_order "luaV_lessthan tm" "\<lambda>x y. luaV_lessthan tm x y = Inr True" "range LString" for tm
  by unfold_locales auto

interpretation number_sort: sort_order "luaV_lessthan tm" "\<lambda>x y. luaV_lessthan tm x y = Inr True" "range LNumber" for tm
  by unfold_locales auto

lemma table_sort_strings:
  "table_sort (luaV_lessthan tm) (int (length ss)) (arr_of (map LString ss)) = Some (Inr (arr_of (map LString (sort ss))))"
proof -
  obtain ys where ys: "table_sort (luaV_lessthan tm) (int (length ss)) (arr_of (map LString ss)) = Some (Inr (arr_of ys))"
    "mset ys = mset (map LString ss)" "sorted_wrt (\<lambda>x y. \<not> luaV_lessthan tm y x = Inr True) ys"
    using string_sort.table_sort_list [of "map LString ss" tm] by force
  have "set ys \<subseteq> range LString" using mset_eq_setD [OF ys(2)] by auto
  then obtain zs where zs: "ys = map LString zs" by (metis ex_map_conv subset_iff imageE)
  have "mset zs = mset ss"
    using arg_cong [OF ys(2), of "image_mset (\<lambda>v. case v of LString s \<Rightarrow> s | _ \<Rightarrow> [])"] unfolding zs by (simp add: multiset.map_comp o_def)
  moreover have "sorted zs" using ys(3) unfolding zs by (simp add: sorted_wrt_map not_less)
  ultimately have "sort ss = zs" by (rule properties_for_sort)
  then show ?thesis using ys(1) zs by simp
qed

section \<open>Properties\<close>

text \<open>
  C25 (equivalence): the comparison of Lua strings, which goes from one zero byte to the next because
  \<^verbatim>\<open>strcoll\<close> stops there, is, in the C locale, the lexicographic order of the bytes.
\<close>

theorem l_strcmp_lexicographic: "(l_strcmp l r < 0) = (l < r) \<and> (l_strcmp l r = 0) = (l = r)"
  by (rule l_strcmp_spec)

text \<open>
  C26 (functional): \<^verbatim>\<open>table.sort\<close> with an order function that is a strict weak order on the values of a
  list, whether a Lua function or the built-in comparison, returns; it leaves the same values, in an
  order in which no value is less than an earlier one.
\<close>

theorem table_sort_sorts:
  assumes "\<And>x y. x \<in> set xs \<Longrightarrow> y \<in> set xs \<Longrightarrow> sort_comp x y = Inr (lt x y)"
    and "\<And>x y. x \<in> set xs \<Longrightarrow> y \<in> set xs \<Longrightarrow> lt x y \<Longrightarrow> \<not> lt y x"
    and "\<And>x y z. x \<in> set xs \<Longrightarrow> y \<in> set xs \<Longrightarrow> z \<in> set xs \<Longrightarrow> \<not> lt y x \<Longrightarrow> \<not> lt z y \<Longrightarrow> \<not> lt z x"
  shows "\<exists>ys. table_sort sort_comp (int (length xs)) (arr_of xs) = Some (Inr (arr_of ys)) \<and> mset ys = mset xs \<and>
    sorted_wrt (\<lambda>x y. \<not> lt y x) ys"
  by (rule sort_order.table_sort_list [of _ _ "set xs"]) (use assms in \<open>unfold_locales; blast\<close>, simp)

theorem table_sort_sorts_witness:
  "\<exists>ys. table_sort (luaV_lessthan (\<lambda>_ _. None)) 3 (arr_of [LNumber 2, LNumber 3, LNumber 1]) = Some (Inr (arr_of ys)) \<and>
    mset ys = {#LNumber 1, LNumber 2, LNumber 3#}"
proof -
  have "\<exists>ys. table_sort (luaV_lessthan (\<lambda>_ _. None)) (int (length [LNumber 2, LNumber 3, LNumber 1])) (arr_of [LNumber 2, LNumber 3, LNumber 1]) = Some (Inr (arr_of ys)) \<and>
      mset ys = mset [LNumber 2, LNumber 3, LNumber 1] \<and> sorted_wrt (\<lambda>x y. \<not> luaV_lessthan (\<lambda>_ _. None) y x = Inr True) ys"
    by (rule table_sort_sorts) auto
  then show ?thesis by (auto simp: add_mset_commute)
qed

end
