(* ===== verification/E2_Sl.thy ===== *)
theory E2_Sl
  imports Ltablib_Correct
begin

text \<open>
  String lists, \<^verbatim>\<open>local/sl.lua\<close>: a class that keeps strings without duplicates and sorts them when they are read.
  The table \<^verbatim>\<open>_list\<close> is the list of its elements from 1 on; \<^verbatim>\<open>table.insert\<close>, \<^verbatim>\<open>table.remove\<close> and \<^verbatim>\<open>table.sort\<close> work on
  it as \<open>tinsert2_list\<close>, \<open>tremove_list\<close> and \<open>table_sort_strings\<close> show.
\<close>

section \<open>Model\<close>

record sl =
  sl_list :: "string list"
  need_sort :: bool

definition sl_new :: sl where
  "sl_new = \<lparr>sl_list = [], need_sort = False\<rparr>"

definition sort_if_needed :: "sl \<Rightarrow> sl" where
  "sort_if_needed s = (if need_sort s then s\<lparr>sl_list := sort (sl_list s), need_sort := False\<rparr> else s)"

fun sl_find :: "string list \<Rightarrow> string \<Rightarrow> bool" where
  "sl_find [] entry = False"
| "sl_find (v # vs) entry = (if v = entry then True else sl_find vs entry)"

definition sl_lookup :: "sl \<Rightarrow> string \<Rightarrow> bool" where
  "sl_lookup s entry = sl_find (sl_list s) entry"

definition sl_insert :: "string \<Rightarrow> sl \<Rightarrow> sl" where
  "sl_insert entry s =
     (if sl_lookup s entry then s else s\<lparr>sl_list := sl_list s @ [entry], need_sort := True\<rparr>)"

definition insert_table :: "string list \<Rightarrow> sl \<Rightarrow> sl" where
  "insert_table entrytbl s = fold sl_insert entrytbl s"

definition insert_sl :: "sl \<Rightarrow> sl \<Rightarrow> sl" where
  "insert_sl entrysl s = fold sl_insert (sl_list entrysl) s"

text \<open>The loop of \<^verbatim>\<open>remove\<close>, with the position \<open>i\<close> counted from 0.\<close>

function remove_loop :: "string \<Rightarrow> nat \<Rightarrow> bool \<Rightarrow> sl \<Rightarrow> bool \<times> sl" where
  "remove_loop entry i changed s =
     (if i < length (sl_list s) then
        if sl_list s ! i = entry then
          remove_loop entry i True (s\<lparr>sl_list := take i (sl_list s) @ drop (i + 1) (sl_list s), need_sort := True\<rparr>)
        else remove_loop entry (i + 1) changed s
      else (changed, s))"
  by pat_completeness auto
termination by (relation "measure (\<lambda>(entry, i, changed, s). length (sl_list s) - i)") auto

declare remove_loop.simps [simp del]

definition sl_remove :: "string \<Rightarrow> sl \<Rightarrow> bool \<times> sl" where
  "sl_remove entry s = remove_loop entry 0 False s"

definition sl_size :: "sl \<Rightarrow> nat" where "sl_size s = length (sl_list s)"

text \<open>\<^verbatim>\<open>iter\<close> and \<^verbatim>\<open>totable\<close> deliver the entries in order and leave the list sorted; the values that \<^verbatim>\<open>unpack\<close> returns are a list.\<close>

definition totable :: "sl \<Rightarrow> string list \<times> sl" where
  "totable s = (let s = sort_if_needed s in (sl_list s, s))"

definition sl_unpack :: "sl \<Rightarrow> string list \<times> sl" where
  "sl_unpack s = totable s"

definition sl_iter :: "sl \<Rightarrow> string list \<times> sl" where
  "sl_iter s = (let s = sort_if_needed s in (sl_list s, s))"

text \<open>\<^verbatim>\<open>copy\<close>; None is the failed assertion that the copy has the same size.\<close>

definition sl_copy :: "sl \<Rightarrow> sl option" where
  "sl_copy s = (let c = fold sl_insert (sl_list s) sl_new in if sl_size s = sl_size c then Some c else None)"

fun concat_loop :: "string \<Rightarrow> bool \<Rightarrow> string \<Rightarrow> string list \<Rightarrow> string" where
  "concat_loop sep first cat [] = cat"
| "concat_loop sep first cat (e # es) =
     (if first then concat_loop sep False e es else concat_loop sep first (cat @ sep @ e) es)"

definition sl_concat :: "string \<Rightarrow> sl \<Rightarrow> string \<times> sl" where
  "sl_concat sep s = (case sl_iter s of (es, s) \<Rightarrow> (concat_loop sep True [] es, s))"

section \<open>Invariant and abstraction\<close>

definition sl_inv :: "sl \<Rightarrow> bool" where
  "sl_inv s \<longleftrightarrow> distinct (sl_list s) \<and> (\<not> need_sort s \<longrightarrow> sorted (sl_list s))"

definition sl_set :: "sl \<Rightarrow> string set" where "sl_set s = set (sl_list s)"

lemma sl_find_iff [simp]: "sl_find vs entry \<longleftrightarrow> entry \<in> set vs"
  by (induction vs) auto

lemma sl_lookup_iff [simp]: "sl_lookup s entry \<longleftrightarrow> entry \<in> sl_set s"
  by (simp add: sl_lookup_def sl_set_def)

lemma sl_new_spec [simp]: "sl_inv sl_new" "sl_set sl_new = {}"
  by (simp_all add: sl_new_def sl_inv_def sl_set_def)

lemma sl_insert_spec [simp]: "sl_inv s \<Longrightarrow> sl_inv (sl_insert entry s)" "sl_set (sl_insert entry s) = insert entry (sl_set s)"
  by (auto simp: sl_insert_def sl_inv_def sl_set_def)

lemma fold_insert_spec [simp]: "sl_inv s \<Longrightarrow> sl_inv (fold sl_insert es s)" "sl_set (fold sl_insert es s) = set es \<union> sl_set s"
  by (induction es arbitrary: s) auto

lemma sort_if_needed_spec [simp]:
  "sl_inv s \<Longrightarrow> sl_inv (sort_if_needed s)" "sl_set (sort_if_needed s) = sl_set s"
  "sl_inv s \<Longrightarrow> sl_list (sort_if_needed s) = sorted_list_of_set (sl_set s)"
  by (auto simp: sort_if_needed_def sl_inv_def sl_set_def sorted_list_of_set_sort_remdups distinct_remdups_id sorted_sort_id)

lemma sl_size_card: "sl_inv s \<Longrightarrow> sl_size s = card (sl_set s)"
  by (simp add: sl_size_def sl_inv_def sl_set_def distinct_card)

lemma remove_loop_list:
  "sl_list (snd (remove_loop entry i c s)) = take i (sl_list s) @ filter (\<lambda>x. x \<noteq> entry) (drop i (sl_list s)) \<and>
   (fst (remove_loop entry i c s) \<longleftrightarrow> c \<or> entry \<in> set (drop i (sl_list s))) \<and>
   (need_sort (snd (remove_loop entry i c s)) \<longleftrightarrow> need_sort s \<or> entry \<in> set (drop i (sl_list s)))"
proof (induction entry i c s rule: remove_loop.induct)
  case (1 entry i c s)
  let ?l = "sl_list s"
  consider (End) "length ?l \<le> i" | (Hit) "i < length ?l" "?l ! i = entry" | (Skip) "i < length ?l" "?l ! i \<noteq> entry" by linarith
  then show ?case
  proof cases
    case End
    then show ?thesis by (subst (1 2 3) remove_loop.simps) simp
  next
    case Hit
    have d: "drop i ?l = entry # drop (i + 1) ?l" using Hit by (metis Cons_nth_drop_Suc Suc_eq_plus1)
    have "remove_loop entry i c s = remove_loop entry i True (s\<lparr>sl_list := take i ?l @ drop (i + 1) ?l, need_sort := True\<rparr>)"
      using Hit by (subst remove_loop.simps) simp
    then show ?thesis using 1(1) [OF Hit] Hit d by simp
  next
    case Skip
    have d: "drop i ?l = ?l ! i # drop (i + 1) ?l" using Skip by (metis Cons_nth_drop_Suc Suc_eq_plus1)
    have t: "take (i + 1) ?l = take i ?l @ [?l ! i]" using Skip by (simp add: take_Suc_conv_app_nth)
    have "remove_loop entry i c s = remove_loop entry (i + 1) c s" using Skip by (subst remove_loop.simps) simp
    then show ?thesis using 1(2) [OF Skip] Skip d t by simp
  qed
qed

lemma sl_remove_spec:
  assumes "sl_inv s" "sl_remove entry s = (changed, s')"
  shows "sl_inv s'" "sl_set s' = sl_set s - {entry}" "changed \<longleftrightarrow> entry \<in> sl_set s"
proof -
  have l: "sl_list s' = filter (\<lambda>x. x \<noteq> entry) (sl_list s)" "need_sort s' \<longleftrightarrow> need_sort s \<or> entry \<in> set (sl_list s)"
    and c: "changed \<longleftrightarrow> entry \<in> set (sl_list s)"
    using remove_loop_list [of entry 0 False s] assms(2) by (simp_all add: sl_remove_def)
  show "sl_inv s'" using assms(1) l using sorted_filter [of id "sl_list s"] by (auto simp: sl_inv_def)
  show "sl_set s' = sl_set s - {entry}" using l by (auto simp: sl_set_def)
  show "changed \<longleftrightarrow> entry \<in> sl_set s" using c by (simp add: sl_set_def)
qed

lemma totable_spec:
  assumes "sl_inv s" "totable s = (es, s')"
  shows "es = sorted_list_of_set (sl_set s)" "sl_inv s'" "sl_set s' = sl_set s"
  using assms by (auto simp: totable_def Let_def)

lemma sl_copy_spec: "sl_inv s \<Longrightarrow> \<exists>c. sl_copy s = Some c \<and> sl_inv c \<and> sl_set c = sl_set s"
proof -
  assume inv: "sl_inv s"
  let ?c = "fold sl_insert (sl_list s) sl_new"
  have "sl_inv ?c" by simp
  moreover have "sl_set ?c = sl_set s" using fold_insert_spec(2) [of "sl_list s" sl_new] by (simp add: sl_set_def [of s])
  ultimately show ?thesis using inv by (simp add: sl_copy_def sl_size_card)
qed

fun join_with :: "string \<Rightarrow> string list \<Rightarrow> string" where
  "join_with sep [] = []"
| "join_with sep [e] = e"
| "join_with sep (e # es) = e @ sep @ join_with sep es"

lemma concat_loop_join: "concat_loop sep False cat es = (if es = [] then cat else cat @ sep @ join_with sep es)"
  by (induction es arbitrary: cat) (auto, (metis join_with.simps(2,3) list.exhaust append.assoc)+)

lemma sl_concat_join: "sl_inv s \<Longrightarrow> fst (sl_concat sep s) = join_with sep (sorted_list_of_set (sl_set s))"
  by (cases "sorted_list_of_set (sl_set s)")
    (auto simp: sl_concat_def sl_iter_def Let_def concat_loop_join split: list.split, metis join_with.simps(2,3) list.exhaust)

section \<open>Sequences of operations\<close>

text \<open>
  The calls of a program on any number of string lists, each with its answer. The objects are numbered;
  \<open>Op_copy i j\<close> stores a copy of the list \<open>j\<close> under \<open>i\<close>.
\<close>

datatype sl_op =
    Op_new nat | Op_insert nat string | Op_insert_table nat "string list" | Op_insert_sl nat nat | Op_remove nat string
  | Op_lookup nat string | Op_size nat | Op_iter nat | Op_copy nat nat | Op_concat nat string | Op_totable nat | Op_unpack nat

datatype sl_answer = Ans_done | Ans_bool bool | Ans_number nat | Ans_entries "string list" | Ans_text string | Ans_failed

fun sl_step :: "sl_op \<Rightarrow> (nat \<Rightarrow> sl) \<Rightarrow> sl_answer \<times> (nat \<Rightarrow> sl)" where
  "sl_step (Op_new i) h = (Ans_done, h(i := sl_new))"
| "sl_step (Op_insert i e) h = (Ans_done, h(i := sl_insert e (h i)))"
| "sl_step (Op_insert_table i es) h = (Ans_done, h(i := insert_table es (h i)))"
| "sl_step (Op_insert_sl i j) h = (Ans_done, h(i := insert_sl (h j) (h i)))"
| "sl_step (Op_remove i e) h = (case sl_remove e (h i) of (changed, s) \<Rightarrow> (Ans_bool changed, h(i := s)))"
| "sl_step (Op_lookup i e) h = (Ans_bool (sl_lookup (h i) e), h)"
| "sl_step (Op_size i) h = (Ans_number (sl_size (h i)), h)"
| "sl_step (Op_iter i) h = (case sl_iter (h i) of (es, s) \<Rightarrow> (Ans_entries es, h(i := s)))"
| "sl_step (Op_copy i j) h = (case sl_copy (h j) of None \<Rightarrow> (Ans_failed, h) | Some c \<Rightarrow> (Ans_done, h(i := c)))"
| "sl_step (Op_concat i sep) h = (case sl_concat sep (h i) of (cat, s) \<Rightarrow> (Ans_text cat, h(i := s)))"
| "sl_step (Op_totable i) h = (case totable (h i) of (es, s) \<Rightarrow> (Ans_entries es, h(i := s)))"
| "sl_step (Op_unpack i) h = (case sl_unpack (h i) of (es, s) \<Rightarrow> (Ans_entries es, h(i := s)))"

text \<open>The same calls on finite sets.\<close>

fun set_step :: "sl_op \<Rightarrow> (nat \<Rightarrow> string set) \<Rightarrow> sl_answer \<times> (nat \<Rightarrow> string set)" where
  "set_step (Op_new i) h = (Ans_done, h(i := {}))"
| "set_step (Op_insert i e) h = (Ans_done, h(i := insert e (h i)))"
| "set_step (Op_insert_table i es) h = (Ans_done, h(i := h i \<union> set es))"
| "set_step (Op_insert_sl i j) h = (Ans_done, h(i := h i \<union> h j))"
| "set_step (Op_remove i e) h = (Ans_bool (e \<in> h i), h(i := h i - {e}))"
| "set_step (Op_lookup i e) h = (Ans_bool (e \<in> h i), h)"
| "set_step (Op_size i) h = (Ans_number (card (h i)), h)"
| "set_step (Op_iter i) h = (Ans_entries (sorted_list_of_set (h i)), h)"
| "set_step (Op_copy i j) h = (Ans_done, h(i := h j))"
| "set_step (Op_concat i sep) h = (Ans_text (join_with sep (sorted_list_of_set (h i))), h)"
| "set_step (Op_totable i) h = (Ans_entries (sorted_list_of_set (h i)), h)"
| "set_step (Op_unpack i) h = (Ans_entries (sorted_list_of_set (h i)), h)"

primrec answers :: "('o \<Rightarrow> 'h \<Rightarrow> 'a \<times> 'h) \<Rightarrow> 'o list \<Rightarrow> 'h \<Rightarrow> 'a list" where
  "answers step [] h = []"
| "answers step (p # ps) h = (case step p h of (a, h) \<Rightarrow> a # answers step ps h)"

definition sl_rel :: "(nat \<Rightarrow> sl) \<Rightarrow> (nat \<Rightarrow> string set) \<Rightarrow> bool" where
  "sl_rel h A \<longleftrightarrow> (\<forall>i. sl_inv (h i) \<and> sl_set (h i) = A i)"

lemma sl_rel_update: "sl_rel h A \<Longrightarrow> sl_inv s \<Longrightarrow> sl_set s = B \<Longrightarrow> sl_rel (h(i := s)) (A(i := B))"
  by (simp add: sl_rel_def)

lemma sl_rel_same: "sl_rel h A \<Longrightarrow> sl_inv s \<Longrightarrow> sl_set s = A i \<Longrightarrow> sl_rel (h(i := s)) A"
  by (simp add: sl_rel_def)

lemma sl_concat_state: "snd (sl_concat sep s) = sort_if_needed s"
  by (simp add: sl_concat_def sl_iter_def Let_def)

lemma sl_step_sim:
  assumes rel: "sl_rel h A"
  shows "fst (sl_step p h) = fst (set_step p A) \<and> sl_rel (snd (sl_step p h)) (snd (set_step p A))"
proof -
  have i: "sl_inv (h i)" "sl_set (h i) = A i" for i using rel by (simp_all add: sl_rel_def)
  show ?thesis
  proof (cases p)
    case (Op_remove j e)
    obtain c s where r: "sl_remove e (h j) = (c, s)" by fastforce
    show ?thesis using sl_remove_spec [OF i(1) r] Op_remove r i rel by (auto intro: sl_rel_update)
  next
    case (Op_copy j k)
    then show ?thesis using sl_copy_spec [OF i(1), of k] i rel by (auto intro: sl_rel_update)
  next
    case (Op_concat j sep)
    obtain cat s where c: "sl_concat sep (h j) = (cat, s)" by fastforce
    then have "s = sort_if_needed (h j)" using sl_concat_state [of sep "h j"] by simp
    then show ?thesis using sl_concat_join [OF i(1), of sep j] Op_concat c i rel by (auto intro: sl_rel_same)
  next
    case (Op_insert_sl j k)
    then show ?thesis using i rel by (auto simp: insert_sl_def sl_set_def [of "h k", symmetric] intro!: sl_rel_update)
  qed (use i rel in \<open>auto simp: insert_table_def sl_iter_def totable_def sl_unpack_def Let_def sl_size_card sl_rel_def\<close>)
qed

lemma answers_sim: "sl_rel h A \<Longrightarrow> answers sl_step ps h = answers set_step ps A"
proof (induction ps arbitrary: h A)
  case (Cons p ps)
  then show ?case using sl_step_sim [OF Cons.prems, of p] by (auto split: prod.split)
qed simp

text \<open>
  C27 (refinement): whatever methods are called in whatever order on any number of string lists, every call gives the
  answer of the same operation on finite sets: whether an entry is present or was removed, the number of
  entries, and the entries in alphabetical order where they are read, joined or iterated over.
\<close>

theorem sl_refines_set: "answers sl_step ps (\<lambda>_. sl_new) = answers set_step ps (\<lambda>_. {})"
  by (rule answers_sim) (simp add: sl_rel_def)

end
