(* ===== verification/Lstrlib.thy ===== *)
theory Lstrlib
  imports Ltablib
begin

text \<open>
  The string library of Lua, \<^verbatim>\<open>lstrlib.c\<close>: positions and slices, the pattern matcher with \<^verbatim>\<open>find\<close>, \<^verbatim>\<open>match\<close>, \<^verbatim>\<open>gmatch\<close> and
  \<^verbatim>\<open>gsub\<close>, and quoting. Arguments are the values that the \<^verbatim>\<open>luaL_check\<close> functions deliver. A pointer into the
  subject or into the pattern is an index; reading at or behind the end gives the terminating zero. The
  character classes are those of the locale of the C standard.
\<close>

section \<open>Characters\<close>

definition NUL :: char where "NUL = CHR 0x00"

definition char_at :: "string \<Rightarrow> nat \<Rightarrow> char" where
  "char_at s i = (if i < length s then s ! i else NUL)"

definition isdigit :: "char \<Rightarrow> bool" where "isdigit c \<longleftrightarrow> CHR ''0'' \<le> c \<and> c \<le> CHR ''9''"
definition islower :: "char \<Rightarrow> bool" where "islower c \<longleftrightarrow> CHR ''a'' \<le> c \<and> c \<le> CHR ''z''"
definition isupper :: "char \<Rightarrow> bool" where "isupper c \<longleftrightarrow> CHR ''A'' \<le> c \<and> c \<le> CHR ''Z''"
definition isalpha :: "char \<Rightarrow> bool" where "isalpha c \<longleftrightarrow> islower c \<or> isupper c"
definition isalnum :: "char \<Rightarrow> bool" where "isalnum c \<longleftrightarrow> isalpha c \<or> isdigit c"
definition iscntrl :: "char \<Rightarrow> bool" where "iscntrl c \<longleftrightarrow> c < CHR '' '' \<or> c = CHR 0x7F"
definition isspace :: "char \<Rightarrow> bool" where "isspace c \<longleftrightarrow> c = CHR '' '' \<or> CHR 0x09 \<le> c \<and> c \<le> CHR 0x0D"
definition ispunct :: "char \<Rightarrow> bool" where "ispunct c \<longleftrightarrow> CHR '' '' < c \<and> c < CHR 0x7F \<and> \<not> isalnum c"
definition isxdigit :: "char \<Rightarrow> bool" where
  "isxdigit c \<longleftrightarrow> isdigit c \<or> CHR ''a'' \<le> c \<and> c \<le> CHR ''f'' \<or> CHR ''A'' \<le> c \<and> c \<le> CHR ''F''"
definition tolower :: "char \<Rightarrow> char" where
  "tolower c = (if isupper c then char_of (of_char c + 32 :: nat) else c)"
definition toupper :: "char \<Rightarrow> char" where
  "toupper c = (if islower c then char_of (of_char c - 32 :: nat) else c)"

section \<open>Positions and slices\<close>

definition pushinteger :: "int \<Rightarrow> lua_value" where "pushinteger n = LNumber (cast_num n)"

definition posrelat :: "int \<Rightarrow> nat \<Rightarrow> int" where
  "posrelat pos len = (if 0 \<le> pos then pos else int len + pos + 1)"

definition str_len :: "string \<Rightarrow> lua_value" where "str_len s = pushinteger (int (length s))"

definition str_sub :: "string \<Rightarrow> int \<Rightarrow> int \<Rightarrow> string" where
  "str_sub s i j =
     (let l = length s; start = posrelat i l; stop = posrelat j l;
          start = (if start < 1 then 1 else start);
          stop = (if int l < stop then int l else stop)
      in if start \<le> stop then take (nat (stop - start + 1)) (drop (nat (start - 1)) s) else [])"

fun reverse_loop :: "string \<Rightarrow> nat \<Rightarrow> string" where
  "reverse_loop s 0 = []"
| "reverse_loop s (Suc l) = char_at s l # reverse_loop s l"

definition str_reverse :: "string \<Rightarrow> string" where "str_reverse s = reverse_loop s (length s)"

definition str_lower :: "string \<Rightarrow> string" where "str_lower s = List.map tolower s"
definition str_upper :: "string \<Rightarrow> string" where "str_upper s = List.map toupper s"

definition str_rep :: "string \<Rightarrow> int \<Rightarrow> string" where "str_rep s n = concat (replicate (nat n) s)"

text \<open>
  \<^verbatim>\<open>str_byte\<close> compares its end as an unsigned number; \<open>n\<close> is an \<^verbatim>\<open>int\<close>, and \<open>room\<close> tells whether \<^verbatim>\<open>luaL_checkstack\<close>
  finds space for the results.
\<close>

definition str_byte :: "(int \<Rightarrow> bool) \<Rightarrow> string \<Rightarrow> int \<Rightarrow> int option \<Rightarrow> lua_err + lua_value list" where
  "str_byte room s i j =
     (let l = length s; posi = posrelat i l; pose = posrelat (case j of None \<Rightarrow> posi | Some j \<Rightarrow> j) l;
          posi = (if posi \<le> 0 then 1 else posi);
          pose = (if l < c_size_t pose then int l else pose)
      in if pose < posi then Inr []
         else
           let n = c_int (pose - posi + 1) in
           if posi + n \<le> pose then Inl (Run_error ''string slice too long'')
           else if \<not> room n then Inl (Run_error ''stack overflow (string slice too long)'')
           else Inr (List.map (\<lambda>i. pushinteger (of_char (char_at s (nat posi + i - 1)))) [0..<nat n]))"

fun str_char :: "int \<Rightarrow> int list \<Rightarrow> lua_err + string" where
  "str_char i [] = Inr []"
| "str_char i (c # cs) =
     (if c mod 256 \<noteq> c then Inl (Arg_error i ''invalid value'')
      else case str_char (i + 1) cs of Inl e \<Rightarrow> Inl e | Inr r \<Rightarrow> Inr (char_of c # r))"

section \<open>Pattern items\<close>

definition CAP_UNFINISHED :: int where "CAP_UNFINISHED = -1"
definition CAP_POSITION :: int where "CAP_POSITION = -2"
definition LUA_MAXCAPTURES :: nat where "LUA_MAXCAPTURES = 32"
definition L_ESC :: char where "L_ESC = CHR ''%''"
definition SPECIALS :: string where "SPECIALS = ''^$*+?.([%-''"

text \<open>The captures; what does not change during a match, the subject and the pattern, is passed apart.\<close>

record Capture =
  c_init :: nat
  c_len :: int

record MatchState =
  level :: nat
  capture :: "Capture list"

definition check_capture :: "MatchState \<Rightarrow> char \<Rightarrow> lua_err + nat" where
  "check_capture ms l =
     (let l = of_char l - of_char CHR ''1'' :: int in
      if l < 0 \<or> int (level ms) \<le> l \<or> c_len (capture ms ! nat l) = CAP_UNFINISHED
      then Inl (Run_error ''invalid capture index'') else Inr (nat l))"

fun close_loop :: "MatchState \<Rightarrow> nat \<Rightarrow> lua_err + nat" where
  "close_loop ms 0 = Inl (Run_error ''invalid pattern capture'')"
| "close_loop ms (Suc l) = (if c_len (capture ms ! l) = CAP_UNFINISHED then Inr l else close_loop ms l)"

definition capture_to_close :: "MatchState \<Rightarrow> lua_err + nat" where
  "capture_to_close ms = close_loop ms (level ms)"

lemma char_at_NUL: "char_at P p \<noteq> NUL \<Longrightarrow> p < length P"
  by (auto simp: char_at_def split: if_splits)

text \<open>The loop that looks for the end of a set.\<close>

function set_end :: "string \<Rightarrow> nat \<Rightarrow> lua_err + nat" where
  "set_end P p =
     (if char_at P p = NUL then Inl (Run_error ''malformed pattern (missing ']')'')
      else
        let q = p + 1;
            q = (if char_at P p = L_ESC \<and> char_at P q \<noteq> NUL then q + 1 else q)
        in if char_at P q \<noteq> CHR '']'' then set_end P q else Inr (q + 1))"
  by pat_completeness auto
termination
  by (relation "measure (\<lambda>(P, p). length P - p)") (auto dest!: char_at_NUL split: if_splits)

declare set_end.simps [simp del]

definition classend :: "string \<Rightarrow> nat \<Rightarrow> lua_err + nat" where
  "classend P p =
     (let c = char_at P p; p = p + 1 in
      if c = L_ESC then
        if char_at P p = NUL then Inl (Run_error ''malformed pattern (ends with '%')'') else Inr (p + 1)
      else if c = CHR ''['' then set_end P (if char_at P p = CHR ''^'' then p + 1 else p)
      else Inr p)"

definition match_class :: "char \<Rightarrow> char \<Rightarrow> bool" where
  "match_class c cl =
     (let k = tolower cl in
      if k = CHR ''a'' then isalpha c = islower cl
      else if k = CHR ''c'' then iscntrl c = islower cl
      else if k = CHR ''d'' then isdigit c = islower cl
      else if k = CHR ''l'' then islower c = islower cl
      else if k = CHR ''p'' then ispunct c = islower cl
      else if k = CHR ''s'' then isspace c = islower cl
      else if k = CHR ''u'' then isupper c = islower cl
      else if k = CHR ''w'' then isalnum c = islower cl
      else if k = CHR ''x'' then isxdigit c = islower cl
      else if k = CHR ''z'' then (c = NUL) = islower cl
      else cl = c)"

function bracket_loop :: "char \<Rightarrow> string \<Rightarrow> nat \<Rightarrow> nat \<Rightarrow> bool \<Rightarrow> bool" where
  "bracket_loop c P p ec sig =
     (let p = p + 1 in
      if p < ec then
        if char_at P p = L_ESC then
          let p = p + 1 in if match_class c (char_at P p) then sig else bracket_loop c P p ec sig
        else if char_at P (p + 1) = CHR ''-'' \<and> p + 2 < ec then
          let p = p + 2 in if char_at P (p - 2) \<le> c \<and> c \<le> char_at P p then sig else bracket_loop c P p ec sig
        else if char_at P p = c then sig else bracket_loop c P p ec sig
      else \<not> sig)"
  by pat_completeness auto
termination by (relation "measure (\<lambda>(c, P, p, ec, sig). ec - p)") auto

declare bracket_loop.simps [simp del]

definition matchbracketclass :: "char \<Rightarrow> string \<Rightarrow> nat \<Rightarrow> nat \<Rightarrow> bool" where
  "matchbracketclass c P p ec =
     (if char_at P (p + 1) = CHR ''^'' then bracket_loop c P (p + 1) ec False else bracket_loop c P p ec True)"

definition singlematch :: "char \<Rightarrow> string \<Rightarrow> nat \<Rightarrow> nat \<Rightarrow> bool" where
  "singlematch c P p ep =
     (if char_at P p = CHR ''.'' then True
      else if char_at P p = L_ESC then match_class c (char_at P (p + 1))
      else if char_at P p = CHR ''['' then matchbracketclass c P p (ep - 1)
      else char_at P p = c)"

text \<open>The loop of \<^verbatim>\<open>matchbalance\<close>; the result is None if the string ends out of balance.\<close>

function balance_loop :: "string \<Rightarrow> char \<Rightarrow> char \<Rightarrow> nat \<Rightarrow> nat \<Rightarrow> nat option" where
  "balance_loop S b e s cont =
     (let s = s + 1 in
      if s < length S then
        if char_at S s = e then (if cont - 1 = 0 then Some (s + 1) else balance_loop S b e s (cont - 1))
        else if char_at S s = b then balance_loop S b e s (cont + 1)
        else balance_loop S b e s cont
      else None)"
  by pat_completeness auto
termination by (relation "measure (\<lambda>(S, b, e, s, cont). length S - s)") auto

declare balance_loop.simps [simp del]

definition matchbalance :: "string \<Rightarrow> nat \<Rightarrow> string \<Rightarrow> nat \<Rightarrow> lua_err + nat option" where
  "matchbalance S s P p =
     (if char_at P p = NUL \<or> char_at P (p + 1) = NUL then Inl (Run_error ''unbalanced pattern'')
      else if char_at S s \<noteq> char_at P p then Inr None
      else Inr (balance_loop S (char_at P p) (char_at P (p + 1)) s 1))"

definition match_capture :: "string \<Rightarrow> MatchState \<Rightarrow> nat \<Rightarrow> char \<Rightarrow> lua_err + nat option" where
  "match_capture S ms s l =
     (case check_capture ms l of
        Inl e \<Rightarrow> Inl e
      | Inr l \<Rightarrow>
          let len = c_size_t (c_len (capture ms ! l)) in
          if len \<le> length S - s \<and> take len (drop (c_init (capture ms ! l)) S) = take len (drop s S)
          then Inr (Some (s + len)) else Inr None)"

text \<open>How often an item matches from \<open>s\<close> on.\<close>

function count_max :: "string \<Rightarrow> string \<Rightarrow> nat \<Rightarrow> nat \<Rightarrow> nat \<Rightarrow> nat \<Rightarrow> nat" where
  "count_max S P s p ep i =
     (if s + i < length S \<and> singlematch (char_at S (s + i)) P p ep then count_max S P s p ep (i + 1) else i)"
  by pat_completeness auto
termination by (relation "measure (\<lambda>(S, P, s, p, ep, i). length S - (s + i))") auto

declare count_max.simps [simp del]

lemma set_end_gt: "set_end P p = Inr ep \<Longrightarrow> p < ep"
proof (induction P p rule: set_end.induct)
  case (1 P p)
  show ?case using 1(2) 1(1) by (subst (asm) set_end.simps) (fastforce simp: Let_def split: if_splits)
qed

lemma classend_gt: "classend P p = Inr ep \<Longrightarrow> p < ep"
  by (auto simp: classend_def Let_def split: if_splits dest!: set_end_gt)

text \<open>The part of the pattern that is left.\<close>

definition pat_left :: "string \<Rightarrow> nat \<Rightarrow> nat" where "pat_left P p = Suc (length P) - p"

lemma pat_left_less: "p < q \<Longrightarrow> char_at P p \<noteq> NUL \<Longrightarrow> pat_left P q < pat_left P p"
  by (auto simp: pat_left_def dest!: char_at_NUL)

lemma pat_left_Suc: "pat_left P (Suc p) < pat_left P p \<or> pat_left P (Suc p) = pat_left P p"
  by (auto simp: pat_left_def)

section \<open>The matcher\<close>

text \<open>
  \<open>do_match\<close> is \<^verbatim>\<open>match\<close>. The result is an error, or the end of the match (None for \<^verbatim>\<open>NULL\<close>) and the captures, which the code
  updates in place. Jumps to \<^verbatim>\<open>init\<close> are calls. \<open>max_try\<close> is the second loop of \<^verbatim>\<open>max_expand\<close>.
\<close>

type_synonym mres = "lua_err + nat option \<times> MatchState"

function (sequential) do_match :: "string \<Rightarrow> string \<Rightarrow> MatchState \<Rightarrow> nat \<Rightarrow> nat \<Rightarrow> mres"
  and start_capture :: "string \<Rightarrow> string \<Rightarrow> MatchState \<Rightarrow> nat \<Rightarrow> nat \<Rightarrow> int \<Rightarrow> mres"
  and end_capture :: "string \<Rightarrow> string \<Rightarrow> MatchState \<Rightarrow> nat \<Rightarrow> nat \<Rightarrow> mres"
  and max_expand :: "string \<Rightarrow> string \<Rightarrow> MatchState \<Rightarrow> nat \<Rightarrow> nat \<Rightarrow> nat \<Rightarrow> mres"
  and max_try :: "string \<Rightarrow> string \<Rightarrow> MatchState \<Rightarrow> nat \<Rightarrow> nat \<Rightarrow> nat \<Rightarrow> mres"
  and min_expand :: "string \<Rightarrow> string \<Rightarrow> MatchState \<Rightarrow> nat \<Rightarrow> nat \<Rightarrow> nat \<Rightarrow> mres"
where
  "do_match S P ms s p =
     (let c = char_at P p; c1 = char_at P (p + 1) in
      if c = CHR ''('' then
        if c1 = CHR '')'' then start_capture S P ms s (p + 2) CAP_POSITION
        else start_capture S P ms s (p + 1) CAP_UNFINISHED
      else if c = CHR '')'' then end_capture S P ms s (p + 1)
      else if c = L_ESC \<and> c1 = CHR ''b'' then
        (case matchbalance S s P (p + 2) of
           Inl e \<Rightarrow> Inl e
         | Inr None \<Rightarrow> Inr (None, ms)
         | Inr (Some s) \<Rightarrow> do_match S P ms s (p + 4))
      else if c = L_ESC \<and> c1 = CHR ''f'' then
        if char_at P (p + 2) \<noteq> CHR ''['' then Inl (Run_error ''missing '[' after '%f' in pattern'')
        else
          (case classend P (p + 2) of
             Inl e \<Rightarrow> Inl e
           | Inr ep \<Rightarrow>
               let previous = (if s = 0 then NUL else char_at S (s - 1)) in
               if matchbracketclass previous P (p + 2) (ep - 1) \<or> \<not> matchbracketclass (char_at S s) P (p + 2) (ep - 1)
               then Inr (None, ms)
               else do_match S P ms s ep)
      else if c = L_ESC \<and> isdigit c1 then
        (case match_capture S ms s c1 of
           Inl e \<Rightarrow> Inl e
         | Inr None \<Rightarrow> Inr (None, ms)
         | Inr (Some s) \<Rightarrow> do_match S P ms s (p + 2))
      else if c = NUL then Inr (Some s, ms)
      else if c = CHR ''$'' \<and> c1 = NUL then Inr (if s = length S then Some s else None, ms)
      else
        (case classend P p of
           Inl e \<Rightarrow> Inl e
         | Inr ep \<Rightarrow>
             let m = s < length S \<and> singlematch (char_at S s) P p ep; q = char_at P ep in
             if q = CHR ''?'' then
               if m then
                 (case do_match S P ms (s + 1) (ep + 1) of
                    Inl e \<Rightarrow> Inl e
                  | Inr (Some res, ms) \<Rightarrow> Inr (Some res, ms)
                  | Inr (None, ms) \<Rightarrow> do_match S P ms s (ep + 1))
               else do_match S P ms s (ep + 1)
             else if q = CHR ''*'' then max_expand S P ms s p ep
             else if q = CHR ''+'' then (if m then max_expand S P ms (s + 1) p ep else Inr (None, ms))
             else if q = CHR ''-'' then min_expand S P ms s p ep
             else if \<not> m then Inr (None, ms)
             else do_match S P ms (s + 1) ep))"
| "start_capture S P ms s p what =
     (let l = level ms in
      if LUA_MAXCAPTURES \<le> l then Inl (Run_error ''too many captures'')
      else
        case do_match S P (ms\<lparr>capture := (capture ms)[l := \<lparr>c_init = s, c_len = what\<rparr>], level := l + 1\<rparr>) s p of
          Inl e \<Rightarrow> Inl e
        | Inr (Some res, ms) \<Rightarrow> Inr (Some res, ms)
        | Inr (None, ms) \<Rightarrow> Inr (None, ms\<lparr>level := level ms - 1\<rparr>))"
| "end_capture S P ms s p =
     (case capture_to_close ms of
        Inl e \<Rightarrow> Inl e
      | Inr l \<Rightarrow>
          let len = int s - int (c_init (capture ms ! l)) in
          case do_match S P (ms\<lparr>capture := (capture ms)[l := (capture ms ! l)\<lparr>c_len := len\<rparr>]\<rparr>) s p of
            Inl e \<Rightarrow> Inl e
          | Inr (Some res, ms) \<Rightarrow> Inr (Some res, ms)
          | Inr (None, ms) \<Rightarrow> Inr (None, ms\<lparr>capture := (capture ms)[l := (capture ms ! l)\<lparr>c_len := CAP_UNFINISHED\<rparr>]\<rparr>))"
| "max_expand S P ms s p ep = max_try S P ms s ep (count_max S P s p ep 0)"
| "max_try S P ms s ep i =
     (case do_match S P ms (s + i) (ep + 1) of
        Inl e \<Rightarrow> Inl e
      | Inr (Some res, ms) \<Rightarrow> Inr (Some res, ms)
      | Inr (None, ms) \<Rightarrow> if i = 0 then Inr (None, ms) else max_try S P ms s ep (i - 1))"
| "min_expand S P ms s p ep =
     (case do_match S P ms s (ep + 1) of
        Inl e \<Rightarrow> Inl e
      | Inr (Some res, ms) \<Rightarrow> Inr (Some res, ms)
      | Inr (None, ms) \<Rightarrow>
          if s < length S \<and> singlematch (char_at S s) P p ep then min_expand S P ms (s + 1) p ep
          else Inr (None, ms))"
  by pat_completeness auto
termination
  by (relation "inv_image (less_than <*lex*> less_than <*lex*> less_than)
      (\<lambda>x. case x of
         Inl (Inl (S, P, ms, s, p)) \<Rightarrow> (pat_left P p, 0, 0)
       | Inl (Inr (Inl (S, P, ms, s, p, what))) \<Rightarrow> (pat_left P p, 1, 0)
       | Inl (Inr (Inr (S, P, ms, s, p))) \<Rightarrow> (pat_left P p, 1, 0)
       | Inr (Inl (S, P, ms, s, p, ep)) \<Rightarrow> (pat_left P ep, 2, 0)
       | Inr (Inr (Inl (S, P, ms, s, ep, i))) \<Rightarrow> (pat_left P ep, 1, i)
       | Inr (Inr (Inr (S, P, ms, s, p, ep))) \<Rightarrow> (pat_left P ep, 1, length S - s))")
    (auto simp: L_ESC_def NUL_def pat_left_Suc intro!: pat_left_less dest!: classend_gt)

declare do_match.simps [simp del] start_capture.simps [simp del] end_capture.simps [simp del]
  max_expand.simps [simp del] max_try.simps [simp del] min_expand.simps [simp del]

section \<open>Searching\<close>

text \<open>\<^verbatim>\<open>memchr\<close> on the \<open>n\<close> characters from \<open>i\<close> on.\<close>

fun memchr :: "string \<Rightarrow> nat \<Rightarrow> char \<Rightarrow> nat \<Rightarrow> nat option" where
  "memchr S i c 0 = None"
| "memchr S i c (Suc n) = (if char_at S i = c then Some i else memchr S (i + 1) c n)"

lemma memchr_ge: "memchr S i c n = Some j \<Longrightarrow> i \<le> j"
  by (induction S i c n rule: memchr.induct) (fastforce split: if_splits)+

function lmemfind_loop :: "string \<Rightarrow> string \<Rightarrow> nat \<Rightarrow> nat \<Rightarrow> nat \<Rightarrow> nat option" where
  "lmemfind_loop S s2 s1 l1 l2 =
     (if 0 < l1 then
        case memchr S s1 (char_at s2 0) l1 of
          None \<Rightarrow> None
        | Some init0 \<Rightarrow>
            let init = init0 + 1 in
            if take l2 (drop init S) = take l2 (drop 1 s2) then Some (init - 1)
            else lmemfind_loop S s2 init (l1 - (init - s1)) l2
      else None)"
  by pat_completeness auto
termination
  by (relation "measure (\<lambda>(S, s2, s1, l1, l2). l1)") (auto dest!: memchr_ge)

declare lmemfind_loop.simps [simp del]

definition lmemfind :: "string \<Rightarrow> nat \<Rightarrow> nat \<Rightarrow> string \<Rightarrow> nat option" where
  "lmemfind S s1 l1 s2 =
     (let l2 = length s2 in
      if l2 = 0 then Some s1
      else if l1 < l2 then None
      else lmemfind_loop S s2 s1 (l1 - (l2 - 1)) (l2 - 1))"

definition push_onecapture :: "string \<Rightarrow> MatchState \<Rightarrow> nat \<Rightarrow> nat \<Rightarrow> nat \<Rightarrow> lua_err + lua_value" where
  "push_onecapture S ms i s e =
     (if level ms \<le> i then
        if i = 0 then Inr (LString (take (e - s) (drop s S)))
        else Inl (Run_error ''invalid capture index'')
      else
        let l = c_len (capture ms ! i); init = c_init (capture ms ! i) in
        if l = CAP_UNFINISHED then Inl (Run_error ''unfinished capture'')
        else if l = CAP_POSITION then Inr (pushinteger (int init + 1))
        else Inr (LString (take (nat l) (drop init S))))"

fun push_loop :: "string \<Rightarrow> MatchState \<Rightarrow> nat list \<Rightarrow> nat \<Rightarrow> nat \<Rightarrow> lua_err + lua_value list" where
  "push_loop S ms [] s e = Inr []"
| "push_loop S ms (i # is) s e =
     (case push_onecapture S ms i s e of
        Inl x \<Rightarrow> Inl x
      | Inr v \<Rightarrow> (case push_loop S ms is s e of Inl x \<Rightarrow> Inl x | Inr vs \<Rightarrow> Inr (v # vs)))"

text \<open>
  The start of the match is None where the code passes \<^verbatim>\<open>NULL\<close>. There are at most \<open>LUA_MAXCAPTURES\<close> values,
  for which the stack has room.
\<close>

definition push_captures :: "string \<Rightarrow> MatchState \<Rightarrow> nat option \<Rightarrow> nat \<Rightarrow> lua_err + lua_value list" where
  "push_captures S ms s e =
     (let nlevels = (if level ms = 0 \<and> s \<noteq> None then 1 else level ms) in
      push_loop S ms [0..<nlevels] (case s of None \<Rightarrow> 0 | Some s \<Rightarrow> s) e)"

text \<open>A match state on the C stack; its captures are written before they are read.\<close>

definition new_MatchState :: MatchState where
  "new_MatchState = \<lparr>level = 0, capture = replicate LUA_MAXCAPTURES \<lparr>c_init = 0, c_len = 0\<rparr>\<rparr>"

function find_loop :: "bool \<Rightarrow> string \<Rightarrow> string \<Rightarrow> nat \<Rightarrow> bool \<Rightarrow> MatchState \<Rightarrow> nat \<Rightarrow> lua_err + lua_value list" where
  "find_loop fnd S P p anchor ms s1 =
     (case do_match S P (ms\<lparr>level := 0\<rparr>) s1 p of
        Inl e \<Rightarrow> Inl e
      | Inr (Some res, ms) \<Rightarrow>
          if fnd then
            (case push_captures S ms None 0 of
               Inl e \<Rightarrow> Inl e
             | Inr vs \<Rightarrow> Inr (pushinteger (int s1 + 1) # pushinteger (int res) # vs))
          else push_captures S ms (Some s1) res
      | Inr (None, ms) \<Rightarrow> if s1 < length S \<and> \<not> anchor then find_loop fnd S P p anchor ms (s1 + 1) else Inr [LNil])"
  by pat_completeness auto
termination by (relation "measure (\<lambda>(fnd, S, P, p, anchor, ms, s1). length S - s1)") auto

declare find_loop.simps [simp del]

definition str_find_aux :: "bool \<Rightarrow> string \<Rightarrow> string \<Rightarrow> int \<Rightarrow> bool \<Rightarrow> lua_err + lua_value list" where
  "str_find_aux fnd s p i plain =
     (let l1 = length s; init = posrelat i l1 - 1;
          init = (if init < 0 then 0 else if l1 < nat init then l1 else nat init)
      in if fnd \<and> (plain \<or> list_all (\<lambda>c. c \<notin> set SPECIALS) (c_str p)) then
           (case lmemfind s init (l1 - init) p of
              Some s2 \<Rightarrow> Inr [pushinteger (int s2 + 1), pushinteger (int (s2 + length p))]
            | None \<Rightarrow> Inr [LNil])
         else
           let P = c_str p; anchor = (char_at P 0 = CHR ''^'') in
           find_loop fnd s P (if anchor then 1 else 0) anchor new_MatchState init)"

definition str_find :: "string \<Rightarrow> string \<Rightarrow> int \<Rightarrow> bool \<Rightarrow> lua_err + lua_value list" where
  "str_find s p i plain = str_find_aux True s p i plain"

definition str_match :: "string \<Rightarrow> string \<Rightarrow> int \<Rightarrow> lua_err + lua_value list" where
  "str_match s p i = str_find_aux False s p i False"

text \<open>
  The iterator that \<^verbatim>\<open>gmatch\<close> returns, with its third upvalue, the position, as state. No results end a loop.
\<close>

function gmatch_aux :: "string \<Rightarrow> string \<Rightarrow> MatchState \<Rightarrow> nat \<Rightarrow> nat \<Rightarrow> lua_err + lua_value list \<times> nat" where
  "gmatch_aux S P ms pos src =
     (if src \<le> length S then
        case do_match S P (ms\<lparr>level := 0\<rparr>) src 0 of
          Inl e \<Rightarrow> Inl e
        | Inr (Some e, ms) \<Rightarrow>
            let newstart = (if e = src then e + 1 else e) in
            (case push_captures S ms (Some src) e of Inl e \<Rightarrow> Inl e | Inr vs \<Rightarrow> Inr (vs, newstart))
        | Inr (None, ms) \<Rightarrow> gmatch_aux S P ms pos (src + 1)
      else Inr ([], pos))"
  by pat_completeness auto
termination by (relation "measure (\<lambda>(S, P, ms, pos, src). Suc (length S) - src)") auto

declare gmatch_aux.simps [simp del]

definition gmatch_next :: "string \<Rightarrow> string \<Rightarrow> nat \<Rightarrow> lua_err + lua_value list \<times> nat" where
  "gmatch_next s p pos = gmatch_aux s (c_str p) new_MatchState pos pos"

section \<open>Substitution\<close>

text \<open>\<open>num\<close> is the text of a number.\<close>

definition capture_text :: "(lua_Number \<Rightarrow> string) \<Rightarrow> lua_value \<Rightarrow> string option" where
  "capture_text num v = (case v of LString s \<Rightarrow> Some s | LNumber n \<Rightarrow> Some (num n) | _ \<Rightarrow> None)"

function add_s :: "(lua_Number \<Rightarrow> string) \<Rightarrow> string \<Rightarrow> MatchState \<Rightarrow> string \<Rightarrow> nat \<Rightarrow> string \<Rightarrow> nat \<Rightarrow> nat \<Rightarrow> lua_err + string" where
  "add_s num S ms news i b s e =
     (if i < length news then
        if char_at news i \<noteq> L_ESC then add_s num S ms news (i + 1) (b @ [char_at news i]) s e
        else
          let c = char_at news (i + 1) in
          if \<not> isdigit c then add_s num S ms news (i + 2) (b @ [c]) s e
          else if c = CHR ''0'' then add_s num S ms news (i + 2) (b @ take (e - s) (drop s S)) s e
          else
            case push_onecapture S ms (of_char c - of_char CHR ''1'') s e of
              Inl x \<Rightarrow> Inl x
            | Inr v \<Rightarrow> add_s num S ms news (i + 2) (b @ the (capture_text num v)) s e
      else Inr b)"
  by pat_completeness auto
termination by (relation "measure (\<lambda>(num, S, ms, news, i, b, s, e). length news - i)") auto

declare add_s.simps [simp del]

text \<open>The replacement: a string (or number), a function of the captures, a table indexed by the first one.\<close>

datatype repl =
    Repl_str string
  | Repl_fun "lua_value list \<Rightarrow> lua_err + lua_value"
  | Repl_tab "lua_value \<Rightarrow> lua_err + lua_value"

definition replaced_by :: "(lua_Number \<Rightarrow> string) \<Rightarrow> string \<Rightarrow> string \<Rightarrow> nat \<Rightarrow> nat \<Rightarrow> lua_value \<Rightarrow> lua_err + string" where
  "replaced_by num S b s e v =
     (if v = LNil \<or> v = LBoolean False then Inr (b @ take (e - s) (drop s S))
      else case capture_text num v of
        None \<Rightarrow> Inl (Run_error (''invalid replacement value (a '' @ luaT_typenames ! nat (ttype v) @ '')''))
      | Some t \<Rightarrow> Inr (b @ t))"

definition add_value :: "(lua_Number \<Rightarrow> string) \<Rightarrow> string \<Rightarrow> MatchState \<Rightarrow> repl \<Rightarrow> string \<Rightarrow> nat \<Rightarrow> nat \<Rightarrow> lua_err + string" where
  "add_value num S ms r b s e =
     (case r of
        Repl_str news \<Rightarrow> add_s num S ms news 0 b s e
      | Repl_fun f \<Rightarrow> ebind (push_captures S ms (Some s) e) (\<lambda>vs. ebind (f vs) (replaced_by num S b s e))
      | Repl_tab t \<Rightarrow> ebind (push_onecapture S ms 0 s e) (\<lambda>v. ebind (t v) (replaced_by num S b s e)))"

function gsub_loop :: "(lua_Number \<Rightarrow> string) \<Rightarrow> string \<Rightarrow> string \<Rightarrow> nat \<Rightarrow> bool \<Rightarrow> repl \<Rightarrow> int \<Rightarrow>
    MatchState \<Rightarrow> string \<Rightarrow> nat \<Rightarrow> int \<Rightarrow> lua_err + string \<times> nat \<times> int" where
  "gsub_loop num S P p anchor r max_s ms b src n =
     (if n < max_s then
        case do_match S P (ms\<lparr>level := 0\<rparr>) src p of
          Inl x \<Rightarrow> Inl x
        | Inr (Some e, ms) \<Rightarrow>
            (case add_value num S ms r b src e of
               Inl x \<Rightarrow> Inl x
             | Inr b \<Rightarrow>
                 if src < e then
                   if anchor then Inr (b, e, n + 1) else gsub_loop num S P p anchor r max_s ms b e (n + 1)
                 else if src < length S then
                   if anchor then Inr (b @ [char_at S src], src + 1, n + 1)
                   else gsub_loop num S P p anchor r max_s ms (b @ [char_at S src]) (src + 1) (n + 1)
                 else Inr (b, src, n + 1))
        | Inr (None, ms) \<Rightarrow>
            if src < length S then
              if anchor then Inr (b @ [char_at S src], src + 1, n)
              else gsub_loop num S P p anchor r max_s ms (b @ [char_at S src]) (src + 1) n
            else Inr (b, src, n)
      else Inr (b, src, n))"
  by pat_completeness auto
termination
  by (relation "measures [\<lambda>(num, S, P, p, anchor, r, max_s, ms, b, src, n). nat (max_s - n),
      \<lambda>(num, S, P, p, anchor, r, max_s, ms, b, src, n). length S - src]") auto

declare gsub_loop.simps [simp del]

text \<open>The fourth argument of \<^verbatim>\<open>gsub\<close> is optional; the default is the length of the subject plus one.\<close>

definition str_gsub :: "(lua_Number \<Rightarrow> string) \<Rightarrow> string \<Rightarrow> string \<Rightarrow> repl \<Rightarrow> int option \<Rightarrow> lua_err + string \<times> int" where
  "str_gsub num src pat r maxn =
     (let max_s = c_int (case maxn of None \<Rightarrow> int (length src) + 1 | Some m \<Rightarrow> m);
          P = c_str pat; anchor = (char_at P 0 = CHR ''^'')
      in case gsub_loop num src P (if anchor then 1 else 0) anchor r max_s new_MatchState [] 0 0 of
           Inl x \<Rightarrow> Inl x
         | Inr (b, s, n) \<Rightarrow> Inr (b @ drop s src, n))"

section \<open>Quoting and formatting\<close>

definition quote_char :: "char \<Rightarrow> string" where
  "quote_char c =
     (if c = CHR 0x22 \<or> c = CHR 0x5C \<or> c = CHR 0x0A then [CHR 0x5C, c]
      else if c = CHR 0x0D then [CHR 0x5C, CHR ''r'']
      else if c = NUL then CHR 0x5C # ''000''
      else [c])"

fun quote_loop :: "string \<Rightarrow> string" where
  "quote_loop [] = []"
| "quote_loop (c # s) = quote_char c @ quote_loop s"

definition addquoted :: "string \<Rightarrow> string" where
  "addquoted s = CHR 0x22 # quote_loop s @ [CHR 0x22]"

definition FLAGS :: string where "FLAGS = ''-+ #0''"
definition LUA_INTFRMLEN :: string where "LUA_INTFRMLEN = ''l''"
definition MAX_FORMAT :: nat where "MAX_FORMAT = (length FLAGS + 1) + (length LUA_INTFRMLEN + 1) + 10"

function skip_flags :: "string \<Rightarrow> nat \<Rightarrow> nat" where
  "skip_flags F p = (if char_at F p \<noteq> NUL \<and> char_at F p \<in> set FLAGS then skip_flags F (p + 1) else p)"
  by pat_completeness auto
termination by (relation "measure (\<lambda>(F, p). length F - p)") (auto dest!: char_at_NUL)

declare skip_flags.simps [simp del]

definition skip_digits2 :: "string \<Rightarrow> nat \<Rightarrow> nat" where
  "skip_digits2 F p =
     (let p = (if isdigit (char_at F p) then p + 1 else p) in if isdigit (char_at F p) then p + 1 else p)"

text \<open>The specification that \<^verbatim>\<open>scanformat\<close> copies to \<^verbatim>\<open>form\<close>, without its terminating zero, and the position of its last character.\<close>

definition scanformat :: "string \<Rightarrow> nat \<Rightarrow> lua_err + string \<times> nat" where
  "scanformat F strfrmt =
     (let p = skip_flags F strfrmt in
      if length FLAGS + 1 \<le> p - strfrmt then Inl (Run_error ''invalid format (repeated flags)'')
      else
        let p = skip_digits2 F p;
            p = (if char_at F p = CHR ''.'' then skip_digits2 F (p + 1) else p)
        in if isdigit (char_at F p) then Inl (Run_error ''invalid format (width or precision too long)'')
           else Inr (CHR ''%'' # c_str (List.map (char_at F) [strfrmt..<p + 1]), p))"

definition addintlen :: "string \<Rightarrow> string" where
  "addintlen form = butlast form @ LUA_INTFRMLEN @ [last form]"

text \<open>
  The conversions of \<^verbatim>\<open>sprintf\<close>, by the type of the argument, and the conversions of values to numbers and strings.
\<close>

record fmt_env =
  num_text :: "lua_Number \<Rightarrow> string"
  to_number :: "lua_value \<Rightarrow> lua_Number option"
  sprintf_int :: "string \<Rightarrow> int \<Rightarrow> string"
  sprintf_double :: "string \<Rightarrow> lua_Number \<Rightarrow> string"
  sprintf_str :: "string \<Rightarrow> string \<Rightarrow> string"

definition fmt_arg :: "lua_value list \<Rightarrow> nat \<Rightarrow> lua_value" where
  "fmt_arg args n = (if n - 2 < length args then args ! (n - 2) else LNil)"

definition fmt_number :: "fmt_env \<Rightarrow> lua_value list \<Rightarrow> nat \<Rightarrow> lua_err + lua_Number" where
  "fmt_number E args n =
     (case to_number E (fmt_arg args n) of
        None \<Rightarrow> Inl (Arg_error (int n) ''number expected'') | Some x \<Rightarrow> Inr x)"

definition fmt_string :: "fmt_env \<Rightarrow> lua_value list \<Rightarrow> nat \<Rightarrow> lua_err + string" where
  "fmt_string E args n =
     (case capture_text (num_text E) (fmt_arg args n) of
        None \<Rightarrow> Inl (Arg_error (int n) ''string expected'') | Some x \<Rightarrow> Inr x)"

text \<open>One format item: the text that is added for the specification \<open>form\<close>, whose last character is \<open>c\<close>.\<close>

definition format_item :: "fmt_env \<Rightarrow> lua_value list \<Rightarrow> nat \<Rightarrow> string \<Rightarrow> char \<Rightarrow> lua_err + string" where
  "format_item E args n form c =
     (if c = CHR ''c'' then
        ebind (fmt_number E args n) (\<lambda>x. Inr (c_str (sprintf_int E form (c_int (lua_number2integer x)))))
      else if c \<in> set ''di'' \<or> c \<in> set ''ouxX'' then
        ebind (fmt_number E args n) (\<lambda>x. Inr (c_str (sprintf_int E (addintlen form) (lua_number2integer x))))
      else if c \<in> set ''eEfgG'' then
        ebind (fmt_number E args n) (\<lambda>x. Inr (c_str (sprintf_double E form x)))
      else if c = CHR ''q'' then ebind (fmt_string E args n) (\<lambda>s. Inr (addquoted s))
      else if c = CHR ''s'' then
        ebind (fmt_string E args n)
          (\<lambda>s. if CHR ''.'' \<notin> set form \<and> 100 \<le> length s then Inr s else Inr (c_str (sprintf_str E form (c_str s))))
      else Inl (Run_error (''invalid option '' @ [CHR 0x27, CHR ''%'', c, CHR 0x27] @ '' to format'')))"

lemma skip_flags_ge: "p \<le> skip_flags F p"
  by (induction F p rule: skip_flags.induct) (subst skip_flags.simps, auto)

lemma scanformat_ge: "scanformat F p = Inr (form, q) \<Longrightarrow> p \<le> q"
  using skip_flags_ge [of p F] by (auto simp: scanformat_def skip_digits2_def Let_def split: if_splits)

function format_loop :: "fmt_env \<Rightarrow> string \<Rightarrow> lua_value list \<Rightarrow> nat \<Rightarrow> nat \<Rightarrow> lua_err + string" where
  "format_loop E F args arg strfrmt =
     (if strfrmt < length F then
        if char_at F strfrmt \<noteq> L_ESC then
          (case format_loop E F args arg (strfrmt + 1) of Inl e \<Rightarrow> Inl e | Inr b \<Rightarrow> Inr (char_at F strfrmt # b))
        else if char_at F (strfrmt + 1) = L_ESC then
          (case format_loop E F args arg (strfrmt + 2) of Inl e \<Rightarrow> Inl e | Inr b \<Rightarrow> Inr (L_ESC # b))
        else
          case scanformat F (strfrmt + 1) of
            Inl e \<Rightarrow> Inl e
          | Inr (form, p) \<Rightarrow>
              (case format_item E args (arg + 1) form (char_at F p) of
                 Inl e \<Rightarrow> Inl e
               | Inr t \<Rightarrow> (case format_loop E F args (arg + 1) (p + 1) of Inl e \<Rightarrow> Inl e | Inr b \<Rightarrow> Inr (t @ b)))
      else Inr [])"
  by pat_completeness auto
termination
  by (relation "measure (\<lambda>(E, F, args, arg, strfrmt). length F - strfrmt)") (auto dest!: scanformat_ge)

declare format_loop.simps [simp del]

definition str_format :: "fmt_env \<Rightarrow> string \<Rightarrow> lua_value list \<Rightarrow> lua_err + string" where
  "str_format E F args = format_loop E F args 1 0"

end
