(* ===== verification/Lstrlib_Correct.thy ===== *)
theory Lstrlib_Correct
  imports Lstrlib
begin

text \<open>
  What the pattern matcher of \<^verbatim>\<open>lstrlib.c\<close> computes. A pattern is parsed to a list of items; the outcomes of a list of
  items are all ways to match it, in the order in which a backtracking search tries them, with the captures as a
  list that is never undone. The matcher, which keeps the captures in place and undoes them, delivers the first outcome.
\<close>

section \<open>Patterns as items\<close>

datatype item =
    I_Open | I_Position | I_Close
  | I_Balance char char | I_Frontier "char \<Rightarrow> bool" | I_Back char
  | I_One "char \<Rightarrow> bool" | I_Opt "char \<Rightarrow> bool" | I_Star "char \<Rightarrow> bool" | I_Plus "char \<Rightarrow> bool" | I_Lazy "char \<Rightarrow> bool"
  | I_End | I_Fail lua_err

function items :: "string \<Rightarrow> nat \<Rightarrow> item list" where
  "items P p =
     (let c = char_at P p; c1 = char_at P (p + 1) in
      if c = NUL then []
      else if c = CHR ''('' then
        if c1 = CHR '')'' then I_Position # items P (p + 2) else I_Open # items P (p + 1)
      else if c = CHR '')'' then I_Close # items P (p + 1)
      else if c = L_ESC \<and> c1 = CHR ''b'' then
        if char_at P (p + 2) = NUL \<or> char_at P (p + 3) = NUL then [I_Fail (Run_error ''unbalanced pattern'')]
        else I_Balance (char_at P (p + 2)) (char_at P (p + 3)) # items P (p + 4)
      else if c = L_ESC \<and> c1 = CHR ''f'' then
        if char_at P (p + 2) \<noteq> CHR ''['' then [I_Fail (Run_error ''missing '[' after '%f' in pattern'')]
        else
          (case classend P (p + 2) of
             Inl e \<Rightarrow> [I_Fail e]
           | Inr ep \<Rightarrow> I_Frontier (\<lambda>c. matchbracketclass c P (p + 2) (ep - 1)) # items P ep)
      else if c = L_ESC \<and> isdigit c1 then I_Back c1 # items P (p + 2)
      else if c = CHR ''$'' \<and> c1 = NUL then [I_End]
      else
        (case classend P p of
           Inl e \<Rightarrow> [I_Fail e]
         | Inr ep \<Rightarrow>
             let f = (\<lambda>c. singlematch c P p ep); q = char_at P ep in
             if q = CHR ''?'' then I_Opt f # items P (ep + 1)
             else if q = CHR ''*'' then I_Star f # items P (ep + 1)
             else if q = CHR ''+'' then I_Plus f # items P (ep + 1)
             else if q = CHR ''-'' then I_Lazy f # items P (ep + 1)
             else I_One f # items P ep))"
  by pat_completeness auto
termination
  by (relation "measure (\<lambda>(P, p). pat_left P p)") (auto intro!: pat_left_less dest!: classend_gt)

declare items.simps [simp del]

section \<open>Outcomes\<close>

definition run_length :: "(char \<Rightarrow> bool) \<Rightarrow> string \<Rightarrow> nat \<Rightarrow> nat" where
  "run_length f S s = length (takeWhile f (drop s S))"

definition last_open :: "Capture list \<Rightarrow> nat option" where
  "last_open cs =
     (case filter (\<lambda>l. c_len (cs ! l) = CAP_UNFINISHED) (rev [0..<length cs]) of [] \<Rightarrow> None | l # _ \<Rightarrow> Some l)"

definition fits :: "(char \<Rightarrow> bool) \<Rightarrow> string \<Rightarrow> nat \<Rightarrow> bool" where
  "fits f S s \<longleftrightarrow> s < length S \<and> f (S ! s)"

type_synonym outcome = "lua_err + nat \<times> Capture list"

primrec outs :: "string \<Rightarrow> item list \<Rightarrow> Capture list \<Rightarrow> nat \<Rightarrow> outcome list" where
  "outs S [] = (\<lambda>cs s. [Inr (s, cs)])"
| "outs S (it # its) = (\<lambda>cs s.
     (case it of
        I_Open \<Rightarrow>
          if LUA_MAXCAPTURES \<le> length cs then [Inl (Run_error ''too many captures'')]
          else outs S its (cs @ [\<lparr>c_init = s, c_len = CAP_UNFINISHED\<rparr>]) s
      | I_Position \<Rightarrow>
          if LUA_MAXCAPTURES \<le> length cs then [Inl (Run_error ''too many captures'')]
          else outs S its (cs @ [\<lparr>c_init = s, c_len = CAP_POSITION\<rparr>]) s
      | I_Close \<Rightarrow>
          (case last_open cs of
             None \<Rightarrow> [Inl (Run_error ''invalid pattern capture'')]
           | Some l \<Rightarrow> outs S its (cs[l := (cs ! l)\<lparr>c_len := int s - int (c_init (cs ! l))\<rparr>]) s)
      | I_Balance b e \<Rightarrow>
          if char_at S s \<noteq> b then []
          else (case balance_loop S b e s 1 of None \<Rightarrow> [] | Some s \<Rightarrow> outs S its cs s)
      | I_Frontier f \<Rightarrow>
          if f (if s = 0 then NUL else char_at S (s - 1)) \<or> \<not> f (char_at S s) then [] else outs S its cs s
      | I_Back c \<Rightarrow>
          (case match_capture S \<lparr>level = length cs, capture = cs\<rparr> s c of
             Inl e \<Rightarrow> [Inl e] | Inr None \<Rightarrow> [] | Inr (Some s) \<Rightarrow> outs S its cs s)
      | I_One f \<Rightarrow> if fits f S s then outs S its cs (s + 1) else []
      | I_Opt f \<Rightarrow> (if fits f S s then outs S its cs (s + 1) else []) @ outs S its cs s
      | I_Star f \<Rightarrow> concat (List.map (\<lambda>i. outs S its cs (s + i)) (rev [0..<Suc (run_length f S s)]))
      | I_Plus f \<Rightarrow> concat (List.map (\<lambda>i. outs S its cs (s + i)) (rev [1..<Suc (run_length f S s)]))
      | I_Lazy f \<Rightarrow> concat (List.map (\<lambda>i. outs S its cs (s + i)) [0..<Suc (run_length f S s)])
      | I_End \<Rightarrow> if s = length S then [Inr (s, cs)] else []
      | I_Fail e \<Rightarrow> [Inl e]))"

section \<open>The matcher delivers the first outcome\<close>

definition ms_ok :: "MatchState \<Rightarrow> bool" where
  "ms_ok ms \<longleftrightarrow> level ms \<le> LUA_MAXCAPTURES \<and> length (capture ms) = LUA_MAXCAPTURES"

definition caps :: "MatchState \<Rightarrow> Capture list" where
  "caps ms = take (level ms) (capture ms)"

definition delivers :: "mres \<Rightarrow> outcome list \<Rightarrow> Capture list \<Rightarrow> bool" where
  "delivers r os cs \<longleftrightarrow>
     (case os of
        [] \<Rightarrow> \<exists>ms. r = Inr (None, ms) \<and> ms_ok ms \<and> caps ms = cs
      | Inl e # _ \<Rightarrow> r = Inl e
      | Inr (e, cs') # _ \<Rightarrow> \<exists>ms. r = Inr (Some e, ms) \<and> ms_ok ms \<and> caps ms = cs')"

lemma delivers_simps [simp]:
  "delivers (Inr (None, ms)) [] cs \<longleftrightarrow> ms_ok ms \<and> caps ms = cs"
  "delivers r (Inl e # os) cs \<longleftrightarrow> r = Inl e"
  "delivers (Inr (Some x, ms)) (Inr (x', cs') # os) cs \<longleftrightarrow> x = x' \<and> ms_ok ms \<and> caps ms = cs'"
  by (auto simp: delivers_def)

lemma delivers_cases:
  assumes "delivers r os cs"
  obtains (Failed) ms where "os = []" "r = Inr (None, ms)" "ms_ok ms" "caps ms = cs"
  | (Raised) e os' where "os = Inl e # os'" "r = Inl e"
  | (Matched) e cs' os' ms where "os = Inr (e, cs') # os'" "r = Inr (Some e, ms)" "ms_ok ms" "caps ms = cs'"
  using assms unfolding delivers_def by (auto split: list.splits sum.splits)

text \<open>A second attempt, after the first has failed.\<close>

lemma delivers_orelse:
  assumes "delivers r os cs" "\<And>ms. ms_ok ms \<Longrightarrow> caps ms = cs \<Longrightarrow> delivers (k ms) os' cs"
  shows "delivers (case r of Inl e \<Rightarrow> Inl e | Inr (Some e, ms) \<Rightarrow> Inr (Some e, ms) | Inr (None, ms) \<Rightarrow> k ms) (os @ os') cs"
  using assms(1) by (cases rule: delivers_cases) (use assms(2) in auto)

lemma caps_length [simp]: "ms_ok ms \<Longrightarrow> length (caps ms) = level ms"
  by (simp add: caps_def ms_ok_def)

lemma caps_nth: "ms_ok ms \<Longrightarrow> l < level ms \<Longrightarrow> caps ms ! l = capture ms ! l"
  by (simp add: caps_def)

lemma close_loop_spec:
  "n \<le> level ms \<Longrightarrow> ms_ok ms \<Longrightarrow>
   close_loop ms n =
     (case filter (\<lambda>l. c_len (caps ms ! l) = CAP_UNFINISHED) (rev [0..<n]) of
        [] \<Rightarrow> Inl (Run_error ''invalid pattern capture'') | l # _ \<Rightarrow> Inr l)"
  by (induction n) (simp_all add: caps_nth)

lemma capture_to_close_spec:
  "ms_ok ms \<Longrightarrow> capture_to_close ms =
     (case last_open (caps ms) of None \<Rightarrow> Inl (Run_error ''invalid pattern capture'') | Some l \<Rightarrow> Inr l)"
  by (simp add: capture_to_close_def close_loop_spec last_open_def split: list.splits)

lemma last_open_lt: "last_open cs = Some l \<Longrightarrow> l < length cs \<and> c_len (cs ! l) = CAP_UNFINISHED"
proof -
  assume "last_open cs = Some l"
  then have "l \<in> set (filter (\<lambda>l. c_len (cs ! l) = CAP_UNFINISHED) (rev [0..<length cs]))"
    unfolding last_open_def by (cases "filter (\<lambda>l. c_len (cs ! l) = CAP_UNFINISHED) (rev [0..<length cs])") simp_all
  then show ?thesis by simp
qed

lemma match_capture_caps:
  "ms_ok ms \<Longrightarrow> match_capture S ms s c = match_capture S \<lparr>level = level ms, capture = caps ms\<rparr> s c"
proof -
  assume "ms_ok ms"
  let ?l = "of_char c - of_char CHR ''1'' :: int"
  show ?thesis
  proof (cases "?l < 0 \<or> int (level ms) \<le> ?l")
    case False
    then have "nat ?l < level ms" by linarith
    then have "caps ms ! nat ?l = capture ms ! nat ?l" by (simp only: caps_def nth_take)
    then show ?thesis
      by (cases "c_len (capture ms ! nat ?l) = CAP_UNFINISHED")
        (simp_all only: match_capture_def check_capture_def Let_def MatchState.simps False if_True if_False simp_thms sum.case)
  next
    case True
    then have "check_capture ms c = Inl (Run_error ''invalid capture index'')"
      "check_capture \<lparr>level = level ms, capture = caps ms\<rparr> c = Inl (Run_error ''invalid capture index'')"
      by (auto simp: check_capture_def Let_def)
    then show ?thesis by (simp add: match_capture_def)
  qed
qed

lemma count_max_run:
  "count_max S P s p ep i = i + run_length (\<lambda>c. singlematch c P p ep) S (s + i)"
proof (induction S P s p ep i rule: count_max.induct)
  case (1 S P s p ep i)
  show ?case
  proof (cases "s + i < length S")
    case True
    then have "drop (s + i) S = char_at S (s + i) # drop (s + (i + 1)) S" by (simp add: char_at_def Cons_nth_drop_Suc)
    then show ?thesis using 1 True by (simp add: count_max.simps [of S P s p ep i] run_length_def)
  qed (simp add: count_max.simps [of S P s p ep i] run_length_def)
qed

lemma run_length_step:
  "run_length f S s = (if fits f S s then Suc (run_length f S (s + 1)) else 0)"
proof (cases "s < length S")
  case True
  then have "drop s S = S ! s # drop (s + 1) S" by (simp add: Cons_nth_drop_Suc)
  then show ?thesis using True by (simp add: run_length_def fits_def)
qed (simp add: run_length_def fits_def)

lemma fits_char_at: "fits f S s \<longleftrightarrow> s < length S \<and> f (char_at S s)"
  by (auto simp: fits_def char_at_def)

text \<open>The attempts of the three kinds of repetition.\<close>

definition greedy :: "string \<Rightarrow> item list \<Rightarrow> Capture list \<Rightarrow> nat \<Rightarrow> nat \<Rightarrow> outcome list" where
  "greedy S its cs s n = concat (List.map (\<lambda>i. outs S its cs (s + i)) (rev [0..<Suc n]))"

definition lazy :: "string \<Rightarrow> item list \<Rightarrow> Capture list \<Rightarrow> nat \<Rightarrow> nat \<Rightarrow> outcome list" where
  "lazy S its cs s n = concat (List.map (\<lambda>i. outs S its cs (s + i)) [0..<Suc n])"

lemma greedy_step: "greedy S its cs s n = outs S its cs (s + n) @ (if n = 0 then [] else greedy S its cs s (n - 1))"
  by (cases n) (simp_all add: greedy_def)

lemma lazy_step: "lazy S its cs s n = outs S its cs s @ (if n = 0 then [] else lazy S its cs (s + 1) (n - 1))"
proof (cases n)
  case (Suc m)
  have "[0..<Suc (Suc m)] = 0 # [Suc 0..<Suc (Suc m)]" by (rule upt_conv_Cons) simp
  then have "[0..<Suc (Suc m)] = 0 # List.map Suc [0..<Suc m]" by (simp only: map_Suc_upt)
  then show ?thesis unfolding Suc by (simp add: lazy_def comp_def del: upt_Suc)
qed (simp add: lazy_def)

lemma plus_greedy:
  "concat (List.map (\<lambda>i. outs S its cs (s + i)) (rev [1..<Suc n])) = (if n = 0 then [] else greedy S its cs (s + 1) (n - 1))"
proof (cases n)
  case (Suc m)
  have "[1..<Suc (Suc m)] = List.map Suc [0..<Suc m]" by (simp only: map_Suc_upt One_nat_def)
  then show ?thesis unfolding Suc by (simp add: greedy_def rev_map comp_def del: upt_Suc)
qed simp

lemma max_try_delivers:
  assumes "\<And>ms i. ms_ok ms \<Longrightarrow> delivers (do_match S P ms (s + i) (ep + 1)) (outs S its (caps ms) (s + i)) (caps ms)"
  shows "ms_ok ms \<Longrightarrow> delivers (max_try S P ms s ep i) (greedy S its (caps ms) s i) (caps ms)"
proof (induction i arbitrary: ms)
  case 0
  show ?case unfolding max_try.simps [of S P ms s ep 0] greedy_step [of S its "caps ms" s 0]
    by (rule delivers_orelse [OF assms [OF 0, of 0]]) simp
next
  case (Suc i)
  show ?case unfolding max_try.simps [of S P ms s ep "Suc i"] greedy_step [of S its "caps ms" s "Suc i"]
    by (rule delivers_orelse [OF assms [OF Suc(2), of "Suc i"]]) (use Suc(1) in force)
qed

lemma min_expand_delivers:
  assumes "\<And>ms s. ms_ok ms \<Longrightarrow> delivers (do_match S P ms s (ep + 1)) (outs S its (caps ms) s) (caps ms)"
  shows "ms_ok ms \<Longrightarrow> n = run_length (\<lambda>c. singlematch c P p ep) S s \<Longrightarrow>
    delivers (min_expand S P ms s p ep) (lazy S its (caps ms) s n) (caps ms)"
proof (induction n arbitrary: ms s)
  case 0
  then have "\<not> (s < length S \<and> singlematch (char_at S s) P p ep)"
    using run_length_step [of "\<lambda>c. singlematch c P p ep" S s] by (auto simp: fits_char_at)
  then show ?case unfolding min_expand.simps [of S P ms s p ep] lazy_step [of S its "caps ms" s 0]
    by (intro delivers_orelse [OF assms [OF 0(1), of s]]) auto
next
  case (Suc n)
  then have n: "s < length S" "singlematch (char_at S s) P p ep" "n = run_length (\<lambda>c. singlematch c P p ep) S (s + 1)"
    using run_length_step [of "\<lambda>c. singlematch c P p ep" S s] by (auto simp: fits_char_at split: if_splits)
  show ?case unfolding min_expand.simps [of S P ms s p ep] lazy_step [of S its "caps ms" s "Suc n"]
    by (rule delivers_orelse [OF assms [OF Suc(2), of s]]) (use Suc(1) n in force)
qed

lemma open_ok:
  assumes "ms_ok ms" "\<not> LUA_MAXCAPTURES \<le> level ms"
  shows "ms_ok (ms\<lparr>capture := (capture ms)[level ms := x], level := level ms + 1\<rparr>)"
    and "caps (ms\<lparr>capture := (capture ms)[level ms := x], level := level ms + 1\<rparr>) = caps ms @ [x]"
  using assms by (auto simp: ms_ok_def caps_def take_Suc_conv_app_nth)

lemma start_capture_delivers:
  assumes "\<And>ms. ms_ok ms \<Longrightarrow> delivers (do_match S P ms s p) (outs S its (caps ms) s) (caps ms)" "ms_ok ms"
  shows "delivers (start_capture S P ms s p what)
    (if LUA_MAXCAPTURES \<le> length (caps ms) then [Inl (Run_error ''too many captures'')]
     else outs S its (caps ms @ [\<lparr>c_init = s, c_len = what\<rparr>]) s) (caps ms)"
proof (cases "LUA_MAXCAPTURES \<le> level ms")
  case False
  note o = open_ok [OF assms(2) False, of "\<lparr>c_init = s, c_len = what\<rparr>"]
  have undo: "ms_ok (ms'\<lparr>level := level ms' - 1\<rparr>) \<and> caps (ms'\<lparr>level := level ms' - 1\<rparr>) = caps ms"
    if "ms_ok ms'" "caps ms' = caps ms @ [x]" for ms' x
  proof -
    have "level ms' = Suc (level ms)" using that assms(2) caps_length by (metis length_append_singleton)
    then show ?thesis using that unfolding caps_def ms_ok_def
      by simp (metis append_eq_conv_conj assms(2) caps_def caps_length take_Suc_conv_app_nth take_all_iff butlast_snoc butlast_take diff_Suc_1 nat_le_linear not_less_eq_eq)
  qed
  show ?thesis using assms(1) [OF o(1)] unfolding o(2) start_capture.simps [of S P ms s p what]
    by (cases rule: delivers_cases) (use False assms(2) undo in \<open>auto simp: Let_def\<close>)
qed (use assms(2) in \<open>simp add: start_capture.simps [of S P ms s p what] Let_def\<close>)

lemma end_capture_delivers:
  assumes "\<And>ms. ms_ok ms \<Longrightarrow> delivers (do_match S P ms s p) (outs S its (caps ms) s) (caps ms)" "ms_ok ms"
  shows "delivers (end_capture S P ms s p)
    (case last_open (caps ms) of
       None \<Rightarrow> [Inl (Run_error ''invalid pattern capture'')]
     | Some l \<Rightarrow> outs S its ((caps ms)[l := (caps ms ! l)\<lparr>c_len := int s - int (c_init (caps ms ! l))\<rparr>]) s) (caps ms)"
proof (cases "last_open (caps ms)")
  case (Some l)
  have l: "l < level ms" "c_len (capture ms ! l) = CAP_UNFINISHED" "caps ms ! l = capture ms ! l"
    using last_open_lt [OF Some] assms(2) by (auto simp: caps_nth)
  let ?x = "(capture ms ! l)\<lparr>c_len := int s - int (c_init (capture ms ! l))\<rparr>"
  have ok: "ms_ok (ms\<lparr>capture := (capture ms)[l := ?x]\<rparr>)" "caps (ms\<lparr>capture := (capture ms)[l := ?x]\<rparr>) = (caps ms)[l := ?x]"
    using assms(2) l(1) by (auto simp: ms_ok_def caps_def take_update_swap)
  have undo: "ms_ok (ms'\<lparr>capture := (capture ms')[l := (capture ms' ! l)\<lparr>c_len := CAP_UNFINISHED\<rparr>]\<rparr>) \<and>
      caps (ms'\<lparr>capture := (capture ms')[l := (capture ms' ! l)\<lparr>c_len := CAP_UNFINISHED\<rparr>]\<rparr>) = caps ms"
    if "ms_ok ms'" "caps ms' = (caps ms)[l := ?x]" for ms'
  proof -
    have lev: "level ms' = level ms" using that assms(2) by (metis caps_length length_list_update)
    have "capture ms' ! l = ?x" using that l(1) lev assms(2) by (metis caps_length caps_nth nth_list_update_eq)
    then have "(caps ms')[l := (capture ms' ! l)\<lparr>c_len := CAP_UNFINISHED\<rparr>] = caps ms"
      using that(2) l(2,3) by (metis Capture.surjective Capture.update_convs(2) list_update_id list_update_overwrite Capture.ext_inject)
    then show ?thesis using that(1) by (simp add: ms_ok_def caps_def take_update_swap)
  qed
  show ?thesis using assms(1) [OF ok(1)] unfolding ok(2) end_capture.simps [of S P ms s p]
    by (cases rule: delivers_cases) (use Some l(3) undo capture_to_close_spec [OF assms(2)] in \<open>auto simp: Let_def\<close>)
qed (simp add: end_capture.simps [of S P ms s p] capture_to_close_spec [OF assms(2)])

text \<open>A character class with its suffix, given the matcher for the rest of the pattern.\<close>

lemma max_expand_delivers:
  assumes "\<And>ms s. ms_ok ms \<Longrightarrow> delivers (do_match S P ms s (ep + 1)) (outs S its (caps ms) s) (caps ms)" "ms_ok ms"
  shows "delivers (max_expand S P ms s p ep) (greedy S its (caps ms) s (run_length (\<lambda>c. singlematch c P p ep) S s)) (caps ms)"
  using max_try_delivers [OF assms(1) assms(2), of s] by (simp add: max_expand.simps count_max_run)

lemma repetition_delivers:
  fixes P p ep
  defines "f \<equiv> \<lambda>c. singlematch c P p ep"
  assumes IH: "\<And>ms s. ms_ok ms \<Longrightarrow> delivers (do_match S P ms s (ep + 1)) (outs S its (caps ms) s) (caps ms)" and ok: "ms_ok ms"
  shows "delivers (if fits f S s then
           case do_match S P ms (s + 1) (ep + 1) of
             Inl e \<Rightarrow> Inl e
           | Inr (Some res, ms) \<Rightarrow> Inr (Some res, ms)
           | Inr (None, ms) \<Rightarrow> do_match S P ms s (ep + 1)
         else do_match S P ms s (ep + 1)) (outs S (I_Opt f # its) (caps ms) s) (caps ms)"
    and "delivers (max_expand S P ms s p ep) (outs S (I_Star f # its) (caps ms) s) (caps ms)"
    and "delivers (if fits f S s then max_expand S P ms (s + 1) p ep else Inr (None, ms)) (outs S (I_Plus f # its) (caps ms) s) (caps ms)"
    and "delivers (min_expand S P ms s p ep) (outs S (I_Lazy f # its) (caps ms) s) (caps ms)"
proof -
  show "delivers (max_expand S P ms s p ep) (outs S (I_Star f # its) (caps ms) s) (caps ms)"
    using max_expand_delivers [OF IH ok, of s p] by (simp add: f_def greedy_def)
  show "delivers (min_expand S P ms s p ep) (outs S (I_Lazy f # its) (caps ms) s) (caps ms)"
    using min_expand_delivers [OF IH ok refl, of s p] by (simp add: f_def lazy_def)
  show "delivers (if fits f S s then max_expand S P ms (s + 1) p ep else Inr (None, ms)) (outs S (I_Plus f # its) (caps ms) s) (caps ms)"
  proof -
    have "outs S (I_Plus f # its) (caps ms) s = (if run_length f S s = 0 then [] else greedy S its (caps ms) (s + 1) (run_length f S s - 1))"
      by (simp only: outs.simps item.case plus_greedy)
    then have "outs S (I_Plus f # its) (caps ms) s = (if fits f S s then greedy S its (caps ms) (s + 1) (run_length f S (s + 1)) else [])"
      using run_length_step [of f S s] by (simp del: outs.simps)
    then show ?thesis using max_expand_delivers [OF IH ok, of "s + 1" p] ok by (simp add: f_def del: outs.simps)
  qed
  show "delivers (if fits f S s then
           case do_match S P ms (s + 1) (ep + 1) of
             Inl e \<Rightarrow> Inl e
           | Inr (Some res, ms) \<Rightarrow> Inr (Some res, ms)
           | Inr (None, ms) \<Rightarrow> do_match S P ms s (ep + 1)
         else do_match S P ms s (ep + 1)) (outs S (I_Opt f # its) (caps ms) s) (caps ms)"
    using delivers_orelse [OF IH [OF ok, of "s + 1"], of "\<lambda>ms. do_match S P ms s (ep + 1)"] IH ok by force
qed

lemma do_item_delivers:
  assumes "\<And>q ms s. p < q \<Longrightarrow> ms_ok ms \<Longrightarrow> delivers (do_match S P ms s q) (outs S (items P q) (caps ms) s) (caps ms)"
    and "p < ep" "ms_ok ms"
  shows "delivers (let m = fits (\<lambda>c. singlematch c P p ep) S s; q = char_at P ep in
             if q = CHR ''?'' then
               if m then
                 (case do_match S P ms (s + 1) (ep + 1) of
                    Inl e \<Rightarrow> Inl e
                  | Inr (Some res, ms) \<Rightarrow> Inr (Some res, ms)
                  | Inr (None, ms) \<Rightarrow> do_match S P ms s (ep + 1))
               else do_match S P ms s (ep + 1)
             else if q = CHR ''*'' then max_expand S P ms s p ep
             else if q = CHR ''+'' then (if m then max_expand S P ms (s + 1) p ep else Inr (None, ms))
             else if q = CHR ''-'' then min_expand S P ms s p ep
             else if \<not> m then Inr (None, ms)
             else do_match S P ms (s + 1) ep)
     (outs S (let f = \<lambda>c. singlematch c P p ep; q = char_at P ep in
             if q = CHR ''?'' then I_Opt f # items P (ep + 1)
             else if q = CHR ''*'' then I_Star f # items P (ep + 1)
             else if q = CHR ''+'' then I_Plus f # items P (ep + 1)
             else if q = CHR ''-'' then I_Lazy f # items P (ep + 1)
             else I_One f # items P ep) (caps ms) s) (caps ms)"
proof -
  have IH: "delivers (do_match S P ms s (ep + 1)) (outs S (items P (ep + 1)) (caps ms) s) (caps ms)" if "ms_ok ms" for ms s
    using assms(1) [of "ep + 1"] assms(2) that by simp
  note R = repetition_delivers [where its = "items P (ep + 1)" and p = p and s = s, OF IH assms(3)]
  have "delivers (if \<not> fits (\<lambda>c. singlematch c P p ep) S s then Inr (None, ms) else do_match S P ms (s + 1) ep)
    (outs S (I_One (\<lambda>c. singlematch c P p ep) # items P ep) (caps ms) s) (caps ms)"
    using assms by simp
  then show ?thesis using R unfolding Let_def by (simp del: outs.simps)
qed

lemma do_match_delivers:
  "ms_ok ms \<Longrightarrow> delivers (do_match S P ms s p) (outs S (items P p) (caps ms) s) (caps ms)"
proof (induction "pat_left P p" arbitrary: p ms s rule: less_induct)
  case less
  note ok = less(2)
  let ?c = "char_at P p" and ?c1 = "char_at P (p + 1)"
  show ?case
  proof (cases "?c = NUL")
    case True
    then show ?thesis using ok by (simp add: do_match.simps [of S P ms s p] items.simps [of P p] NUL_def L_ESC_def)
  next
    case False
    have IH: "delivers (do_match S P ms s q) (outs S (items P q) (caps ms) s) (caps ms)" if "p < q" "ms_ok ms" for q ms s
      using less(1) [OF pat_left_less [OF that(1) False] that(2)] .
    note D = do_match.simps [of S P ms s p] items.simps [of P p] L_ESC_def Let_def
    consider (Open) "?c = CHR ''(''" | (Close) "?c = CHR '')''" | (Balance) "?c = L_ESC" "?c1 = CHR ''b''"
      | (Frontier) "?c = L_ESC" "?c1 = CHR ''f''" | (Back) "?c = L_ESC" "isdigit ?c1"
      | (End) "?c = CHR ''$''" "?c1 = NUL"
      | (Item) "?c \<noteq> CHR ''(''" "?c \<noteq> CHR '')''" "?c = L_ESC \<longrightarrow> ?c1 \<noteq> CHR ''b'' \<and> ?c1 \<noteq> CHR ''f'' \<and> \<not> isdigit ?c1"
          "\<not> (?c = CHR ''$'' \<and> ?c1 = NUL)"
      by blast
    then show ?thesis
    proof cases
      case Open
      show ?thesis
        using start_capture_delivers [OF IH ok, of "p + 1" s CAP_UNFINISHED] start_capture_delivers [OF IH ok, of "p + 2" s CAP_POSITION]
        using Open by (auto simp: D NUL_def)
    next
      case Close
      then show ?thesis using end_capture_delivers [OF IH ok, of "Suc p" s] by (simp add: D NUL_def)
    next
      case Balance
      then show ?thesis using IH [of "p + 4" ms] ok
        by (simp add: D NUL_def matchbalance_def numeral_3_eq_3 split: option.split)
    next
      case Frontier
      then show ?thesis using IH ok by (auto simp: D NUL_def split: sum.split dest!: classend_gt)
    next
      case Back
      then have "?c1 \<noteq> CHR ''b'' \<and> ?c1 \<noteq> CHR ''f''" by (auto simp: isdigit_def)
      then show ?thesis using Back IH [of "p + 2" ms] ok match_capture_caps [OF ok, of S s ?c1]
        by (simp add: D NUL_def split: sum.split option.split)
    next
      case End
      then show ?thesis using ok by (simp add: D NUL_def)
    next
      case Item
      show ?thesis
      proof (cases "classend P p")
        case (Inl e)
        have "do_match S P ms s p = Inl e" using Item False Inl unfolding do_match.simps [of S P ms s p] Let_def by auto
        moreover have "items P p = [I_Fail e]" using Item False Inl unfolding items.simps [of P p] Let_def by auto
        ultimately show ?thesis by simp
      next
        case (Inr ep)
        then have ep: "p < ep" by (rule classend_gt)
        let ?f = "\<lambda>c. singlematch c P p ep"
        have m: "do_match S P ms s p = (let m = fits ?f S s; q = char_at P ep in
             if q = CHR ''?'' then
               if m then
                 (case do_match S P ms (s + 1) (ep + 1) of
                    Inl e \<Rightarrow> Inl e
                  | Inr (Some res, ms) \<Rightarrow> Inr (Some res, ms)
                  | Inr (None, ms) \<Rightarrow> do_match S P ms s (ep + 1))
               else do_match S P ms s (ep + 1)
             else if q = CHR ''*'' then max_expand S P ms s p ep
             else if q = CHR ''+'' then (if m then max_expand S P ms (s + 1) p ep else Inr (None, ms))
             else if q = CHR ''-'' then min_expand S P ms s p ep
             else if \<not> m then Inr (None, ms)
             else do_match S P ms (s + 1) ep)"
          using Item False Inr unfolding do_match.simps [of S P ms s p] Let_def fits_char_at by auto
        have i: "items P p = (let f = ?f; q = char_at P ep in
             if q = CHR ''?'' then I_Opt f # items P (ep + 1)
             else if q = CHR ''*'' then I_Star f # items P (ep + 1)
             else if q = CHR ''+'' then I_Plus f # items P (ep + 1)
             else if q = CHR ''-'' then I_Lazy f # items P (ep + 1)
             else I_One f # items P ep)"
          using Item False Inr unfolding items.simps [of P p] Let_def by auto
        show ?thesis unfolding m i by (rule do_item_delivers [OF IH ep ok])
      qed
    qed
  qed
qed

section \<open>Find and match\<close>

definition cap_value :: "string \<Rightarrow> Capture \<Rightarrow> lua_err + lua_value" where
  "cap_value S c =
     (if c_len c = CAP_UNFINISHED then Inl (Run_error ''unfinished capture'')
      else if c_len c = CAP_POSITION then Inr (pushinteger (int (c_init c) + 1))
      else Inr (LString (take (nat (c_len c)) (drop (c_init c) S))))"

fun all_right :: "('e + 'a) list \<Rightarrow> 'e + 'a list" where
  "all_right [] = Inr []"
| "all_right (Inl e # xs) = Inl e"
| "all_right (Inr x # xs) = (case all_right xs of Inl e \<Rightarrow> Inl e | Inr ys \<Rightarrow> Inr (x # ys))"

lemma push_loop_caps:
  assumes "ms_ok ms"
  shows "i \<le> level ms \<Longrightarrow> push_loop S ms [i..<level ms] s e = all_right (List.map (cap_value S) (drop i (caps ms)))"
proof (induction "level ms - i" arbitrary: i)
  case (Suc n)
  then have i: "i < level ms" by simp
  then have "drop i (caps ms) = caps ms ! i # drop (Suc i) (caps ms)" using assms by (simp add: Cons_nth_drop_Suc)
  moreover have "push_onecapture S ms i s e = cap_value S (caps ms ! i)"
    using i assms by (simp add: push_onecapture_def cap_value_def caps_nth Let_def)
  moreover have "[i..<level ms] = i # [Suc i..<level ms]" using i by (rule upt_conv_Cons)
  ultimately show ?case using Suc(1) [of "Suc i"] Suc(2) i by (cases "cap_value S (caps ms ! i)") auto
qed (use assms in simp)

text \<open>The values of a match from \<open>s\<close> to \<open>e\<close>: its captures, or else the whole match.\<close>

definition match_values :: "string \<Rightarrow> Capture list \<Rightarrow> nat \<Rightarrow> nat \<Rightarrow> lua_err + lua_value list" where
  "match_values S cs s e =
     (if cs = [] then Inr [LString (take (e - s) (drop s S))] else all_right (List.map (cap_value S) cs))"

lemma push_captures_caps:
  assumes "ms_ok ms"
  shows "push_captures S ms (Some s) e = match_values S (caps ms) s e"
    and "push_captures S ms None 0 = all_right (List.map (cap_value S) (caps ms))"
proof -
  have "caps ms = [] \<longleftrightarrow> level ms = 0" using caps_length [OF assms] by (metis length_0_conv)
  then show "push_captures S ms (Some s) e = match_values S (caps ms) s e"
    using push_loop_caps [OF assms, of 0] by (auto simp: push_captures_def match_values_def push_onecapture_def)
  show "push_captures S ms None 0 = all_right (List.map (cap_value S) (caps ms))"
    using push_loop_caps [OF assms, of 0] by (simp add: push_captures_def)
qed

text \<open>All matches of a pattern from a start position on, with the position where each starts.\<close>

definition tries :: "string \<Rightarrow> item list \<Rightarrow> nat list \<Rightarrow> (lua_err + nat \<times> nat \<times> Capture list) list" where
  "tries S its starts = concat (List.map (\<lambda>s. List.map (map_sum id (\<lambda>(e, cs). (s, e, cs))) (outs S its [] s)) starts)"

definition first_try :: "(nat \<Rightarrow> nat \<Rightarrow> Capture list \<Rightarrow> lua_err + lua_value list) \<Rightarrow>
    (lua_err + nat \<times> nat \<times> Capture list) list \<Rightarrow> lua_err + lua_value list" where
  "first_try k ts = (case ts of [] \<Rightarrow> Inr [LNil] | Inl e # _ \<Rightarrow> Inl e | Inr (s, e, cs) # _ \<Rightarrow> k s e cs)"

definition find_values :: "string \<Rightarrow> nat \<Rightarrow> nat \<Rightarrow> Capture list \<Rightarrow> lua_err + lua_value list" where
  "find_values S s e cs =
     (case all_right (List.map (cap_value S) cs) of
        Inl x \<Rightarrow> Inl x
      | Inr vs \<Rightarrow> Inr (pushinteger (int s + 1) # pushinteger (int e) # vs))"

lemma ms_ok_restart: "ms_ok ms \<Longrightarrow> ms_ok (ms\<lparr>level := 0\<rparr>) \<and> caps (ms\<lparr>level := 0\<rparr>) = []"
  by (simp add: ms_ok_def caps_def)

lemma ms_ok_new [simp]: "ms_ok new_MatchState"
  by (simp add: ms_ok_def new_MatchState_def)

lemma do_match_first:
  assumes "ms_ok ms"
  shows "delivers (do_match S P (ms\<lparr>level := 0\<rparr>) s p) (outs S (items P p) [] s) []"
  using do_match_delivers [of "ms\<lparr>level := 0\<rparr>" S P s p] ms_ok_restart [OF assms] by simp

lemma find_loop_first:
  assumes "ms_ok ms" "s1 \<le> length S"
  shows "find_loop fnd S P p anchor ms s1 =
    first_try (\<lambda>s e cs. if fnd then find_values S s e cs else match_values S cs s e)
      (tries S (items P p) (if anchor then [s1] else [s1..<Suc (length S)]))"
  using assms
proof (induction fnd S P p anchor ms s1 rule: find_loop.induct)
  case (1 fnd S P p anchor ms s1)
  let ?k = "\<lambda>s e cs. if fnd then find_values S s e cs else match_values S cs s e"
  have u: "(if anchor then [s1] else [s1..<Suc (length S)]) = s1 # (if anchor then [] else [Suc s1..<Suc (length S)])"
    using 1(3) upt_conv_Cons [of s1 "Suc (length S)"] by simp
  show ?case using do_match_first [OF 1(2), of S P s1 p]
  proof (cases rule: delivers_cases)
    case (Failed ms')
    show ?thesis
    proof (cases "s1 < length S \<and> \<not> anchor")
      case True
      then have "find_loop fnd S P p anchor ms s1 = find_loop fnd S P p anchor ms' (s1 + 1)"
        using Failed(2) by (subst find_loop.simps) simp
      then show ?thesis unfolding u using 1(1) [OF Failed(2) refl refl True] Failed True by (simp add: tries_def del: upt_Suc)
    next
      case False
      then have "anchor \<or> [Suc s1..<Suc (length S)] = []" using 1(3) by auto
      then show ?thesis unfolding u using Failed False
        by (auto simp: find_loop.simps [of fnd S P p anchor ms s1] tries_def first_try_def simp del: upt_Suc)
    qed
  next
    case (Raised e os')
    then show ?thesis unfolding u by (simp add: find_loop.simps [of fnd S P p anchor ms s1] tries_def first_try_def del: upt_Suc)
  next
    case (Matched e cs' os' ms')
    then show ?thesis unfolding u
      by (simp add: find_loop.simps [of fnd S P p anchor ms s1] tries_def first_try_def find_values_def push_captures_caps del: upt_Suc)
  qed
qed

definition start_at :: "int \<Rightarrow> nat \<Rightarrow> nat" where
  "start_at i l = (let p = posrelat i l in if p < 1 then 0 else if int l < p then l else nat (p - 1))"

lemma start_at_le: "start_at i l \<le> l"
  by (simp add: start_at_def Let_def) linarith

lemma start_at_code:
  "(let init = posrelat i l - 1 in if init < 0 then 0 else if l < nat init then l else nat init) = start_at i l"
  by (simp add: start_at_def Let_def) linarith

lemma str_match_first:
  "str_match S p i =
     (let anchor = (char_at (c_str p) 0 = CHR ''^''); init = start_at i (length S) in
      first_try (\<lambda>s e cs. match_values S cs s e)
        (tries S (items (c_str p) (if anchor then 1 else 0)) (if anchor then [init] else [init..<Suc (length S)])))"
  using start_at_code [of i "length S"] by (simp add: str_match_def str_find_aux_def Let_def find_loop_first start_at_le)

text \<open>The first index of a range that has a property.\<close>

definition first_index :: "(nat \<Rightarrow> bool) \<Rightarrow> nat \<Rightarrow> nat \<Rightarrow> nat option \<Rightarrow> bool" where
  "first_index Q a b r \<longleftrightarrow>
     (case r of
        None \<Rightarrow> \<forall>k. a \<le> k \<and> k < b \<longrightarrow> \<not> Q k
      | Some j \<Rightarrow> a \<le> j \<and> j < b \<and> Q j \<and> (\<forall>k. a \<le> k \<and> k < j \<longrightarrow> \<not> Q k))"

lemma first_index_later:
  assumes "first_index Q a' b r" "\<And>k. a \<le> k \<Longrightarrow> k < a' \<Longrightarrow> \<not> Q k" "a \<le> a'"
  shows "first_index Q a b r"
  using assms unfolding first_index_def by (auto split: option.splits) (metis not_less)+

lemma first_index_widen:
  assumes "first_index Q a b r" "\<And>k. b \<le> k \<Longrightarrow> k < b' \<Longrightarrow> \<not> Q k" "b \<le> b'"
  shows "first_index Q a b' r"
proof (cases r)
  case None
  then have "\<not> Q k" if "a \<le> k" "k < b'" for k
    using assms(1,2) that by (cases "k < b") (simp_all add: first_index_def)
  then show ?thesis using None by (simp add: first_index_def)
next
  case (Some j)
  then show ?thesis using assms(1,3) by (simp add: first_index_def)
qed

lemma memchr_first: "first_index (\<lambda>k. char_at S k = c) i (i + n) (memchr S i c n)"
proof (induction S i c n rule: memchr.induct)
  case (2 S i c n)
  show ?case
  proof (cases "char_at S i = c")
    case False
    then have "first_index (\<lambda>k. char_at S k = c) i (i + 1 + n) (memchr S (i + 1) c n)"
      using first_index_later [OF 2 [OF False]] by (metis le_add1 less_Suc_eq_le Suc_eq_plus1 le_antisym)
    then show ?thesis using False by simp
  qed (auto simp: first_index_def)
qed (auto simp: first_index_def)

definition occurs :: "string \<Rightarrow> string \<Rightarrow> nat \<Rightarrow> bool" where
  "occurs S s2 k \<longleftrightarrow> take (length s2) (drop k S) = s2"

lemma occurs_head: "occurs S (c # cs) k \<longleftrightarrow> k < length S \<and> char_at S k = c \<and> take (length cs) (drop (k + 1) S) = cs"
proof (cases "k < length S")
  case True
  then have "drop k S = char_at S k # drop (k + 1) S" by (simp add: char_at_def Cons_nth_drop_Suc)
  then show ?thesis using True by (simp add: occurs_def)
qed (simp add: occurs_def)

lemma lmemfind_loop_first:
  "s2 = c # cs \<Longrightarrow> l2 = length cs \<Longrightarrow> s1 + l1 + l2 = length S \<Longrightarrow> first_index (occurs S s2) s1 (s1 + l1) (lmemfind_loop S s2 s1 l1 l2)"
proof (induction S s2 s1 l1 l2 rule: lmemfind_loop.induct)
  case (1 S s2 s1 l1 l2)
  have c0: "char_at s2 0 = c" "drop 1 s2 = cs" using 1(2) by (simp_all add: char_at_def)
  note M = memchr_first [of S "char_at s2 0" s1 l1]
  show ?case
  proof (cases "memchr S s1 (char_at s2 0) l1")
    case None
    then have "lmemfind_loop S s2 s1 l1 l2 = None" by (subst lmemfind_loop.simps) simp
    then show ?thesis using M None 1(2) c0 by (auto simp: first_index_def occurs_head)
  next
    case (Some j)
    then have j: "s1 \<le> j" "j < s1 + l1" "char_at S j = c" "\<And>k. s1 \<le> k \<Longrightarrow> k < j \<Longrightarrow> char_at S k \<noteq> c"
      using M c0 by (auto simp: first_index_def)
    have hit: "occurs S s2 j \<longleftrightarrow> take l2 (drop (j + 1) S) = take l2 (drop 1 s2)"
      using j 1(2-4) c0 by (auto simp: occurs_head)
    have l1: "0 < l1" using j by simp
    show ?thesis
    proof (cases "occurs S s2 j")
      case True
      then have "lmemfind_loop S s2 s1 l1 l2 = Some j"
        using Some l1 hit by (simp add: lmemfind_loop.simps [of S s2 s1 l1 l2] Let_def)
      then show ?thesis using j True 1(2) by (auto simp: first_index_def occurs_head)
    next
      case False
      then have no: "take l2 (drop (j + 1) S) \<noteq> take l2 (drop 1 s2)" using hit by blast
      have "lmemfind_loop S s2 s1 l1 l2 = lmemfind_loop S s2 (j + 1) (l1 - (j + 1 - s1)) l2"
        using Some l1 no by (simp add: lmemfind_loop.simps [of S s2 s1 l1 l2] Let_def)
      moreover have "first_index (occurs S s2) (j + 1) (s1 + l1) (lmemfind_loop S s2 (j + 1) (l1 - (j + 1 - s1)) l2)"
        using 1(1) [OF l1 Some refl no 1(2,3)] 1(4) j by (simp add: add.commute)
      moreover have "\<not> occurs S s2 k" if "s1 \<le> k" "k < j + 1" for k
        using that False j(4) [of k] 1(2) by (cases "k = j") (auto simp: occurs_head)
      ultimately show ?thesis using first_index_later [of "occurs S s2" "j + 1"] j(1) by simp
    qed
  qed
qed

lemma lmemfind_first:
  assumes "s1 \<le> length S"
  shows "first_index (occurs S s2) s1 (Suc (length S)) (lmemfind S s1 (length S - s1) s2)"
proof (cases s2)
  case Nil
  then show ?thesis using assms by (simp add: lmemfind_def first_index_def occurs_def)
next
  case (Cons c cs)
  have short: "\<not> occurs S s2 k" if "length S < k + length s2" for k
  proof
    assume "occurs S s2 k"
    then have "length (take (length s2) (drop k S)) = length s2" by (simp add: occurs_def)
    then show False using that Cons by simp
  qed
  show ?thesis
  proof (cases "length S - s1 < length s2")
    case True
    have "\<not> occurs S s2 k" if "s1 \<le> k" for k by (rule short) (use True that assms in linarith)
    then show ?thesis using Cons True by (simp add: lmemfind_def first_index_def)
  next
    case False
    then have "first_index (occurs S s2) s1 (s1 + (length S - s1 - length cs)) (lmemfind S s1 (length S - s1) s2)"
      using lmemfind_loop_first [OF Cons refl, of s1 "length S - s1 - length cs" S] Cons assms by (simp add: lmemfind_def)
    then show ?thesis
    proof (rule first_index_widen)
      show "\<not> occurs S s2 k" if "s1 + (length S - s1 - length cs) \<le> k" for k
        by (rule short) (use that False Cons assms in simp)
    qed (use assms in simp)
  qed
qed

text \<open>
  C30 (equivalence): \<^verbatim>\<open>string.match\<close> gives the captures of the first match that backtracking finds: the leftmost start,
  then greedy repetitions from the longest, lazy ones from the shortest. The matcher that saves and undoes
  captures in place agrees with the search that carries them along, also in which malformed patterns raise
  an error.
\<close>

theorem str_match_first_outcome:
  "str_match S p i =
     (let anchor = (char_at (c_str p) 0 = CHR ''^''); init = start_at i (length S) in
      first_try (\<lambda>s e cs. match_values S cs s e)
        (tries S (items (c_str p) (if anchor then 1 else 0)) (if anchor then [init] else [init..<Suc (length S)])))"
  by (rule str_match_first)

lemma str_find_first:
  "str_find S p i plain =
     (let init = start_at i (length S); anchor = (char_at (c_str p) 0 = CHR ''^'') in
      if plain \<or> list_all (\<lambda>c. c \<notin> set SPECIALS) (c_str p) then
        (case lmemfind S init (length S - init) p of
           Some k \<Rightarrow> Inr [pushinteger (int k + 1), pushinteger (int (k + length p))]
         | None \<Rightarrow> Inr [LNil])
      else
        first_try (find_values S)
          (tries S (items (c_str p) (if anchor then 1 else 0)) (if anchor then [init] else [init..<Suc (length S)])))"
  using start_at_code [of i "length S"]
  by (simp add: str_find_def str_find_aux_def Let_def find_loop_first start_at_le eta_contract_eq)

section \<open>Where a match ends\<close>

lemma run_length_le: "s \<le> length S \<Longrightarrow> s + run_length f S s \<le> length S"
  using length_takeWhile_le [of f "drop s S"] by (simp add: run_length_def)

lemma balance_loop_bounds: "balance_loop S b e s n = Some s' \<Longrightarrow> s < s' \<and> s' \<le> length S"
proof (induction "length S - s" arbitrary: s n rule: less_induct)
  case less
  have IH: "s < s' \<and> s' \<le> length S" if "balance_loop S b e (s + 1) n = Some s'" "s + 1 < length S" for n
  proof -
    have "length S - (s + 1) < length S - s" using that(2) by linarith
    then show ?thesis using less(1) [OF _ that(1)] by simp
  qed
  show ?case using less(2) IH unfolding balance_loop.simps [of S b e s n] Let_def by (auto split: if_splits)
qed

lemma outs_bounds:
  "Inr (e, cs') \<in> set (outs S its cs s) \<Longrightarrow> s \<le> length S \<Longrightarrow> s \<le> e \<and> e \<le> length S"
proof (induction its arbitrary: cs s)
  case (Cons it its)
  have rep: "s \<le> e \<and> e \<le> length S" if "Inr (e, cs') \<in> set (outs S its cs (s + i))" "i \<le> run_length f S s" for f i cs
    using Cons.IH [OF that(1)] that(2) run_length_le [OF Cons.prems(2), of f] by simp
  have one: "s \<le> e \<and> e \<le> length S" if "Inr (e, cs') \<in> set (outs S its cs (s + 1))" "fits f S s" for f cs
    using Cons.IH [OF that(1)] that(2) by (simp add: fits_def)
  show ?case
  proof (cases it)
    case (I_Balance b x)
    then obtain s' where "balance_loop S b x s 1 = Some s'" "Inr (e, cs') \<in> set (outs S its cs s')"
      using Cons.prems(1) by (cases "balance_loop S b x s 1") (auto split: if_splits)
    then show ?thesis using Cons.IH balance_loop_bounds by fastforce
  next
    case (I_Back c)
    then obtain s' where "match_capture S \<lparr>level = length cs, capture = cs\<rparr> s c = Inr (Some s')" "Inr (e, cs') \<in> set (outs S its cs s')"
      using Cons.prems(1) by (auto split: sum.splits option.splits)
    moreover then have "s \<le> s' \<and> s' \<le> length S"
      using Cons.prems(2) by (auto simp: match_capture_def Let_def split: sum.splits if_splits)
    ultimately show ?thesis using Cons.IH by fastforce
  next
    case (I_Plus f)
    then obtain i where "i < Suc (run_length f S s)" "Inr (e, cs') \<in> set (outs S its cs (s + i))" using Cons.prems(1) by (auto simp del: upt_Suc)
    then show ?thesis using rep less_Suc_eq_le by blast
  next
    case (I_Star f)
    then obtain i where "i < Suc (run_length f S s)" "Inr (e, cs') \<in> set (outs S its cs (s + i))" using Cons.prems(1) by (auto simp del: upt_Suc)
    then show ?thesis using rep less_Suc_eq_le by blast
  next
    case (I_Lazy f)
    then obtain i where "i < Suc (run_length f S s)" "Inr (e, cs') \<in> set (outs S its cs (s + i))" using Cons.prems(1) by (auto simp del: upt_Suc)
    then show ?thesis using rep less_Suc_eq_le by blast
  next
    case (I_One f)
    then show ?thesis using Cons.prems one [of cs f] by (simp split: if_splits)
  next
    case (I_Opt f)
    then show ?thesis using Cons.prems one [of cs f] Cons.IH [of cs s] by (auto split: if_splits)
  qed (use Cons in \<open>auto split: if_splits option.splits\<close>)
qed simp

lemma do_match_bounds:
  assumes "do_match S P (ms\<lparr>level := 0\<rparr>) s p = Inr (Some e, ms')" "ms_ok ms" "s \<le> length S"
  shows "s \<le> e \<and> e \<le> length S"
  using do_match_first [OF assms(2), of S P s p]
proof (cases rule: delivers_cases)
  case (Matched e' cs' os' ms'')
  then have "Inr (e, cs') \<in> set (outs S (items P p) [] s)" using assms(1) by simp
  then show ?thesis using assms(3) by (rule outs_bounds)
qed (use assms(1) in auto)

end
