(* ===== verification/E2_Lib.thy ===== *)
theory E2_Lib
  imports Lstrlib_Correct
begin

text \<open>
  Functions of \<^verbatim>\<open>generic/e2lib.lua\<close> and \<^verbatim>\<open>local/e2tool.lua\<close> that compute on strings: quoting for the shell, paths, server
  locations, format strings, file modes. They call the string library as \<open>Lstrlib\<close> models it.
\<close>

section \<open>Model\<close>

text \<open>The n-th result of a call; a missing one is nil. \<open>truthy\<close> is what a condition tests.\<close>

definition result_at :: "lua_value list \<Rightarrow> nat \<Rightarrow> lua_value" where
  "result_at vs n = (if n < length vs then vs ! n else LNil)"

definition truthy :: "lua_value \<Rightarrow> bool" where
  "truthy v \<longleftrightarrow> v \<noteq> LNil \<and> v \<noteq> LBoolean False"

definition as_string :: "lua_value \<Rightarrow> string" where
  "as_string v = (case v of LString s \<Rightarrow> s | _ \<Rightarrow> [])"

definition dirname :: "string \<Rightarrow> lua_err + string" where
  "dirname path =
     ebind (str_find path ''^(.*)/[^/]+[/]*$'' 1 False)
       (\<lambda>vs. let dir = result_at vs 2 in
          if dir = LString [] then Inr ''/'' else if truthy dir then Inr (as_string dir) else Inr ''.'')"

definition basename :: "string \<Rightarrow> lua_err + string" where
  "basename path =
     ebind (str_find path ''^.*/([^/]+)[/]*$'' 1 False)
       (\<lambda>vs. let base = result_at vs 2 in if truthy base then Inr (as_string base) else Inr path)"

fun join_loop :: "string list \<Rightarrow> string \<Rightarrow> bool \<Rightarrow> string" where
  "join_loop [] buildpath sepnext = buildpath"
| "join_loop (component # args) buildpath sepnext =
     (let buildpath =
        (if sepnext then
           if str_sub buildpath (-1) (-1) = ''/'' \<or> str_sub component 1 (-1) = ''/'' then buildpath else buildpath @ ''/''
         else buildpath)
      in join_loop args (buildpath @ component) (0 < length component))"

definition e2lib_join :: "string list \<Rightarrow> string" where
  "e2lib_join args = join_loop args [] False"

definition is_backup_file :: "string \<Rightarrow> lua_err + bool" where
  "is_backup_file path =
     ebind (str_find path ''~$'' 1 False)
       (\<lambda>vs. if truthy (result_at vs 0) then Inr True
             else ebind (str_find path ''^#.*#$'' 1 False) (\<lambda>vs. Inr (truthy (result_at vs 0))))"

definition shquote :: "(lua_Number \<Rightarrow> string) \<Rightarrow> string \<Rightarrow> lua_err + string" where
  "shquote num str =
     ebind (str_gsub num str [CHR 0x27] (Repl_str [CHR 0x27, CHR 0x22, CHR 0x27, CHR 0x22, CHR 0x27]) None)
       (\<lambda>(str, n). Inr ([CHR 0x27] @ str @ [CHR 0x27]))"

definition matches :: "string \<Rightarrow> string \<Rightarrow> lua_err + bool" where
  "matches s pat = ebind (str_match s pat 1) (\<lambda>vs. Inr (truthy (result_at vs 0)))"

text \<open>None is the error for an unknown suffix.\<close>

definition tartype_by_suffix :: "string \<Rightarrow> lua_err + string option" where
  "tartype_by_suffix filename =
     ebind (matches filename ''tgz$'') (\<lambda>tgz. ebind (matches filename ''tar.gz$'') (\<lambda>targz.
     if tgz \<or> targz then Inr (Some ''tar.gz'')
     else ebind (matches filename ''tar.bz2$'') (\<lambda>bz2.
       if bz2 then Inr (Some ''tar.bz2'')
       else ebind (matches filename ''tar$'') (\<lambda>tar. if tar then Inr (Some ''tar'') else Inr None))))"

datatype loc_err = Cannot_parse string | Invalid_location string

record server_location =
  sl_server :: string
  sl_location :: string

definition parse_server_location :: "string \<Rightarrow> string \<Rightarrow> lua_err + (loc_err + server_location)" where
  "parse_server_location serverloc default_server =
     ebind (str_match serverloc ''(%S+):(%S+)'' 1)
       (\<lambda>vs.
          ebind (if truthy (result_at vs 0) \<and> truthy (result_at vs 1)
                 then Inr (Inr (as_string (result_at vs 0), as_string (result_at vs 1)))
                 else
                   ebind (str_match serverloc ''(%S+)'' 1)
                     (\<lambda>vs. if \<not> truthy (result_at vs 0) then Inr (Inl (Cannot_parse serverloc))
                           else Inr (Inr (default_server, as_string (result_at vs 0)))))
            (\<lambda>r. case r of
               Inl e \<Rightarrow> Inr (Inl e)
             | Inr (server, location) \<Rightarrow>
                 ebind (matches location ''[.][.]'') (\<lambda>dots.
                 ebind (if dots then Inr True else matches location ''^/'') (\<lambda>bad.
                 Inr (if bad then Inl (Invalid_location serverloc)
                      else Inr \<lparr>sl_server = server, sl_location = location\<rparr>)))))"

definition verify_src_res_pathname_valid_chars :: "string \<Rightarrow> lua_err + bool" where
  "verify_src_res_pathname_valid_chars pathname = matches pathname ''^[-_0-9a-zA-Z/]+$''"

definition verify_src_res_name_valid_chars :: "string \<Rightarrow> lua_err + bool" where
  "verify_src_res_name_valid_chars name = matches name ''^[-_0-9a-zA-Z.]+$''"

text \<open>Both results of \<^verbatim>\<open>gsub\<close> are returned, the second is the number of substitutions.\<close>

definition src_res_name_to_path :: "(lua_Number \<Rightarrow> string) \<Rightarrow> string \<Rightarrow> lua_err + string \<times> int" where
  "src_res_name_to_path num name = str_gsub num name ''%.'' (Repl_str ''/'') None"

definition src_res_path_to_name :: "(lua_Number \<Rightarrow> string) \<Rightarrow> string \<Rightarrow> lua_err + string \<times> int" where
  "src_res_path_to_name num pathname = str_gsub num pathname ''/'' (Repl_str ''.'') None"

definition align :: "int \<Rightarrow> int \<Rightarrow> string \<Rightarrow> int \<Rightarrow> string \<Rightarrow> string" where
  "align columns align1 string1 align2 string2 =
     (let l1 = int (length string1); l2 = int (length string2);
          align2 = (if columns < align2 + l2 then columns - l2 else align2)
      in if columns < align1 + l1 + l2
         then str_rep '' '' align1 @ string1 @ [CHR 0x0A] @ str_rep '' '' align2 @ string2
         else str_rep '' '' align1 @ string1 @ str_rep '' '' (align2 - l1 - align1) @ string2)"

text \<open>
  \<^verbatim>\<open>format_replace\<close>: the table of replacements is an association list in the order of \<^verbatim>\<open>pairs\<close>, to which the loop adds
  the entry for the percent sign. Positions count from 1, as in Lua.
\<close>

definition find_percent :: "string \<Rightarrow> nat \<Rightarrow> nat option" where
  "find_percent s start =
     (case str_find s ''%%'' (int start) False of
        Inr (LNumber p # _) \<Rightarrow> Some (nat (floor p))
      | _ \<Rightarrow> None)"

definition percent_entry :: "(string \<times> string) list \<Rightarrow> (string \<times> string) list" where
  "percent_entry t = filter (\<lambda>(x, y). x \<noteq> ''%'') t @ [(''%'', ''%'')]"

partial_function (option) format_replace_loop :: "(string \<times> string) list \<Rightarrow> string \<Rightarrow> nat \<Rightarrow> string option" where
  "format_replace_loop t s start =
     (case find_percent s start of
        None \<Rightarrow> Some s
      | Some p \<Rightarrow>
          (case map_of (percent_entry t) (str_sub s (int p + 1) (int p + 1)) of
             None \<Rightarrow> format_replace_loop t s (start + 1)
           | Some y \<Rightarrow> format_replace_loop t (str_sub s 1 (int p - 1) @ y @ str_sub s (int p + 2) (int (length s))) (p + length y + 1)))"

definition format_replace :: "string \<Rightarrow> (string \<times> string) list \<Rightarrow> string option" where
  "format_replace s t = format_replace_loop t s 1"

section \<open>Parsing concrete patterns\<close>

lemmas item_eval = items.simps classend_def set_end.simps char_at_def NUL_def L_ESC_def isdigit_def Let_def less_eq_char_def

lemma tolower_letters [simp]: "tolower CHR ''S'' = CHR ''s''" "tolower CHR ''s'' = CHR ''s''" "tolower CHR ''d'' = CHR ''d''"
  "tolower CHR ''x'' = CHR ''x''" "tolower CHR ''.'' = CHR ''.''" "tolower CHR ''%'' = CHR ''%''"
  by code_simp+

lemma match_class_letters [simp]:
  "match_class c CHR ''S'' = (\<not> isspace c)" "match_class c CHR ''s'' = isspace c" "match_class c CHR ''d'' = isdigit c"
  "match_class c CHR ''x'' = isxdigit c" "match_class c CHR ''.'' = (c = CHR ''.'')" "match_class c CHR ''%'' = (c = CHR ''%'')"
  by (auto simp: match_class_def islower_def less_eq_char_def)

lemmas class_eval = singlematch_def matchbracketclass_def bracket_loop.simps char_at_def L_ESC_def Let_def less_eq_char_def fun_eq_iff

definition is_name_char :: "char \<Rightarrow> bool" where "is_name_char c \<longleftrightarrow> isalnum c \<or> c \<in> {CHR ''-'', CHR ''_''}"

lemma pattern_items:
  "items ''[.][.]'' 0 = [I_One (\<lambda>c. c = CHR ''.''), I_One (\<lambda>c. c = CHR ''.'')]"
  "items ''^/'' (Suc 0) = [I_One (\<lambda>c. c = CHR ''/'')]"
  "items ''(%S+):(%S+)'' 0 =
     [I_Open, I_Plus (\<lambda>c. \<not> isspace c), I_Close, I_One (\<lambda>c. c = CHR '':''), I_Open, I_Plus (\<lambda>c. \<not> isspace c), I_Close]"
  "items ''(%S+)'' 0 = [I_Open, I_Plus (\<lambda>c. \<not> isspace c), I_Close]"
  "items ''^[-_0-9a-zA-Z.]+$'' (Suc 0) = [I_Plus (\<lambda>c. is_name_char c \<or> c = CHR ''.''), I_End]"
  "items ''^[-_0-9a-zA-Z/]+$'' (Suc 0) = [I_Plus (\<lambda>c. is_name_char c \<or> c = CHR ''/''), I_End]"
  "items ''%.'' 0 = [I_One (\<lambda>c. c = CHR ''.'')]" "items ''/'' 0 = [I_One (\<lambda>c. c = CHR ''/'')]"
  "items [CHR 0x27] 0 = [I_One (\<lambda>c. c = CHR 0x27)]" "items ''%%'' 0 = [I_One (\<lambda>c. c = CHR ''%'')]"
  by (simp_all add: item_eval) (auto simp: class_eval is_name_char_def isalnum_def isalpha_def isdigit_def islower_def isupper_def)

section \<open>Substitution of a character\<close>

lemma add_s_plain:
  "CHR ''%'' \<notin> set news \<Longrightarrow> add_s num S ms news i b s e = Inr (b @ drop i news)"
proof (induction "length news - i" arbitrary: i b)
  case 0
  then show ?case by (simp add: add_s.simps [of num S ms news i b s e])
next
  case (Suc n)
  then have i: "i < length news" by simp
  then have "char_at news i = news ! i" "news ! i \<noteq> L_ESC" using Suc(3) by (auto simp: char_at_def L_ESC_def dest: nth_mem)
  then show ?case using Suc(1) [of "i + 1" "b @ [news ! i]"] Suc(2,3) i
    by (simp add: add_s.simps [of num S ms news i b s e] Cons_nth_drop_Suc)
qed

lemma do_match_one:
  assumes "items P p = [I_One f]" "ms_ok ms"
  shows "\<exists>ms'. do_match S P (ms\<lparr>level := 0\<rparr>) s p = Inr (if fits f S s then Some (s + 1) else None, ms') \<and> ms_ok ms'"
  using do_match_first [OF assms(2), of S P s p] unfolding assms(1)
  by (cases rule: delivers_cases) (auto split: if_splits)

definition replace_char :: "(char \<Rightarrow> bool) \<Rightarrow> string \<Rightarrow> string \<Rightarrow> string" where
  "replace_char f r s = concat (List.map (\<lambda>c. if f c then r else [c]) s)"

lemma gsub_loop_char:
  assumes P: "items P p = [I_One f]" and r: "CHR ''%'' \<notin> set r"
  shows "ms_ok ms \<Longrightarrow> src \<le> length S \<Longrightarrow> n \<le> int src \<Longrightarrow> int (length S) < max_s \<Longrightarrow>
    gsub_loop num S P p False (Repl_str r) max_s ms b src n =
      Inr (b @ replace_char f r (drop src S), length S, n + int (length (filter f (drop src S))))"
proof (induction "length S - src" arbitrary: src b n ms)
  case 0
  then have src: "src = length S" by simp
  obtain ms' where "do_match S P (ms\<lparr>level := 0\<rparr>) src p = Inr (None, ms')"
    using do_match_one [OF P 0(2), of S src] src by (auto simp: fits_def)
  then show ?case using 0 src by (simp add: gsub_loop.simps [of num S P p False "Repl_str r" max_s ms b "length S" n] replace_char_def)
next
  case (Suc k)
  then have src: "src < length S" and n: "n < max_s" by simp_all
  then have d: "drop src S = S ! src # drop (src + 1) S" by (simp add: Cons_nth_drop_Suc)
  obtain ms' where m: "do_match S P (ms\<lparr>level := 0\<rparr>) src p = Inr (if f (S ! src) then Some (src + 1) else None, ms')" "ms_ok ms'"
    using do_match_one [OF P Suc(3), of S src] src by (auto simp: fits_def)
  show ?case
  proof (cases "f (S ! src)")
    case True
    have "gsub_loop num S P p False (Repl_str r) max_s ms b src n = gsub_loop num S P p False (Repl_str r) max_s ms' (b @ r) (src + 1) (n + 1)"
      using m True n add_s_plain [OF r] by (simp add: gsub_loop.simps [of num S P p False "Repl_str r" max_s ms b src n] add_value_def)
    then show ?thesis using Suc(1) [of "src + 1" ms' "n + 1" "b @ r"] Suc(2-6) m(2) True d by (simp add: replace_char_def)
  next
    case False
    have "gsub_loop num S P p False (Repl_str r) max_s ms b src n = gsub_loop num S P p False (Repl_str r) max_s ms' (b @ [S ! src]) (src + 1) n"
      using m False n src by (simp add: gsub_loop.simps [of num S P p False "Repl_str r" max_s ms b src n] char_at_def)
    then show ?thesis using Suc(1) [of "src + 1" ms' n "b @ [S ! src]"] Suc(2-6) m(2) False d by (simp add: replace_char_def)
  qed
qed

lemma c_int_small: "0 \<le> n \<Longrightarrow> n < 2 ^ 31 \<Longrightarrow> c_int n = n"
  by (simp add: c_int_def sint_sbintrunc' signed_take_bit_int_eq_self)

lemma str_gsub_char:
  assumes "c_str pat = pat" "items pat 0 = [I_One f]" "char_at pat 0 \<noteq> CHR ''^''" "CHR ''%'' \<notin> set r" "length src < 2 ^ 31 - 1"
  shows "str_gsub num src pat (Repl_str r) None = Inr (replace_char f r src, int (length (filter f src)))"
  using gsub_loop_char [OF assms(2,4), of new_MatchState 0 src 0 "int (length src) + 1" num "[]"] assms(1,3,5)
  by (simp add: str_gsub_def Let_def c_int_small)

section \<open>Quoting for the shell\<close>

text \<open>
  How a POSIX shell reads the quoted parts of a word: between single quotes every character stands for itself,
  between double quotes every one but the dollar sign, the backquote, the backslash and the double quote. None is
  a word with other special characters, or one that does not end.
\<close>

datatype sh_quote = Unquoted | Single | Double

fun sh_word :: "sh_quote \<Rightarrow> string \<Rightarrow> string option" where
  "sh_word Unquoted [] = Some []"
| "sh_word Unquoted (c # s) =
     (if c = CHR 0x27 then sh_word Single s
      else if c = CHR 0x22 then sh_word Double s
      else if isalnum c then map_option ((#) c) (sh_word Unquoted s) else None)"
| "sh_word Single [] = None"
| "sh_word Single (c # s) = (if c = CHR 0x27 then sh_word Unquoted s else map_option ((#) c) (sh_word Single s))"
| "sh_word Double [] = None"
| "sh_word Double (c # s) =
     (if c = CHR 0x22 then sh_word Unquoted s
      else if c \<in> {CHR ''$'', CHR 0x60, CHR 0x5C} then None
      else map_option ((#) c) (sh_word Double s))"

lemma sh_word_quoted:
  "sh_word Single (replace_char (\<lambda>c. c = CHR 0x27) [CHR 0x27, CHR 0x22, CHR 0x27, CHR 0x22, CHR 0x27] s @ [CHR 0x27]) = Some s"
  by (induction s) (simp_all add: replace_char_def)

lemma shquote_text:
  "length s < 2 ^ 31 - 1 \<Longrightarrow> shquote num s =
   Inr ([CHR 0x27] @ replace_char (\<lambda>c. c = CHR 0x27) [CHR 0x27, CHR 0x22, CHR 0x27, CHR 0x22, CHR 0x27] s @ [CHR 0x27])"
  by (simp add: shquote_def str_gsub_char pattern_items c_str_def char_at_def)

text \<open>
  C35 (roundtrip): a string quoted by \<^verbatim>\<open>shquote\<close> is read by the shell as one word, which is the string, whatever
  characters it has. The bound is the largest length for which the count of \<^verbatim>\<open>gsub\<close> fits an \<^verbatim>\<open>int\<close>.
\<close>

theorem shquote_shell_roundtrip:
  assumes "length s < 2 ^ 31 - 1"
  shows "\<exists>q. shquote num s = Inr q \<and> sh_word Unquoted q = Some s"
  using shquote_text [OF assms] sh_word_quoted [of s] by simp

theorem shquote_shell_roundtrip_witness:
  "\<exists>q. shquote (\<lambda>_. []) ''a'b $(c)'' = Inr q \<and> sh_word Unquoted q = Some ''a'b $(c)''"
  by (rule shquote_shell_roundtrip) simp

text \<open>Names of results and paths: the two conversions are inverse on valid names.\<close>

lemma name_path_conversions:
  assumes "length s < 2 ^ 31 - 1"
  shows "src_res_name_to_path num s = Inr (List.map (\<lambda>c. if c = CHR ''.'' then CHR ''/'' else c) s, int (count_list s CHR ''.''))"
    and "src_res_path_to_name num s = Inr (List.map (\<lambda>c. if c = CHR ''/'' then CHR ''.'' else c) s, int (count_list s CHR ''/''))"
proof -
  have r: "replace_char f [d] s = List.map (\<lambda>c. if f c then d else c) s" for f d and s :: string
    by (induction s) (simp_all add: replace_char_def)
  have f: "length (filter (\<lambda>c. c = d) s) = count_list s d" for d and s :: string by (induction s) auto
  show "src_res_name_to_path num s = Inr (List.map (\<lambda>c. if c = CHR ''.'' then CHR ''/'' else c) s, int (count_list s CHR ''.''))"
    using assms by (simp add: src_res_name_to_path_def str_gsub_char pattern_items c_str_def char_at_def r f)
  show "src_res_path_to_name num s = Inr (List.map (\<lambda>c. if c = CHR ''/'' then CHR ''.'' else c) s, int (count_list s CHR ''/''))"
    using assms by (simp add: src_res_path_to_name_def str_gsub_char pattern_items c_str_def char_at_def r f)
qed

section \<open>Outcomes of common patterns\<close>

lemma last_open_new: "last_open (cs @ [\<lparr>c_init = s, c_len = CAP_UNFINISHED\<rparr>]) = Some (length cs)"
  by (simp add: last_open_def)

text \<open>A repetition that is captured.\<close>

lemma outs_capture_plus:
  assumes "length cs < LUA_MAXCAPTURES"
  shows "outs S (I_Open # I_Plus f # I_Close # its) cs s =
    concat (List.map (\<lambda>i. outs S its (cs @ [\<lparr>c_init = s, c_len = int i\<rparr>]) (s + i)) (rev [1..<Suc (run_length f S s)]))"
  using assms by (simp add: last_open_new del: upt_Suc)

lemma outs_capture_star:
  assumes "length cs < LUA_MAXCAPTURES"
  shows "outs S (I_Open # I_Star f # I_Close # its) cs s =
    concat (List.map (\<lambda>i. outs S its (cs @ [\<lparr>c_init = s, c_len = int i\<rparr>]) (s + i)) (rev [0..<Suc (run_length f S s)]))"
  using assms by (simp add: last_open_new del: upt_Suc)

lemma outs_one: "outs S (I_One f # its) cs s = (if fits f S s then outs S its cs (s + 1) else [])"
  by simp

lemma outs_end: "outs S (I_End # its) cs s = (if s = length S then [Inr (s, cs)] else [])"
  by simp

lemma outs_nil: "outs S [] cs s = [Inr (s, cs)]"
  by simp

lemmas outs_pattern = outs_capture_plus outs_capture_star outs_one outs_end outs_nil

definition slice :: "string \<Rightarrow> nat \<Rightarrow> nat \<Rightarrow> string" where
  "slice S s n = take n (drop s S)"

lemma cap_value_closed [simp]: "cap_value S \<lparr>c_init = s, c_len = int n\<rparr> = Inr (LString (slice S s n))"
  by (simp add: cap_value_def slice_def CAP_UNFINISHED_def CAP_POSITION_def)

lemma run_length_slice:
  assumes "n \<le> run_length f S s"
  shows "length (slice S s n) = n" "\<forall>c \<in> set (slice S s n). f c"
proof -
  have "slice S s n = take n (takeWhile f (drop s S))"
    using assms unfolding slice_def run_length_def by (metis takeWhile_eq_take take_take min.absorb1)
  then show "length (slice S s n) = n" "\<forall>c \<in> set (slice S s n). f c"
    using assms by (auto simp: run_length_def dest!: in_set_takeD set_takeWhileD)
qed

text \<open>Whether a pattern without captures matches somewhere.\<close>

lemma matches_outs:
  assumes "c_str pat = pat" "items pat (if char_at pat 0 = CHR ''^'' then 1 else 0) = its"
    and cs: "\<And>s x. x \<in> set (outs S its [] s) \<Longrightarrow> \<exists>e. x = Inr (e, [])"
  shows "matches S pat = Inr (\<exists>s \<le> length S. (char_at pat 0 = CHR ''^'' \<longrightarrow> s = 0) \<and> outs S its [] s \<noteq> [])"
proof -
  let ?a = "char_at pat 0 = CHR ''^''"
  let ?starts = "if ?a then [0] else [0..<Suc (length S)]"
  have "start_at 1 (length S) = 0" by (simp add: start_at_def posrelat_def Let_def)
  then have m: "str_match S pat 1 = first_try (\<lambda>s e cs. match_values S cs s e) (tries S its ?starts)"
    using str_match_first [of S pat 1] assms(1,2) by (simp add: Let_def del: upt_Suc)
  have "matches S pat = Inr (tries S its ?starts \<noteq> [])"
  proof (cases "tries S its ?starts")
    case Nil
    then show ?thesis by (simp add: matches_def m first_try_def ebind_def result_at_def truthy_def)
  next
    case (Cons x xs)
    then have "x \<in> set (tries S its ?starts)" by simp
    then obtain s e where "x = Inr (s, e, [])" using cs by (fastforce simp: tries_def)
    then show ?thesis by (simp add: matches_def m Cons first_try_def match_values_def ebind_def result_at_def truthy_def)
  qed
  moreover have "tries S its ?starts \<noteq> [] \<longleftrightarrow> (\<exists>s \<in> set ?starts. outs S its [] s \<noteq> [])" by (auto simp: tries_def simp del: upt_Suc)
  moreover have "set ?starts = {s. s \<le> length S \<and> (?a \<longrightarrow> s = 0)}" by auto
  ultimately show ?thesis by auto
qed

lemma matches_free:
  assumes "c_str pat = pat" "char_at pat 0 \<noteq> CHR ''^''" "items pat 0 = its" "\<And>s x. x \<in> set (outs S its [] s) \<Longrightarrow> \<exists>e. x = Inr (e, [])"
  shows "matches S pat = Inr (\<exists>s \<le> length S. outs S its [] s \<noteq> [])"
  using matches_outs [OF assms(1) _ assms(4)] assms(2,3) by simp

lemma matches_anchored:
  assumes "c_str pat = pat" "char_at pat 0 = CHR ''^''" "items pat 1 = its" "\<And>s x. x \<in> set (outs S its [] s) \<Longrightarrow> \<exists>e. x = Inr (e, [])"
  shows "matches S pat = Inr (outs S its [] 0 \<noteq> [])"
  using matches_outs [OF assms(1) _ assms(4)] assms(2,3) by simp

lemma matches_dotdot: "matches S ''[.][.]'' = Inr (\<exists>k. occurs S ''..'' k)"
proof -
  have "matches S ''[.][.]'' = Inr (\<exists>s \<le> length S. outs S [I_One (\<lambda>c. c = CHR ''.''), I_One (\<lambda>c. c = CHR ''.'')] [] s \<noteq> [])"
    by (rule matches_free) (auto simp: c_str_def char_at_def pattern_items split: if_splits)
  also have "(\<exists>s \<le> length S. outs S [I_One (\<lambda>c. c = CHR ''.''), I_One (\<lambda>c. c = CHR ''.'')] [] s \<noteq> []) \<longleftrightarrow> (\<exists>k. occurs S ''..'' k)"
  proof -
    have "occurs S ''..'' k \<longleftrightarrow> fits (\<lambda>c. c = CHR ''.'') S k \<and> fits (\<lambda>c. c = CHR ''.'') S (k + 1)" for k
    proof (cases "k + 1 < length S")
      case True
      then have "drop (k + 1) S = S ! (k + 1) # drop (k + 2) S" by (simp add: Cons_nth_drop_Suc)
      then show ?thesis using True by (simp add: occurs_head fits_def char_at_def)
    qed (auto simp: occurs_head fits_def)
    then show ?thesis by (auto simp: fits_def)
  qed
  finally show ?thesis .
qed

lemma matches_slash: "matches S ''^/'' = Inr (S \<noteq> [] \<and> hd S = CHR ''/'')"
proof -
  have "matches S ''^/'' = Inr (outs S [I_One (\<lambda>c. c = CHR ''/'')] [] 0 \<noteq> [])"
    by (rule matches_anchored) (auto simp: c_str_def char_at_def pattern_items split: if_splits)
  then show ?thesis by (cases S) (auto simp: fits_def)
qed

lemma match_free_first:
  assumes "c_str pat = pat" "char_at pat 0 \<noteq> CHR ''^''" "items pat 0 = its"
  shows "str_match S pat 1 = first_try (\<lambda>s e cs. match_values S cs s e) (tries S its [0..<Suc (length S)])"
  using str_match_first [of S pat 1] assms by (simp add: start_at_def posrelat_def Let_def del: upt_Suc)

text \<open>What the two patterns for a server location capture.\<close>

lemma tries_server:
  assumes "x \<in> set (tries S [I_Open, I_Plus f, I_Close, I_One g, I_Open, I_Plus f, I_Close] starts)"
  shows "\<exists>s e i j. x = Inr (s, e, [\<lparr>c_init = s, c_len = int i\<rparr>, \<lparr>c_init = s + i + 1, c_len = int j\<rparr>]) \<and>
    1 \<le> i \<and> i \<le> run_length f S s \<and> 1 \<le> j \<and> j \<le> run_length f S (s + i + 1)"
proof -
  have L: "(0::nat) < LUA_MAXCAPTURES" "Suc 0 < LUA_MAXCAPTURES" by (simp_all add: LUA_MAXCAPTURES_def)
  show ?thesis using assms L
    by (auto simp: tries_def outs_pattern less_Suc_eq_le simp del: upt_Suc outs.simps split: if_splits)
qed

definition word :: "string \<Rightarrow> bool" where
  "word s \<longleftrightarrow> s \<noteq> [] \<and> (\<forall>c \<in> set s. \<not> isspace c)"

lemma slice_word: "1 \<le> n \<Longrightarrow> n \<le> run_length (\<lambda>c. \<not> isspace c) S s \<Longrightarrow> word (slice S s n)"
  using run_length_slice [of n "\<lambda>c. \<not> isspace c" S s] by (auto simp: word_def)

lemma match_server:
  obtains "str_match S ''(%S+):(%S+)'' 1 = Inr [LNil]"
  | a b where "str_match S ''(%S+):(%S+)'' 1 = Inr [LString a, LString b]" "word a" "word b"
proof -
  let ?its = "[I_Open, I_Plus (\<lambda>c. \<not> isspace c), I_Close, I_One (\<lambda>c. c = CHR '':''), I_Open, I_Plus (\<lambda>c. \<not> isspace c), I_Close]"
  have m: "str_match S ''(%S+):(%S+)'' 1 = first_try (\<lambda>s e cs. match_values S cs s e) (tries S ?its [0..<Suc (length S)])"
    by (rule match_free_first) (simp_all add: c_str_def char_at_def pattern_items)
  show ?thesis
  proof (cases "tries S ?its [0..<Suc (length S)]")
    case Nil
    then show ?thesis using that(1) m by (simp add: first_try_def)
  next
    case (Cons x xs)
    then obtain s e i j where "x = Inr (s, e, [\<lparr>c_init = s, c_len = int i\<rparr>, \<lparr>c_init = s + i + 1, c_len = int j\<rparr>])"
      and w: "1 \<le> i" "i \<le> run_length (\<lambda>c. \<not> isspace c) S s" "1 \<le> j" "j \<le> run_length (\<lambda>c. \<not> isspace c) S (s + i + 1)"
      using tries_server [of x S "\<lambda>c. \<not> isspace c" "\<lambda>c. c = CHR '':''" "[0..<Suc (length S)]"] by (simp del: upt_Suc) blast
    then have "str_match S ''(%S+):(%S+)'' 1 = Inr [LString (slice S s i), LString (slice S (s + i + 1) j)]"
      using m Cons by (simp add: first_try_def match_values_def)
    then show ?thesis using that(2) slice_word w by blast
  qed
qed

lemma match_word:
  obtains "str_match S ''(%S+)'' 1 = Inr [LNil]"
  | a where "str_match S ''(%S+)'' 1 = Inr [LString a]" "word a"
proof -
  let ?its = "[I_Open, I_Plus (\<lambda>c. \<not> isspace c), I_Close]"
  have m: "str_match S ''(%S+)'' 1 = first_try (\<lambda>s e cs. match_values S cs s e) (tries S ?its [0..<Suc (length S)])"
    by (rule match_free_first) (simp_all add: c_str_def char_at_def pattern_items)
  show ?thesis
  proof (cases "tries S ?its [0..<Suc (length S)]")
    case Nil
    then show ?thesis using that(1) m by (simp add: first_try_def)
  next
    case (Cons x xs)
    then have "x \<in> set (tries S ?its [0..<Suc (length S)])" by simp
    then obtain s e i where x: "x = Inr (s, e, [\<lparr>c_init = s, c_len = int i\<rparr>])" "1 \<le> i" "i \<le> run_length (\<lambda>c. \<not> isspace c) S s"
      by (auto simp: tries_def outs_pattern LUA_MAXCAPTURES_def less_Suc_eq_le simp del: upt_Suc outs.simps)
    then have "str_match S ''(%S+)'' 1 = Inr [LString (slice S s i)]"
      using m Cons by (simp add: first_try_def match_values_def)
    then show ?thesis using that(2) slice_word x(2,3) by blast
  qed
qed

lemma location_check:
  "ebind (matches location ''[.][.]'') (\<lambda>dots.
     ebind (if dots then Inr True else matches location ''^/'') (\<lambda>bad.
     Inr (if bad then Inl e else Inr loc))) =
   Inr (if (\<exists>k. occurs location ''..'' k) \<or> location \<noteq> [] \<and> hd location = CHR ''/'' then Inl e else Inr loc)"
  by (simp add: matches_dotdot matches_slash ebind_def)

text \<open>
  C36 (safety): \<^verbatim>\<open>parse_server_location\<close> never fails with a Lua error, and a location it accepts is not empty, is not
  an absolute path and does not contain two consecutive dots, so that it stays below the directory of the server.
\<close>

theorem parse_server_location_confined:
  "\<exists>r. parse_server_location serverloc default_server = Inr r \<and>
     (\<forall>loc. r = Inr loc \<longrightarrow>
        sl_location loc \<noteq> [] \<and> hd (sl_location loc) \<noteq> CHR ''/'' \<and> (\<nexists>k. occurs (sl_location loc) ''..'' k) \<and>
        (\<forall>c \<in> set (sl_location loc). \<not> isspace c))"
proof (cases rule: match_server [of serverloc])
  case (2 a b)
  then have "parse_server_location serverloc default_server =
    Inr (if (\<exists>k. occurs b ''..'' k) \<or> b \<noteq> [] \<and> hd b = CHR ''/'' then Inl (Invalid_location serverloc)
         else Inr \<lparr>sl_server = a, sl_location = b\<rparr>)"
    by (simp add: parse_server_location_def location_check) (simp add: ebind_def result_at_def truthy_def as_string_def location_check)
  then show ?thesis using 2(3) by (auto simp: word_def)
next
  case 1
  show ?thesis
  proof (cases rule: match_word [of serverloc])
    case 1
    then show ?thesis using \<open>str_match serverloc ''(%S+):(%S+)'' 1 = Inr [LNil]\<close>
      by (simp add: parse_server_location_def ebind_def result_at_def truthy_def)
  next
    case (2 a)
    then have "parse_server_location serverloc default_server =
      Inr (if (\<exists>k. occurs a ''..'' k) \<or> a \<noteq> [] \<and> hd a = CHR ''/'' then Inl (Invalid_location serverloc)
           else Inr \<lparr>sl_server = default_server, sl_location = a\<rparr>)"
      using \<open>str_match serverloc ''(%S+):(%S+)'' 1 = Inr [LNil]\<close>
      by (simp add: parse_server_location_def location_check) (simp add: ebind_def result_at_def truthy_def as_string_def location_check)
    then show ?thesis using 2(2) by (auto simp: word_def)
  qed
qed

theorem parse_server_location_confined_witness:
  "parse_server_location ''srv:a/b'' ''main'' = Inr (Inr \<lparr>sl_server = ''srv'', sl_location = ''a/b''\<rparr>) \<and>
   (\<nexists>k. occurs ''a/b'' ''..'' k)"
proof -
  have e: "parse_server_location ''srv:a/b'' ''main'' = Inr (Inr \<lparr>sl_server = ''srv'', sl_location = ''a/b''\<rparr>)" by code_simp
  then show ?thesis using parse_server_location_confined [of "''srv:a/b''" "''main''"] by simp
qed

section \<open>Paths\<close>

lemma concat_rev_first:
  assumes "k \<le> n" "a \<le> k" "g k = x # xs" "\<And>j. k < j \<Longrightarrow> j \<le> n \<Longrightarrow> g j = []"
  shows "\<exists>ys. concat (List.map g (rev [a..<Suc n])) = x # ys"
proof -
  obtain m where m: "Suc n = k + m" using assms(1) by (metis le_Suc_ex le_SucI)
  have "[a..<Suc n] = [a..<k] @ [k..<Suc n]" unfolding m by (rule upt_add_eq_append [OF assms(2)])
  moreover have "[k..<Suc n] = k # [Suc k..<Suc n]" using assms(1) by (intro upt_conv_Cons) simp
  ultimately have "concat (List.map g (rev [a..<Suc n])) = concat (List.map g (rev [Suc k..<Suc n])) @ g k @ concat (List.map g (rev [a..<k]))"
    by (simp del: upt_Suc)
  moreover have "concat (List.map g (rev [Suc k..<Suc n])) = []" using assms(4) by (auto simp del: upt_Suc)
  ultimately show ?thesis using assms(3) by (metis append_Nil append_Cons)
qed

lemma find_anchored_first:
  assumes "c_str pat = pat" "char_at pat 0 = CHR ''^''" "items pat (Suc 0) = its"
  shows "str_find S pat 1 False = first_try (find_values S) (List.map (map_sum id (\<lambda>(e, cs). (0, e, cs))) (outs S its [] 0))"
proof -
  have "CHR ''^'' \<in> set pat" using assms(2) by (cases pat) (auto simp: char_at_def NUL_def)
  then have "\<not> list_all (\<lambda>c. c \<notin> set SPECIALS) (c_str pat)" unfolding assms(1) by (auto simp: list_all_iff SPECIALS_def)
  then show ?thesis using str_find_first [of S pat 1 False] assms
    by (simp add: start_at_def posrelat_def Let_def tries_def)
qed

lemma run_length_prefix: "\<forall>c \<in> set a. f c \<Longrightarrow> (case b of [] \<Rightarrow> True | c # _ \<Rightarrow> \<not> f c) \<Longrightarrow> drop s S = a @ b \<Longrightarrow> run_length f S s = length a"
  by (auto simp: run_length_def takeWhile_append2 split: list.splits)

text \<open>The two patterns differ in what they capture.\<close>

lemma path_items:
  "items ''^(.*)/[^/]+[/]*$'' (Suc 0) =
     [I_Open, I_Star (\<lambda>c. True), I_Close, I_One (\<lambda>c. c = CHR ''/''), I_Plus (\<lambda>c. c \<noteq> CHR ''/''), I_Star (\<lambda>c. c = CHR ''/''), I_End]"
  "items ''^.*/([^/]+)[/]*$'' (Suc 0) =
     [I_Star (\<lambda>c. True), I_One (\<lambda>c. c = CHR ''/''), I_Open, I_Plus (\<lambda>c. c \<noteq> CHR ''/''), I_Close, I_Star (\<lambda>c. c = CHR ''/''), I_End]"
  by (simp_all add: item_eval) (auto simp: class_eval)

lemma outs_plus: "outs S (I_Plus f # its) cs s = concat (List.map (\<lambda>i. outs S its cs (s + i)) (rev [1..<Suc (run_length f S s)]))"
  by simp

lemma outs_star: "outs S (I_Star f # its) cs s = concat (List.map (\<lambda>i. outs S its cs (s + i)) (rev [0..<Suc (run_length f S s)]))"
  by simp

text \<open>Slashes up to the end.\<close>

lemma outs_slashes:
  assumes "drop s S = tail" "\<forall>c \<in> set tail. c = CHR ''/''" "s \<le> length S"
  shows "\<exists>ys. outs S [I_Star (\<lambda>c. c = CHR ''/''), I_End] cs s = Inr (length S, cs) # ys"
  unfolding outs_star
proof (rule concat_rev_first [where k = "length tail"])
  have r: "run_length (\<lambda>c. c = CHR ''/'') S s = length tail" using assms(1,2) by (intro run_length_prefix [where b = "[]"]) auto
  show "length tail \<le> run_length (\<lambda>c. c = CHR ''/'') S s" using r by simp
  show "outs S [I_End] cs (s + length tail) = [Inr (length S, cs)]" using assms(1,3) by (auto simp: outs_end simp del: outs.simps)
  show "outs S [I_End] cs (s + j) = []" if "length tail < j" "j \<le> run_length (\<lambda>c. c = CHR ''/'') S s" for j using that r by simp
qed simp

lemma path_parts:
  assumes S: "S = d @ ''/'' @ b @ tail" and b: "b \<noteq> []" "CHR ''/'' \<notin> set b" and tail: "\<forall>c \<in> set tail. c = CHR ''/''"
  shows "run_length (\<lambda>c. True) S 0 = length S" "drop (length d + 1) S = b @ tail" "drop (length d + 1 + length b) S = tail"
    "run_length (\<lambda>c. c \<noteq> CHR ''/'') S (length d + 1) = length b" "fits (\<lambda>c. c = CHR ''/'') S (length d)"
    "\<And>j. length d < j \<Longrightarrow> fits (\<lambda>c. c = CHR ''/'') S j \<Longrightarrow> run_length (\<lambda>c. c \<noteq> CHR ''/'') S (j + 1) = 0"
proof -
  show d1: "drop (length d + 1) S = b @ tail" and d2: "drop (length d + 1 + length b) S = tail" by (simp_all add: S)
  show "run_length (\<lambda>c. True) S 0 = length S" by (simp add: run_length_def takeWhile_eq_all_conv [THEN iffD2])
  show "run_length (\<lambda>c. c \<noteq> CHR ''/'') S (length d + 1) = length b"
    by (rule run_length_prefix [OF _ _ d1]) (use b tail in \<open>auto split: list.splits\<close>)
  show "fits (\<lambda>c. c = CHR ''/'') S (length d)" by (simp add: fits_def S)
  fix j
  assume j: "length d < j" "fits (\<lambda>c. c = CHR ''/'') S j"
  have "length d + 1 + length b \<le> j"
  proof (rule ccontr)
    assume "\<not> length d + 1 + length b \<le> j"
    then have "S ! j = b ! (j - (length d + 1))" "j - (length d + 1) < length b" using j(1) by (auto simp: S nth_append)
    then show False using j(2) b(2) by (auto simp: fits_def dest: nth_mem)
  qed
  then have "set (drop (j + 1) S) \<subseteq> set tail" using d2 by (metis le_SucI Suc_eq_plus1 set_drop_subset_set_drop)
  then show "run_length (\<lambda>c. c \<noteq> CHR ''/'') S (j + 1) = 0" using tail by (cases "drop (j + 1) S") (auto simp: run_length_def)
qed

lemma dirname_split:
  assumes "S = d @ ''/'' @ b @ tail" "b \<noteq> []" "CHR ''/'' \<notin> set b" "\<forall>c \<in> set tail. c = CHR ''/''"
  shows "dirname S = Inr (if d = [] then ''/'' else d)"
proof -
  note P = path_parts [OF assms]
  let ?cs = "[\<lparr>c_init = 0, c_len = int (length d)\<rparr>]"
  let ?rest = "[I_One (\<lambda>c. c = CHR ''/''), I_Plus (\<lambda>c. c \<noteq> CHR ''/''), I_Star (\<lambda>c. c = CHR ''/''), I_End]"
  have L: "length ([] :: Capture list) < LUA_MAXCAPTURES" by (simp add: LUA_MAXCAPTURES_def)
  have "\<exists>ys. outs S [I_Plus (\<lambda>c. c \<noteq> CHR ''/''), I_Star (\<lambda>c. c = CHR ''/''), I_End] ?cs (length d + 1) = Inr (length S, ?cs) # ys"
    unfolding outs_plus
  proof -
    obtain ys where "outs S [I_Star (\<lambda>c. c = CHR ''/''), I_End] ?cs (length d + 1 + length b) = Inr (length S, ?cs) # ys"
      using outs_slashes [OF P(3) assms(4), of ?cs] assms(1) by auto
    then show "\<exists>ys. concat (List.map (\<lambda>i. outs S [I_Star (\<lambda>c. c = CHR ''/''), I_End] ?cs (length d + 1 + i))
        (rev [1..<Suc (run_length (\<lambda>c. c \<noteq> CHR ''/'') S (length d + 1))])) = Inr (length S, ?cs) # ys"
      using assms(2) P(4) by (intro concat_rev_first [where k = "length b"]) (auto simp: Suc_le_eq)
  qed
  then obtain ys where k: "outs S ?rest ?cs (0 + length d) = Inr (length S, ?cs) # ys" using P(5) by (auto simp: outs_one simp del: outs.simps)
  have "\<exists>ys. outs S (I_Open # I_Star (\<lambda>c. True) # I_Close # ?rest) [] 0 = Inr (length S, ?cs) # ys"
    unfolding outs_capture_star [OF L]
  proof (rule concat_rev_first [where k = "length d", OF _ _ _ _])
    show "outs S ?rest ([] @ [\<lparr>c_init = 0, c_len = int (length d)\<rparr>]) (0 + length d) = Inr (length S, ?cs) # ys" using k by (simp del: outs.simps)
    show "outs S ?rest ([] @ [\<lparr>c_init = 0, c_len = int j\<rparr>]) (0 + j) = []" if "length d < j" for j
      using P(6) [OF that] by (simp add: outs_one outs_plus del: outs.simps)
  qed (use P(1) assms(1) in auto)
  then obtain ys where o: "outs S (I_Open # I_Star (\<lambda>c. True) # I_Close # ?rest) [] 0 = Inr (length S, ?cs) # ys" by blast
  have "str_find S ''^(.*)/[^/]+[/]*$'' 1 False = Inr [pushinteger 1, pushinteger (int (length S)), LString d]"
    using find_anchored_first [OF _ _ path_items(1), of S] o assms(1)
    by (simp add: c_str_def char_at_def first_try_def find_values_def slice_def del: outs.simps)
  then show ?thesis by (simp add: dirname_def ebind_def result_at_def truthy_def as_string_def Let_def)
qed

lemma basename_split:
  assumes "S = d @ ''/'' @ b @ tail" "b \<noteq> []" "CHR ''/'' \<notin> set b" "\<forall>c \<in> set tail. c = CHR ''/''"
  shows "basename S = Inr b"
proof -
  note P = path_parts [OF assms]
  let ?cs = "[\<lparr>c_init = length d + 1, c_len = int (length b)\<rparr>]"
  let ?part = "[I_Open, I_Plus (\<lambda>c. c \<noteq> CHR ''/''), I_Close, I_Star (\<lambda>c. c = CHR ''/''), I_End]"
  have L: "length ([] :: Capture list) < LUA_MAXCAPTURES" by (simp add: LUA_MAXCAPTURES_def)
  obtain zs where z: "outs S [I_Star (\<lambda>c. c = CHR ''/''), I_End] ?cs (length d + 1 + length b) = Inr (length S, ?cs) # zs"
    using outs_slashes [OF P(3) assms(4), of ?cs] assms(1) by auto
  have "\<exists>ys. outs S ?part [] (length d + 1) = Inr (length S, ?cs) # ys"
    unfolding outs_capture_plus [OF L]
    using assms(2) P(4) z by (intro concat_rev_first [where k = "length b"]) (auto simp: Suc_le_eq simp del: outs.simps)
  then obtain ys where k: "outs S (I_One (\<lambda>c. c = CHR ''/'') # ?part) [] (0 + length d) = Inr (length S, ?cs) # ys"
    using P(5) by (auto simp: outs_one simp del: outs.simps)
  have "\<exists>ys. outs S (I_Star (\<lambda>c. True) # I_One (\<lambda>c. c = CHR ''/'') # ?part) [] 0 = Inr (length S, ?cs) # ys"
    unfolding outs_star [of S "\<lambda>c. True"]
  proof (rule concat_rev_first [where k = "length d"])
    show "outs S (I_One (\<lambda>c. c = CHR ''/'') # ?part) [] (0 + length d) = Inr (length S, ?cs) # ys" by (rule k)
    show "outs S (I_One (\<lambda>c. c = CHR ''/'') # ?part) [] (0 + j) = []" if "length d < j" for j
      using P(6) [OF that] by (simp add: outs_one outs_capture_plus [OF L] del: outs.simps)
  qed (use P(1) assms(1) in auto)
  then obtain ys where o: "outs S (I_Star (\<lambda>c. True) # I_One (\<lambda>c. c = CHR ''/'') # ?part) [] 0 = Inr (length S, ?cs) # ys" by blast
  have "str_find S ''^.*/([^/]+)[/]*$'' 1 False = Inr [pushinteger 1, pushinteger (int (length S)), LString b]"
    using find_anchored_first [OF _ _ path_items(2), of S] o P(2)
    by (simp add: c_str_def char_at_def first_try_def find_values_def slice_def del: outs.simps)
  then show ?thesis by (simp add: basename_def ebind_def result_at_def truthy_def as_string_def Let_def)
qed

lemma str_sub_last: "s \<noteq> [] \<Longrightarrow> str_sub s (-1) (-1) = [last s]"
  by (cases s rule: rev_cases) (simp_all add: str_sub_def posrelat_def Let_def)

lemma str_sub_all: "str_sub s 1 (-1) = s"
  by (cases s) (simp_all add: str_sub_def posrelat_def Let_def)

lemma join_two:
  "a \<noteq> [] \<Longrightarrow> e2lib_join [a, b] = a @ (if last a = CHR ''/'' \<or> b = ''/'' then [] else ''/'') @ b"
  by (simp add: e2lib_join_def str_sub_last str_sub_all Let_def)

text \<open>A path without a component behind a slash: no pattern matches.\<close>

lemma path_no_parts:
  assumes S: "S = b @ tail" and b: "CHR ''/'' \<notin> set b" and tail: "\<forall>c \<in> set tail. c = CHR ''/''" and j: "fits (\<lambda>c. c = CHR ''/'') S j"
  shows "run_length (\<lambda>c. c \<noteq> CHR ''/'') S (j + 1) = 0"
proof -
  have "length b \<le> j"
  proof (rule ccontr)
    assume "\<not> length b \<le> j"
    then have "b ! j = CHR ''/''" "j < length b" using j by (auto simp: fits_def S nth_append)
    then show False using b by (metis nth_mem)
  qed
  then have "set (drop (j + 1) S) \<subseteq> set tail" by (auto simp: S dest: in_set_dropD)
  then show ?thesis using tail by (cases "drop (j + 1) S") (auto simp: run_length_def)
qed

lemma dirname_basename_none:
  assumes "S = b @ tail" "CHR ''/'' \<notin> set b" "\<forall>c \<in> set tail. c = CHR ''/''"
  shows "dirname S = Inr ''.''" "basename S = Inr S"
proof -
  have L: "length ([] :: Capture list) < LUA_MAXCAPTURES" by (simp add: LUA_MAXCAPTURES_def)
  have "outs S [I_Open, I_Star (\<lambda>c. True), I_Close, I_One (\<lambda>c. c = CHR ''/''), I_Plus (\<lambda>c. c \<noteq> CHR ''/''), I_Star (\<lambda>c. c = CHR ''/''), I_End] [] 0 = []"
    unfolding outs_capture_star [OF L] using path_no_parts [OF assms] by (auto simp: outs_one outs_plus simp del: outs.simps upt_Suc)
  then have "str_find S ''^(.*)/[^/]+[/]*$'' 1 False = Inr [LNil]"
    using find_anchored_first [OF _ _ path_items(1), of S] by (simp add: c_str_def char_at_def first_try_def del: outs.simps)
  then show "dirname S = Inr ''.''" by (simp add: dirname_def ebind_def result_at_def truthy_def as_string_def Let_def)
  have "outs S [I_Star (\<lambda>c. True), I_One (\<lambda>c. c = CHR ''/''), I_Open, I_Plus (\<lambda>c. c \<noteq> CHR ''/''), I_Close, I_Star (\<lambda>c. c = CHR ''/''), I_End] [] 0 = []"
    unfolding outs_star [of S "\<lambda>c. True"] using path_no_parts [OF assms]
    by (auto simp: outs_one outs_capture_plus [OF L] simp del: outs.simps upt_Suc)
  then have "str_find S ''^.*/([^/]+)[/]*$'' 1 False = Inr [LNil]"
    using find_anchored_first [OF _ _ path_items(2), of S] by (simp add: c_str_def char_at_def first_try_def del: outs.simps)
  then show "basename S = Inr S" by (simp add: basename_def ebind_def result_at_def truthy_def as_string_def Let_def)
qed

text \<open>
  The parts of a path: what stands before the last slash that has a component behind it, and that
  component, without the slashes at the end.
\<close>

definition split_path :: "string \<Rightarrow> (string \<times> string) option" where
  "split_path path =
     (let core = rev (dropWhile (\<lambda>c. c = CHR ''/'') (rev path)); b = rev (takeWhile (\<lambda>c. c \<noteq> CHR ''/'') (rev core))
      in if CHR ''/'' \<in> set core then Some (take (length core - length b - 1) core, b) else None)"

lemma split_path_parts:
  obtains (Some) d b tail where "split_path path = Some (d, b)" "path = d @ ''/'' @ b @ tail" "b \<noteq> []" "CHR ''/'' \<notin> set b" "\<forall>c \<in> set tail. c = CHR ''/''"
  | (None) b tail where "split_path path = None" "path = b @ tail" "CHR ''/'' \<notin> set b" "\<forall>c \<in> set tail. c = CHR ''/''"
proof -
  define core where "core = rev (dropWhile (\<lambda>c. c = CHR ''/'') (rev path))"
  define tail where "tail = rev (takeWhile (\<lambda>c. c = CHR ''/'') (rev path))"
  have path: "path = core @ tail" unfolding core_def tail_def by (metis takeWhile_dropWhile_id rev_append rev_rev_ident)
  have tl: "\<forall>c \<in> set tail. c = CHR ''/''" by (auto simp: tail_def dest: set_takeWhileD)
  show ?thesis
  proof (cases "CHR ''/'' \<in> set core")
    case True
    define b where "b = rev (takeWhile (\<lambda>c. c \<noteq> CHR ''/'') (rev core))"
    define r where "r = dropWhile (\<lambda>c. c \<noteq> CHR ''/'') (rev core)"
    have ne: "r \<noteq> []" using True by (auto simp: r_def dropWhile_eq_Nil_conv)
    then have "\<not> hd r \<noteq> CHR ''/''" unfolding r_def by (rule hd_dropWhile)
    then obtain r' where r: "r = CHR ''/'' # r'" using ne by (cases r) simp_all
    have "core = rev r @ b" unfolding r_def b_def by (metis takeWhile_dropWhile_id rev_append rev_rev_ident)
    then have core: "core = rev r' @ ''/'' @ b" by (simp add: r)
    have "dropWhile (\<lambda>c. c = CHR ''/'') (rev path) \<noteq> []"
      by (metis True core_def rev.simps(1) empty_iff list.set(1))
    then have "hd (rev core) \<noteq> CHR ''/''" unfolding core_def rev_rev_ident by (rule hd_dropWhile)
    then have b: "b \<noteq> []" using True by (cases "rev core") (auto simp: b_def)
    have nb: "CHR ''/'' \<notin> set b" by (auto simp: b_def dest: set_takeWhileD)
    have "split_path path = Some (take (length core - length b - 1) core, b)"
      unfolding split_path_def Let_def core_def [symmetric] b_def [symmetric] using True by (rule if_P)
    moreover have "take (length core - length b - 1) core = rev r'" by (simp add: core)
    ultimately show ?thesis using that(1) [of "rev r'" b tail] path core tl b nb by simp
  next
    case False
    then have "split_path path = None" unfolding split_path_def Let_def core_def [symmetric] by (rule if_not_P)
    then show ?thesis using that(2) path False tl by blast
  qed
qed

text \<open>
  C39 (functional): for every path, \<^verbatim>\<open>dirname\<close> and \<^verbatim>\<open>basename\<close> split it at the slash before its last component, ignoring
  slashes behind it; the directory of a component of the root is \<^verbatim>\<open>/\<close>. If no component has a slash before
  it, the directory is \<^verbatim>\<open>.\<close> and the base name is the path itself. \<^verbatim>\<open>join\<close> puts the parts together again, with
  one slash between them unless the directory ends in one.
\<close>

theorem dirname_basename_join:
  "case split_path path of
     None \<Rightarrow> dirname path = Inr ''.'' \<and> basename path = Inr path
   | Some (d, b) \<Rightarrow>
       dirname path = Inr (if d = [] then ''/'' else d) \<and> basename path = Inr b \<and>
       e2lib_join [if d = [] then ''/'' else d, b] = (if d = [] then ''/'' @ b else if last d = CHR ''/'' then d @ b else d @ ''/'' @ b)"
proof (cases path rule: split_path_parts)
  case (Some d b tail)
  have "b \<noteq> ''/''" using Some(4) by auto
  then show ?thesis using Some(1) dirname_split [OF Some(2-5)] basename_split [OF Some(2-5)] join_two [of "if d = [] then ''/'' else d" b] by auto
next
  case (None b tail)
  then show ?thesis using dirname_basename_none [OF None(2-4)] by simp
qed

lemma split_path_examples:
  "split_path ''/srv/proj//'' = Some (''/srv'', ''proj'')" "split_path ''/x'' = Some ([], ''x'')" "split_path ''a//b'' = Some (''a/'', ''b'')"
  "split_path ''abc/'' = None" "split_path ''//'' = None"
  by code_simp+

text \<open>A separator at the start of the next component is not seen: \<^verbatim>\<open>component:sub(1)\<close> is the whole component.\<close>

theorem join_leading_slash: "e2lib_join [''a'', ''/b''] = ''a//b''"
  by (simp add: join_two)

section \<open>Names\<close>

lemma outs_all:
  "outs S [I_Plus f, I_End] [] 0 \<noteq> [] \<longleftrightarrow> S \<noteq> [] \<and> (\<forall>c \<in> set S. f c)"
proof -
  have "outs S [I_Plus f, I_End] [] 0 \<noteq> [] \<longleftrightarrow> (\<exists>i. 1 \<le> i \<and> i \<le> run_length f S 0 \<and> i = length S)"
    by (auto simp: outs_plus outs_end less_Suc_eq_le simp del: outs.simps upt_Suc split: if_splits)
  also have "\<dots> \<longleftrightarrow> S \<noteq> [] \<and> run_length f S 0 = length S"
    using run_length_le [of 0 S f] by (auto simp: Suc_le_eq)
  also have "run_length f S 0 = length S \<longleftrightarrow> (\<forall>c \<in> set S. f c)"
    by (metis run_length_def drop0 takeWhile_eq_take take_all order_refl takeWhile_eq_all_conv)
  finally show ?thesis by simp
qed

lemma verify_name_chars:
  "verify_src_res_name_valid_chars s = Inr (s \<noteq> [] \<and> (\<forall>c \<in> set s. is_name_char c \<or> c = CHR ''.''))"
  "verify_src_res_pathname_valid_chars s = Inr (s \<noteq> [] \<and> (\<forall>c \<in> set s. is_name_char c \<or> c = CHR ''/''))"
proof -
  have o: "\<exists>e. x = Inr (e, [])" if "x \<in> set (outs s [I_Plus f, I_End] [] k)" for x f k
    using that by (auto simp: outs_plus outs_end simp del: outs.simps upt_Suc split: if_splits)
  show "verify_src_res_name_valid_chars s = Inr (s \<noteq> [] \<and> (\<forall>c \<in> set s. is_name_char c \<or> c = CHR ''.''))"
    unfolding verify_src_res_name_valid_chars_def outs_all [symmetric]
    by (rule matches_anchored) (use o in \<open>simp_all add: c_str_def char_at_def pattern_items del: outs.simps\<close>)
  show "verify_src_res_pathname_valid_chars s = Inr (s \<noteq> [] \<and> (\<forall>c \<in> set s. is_name_char c \<or> c = CHR ''/''))"
    unfolding verify_src_res_pathname_valid_chars_def outs_all [symmetric]
    by (rule matches_anchored) (use o in \<open>simp_all add: c_str_def char_at_def pattern_items del: outs.simps\<close>)
qed

section \<open>Format strings\<close>

lemma tries_one: "tries S [I_One f] starts = List.map (\<lambda>s. Inr (s, s + 1, [])) (filter (fits f S) starts)"
  by (induction starts) (simp_all add: tries_def)

lemma start_at_Suc: "k \<le> l \<Longrightarrow> start_at (int (k + 1)) l = k"
  by (simp add: start_at_def posrelat_def Let_def)

lemma find_percent_filter:
  assumes "k \<le> length S"
  shows "find_percent S (k + 1) =
    (case filter (fits (\<lambda>c. c = CHR ''%'') S) [k..<Suc (length S)] of [] \<Rightarrow> None | j # _ \<Rightarrow> Some (nat (floor (cast_num (int j + 1)))))"
proof -
  have "str_find S ''%%'' (int (k + 1)) False = first_try (find_values S) (tries S [I_One (\<lambda>c. c = CHR ''%'')] [k..<Suc (length S)])"
    using str_find_first [of S "''%%''" "int (k + 1)" False] start_at_Suc [OF assms]
    by (simp add: Let_def c_str_def char_at_def pattern_items SPECIALS_def del: upt_Suc of_nat_add)
  then show ?thesis
    by (simp add: find_percent_def tries_one first_try_def find_values_def pushinteger_def split: list.split del: upt_Suc)
qed

lemma find_percent_none:
  assumes "CHR ''%'' \<notin> set (drop k S)" "k \<le> length S"
  shows "find_percent S (k + 1) = None"
proof -
  have "\<not> fits (\<lambda>c. c = CHR ''%'') S s" if "k \<le> s" for s
  proof
    assume "fits (\<lambda>c. c = CHR ''%'') S s"
    then have "drop k S ! (s - k) = CHR ''%''" "s - k < length (drop k S)" using that assms(2) by (auto simp: fits_def)
    then show False using assms(1) by (metis nth_mem)
  qed
  then have "filter (fits (\<lambda>c. c = CHR ''%'') S) [k..<Suc (length S)] = []" by (auto simp: filter_empty_conv)
  then show ?thesis by (simp only: find_percent_filter [OF assms(2)] list.case)
qed

lemma find_percent_some:
  assumes "S = pre @ a @ CHR ''%'' # b" "CHR ''%'' \<notin> set a" "length S < 2 ^ 53"
  shows "find_percent S (length pre + 1) = Some (length pre + length a + 1)"
proof -
  let ?k = "length pre + length a" and ?f = "fits (\<lambda>c. c = CHR ''%'') S"
  have u: "[length pre..<Suc (length S)] = [length pre..<?k] @ [?k..<?k + (length b + 2)]"
    using upt_add_eq_append [of "length pre" "?k" "length b + 2"] assms(1) by (simp add: add.assoc del: upt_Suc)
  have "\<not> ?f s" if "length pre \<le> s" "s < ?k" for s
  proof
    assume "?f s"
    moreover have i: "s - length pre < length a" using that by linarith
    ultimately have "a ! (s - length pre) = CHR ''%''" using that assms(1) by (simp add: fits_def nth_append)
    then show False using nth_mem [OF i] assms(2) by simp
  qed
  then have 1: "filter ?f [length pre..<?k] = []" by (auto simp: filter_empty_conv)
  have "?f ?k" using assms(1) by (simp add: fits_def nth_append)
  then have "filter ?f [?k..<?k + (length b + 2)] = ?k # filter ?f [Suc ?k..<?k + (length b + 2)]"
    by (subst upt_conv_Cons) simp_all
  then have "filter ?f [length pre..<Suc (length S)] = ?k # filter ?f [Suc ?k..<?k + (length b + 2)]"
    unfolding u using 1 by (simp only: filter_append append_Nil)
  moreover have "cast_num (int ?k + 1) = of_int (int ?k + 1)" using assms(1,3) by (intro cast_num_small) simp
  then have "nat (floor (cast_num (int ?k + 1))) = ?k + 1" by simp
  ultimately show ?thesis using find_percent_filter [of "length pre" S] assms(1) by (simp only: list.case) simp
qed

text \<open>What the loop computes: after a replacement it passes over one character.\<close>

fun format_ref :: "(string \<times> string) list \<Rightarrow> string \<Rightarrow> string" where
  "format_ref t [] = []"
| "format_ref t (c # s) =
     (if c \<noteq> CHR ''%'' then c # format_ref t s
      else
        case s of
          [] \<Rightarrow> (case map_of (percent_entry t) [] of None \<Rightarrow> [c] | Some y \<Rightarrow> y)
        | d # s' \<Rightarrow>
            (case map_of (percent_entry t) [d] of
               None \<Rightarrow> c # format_ref t s
             | Some y \<Rightarrow> y @ (case s' of [] \<Rightarrow> [] | e # s'' \<Rightarrow> e # format_ref t s'')))"

lemma format_ref_plain: "CHR ''%'' \<notin> set a \<Longrightarrow> format_ref t (a @ s) = a @ format_ref t s"
  by (induction a) auto

lemma find_percent_beyond: "length S < k \<Longrightarrow> find_percent S (k + 1) = None"
proof -
  assume k: "length S < k"
  then have "start_at (int (k + 1)) (length S) = length S" by (simp add: start_at_def posrelat_def Let_def)
  then have "str_find S ''%%'' (int (k + 1)) False = first_try (find_values S) (tries S [I_One (\<lambda>c. c = CHR ''%'')] [length S..<Suc (length S)])"
    using str_find_first [of S "''%%''" "int (k + 1)" False]
    by (simp add: Let_def c_str_def char_at_def pattern_items SPECIALS_def del: upt_Suc of_nat_add)
  moreover have "\<not> fits (\<lambda>c. c = CHR ''%'') S (length S)" by (simp add: fits_def)
  ultimately show ?thesis by (simp add: find_percent_def tries_one first_try_def)
qed

lemma str_sub_nat:
  assumes "1 \<le> i"
  shows "str_sub s (int i) (int j) = take (j + 1 - i) (drop (i - 1) s)"
proof (cases "j \<le> length s")
  case True
  moreover have "nat (int j - int i + 1) = j + 1 - i" by linarith
  ultimately show ?thesis using assms by (auto simp: str_sub_def posrelat_def Let_def nat_diff_distrib)
next
  case False
  then have "take (j + 1 - i) (drop (i - 1) s) = drop (i - 1) s" by simp
  moreover have "nat (int (length s) - int i + 1) = length s + 1 - i" using False assms by linarith
  ultimately show ?thesis using False assms by (auto simp: str_sub_def posrelat_def Let_def nat_diff_distrib)
qed

lemma percent_subs:
  assumes "S = u @ CHR ''%'' # b"
  shows "str_sub S (int (length u + 1) + 1) (int (length u + 1) + 1) = take 1 b"
    "str_sub S 1 (int (length u + 1) - 1) = u" "str_sub S (int (length u + 1) + 2) (int (length S)) = drop 1 b"
  using str_sub_nat [of "length u + 2" S "length u + 2"] str_sub_nat [of 1 S "length u"] str_sub_nat [of "length u + 3" S "length S"] assms
  by (simp_all add: add.commute eval_nat_numeral)

lemma format_replace_loop_skip:
  assumes "S = pre @ a @ CHR ''%'' # b" "CHR ''%'' \<notin> set a" "length S < 2 ^ 53" "map_of (percent_entry t) (take 1 b) = None"
  shows "format_replace_loop t S (length pre + 1) = format_replace_loop t S (length pre + length a + 2)"
  using assms
proof (induction a arbitrary: pre)
  case Nil
  then show ?case using find_percent_some [of S pre "[]" b] percent_subs(1) [of S pre b]
    by (subst format_replace_loop.simps) simp
next
  case (Cons x a)
  have "format_replace_loop t S (length pre + 1) = format_replace_loop t S (length pre + 1 + 1)"
    using find_percent_some [OF Cons.prems(1-3)] percent_subs(1) [of S "pre @ x # a" b] Cons.prems(1,4)
    by (subst format_replace_loop.simps) simp
  then show ?case using Cons.IH [of "pre @ [x]"] Cons.prems by simp
qed

lemma format_replace_loop_ref:
  assumes M: "\<forall>(x, y) \<in> set t. length y \<le> M" "1 \<le> M"
  shows "length pre + length rest * (M + 1) < 2 ^ 53 \<Longrightarrow> format_replace_loop t (pre @ rest) (length pre + 1) = Some (pre @ format_ref t rest)"
proof (induction "length rest" arbitrary: pre rest rule: less_induct)
  case less
  have len: "length (pre @ rest) < 2 ^ 53" using less(2) by simp
  show ?case
  proof (cases "CHR ''%'' \<in> set rest")
    case False
    then have "find_percent (pre @ rest) (length pre + 1) = None" by (intro find_percent_none) simp_all
    then show ?thesis using format_ref_plain [OF False, of t "[]"] by (subst format_replace_loop.simps) simp
  next
    case True
    then obtain a b where r: "rest = a @ CHR ''%'' # b" "CHR ''%'' \<notin> set a" by (meson split_list_first)
    let ?S = "pre @ a @ CHR ''%'' # b"
    have S: "pre @ rest = ?S" "?S = (pre @ a) @ CHR ''%'' # b" by (simp_all add: r(1))
    have ref: "format_ref t rest = a @ format_ref t (CHR ''%'' # b)" by (simp add: r(1) format_ref_plain [OF r(2)])
    show ?thesis
    proof (cases "map_of (percent_entry t) (take 1 b)")
      case None
      have "format_replace_loop t ?S (length pre + 1) = format_replace_loop t ((pre @ a @ ''%'') @ b) (length (pre @ a @ ''%'') + 1)"
        using format_replace_loop_skip [OF refl r(2) _ None, of pre] len by (simp add: S(1))
      also have "\<dots> = Some ((pre @ a @ ''%'') @ format_ref t b)"
        by (rule less(1)) (use less(2) in \<open>simp_all add: r(1) algebra_simps\<close>)
      finally show ?thesis unfolding S(1) ref using None by (cases b) simp_all
    next
      case (Some y)
      have y: "length y \<le> M" using map_of_SomeD [OF Some] M by (auto simp: percent_entry_def)
      have "format_replace_loop t ?S (length pre + 1) = format_replace_loop t ((pre @ a @ y) @ drop 1 b) (length (pre @ a @ y) + 2)"
        using find_percent_some [OF refl r(2), of pre b] len percent_subs [OF S(2)] Some
        by (subst format_replace_loop.simps) (simp add: S(1) add.assoc)
      moreover have "format_replace_loop t ((pre @ a @ y) @ drop 1 b) (length (pre @ a @ y) + 2) =
        Some ((pre @ a @ y) @ (case drop 1 b of [] \<Rightarrow> [] | e # s \<Rightarrow> e # format_ref t s))"
      proof (cases "drop 1 b")
        case Nil
        then show ?thesis using find_percent_beyond [of "pre @ a @ y" "length (pre @ a @ y) + 1"]
          by (subst format_replace_loop.simps) simp
      next
        case (Cons e s)
        then have "length b = length s + 2" by (cases b) simp_all
        then have "format_replace_loop t ((pre @ a @ y @ [e]) @ s) (length (pre @ a @ y @ [e]) + 1) = Some ((pre @ a @ y @ [e]) @ format_ref t s)"
          using less(2) y by (intro less(1)) (simp_all add: r(1) algebra_simps)
        then show ?thesis using Cons by simp
      qed
      ultimately show ?thesis unfolding S(1) ref using Some by (cases b) simp_all
    qed
  qed
qed

text \<open>
  C40 (termination): \<^verbatim>\<open>format_replace\<close> returns, with every format element replaced, except that the character after a
  replacement is copied without being looked at.
\<close>

theorem format_replace_returns:
  assumes "\<forall>(x, y) \<in> set t. length y \<le> M" "1 \<le> M" "length s * (M + 1) < 2 ^ 53"
  shows "format_replace s t = Some (format_ref t s)"
  using format_replace_loop_ref [OF assms(1,2), of "[]" s] assms(3) by (simp add: format_replace_def)

theorem format_replace_returns_witness:
  "format_replace ''%n-%v.tgz'' [(''n'', ''zlib''), (''v'', ''1.2'')] = Some ''zlib-1.2.tgz''"
  by (subst format_replace_returns [where M = 4]) (simp_all add: percent_entry_def)

text \<open>Adjacent elements: the second one stays as it is.\<close>

theorem format_replace_adjacent: "format_replace ''%n%v'' [(''n'', ''zlib''), (''v'', ''1.2'')] = Some ''zlib%v''"
  using format_replace_loop_ref [of "[(''n'', ''zlib''), (''v'', ''1.2'')]" 4 "[]" "''%n%v''"]
  by (simp add: format_replace_def percent_entry_def)

end
