(* ===== verification/E2_Dlist.thy ===== *)
theory E2_Dlist
  imports E2_Sl E2_Lib
begin

text \<open>
  The build order of results, \<^verbatim>\<open>e2tool.dlist_recursive\<close> of \<^verbatim>\<open>local/e2tool.lua\<close>: a depth-first search over the
  dependencies that collects the results in topological order and reports cycles. The results of the
  project are a map from names to the string list of their dependencies (\<^verbatim>\<open>depends_list\<close>). The first argument
  of \<open>visit\<close> bounds the depth of the recursion; None is a deeper call. Iterating over a list of dependencies
  sorts it in place, which changes no later iteration (\<open>sl_iter_again\<close>), so the map stays as it is.
\<close>

section \<open>Model\<close>

type_synonym results = "string \<rightharpoonup> sl"

datatype dl_err = Cyclic "string list" | Index_nil string | Assertion string | Invalid_name string | Invalid_result string

text \<open>The local variables that the nested function shares.\<close>

record dl =
  seen :: "string \<rightharpoonup> nat"
  path :: "string list"
  col :: "string set"
  t :: "string list"

type_synonym visit_t = "string \<Rightarrow> dl \<Rightarrow> ((dl_err + unit) \<times> dl) option"

fun visit_each :: "visit_t \<Rightarrow> string list \<Rightarrow> dl \<Rightarrow> ((dl_err + unit) \<times> dl) option" where
  "visit_each visit [] s = Some (Inr (), s)"
| "visit_each visit (d # ds) s =
     (case visit d s of
        None \<Rightarrow> None
      | Some (Inl e, s) \<Rightarrow> Some (Inl e, s)
      | Some (Inr _, s) \<Rightarrow> visit_each visit ds s)"

primrec visit :: "nat \<Rightarrow> results \<Rightarrow> visit_t" where
  "visit 0 R resultname s = None"
| "visit (Suc f) R resultname s =
     (case seen s resultname of
        Some p \<Rightarrow>
          let removeupto = p - 1;
              cycle = drop removeupto (path s) @ [resultname]
          in Some (Inl (Cyclic cycle), s\<lparr>path := cycle\<rparr>)
      | None \<Rightarrow>
          if resultname \<notin> col s then
            let s = s\<lparr>path := path s @ [resultname], seen := (seen s)(resultname \<mapsto> length (path s) + 1),
                      col := insert resultname (col s)\<rparr> in
            case R resultname of
              None \<Rightarrow> Some (Inl (Index_nil resultname), s)
            | Some deps \<Rightarrow>
                (case visit_each (visit f R) (fst (sl_iter deps)) s of
                   None \<Rightarrow> None
                 | Some (Inl e, s) \<Rightarrow> Some (Inl e, s)
                 | Some (Inr _, s) \<Rightarrow>
                     Some (Inr (), s\<lparr>t := t s @ [resultname], path := butlast (path s), seen := (seen s)(resultname := None)\<rparr>))
          else Some (Inr (), s))"

text \<open>The outer loop checks the selected names before it visits them.\<close>

definition visit_root :: "nat \<Rightarrow> results \<Rightarrow> visit_t" where
  "visit_root f R resultname s =
     (if verify_src_res_name_valid_chars resultname \<noteq> Inr True then Some (Inl (Invalid_name resultname), s)
      else if R resultname = None then Some (Inl (Invalid_result resultname), s)
      else visit f R resultname s)"

definition dl_start :: dl where
  "dl_start = \<lparr>seen = Map.empty, path = [], col = {}, t = []\<rparr>"

definition dlist_from :: "nat \<Rightarrow> results \<Rightarrow> string list \<Rightarrow> (dl_err + string list) option" where
  "dlist_from f R names =
     (case visit_each (visit_root f R) names dl_start of
        None \<Rightarrow> None
      | Some (Inl e, s) \<Rightarrow> Some (Inl e)
      | Some (Inr _, s) \<Rightarrow> Some (Inr (t s)))"

text \<open>The argument: the name of a result, whose dependencies are wanted, or a vector of names.\<close>

datatype dl_arg = Name string | Vector "string list"

definition dlist_recursive :: "nat \<Rightarrow> results \<Rightarrow> dl_arg \<Rightarrow> (dl_err + string list) option" where
  "dlist_recursive f R resultv =
     (case resultv of
        Name name \<Rightarrow>
          (case R name of
             None \<Rightarrow> Some (Inl (Assertion name))
           | Some deps \<Rightarrow> dlist_from f R (fst (sl_iter deps)))
      | Vector names \<Rightarrow> dlist_from f R (fst (sl_iter (insert_table names sl_new))))"

text \<open>\<^verbatim>\<open>e2tool.dsort\<close>: the default results of the project.\<close>

definition dsort :: "nat \<Rightarrow> results \<Rightarrow> string list \<Rightarrow> (dl_err + string list) option" where
  "dsort f R default_results = dlist_recursive f R (Vector default_results)"

section \<open>Dependencies\<close>

definition dep :: "results \<Rightarrow> (string \<times> string) set" where
  "dep R = {(x, d). \<exists>s. R x = Some s \<and> d \<in> sl_set s}"

definition results_ok :: "results \<Rightarrow> bool" where
  "results_ok R \<longleftrightarrow> finite (dom R) \<and> (\<forall>s \<in> ran R. sl_inv s)"

lemma sl_iter_again: "fst (sl_iter (snd (sl_iter s))) = fst (sl_iter s)" "sl_set (snd (sl_iter s)) = sl_set s"
  by (simp_all add: sl_iter_def Let_def) (simp add: sort_if_needed_def)

lemma sl_iter_set: "sl_inv s \<Longrightarrow> set (fst (sl_iter s)) = sl_set s"
  by (simp add: sl_iter_def Let_def) (simp add: sl_set_def)

text \<open>A list each element of which comes after its dependencies.\<close>

definition topo :: "results \<Rightarrow> string list \<Rightarrow> bool" where
  "topo R ts \<longleftrightarrow> distinct ts \<and> (\<forall>i<length ts. dep R `` {ts ! i} \<subseteq> set (take i ts))"

lemma topo_snoc:
  assumes "topo R ts" "x \<notin> set ts" "dep R `` {x} \<subseteq> set ts"
  shows "topo R (ts @ [x])"
  using assms unfolding topo_def by (auto simp: nth_append less_Suc_eq)

text \<open>A closed walk along dependencies.\<close>

fun chain :: "results \<Rightarrow> string list \<Rightarrow> bool" where
  "chain R [] = True"
| "chain R [x] = True"
| "chain R (x # y # zs) = ((x, y) \<in> dep R \<and> chain R (y # zs))"

definition is_cycle :: "results \<Rightarrow> string list \<Rightarrow> bool" where
  "is_cycle R c \<longleftrightarrow> 2 \<le> length c \<and> hd c = last c \<and> chain R c"

lemma chain_snoc: "chain R xs \<Longrightarrow> xs = [] \<or> (last xs, x) \<in> dep R \<Longrightarrow> chain R (xs @ [x])"
  by (induction R xs rule: chain.induct) auto

lemma chain_drop: "chain R xs \<Longrightarrow> chain R (drop n xs)"
  by (induction R xs arbitrary: n rule: chain.induct) (auto simp: drop_Cons split: nat.split)

lemma chain_take: "chain R (xs @ ys) \<Longrightarrow> chain R xs"
  by (induction R xs rule: chain.induct) auto

section \<open>The search\<close>

definition dl_inv :: "results \<Rightarrow> string set \<Rightarrow> dl \<Rightarrow> bool" where
  "dl_inv R A s \<longleftrightarrow>
     distinct (path s) \<and> chain R (path s) \<and> topo R (t s) \<and> set (path s) \<inter> set (t s) = {} \<and>
     col s = set (path s) \<union> set (t s) \<and> col s \<subseteq> (dep R)\<^sup>* `` A \<and>
     (\<forall>x p. seen s x = Some p \<longleftrightarrow> 0 < p \<and> p \<le> length (path s) \<and> path s ! (p - 1) = x)"

lemma dl_inv_start: "dl_inv R A dl_start"
  by (auto simp: dl_inv_def dl_start_def topo_def)

text \<open>What a visit of the results \<open>X\<close> may end with.\<close>

definition visited :: "results \<Rightarrow> string set \<Rightarrow> string set \<Rightarrow> dl \<Rightarrow> (dl_err + unit) \<times> dl \<Rightarrow> bool" where
  "visited R A X s r \<longleftrightarrow>
     (case r of
        (Inl (Cyclic c), _) \<Rightarrow> is_cycle R c \<and> set c \<subseteq> (dep R)\<^sup>* `` A
      | (Inl (Index_nil y), _) \<Rightarrow> R y = None \<and> y \<in> (dep R)\<^sup>* `` A
      | (Inl (Assertion y), _) \<Rightarrow> False
      | (Inl (Invalid_name y), _) \<Rightarrow> y \<in> A \<and> verify_src_res_name_valid_chars y \<noteq> Inr True
      | (Inl (Invalid_result y), _) \<Rightarrow> y \<in> A \<and> R y = None
      | (Inr _, s') \<Rightarrow> dl_inv R A s' \<and> path s' = path s \<and> seen s' = seen s \<and> set (t s) \<subseteq> set (t s') \<and> X \<subseteq> set (t s'))"

lemma visited_Inr: "visited R A X s (Inr u, s') \<longleftrightarrow>
    dl_inv R A s' \<and> path s' = path s \<and> seen s' = seen s \<and> set (t s) \<subseteq> set (t s') \<and> X \<subseteq> set (t s')"
  by (simp add: visited_def)

lemma visited_Inl: "visited R A X s (Inl e, s') \<longleftrightarrow> visited R A Y s2 (Inl e, s3)"
  by (simp add: visited_def split: dl_err.split)

lemma dl_inv_col: "dl_inv R A s \<Longrightarrow> col s = set (path s) \<union> set (t s)"
  by (simp add: dl_inv_def)

lemma visit_each_spec:
  assumes v: "\<And>d s. d \<in> set ds \<Longrightarrow> dl_inv R A s \<Longrightarrow> path s = p \<Longrightarrow> C \<subseteq> col s \<Longrightarrow> \<exists>r. v d s = Some r \<and> visited R A {d} s r"
    and s: "dl_inv R A s" "path s = p" "C \<subseteq> col s"
  shows "\<exists>r. visit_each v ds s = Some r \<and> visited R A (set ds) s r"
  using assms
proof (induction ds arbitrary: s)
  case Nil
  then show ?case by (simp add: visited_Inr)
next
  case (Cons d ds)
  obtain r s1 where r: "v d s = Some (r, s1)" "visited R A {d} s (r, s1)" using Cons.prems(1) [of d s] Cons.prems(2-4) by auto
  show ?case
  proof (cases r)
    case (Inl e)
    then show ?thesis using r visited_Inl by fastforce
  next
    case (Inr u)
    have s1: "dl_inv R A s1" "path s1 = path s" "seen s1 = seen s" "set (t s) \<subseteq> set (t s1)" "d \<in> set (t s1)"
      using r(2) unfolding Inr visited_Inr by auto
    have "C \<subseteq> col s1" using Cons.prems(4) dl_inv_col [OF s1(1)] dl_inv_col [OF Cons.prems(2)] s1(2,4) by auto
    then obtain r' s' where r': "visit_each v ds s1 = Some (r', s')" "visited R A (set ds) s1 (r', s')"
      using Cons.IH [of s1] Cons.prems(1) s1(1,2) Cons.prems(3) by auto
    have "visited R A (set (d # ds)) s (r', s')"
    proof (cases r')
      case (Inl e)
      then show ?thesis using r'(2) visited_Inl by blast
    next
      case (Inr u')
      then show ?thesis using r'(2) s1 unfolding Inr visited_Inr by auto
    qed
    then show ?thesis using r(1) r'(1) Inr by simp
  qed
qed

lemma dl_inv_push:
  assumes inv: "dl_inv R A s" and x: "seen s x = None" "x \<notin> col s" "x \<in> (dep R)\<^sup>* `` A" "path s = [] \<or> (last (path s), x) \<in> dep R"
  shows "dl_inv R A (s\<lparr>path := path s @ [x], seen := (seen s)(x \<mapsto> length (path s) + 1), col := insert x (col s)\<rparr>)" (is "dl_inv R A ?s")
proof -
  have sn: "seen s y = Some p \<longleftrightarrow> 0 < p \<and> p \<le> length (path s) \<and> path s ! (p - 1) = y" for y p using inv by (simp add: dl_inv_def)
  have c: "col s = set (path s) \<union> set (t s)" by (rule dl_inv_col [OF inv])
  have "seen ?s y = Some p \<longleftrightarrow> 0 < p \<and> p \<le> length (path ?s) \<and> path ?s ! (p - 1) = y" for y p
  proof (cases "p = length (path s) + 1")
    case True
    then show ?thesis using sn [of y p] by auto
  next
    case False
    have "x \<noteq> path s ! (p - 1)" if "0 < p" "p \<le> length (path s)" using that x(2) c by (metis Suc_diff_1 Suc_le_lessD UnI1 nth_mem)
    then show ?thesis using False sn [of y p] by (auto simp: nth_append)
  qed
  then show ?thesis using inv x(2-4) c chain_snoc [of R "path s" x] unfolding dl_inv_def by auto
qed

lemma dl_inv_pop:
  assumes inv: "dl_inv R A s" and p: "path s = ps @ [x]" and d: "dep R `` {x} \<subseteq> set (t s)"
  shows "dl_inv R A (s\<lparr>t := t s @ [x], path := butlast (path s), seen := (seen s)(x := None)\<rparr>)" (is "dl_inv R A ?s")
proof -
  have sn: "seen s y = Some q \<longleftrightarrow> 0 < q \<and> q \<le> length (path s) \<and> path s ! (q - 1) = y" for y q using inv by (simp add: dl_inv_def)
  have dist: "distinct (ps @ [x])" "set (ps @ [x]) \<inter> set (t s) = {}" using inv p by (auto simp: dl_inv_def)
  have "seen ?s y = Some q \<longleftrightarrow> 0 < q \<and> q \<le> length (path ?s) \<and> path ?s ! (q - 1) = y" for y q
  proof (cases "q \<le> length ps \<and> 0 < q")
    case True
    then have "ps ! (q - 1) \<in> set ps" by (intro nth_mem) auto
    then have "ps ! (q - 1) \<noteq> x" using dist(1) by auto
    then show ?thesis using True sn [of y q] p by (auto simp: nth_append)
  next
    case False
    then show ?thesis using sn [of y q] p by (auto simp: nth_append le_Suc_eq)
  qed
  moreover have "chain R ps" using inv p by (metis chain_take dl_inv_def)
  moreover have "topo R (t s @ [x])" using inv dist d by (intro topo_snoc) (auto simp: dl_inv_def)
  ultimately show ?thesis using inv p dist unfolding dl_inv_def by auto
qed

lemma visit_spec:
  assumes ok: "results_ok R"
  shows "dl_inv R A s \<Longrightarrow> x \<in> (dep R)\<^sup>* `` A \<Longrightarrow> path s = [] \<or> (last (path s), x) \<in> dep R \<Longrightarrow> card (dom R - col s) < f \<Longrightarrow>
    \<exists>r. visit f R x s = Some r \<and> visited R A {x} s r"
proof (induction f arbitrary: x s)
  case (Suc f)
  note inv = Suc.prems(1)
  have sn: "seen s y = Some p \<longleftrightarrow> 0 < p \<and> p \<le> length (path s) \<and> path s ! (p - 1) = y" for y p using inv by (simp add: dl_inv_def)
  consider (Seen) p where "seen s x = Some p" | (Old) "seen s x = None" "x \<in> col s" | (New) "seen s x = None" "x \<notin> col s" by fastforce
  then show ?case
  proof cases
    case (Seen p)
    have p: "0 < p" "p \<le> length (path s)" "path s ! (p - 1) = x" using sn [of x p] Seen by auto
    let ?c = "drop (p - 1) (path s) @ [x]"
    have ne: "drop (p - 1) (path s) \<noteq> []" using p by simp
    have "hd ?c = x" using p ne by (simp add: hd_drop_conv_nth)
    moreover have "chain R ?c"
    proof (rule chain_snoc)
      show "chain R (drop (p - 1) (path s))" using inv by (auto simp: dl_inv_def intro: chain_drop)
      show "drop (p - 1) (path s) = [] \<or> (last (drop (p - 1) (path s)), x) \<in> dep R"
        using Suc.prems(3) p by (auto simp: last_drop)
    qed
    moreover have "2 \<le> length ?c" using p by simp
    ultimately have "is_cycle R ?c" by (simp add: is_cycle_def)
    moreover have "set ?c \<subseteq> (dep R)\<^sup>* `` A"
      using inv Suc.prems(2) set_drop_subset [of "p - 1" "path s"] unfolding dl_inv_def by auto
    ultimately show ?thesis using Seen by (simp add: visited_def Let_def)
  next
    case Old
    have "x \<notin> set (path s)"
    proof
      assume "x \<in> set (path s)"
      then obtain i where "i < length (path s)" "path s ! i = x" by (auto simp: in_set_conv_nth)
      then have "seen s x = Some (Suc i)" using sn [of x "Suc i"] by simp
      then show False using Old(1) by simp
    qed
    then show ?thesis using Old inv dl_inv_col [OF inv] by (simp add: visited_Inr)
  next
    case New
    let ?s = "s\<lparr>path := path s @ [x], seen := (seen s)(x \<mapsto> length (path s) + 1), col := insert x (col s)\<rparr>"
    have inv1: "dl_inv R A ?s" by (rule dl_inv_push [OF inv New Suc.prems(2,3)])
    show ?thesis
    proof (cases "R x")
      case None
      then show ?thesis using New Suc.prems(2) by (simp add: visited_def Let_def)
    next
      case (Some deps)
      have deps: "set (fst (sl_iter deps)) = dep R `` {x}"
        using ok Some by (auto simp: sl_iter_set results_ok_def dep_def ran_def)
      have fin: "finite (dom R - col s)" using ok by (simp add: results_ok_def)
      have "\<exists>r. visit_each (visit f R) (fst (sl_iter deps)) ?s = Some r \<and> visited R A (set (fst (sl_iter deps))) ?s r"
      proof (rule visit_each_spec [where p = "path s @ [x]" and C = "insert x (col s)"])
        fix d s'
        assume d: "d \<in> set (fst (sl_iter deps))" and i': "dl_inv R A s'" and p': "path s' = path s @ [x]" and c': "insert x (col s) \<subseteq> col s'"
        have dx: "(x, d) \<in> dep R" using d deps by auto
        then have "d \<in> (dep R)\<^sup>* `` A" using Suc.prems(2) by (auto intro: rtrancl_into_rtrancl)
        moreover have "card (dom R - col s') < f"
        proof -
          have "dom R - col s' \<subset> dom R - col s" using c' New(2) Some by auto
          then have "card (dom R - col s') < card (dom R - col s)" by (rule psubset_card_mono [OF fin])
          then show ?thesis using Suc.prems(4) by simp
        qed
        ultimately show "\<exists>r. visit f R d s' = Some r \<and> visited R A {d} s' r" using Suc.IH [OF i'] p' dx by simp
      qed (use inv1 in simp_all)
      then obtain r s' where r: "visit_each (visit f R) (fst (sl_iter deps)) ?s = Some (r, s')" "visited R A (dep R `` {x}) ?s (r, s')"
        unfolding deps by auto
      show ?thesis
      proof (cases r)
        case (Inl e)
        then have "visited R A {x} s (Inl e, s')" using r(2) visited_Inl by blast
        then show ?thesis using New Some r(1) Inl by (simp add: Let_def)
      next
        case (Inr u)
        have s': "dl_inv R A s'" "path s' = path s @ [x]" "seen s' = (seen s)(x \<mapsto> length (path s) + 1)" "set (t s) \<subseteq> set (t s')" "dep R `` {x} \<subseteq> set (t s')"
          using r(2) unfolding Inr visited_Inr by auto
        let ?r = "s'\<lparr>t := t s' @ [x], path := butlast (path s'), seen := (seen s')(x := None)\<rparr>"
        have "dl_inv R A ?r" by (rule dl_inv_pop [OF s'(1,2,5)])
        moreover have "seen ?r = seen s" using s'(3) New(1) by auto
        ultimately have "visited R A {x} s (Inr (), ?r)" using s'(2,4) by (auto simp: visited_Inr)
        then show ?thesis using New Some r(1) Inr by (simp add: Let_def)
      qed
    qed
  qed
qed simp

lemma topo_closed:
  assumes "topo R ts"
  shows "(dep R)\<^sup>* `` set ts = set ts"
proof -
  have "y \<in> set ts" if "(x, y) \<in> (dep R)\<^sup>*" "x \<in> set ts" for x y
    using that
  proof (induction rule: rtrancl_induct)
    case (step y z)
    then obtain i where "i < length ts" "ts ! i = y" by (auto simp: in_set_conv_nth)
    then show ?case using assms step(2) set_take_subset [of i ts] unfolding topo_def by blast
  qed
  then show ?thesis by auto
qed

lemma topo_before:
  assumes "topo R ts" "(x, y) \<in> (dep R)\<^sup>+" "i < length ts" "ts ! i = x"
  shows "y \<in> set (take i ts)"
  using assms(2)
proof (induction rule: trancl_induct)
  case (base y)
  then show ?case using assms unfolding topo_def by blast
next
  case (step y z)
  then obtain j where j: "j < i" "j < length ts" "ts ! j = y" by (auto simp: in_set_conv_nth)
  then have "z \<in> set (take j ts)" using step(2) assms(1) unfolding topo_def by blast
  then show ?case using set_take_subset_set_take [of j i ts] j(1) by auto
qed

lemma chain_reach:
  "chain R (x # zs) \<Longrightarrow> y \<in> set zs \<Longrightarrow> (x, y) \<in> (dep R)\<^sup>+"
proof (induction zs arbitrary: x)
  case (Cons z zs)
  then show ?case using trancl_into_trancl2 [of x z "dep R" y] by auto
qed simp

lemma chain_last: "chain R xs \<Longrightarrow> x \<in> set xs \<Longrightarrow> (x, last xs) \<in> (dep R)\<^sup>*"
proof (induction xs)
  case (Cons y ys)
  show ?case
  proof (cases "ys = []")
    case False
    have "x \<in> set ys \<Longrightarrow> (x, last ys) \<in> (dep R)\<^sup>*" using Cons.IH Cons.prems(1) False by (cases ys) auto
    moreover have "(y, last ys) \<in> (dep R)\<^sup>+" using chain_reach [OF Cons.prems(1)] False by simp
    ultimately show ?thesis using Cons.prems(2) False by auto
  qed (use Cons.prems in auto)
qed simp

lemma cycle_returns:
  assumes "is_cycle R c" "x \<in> set c"
  shows "(x, x) \<in> (dep R)\<^sup>+"
proof -
  obtain a zs where c: "c = a # zs" "zs \<noteq> []" "last zs = a" "chain R (a # zs)"
    using assms(1) unfolding is_cycle_def by (cases c) (auto split: if_splits)
  have "(a, z) \<in> (dep R)\<^sup>+" if "z \<in> set zs" for z using chain_reach c(4) that by blast
  moreover have "(z, a) \<in> (dep R)\<^sup>*" if "z \<in> set zs" for z using chain_last [OF c(4), of z] c that by simp
  moreover have "a \<in> set zs" using c(2,3) last_in_set by blast
  ultimately show ?thesis using assms(2) c(1) by (metis rtrancl_trancl_trancl set_ConsD)
qed

lemma topo_acyclic:
  assumes "topo R ts" "is_cycle R c"
  shows "set c \<inter> set ts = {}"
proof (rule ccontr)
  assume "set c \<inter> set ts \<noteq> {}"
  then obtain x where x: "x \<in> set c" "x \<in> set ts" by blast
  then obtain i where x: "x \<in> set c" "i < length ts" "ts ! i = x" by (metis in_set_conv_nth)
  then have "x \<in> set (take i ts)" using topo_before [OF assms(1) cycle_returns [OF assms(2) x(1)]] by blast
  then obtain j where "j < i" "ts ! j = x" by (auto simp: in_set_conv_nth)
  then show False using assms(1) x by (auto simp: topo_def nth_eq_iff_index_eq)
qed

section \<open>The outcome\<close>

lemma visit_root_spec:
  assumes "results_ok R" "dl_inv R A s" "path s = []" "x \<in> A" "card (dom R) < f"
  shows "\<exists>r. visit_root f R x s = Some r \<and> visited R A {x} s r"
proof -
  have "card (dom R - col s) \<le> card (dom R)" using assms(1) by (intro card_mono) (auto simp: results_ok_def)
  then have "\<exists>r. visit f R x s = Some r \<and> visited R A {x} s r"
    using visit_spec [OF assms(1,2), of x f] assms(3-5) by auto
  then show ?thesis using assms(4) by (auto simp: visit_root_def visited_def)
qed

text \<open>What a list of selected names may end with.\<close>

definition dl_outcome :: "results \<Rightarrow> string set \<Rightarrow> dl_err + string list \<Rightarrow> bool" where
  "dl_outcome R A r \<longleftrightarrow>
     (case r of
        Inr ts \<Rightarrow> topo R ts \<and> set ts = (dep R)\<^sup>* `` A
      | Inl (Cyclic c) \<Rightarrow> is_cycle R c \<and> set c \<subseteq> (dep R)\<^sup>* `` A
      | Inl (Index_nil y) \<Rightarrow> R y = None \<and> y \<in> (dep R)\<^sup>* `` A
      | Inl (Assertion y) \<Rightarrow> False
      | Inl (Invalid_name y) \<Rightarrow> y \<in> A \<and> verify_src_res_name_valid_chars y \<noteq> Inr True
      | Inl (Invalid_result y) \<Rightarrow> y \<in> A \<and> R y = None)"

lemma dlist_from_spec:
  assumes ok: "results_ok R" and f: "card (dom R) < f"
  shows "\<exists>r. dlist_from f R names = Some r \<and> dl_outcome R (set names) r"
proof -
  let ?A = "set names"
  have "\<exists>r. visit_each (visit_root f R) names dl_start = Some r \<and> visited R ?A (set names) dl_start r"
    by (rule visit_each_spec [where p = "[]" and C = "{}"])
      (use visit_root_spec [OF ok _ _ _ f] dl_inv_start in \<open>auto simp: dl_start_def\<close>)
  then obtain r s where r: "visit_each (visit_root f R) names dl_start = Some (r, s)" "visited R ?A (set names) dl_start (r, s)" by auto
  show ?thesis
  proof (cases r)
    case (Inl e)
    then show ?thesis using r by (auto simp: dlist_from_def visited_def dl_outcome_def split: dl_err.splits)
  next
    case (Inr u)
    have s: "dl_inv R ?A s" "path s = []" "?A \<subseteq> set (t s)" using r(2) unfolding Inr visited_Inr by (auto simp: dl_start_def)
    have "topo R (t s)" "set (t s) \<subseteq> (dep R)\<^sup>* `` ?A" using s(1) unfolding dl_inv_def by auto
    moreover have "(dep R)\<^sup>* `` ?A \<subseteq> set (t s)" using topo_closed [of R "t s"] s(3) calculation(1) by blast
    ultimately show ?thesis using r(1) Inr by (auto simp: dlist_from_def dl_outcome_def)
  qed
qed

text \<open>The results that an argument of \<^verbatim>\<open>dlist_recursive\<close> selects.\<close>

definition dl_roots :: "results \<Rightarrow> dl_arg \<Rightarrow> string set" where
  "dl_roots R resultv = (case resultv of Name n \<Rightarrow> dep R `` {n} | Vector ns \<Rightarrow> set ns)"

lemma dlist_recursive_spec:
  assumes ok: "results_ok R" and f: "card (dom R) < f" and n: "\<And>n. resultv = Name n \<Longrightarrow> R n \<noteq> None"
  shows "\<exists>r. dlist_recursive f R resultv = Some r \<and> dl_outcome R (dl_roots R resultv) r"
proof (cases resultv)
  case (Name x)
  then obtain deps where deps: "R x = Some deps" using n by auto
  have "set (fst (sl_iter deps)) = dep R `` {x}" using ok deps by (auto simp: sl_iter_set results_ok_def dep_def ran_def)
  then show ?thesis using dlist_from_spec [OF ok f, of "fst (sl_iter deps)"] Name deps by (simp add: dlist_recursive_def dl_roots_def)
next
  case (Vector ns)
  have "set (fst (sl_iter (insert_table ns sl_new))) = set ns" by (simp add: sl_iter_set insert_table_def)
  then show ?thesis using dlist_from_spec [OF ok f, of "fst (sl_iter (insert_table ns sl_new))"] Vector by (simp add: dlist_recursive_def dl_roots_def)
qed

section \<open>Properties\<close>

text \<open>
  C28 (functional): \<^verbatim>\<open>dlist_recursive\<close> returns for every finite project. If it returns a vector, that is
  the build order: each result that a selected one depends on, directly or not, once, and after
  all its own dependencies. If it reports a cycle, the names it prints are a dependency cycle.
\<close>

theorem dlist_recursive_build_order:
  assumes "results_ok R" "card (dom R) < f" "\<And>n. resultv = Name n \<Longrightarrow> R n \<noteq> None"
  shows "\<exists>r. dlist_recursive f R resultv = Some r \<and>
    (\<forall>ts. r = Inr ts \<longrightarrow> distinct ts \<and> set ts = (dep R)\<^sup>* `` dl_roots R resultv \<and> (\<forall>i<length ts. dep R `` {ts ! i} \<subseteq> set (take i ts))) \<and>
    (\<forall>c. r = Inl (Cyclic c) \<longrightarrow> is_cycle R c \<and> set c \<subseteq> (dep R)\<^sup>* `` dl_roots R resultv)"
proof -
  obtain r where r: "dlist_recursive f R resultv = Some r" "dl_outcome R (dl_roots R resultv) r"
    using dlist_recursive_spec [OF assms(1,2)] assms(3) by blast
  show ?thesis by (rule exI [of _ r]) (use r in \<open>simp add: dl_outcome_def topo_def split: sum.splits dl_err.splits\<close>)
qed

definition three_results :: results where
  "three_results = [''base'' \<mapsto> sl_new, ''lib'' \<mapsto> sl_insert ''base'' sl_new, ''app'' \<mapsto> insert_table [''lib'', ''base''] sl_new]"

lemma three_results_ok: "results_ok three_results" "card (dom three_results) = 3"
proof -
  have d: "dom three_results = {''base'', ''lib'', ''app''}" by (auto simp: three_results_def)
  show "card (dom three_results) = 3" unfolding d by simp
  show "results_ok three_results" unfolding results_ok_def d by (auto simp: three_results_def ran_def insert_table_def split: if_splits)
qed

theorem dlist_recursive_build_order_witness:
  "dlist_recursive 4 three_results (Vector [''app'']) = Some (Inr [''base'', ''lib'', ''app'']) \<and>
   set [''base'', ''lib'', ''app''] = (dep three_results)\<^sup>* `` {''app''}"
proof -
  have e: "dlist_recursive 4 three_results (Vector [''app'']) = Some (Inr [''base'', ''lib'', ''app''])" by code_simp
  then show ?thesis
    using dlist_recursive_build_order [OF three_results_ok(1), of 4 "Vector [''app'']"] three_results_ok(2) by (simp add: dl_roots_def)
qed

text \<open>
  C29 (error): in a project all of whose dependencies exist, a selection of valid, existing results has a
  build order exactly if no selected result depends on a cycle; otherwise the outcome is the error
  that names a cycle.
\<close>

theorem dlist_recursive_fails_iff_cycle:
  assumes "results_ok R" "card (dom R) < f" "dep R `` dom R \<subseteq> dom R"
    and "set names \<subseteq> dom R" "\<forall>n \<in> set names. verify_src_res_name_valid_chars n = Inr True"
  shows "(\<exists>ts. dlist_recursive f R (Vector names) = Some (Inr ts)) = (\<nexists>c. is_cycle R c \<and> set c \<subseteq> (dep R)\<^sup>* `` set names) \<and>
    ((\<exists>ts. dlist_recursive f R (Vector names) = Some (Inr ts)) \<or> (\<exists>c. dlist_recursive f R (Vector names) = Some (Inl (Cyclic c))))"
proof -
  obtain r where r: "dlist_recursive f R (Vector names) = Some r" "dl_outcome R (set names) r"
    using dlist_recursive_spec [OF assms(1,2), of "Vector names"] by (auto simp: dl_roots_def)
  have reach: "(dep R)\<^sup>* `` set names \<subseteq> dom R"
  proof -
    have "y \<in> dom R" if "(x, y) \<in> (dep R)\<^sup>*" "x \<in> dom R" for x y
      using that by (induction rule: rtrancl_induct) (use assms(3) in auto)
    then show ?thesis using assms(4) by blast
  qed
  have ne: "set c \<noteq> {}" if "is_cycle R c" for c using that by (auto simp: is_cycle_def)
  show ?thesis
  proof (cases r)
    case (Inr ts)
    then have "topo R ts" "set ts = (dep R)\<^sup>* `` set names" using r(2) by (simp_all add: dl_outcome_def)
    then have "\<nexists>c. is_cycle R c \<and> set c \<subseteq> (dep R)\<^sup>* `` set names" using topo_acyclic ne by (metis inf.orderE)
    then show ?thesis using r(1) Inr by simp
  next
    case (Inl e)
    then obtain c where "e = Cyclic c" "is_cycle R c" "set c \<subseteq> (dep R)\<^sup>* `` set names"
      using r(2) reach assms(4,5) by (auto simp: dl_outcome_def split: dl_err.splits)
    then show ?thesis using r(1) Inl by auto
  qed
qed

definition two_results :: results where
  "two_results = [''a'' \<mapsto> sl_insert ''b'' sl_new, ''b'' \<mapsto> sl_insert ''a'' sl_new]"

theorem dlist_recursive_fails_iff_cycle_witness:
  "\<exists>c. dlist_recursive 3 two_results (Vector [''a'']) = Some (Inl (Cyclic c))"
proof -
  have d: "dom two_results = {''a'', ''b''}" by (auto simp: two_results_def)
  have ok: "results_ok two_results" unfolding results_ok_def d by (auto simp: two_results_def ran_def split: if_splits)
  have e: "dep two_results = {(''a'', ''b''), (''b'', ''a'')}" by (auto simp: dep_def two_results_def split: if_splits)
  have "is_cycle two_results [''a'', ''b'', ''a'']" by (simp add: is_cycle_def e)
  moreover have "''b'' \<in> (dep two_results)\<^sup>* `` {''a''}" unfolding e by auto
  ultimately have "\<exists>c. is_cycle two_results c \<and> set c \<subseteq> (dep two_results)\<^sup>* `` set [''a'']" by (intro exI [of _ "[''a'', ''b'', ''a'']"]) auto
  then show ?thesis
    using dlist_recursive_fails_iff_cycle [OF ok, of 3 "[''a'']"] d e
    by (auto simp: verify_name_chars is_name_char_def isalnum_def isalpha_def islower_def less_eq_char_def)
qed

end
