(* ===== verification/E2_Environment.thy ===== *)
theory E2_Environment
  imports Lsha Ltablib_Correct Lstrlib
begin

text \<open>
  Hash contexts for Lua programs, \<^verbatim>\<open>local/hash.lua\<close>, and environments, \<^verbatim>\<open>local/environment.lua\<close>. A hash context collects
  data and feeds it to a context of \<^verbatim>\<open>lsha\<close> in pieces of 64 KB; the three functions of \<^verbatim>\<open>lsha\<close> are arguments, and
  the Lua state with the contexts is passed along. An environment maps variables to values; its dictionary is an
  association list in the order in which \<^verbatim>\<open>pairs\<close> delivers it.
\<close>

section \<open>Hash contexts\<close>

record hctx =
  hc_data :: "string option"
  hc_ctx :: "nat option"

datatype hash_err = Assertion_failed | Call_failed call_result

definition hash_start :: "(nat \<Rightarrow> lua_value) \<Rightarrow> ('s, 'w) handler \<Rightarrow> ('s, 'w) state \<Rightarrow> (hash_err + hctx) \<times> ('s, 'w) state" where
  "hash_start stale sha1_init L =
     (case call_c stale [] sha1_init L of
        (r, L) \<Rightarrow>
          (case r of
             (Return _, LUserdata u # _) \<Rightarrow> (Inr \<lparr>hc_data = Some [], hc_ctx = Some u\<rparr>, L)
           | _ \<Rightarrow> (Inl (Call_failed r), L)))"

definition sha1_update_call :: "(nat \<Rightarrow> lua_value) \<Rightarrow> ('s, 'w) handler \<Rightarrow> lua_value \<Rightarrow> lua_value \<Rightarrow> ('s, 'w) state \<Rightarrow> (hash_err + unit) \<times> ('s, 'w) state" where
  "sha1_update_call stale sha1_update u s L =
     (case call_c stale [u, s] sha1_update L of
        ((Return n, vs), L) \<Rightarrow> (Inr (), L)
      | (r, L) \<Rightarrow> (Inl (Call_failed r), L))"

definition hash_append :: "(nat \<Rightarrow> lua_value) \<Rightarrow> ('s, 'w) handler \<Rightarrow> hctx \<Rightarrow> string \<Rightarrow> ('s, 'w) state \<Rightarrow> (hash_err + hctx) \<times> ('s, 'w) state" where
  "hash_append stale sha1_update hc data L =
     (case (hc_data hc, hc_ctx hc) of
        (Some d, Some u) \<Rightarrow>
          let d = d @ data in
          if 65536 \<le> length d then
            (case sha1_update_call stale sha1_update (LUserdata u) (LString d) L of
               (Inl e, L) \<Rightarrow> (Inl e, L)
             | (Inr _, L) \<Rightarrow> (Inr (hc\<lparr>hc_data := Some []\<rparr>), L))
          else (Inr (hc\<lparr>hc_data := Some d\<rparr>), L)
      | _ \<Rightarrow> (Inl Assertion_failed, L))"

definition hash_line :: "(nat \<Rightarrow> lua_value) \<Rightarrow> ('s, 'w) handler \<Rightarrow> hctx \<Rightarrow> string \<Rightarrow> ('s, 'w) state \<Rightarrow> (hash_err + hctx) \<times> ('s, 'w) state" where
  "hash_line stale sha1_update hc data L = hash_append stale sha1_update hc (data @ [CHR 0x0A]) L"

text \<open>The context is destroyed: its fields are nil afterwards.\<close>

definition hash_finish :: "(nat \<Rightarrow> lua_value) \<Rightarrow> ('s, 'w) handler \<Rightarrow> ('s, 'w) handler \<Rightarrow> hctx \<Rightarrow> ('s, 'w) state \<Rightarrow>
    (hash_err + string \<times> hctx) \<times> ('s, 'w) state" where
  "hash_finish stale sha1_update sha1_final hc L =
     (let u = (case hc_ctx hc of None \<Rightarrow> LNil | Some u \<Rightarrow> LUserdata u);
          d = (case hc_data hc of None \<Rightarrow> LNil | Some d \<Rightarrow> LString d)
      in case sha1_update_call stale sha1_update u d L of
           (Inl e, L) \<Rightarrow> (Inl e, L)
         | (Inr _, L) \<Rightarrow>
             (case call_c stale [u] sha1_final L of
                (r, L) \<Rightarrow>
                  (case r of
                     (Return _, LString cs # _) \<Rightarrow> (Inr (cs, \<lparr>hc_data = None, hc_ctx = None\<rparr>), L)
                   | _ \<Rightarrow> (Inl (Call_failed r), L))))"

section \<open>Environments\<close>

type_synonym dict = "(string \<times> string) list"

record environment =
  seqid :: nat
  env_dict :: dict

definition environment_new :: "nat \<Rightarrow> environment \<times> nat" where
  "environment_new environment_seqid = (\<lparr>seqid = environment_seqid, env_dict = []\<rparr>, environment_seqid + 1)"

text \<open>Assignment to a field of the dictionary: a new field comes at some place, here at the end.\<close>

fun dict_put :: "string \<Rightarrow> string \<Rightarrow> dict \<Rightarrow> dict" where
  "dict_put var val [] = [(var, val)]"
| "dict_put var val ((k, v) # d) = (if k = var then (k, val) # d else (k, v) # dict_put var val d)"

text \<open>None is a failed assertion: the name of a variable must not be empty.\<close>

definition environment_set :: "environment \<Rightarrow> string \<Rightarrow> string \<Rightarrow> environment option" where
  "environment_set env var val = (if var = [] then None else Some (env\<lparr>env_dict := dict_put var val (env_dict env)\<rparr>))"

fun merge_loop :: "bool \<Rightarrow> dict \<Rightarrow> dict \<Rightarrow> dict" where
  "merge_loop override [] d = d"
| "merge_loop override ((var, val) # m) d =
     (if map_of d var = None \<or> override then merge_loop override m (dict_put var val d) else merge_loop override m d)"

definition environment_merge :: "environment \<Rightarrow> environment \<Rightarrow> bool \<Rightarrow> environment" where
  "environment_merge env other override = env\<lparr>env_dict := merge_loop override (env_dict other) (env_dict env)\<rparr>"

text \<open>The pairs that the iterator delivers; \<^verbatim>\<open>table.sort\<close> sorts as \<open>table_sort_strings\<close> shows.\<close>

definition environment_iter :: "environment \<Rightarrow> dict" where
  "environment_iter env =
     (let sorted = sort (List.map fst (env_dict env)) in List.map (\<lambda>var. (var, the (map_of (env_dict env) var))) sorted)"

definition environment_get_dict :: "environment \<Rightarrow> dict" where
  "environment_get_dict env = fold (\<lambda>(k, v). dict_put k v) (environment_iter env) []"

text \<open>The text of the file that \<^verbatim>\<open>tofile\<close> writes; \<open>E\<close> has the conversions of the C library.\<close>

fun text_loop :: "fmt_env \<Rightarrow> dict \<Rightarrow> lua_err + string" where
  "text_loop E [] = Inr []"
| "text_loop E ((var, val) # d) =
     ebind (str_format E (''%s='' @ [CHR 0x22] @ ''%s'' @ [CHR 0x22, CHR 0x0A]) [LString var, LString val])
       (\<lambda>l. ebind (text_loop E d) (\<lambda>out. Inr (l @ out)))"

text \<open>The result is the text written, or the error of \<^verbatim>\<open>eio.file_write\<close>.\<close>

definition environment_tofile :: "fmt_env \<Rightarrow> (string \<Rightarrow> string option) \<Rightarrow> environment \<Rightarrow> lua_err + (string + string)" where
  "environment_tofile E file_write env =
     ebind (text_loop E (environment_iter env)) (\<lambda>out. Inr (case file_write out of Some e \<Rightarrow> Inl e | None \<Rightarrow> Inr out))"

fun envid_loop :: "(nat \<Rightarrow> lua_value) \<Rightarrow> ('s, 'w) handler \<Rightarrow> dict \<Rightarrow> hctx \<Rightarrow> ('s, 'w) state \<Rightarrow> (hash_err + hctx) \<times> ('s, 'w) state" where
  "envid_loop stale upd [] hc L = (Inr hc, L)"
| "envid_loop stale upd ((var, val) # d) hc L =
     (case hash_append stale upd hc (var @ val) L of
        (Inl e, L) \<Rightarrow> (Inl e, L)
      | (Inr hc, L) \<Rightarrow> envid_loop stale upd d hc L)"

definition environment_envid :: "(nat \<Rightarrow> lua_value) \<Rightarrow> ('s, 'w) handler \<Rightarrow> ('s, 'w) handler \<Rightarrow> ('s, 'w) handler \<Rightarrow>
    environment \<Rightarrow> ('s, 'w) state \<Rightarrow> (hash_err + string) \<times> ('s, 'w) state" where
  "environment_envid stale ini upd fin env L =
     (case hash_start stale ini L of
        (Inl e, L) \<Rightarrow> (Inl e, L)
      | (Inr hc, L) \<Rightarrow>
          (case envid_loop stale upd (environment_iter env) hc L of
             (Inl e, L) \<Rightarrow> (Inl e, L)
           | (Inr hc, L) \<Rightarrow>
               (case hash_finish stale upd fin hc L of
                  (Inl e, L) \<Rightarrow> (Inl e, L)
                | (Inr (eid, _), L) \<Rightarrow> (Inr eid, L))))"

section \<open>The dictionary as a map\<close>

lemma map_of_dict_put [simp]: "map_of (dict_put k v d) = (map_of d)(k \<mapsto> v)"
  by (induction k v d rule: dict_put.induct) auto

lemma keys_dict_put: "fst ` set (dict_put k v d) = insert k (fst ` set d)"
  by (induction k v d rule: dict_put.induct) auto

lemma distinct_dict_put [simp]: "distinct (List.map fst d) \<Longrightarrow> distinct (List.map fst (dict_put k v d))"
proof (induction k v d rule: dict_put.induct)
  case (2 var val k v d)
  then show ?case using keys_dict_put [of var val d] by (auto simp: image_iff)
qed simp

lemma merge_loop_spec:
  "distinct (List.map fst d) \<Longrightarrow> distinct (List.map fst (merge_loop ov m d))"
  "distinct (List.map fst m) \<Longrightarrow> map_of (merge_loop ov m d) = (if ov then map_of d ++ map_of m else map_of m ++ map_of d)"
proof (induction ov m d rule: merge_loop.induct)
  case (2 ov var val m d)
  {
    case 1
    then show ?case using 2 by simp
  next
    case 2
    then have "map_of m var = None" by (simp add: map_of_eq_None_iff)
    then show ?case using 2 "2.IH"(2,4) by (auto simp: fun_eq_iff map_add_def split: option.splits if_splits)
  }
qed simp_all

definition env_ok :: "environment \<Rightarrow> bool" where
  "env_ok env \<longleftrightarrow> distinct (List.map fst (env_dict env))"

definition env_map :: "environment \<Rightarrow> string \<rightharpoonup> string" where
  "env_map env = map_of (env_dict env)"

text \<open>The iterator depends only on the map.\<close>

lemma environment_iter_map:
  assumes "env_ok env"
  shows "environment_iter env = List.map (\<lambda>k. (k, the (env_map env k))) (sorted_list_of_set (dom (env_map env)))"
proof -
  have "sort (List.map fst (env_dict env)) = sorted_list_of_set (set (List.map fst (env_dict env)))"
    using assms by (simp only: env_ok_def sorted_list_of_set_sort_remdups distinct_remdups_id)
  moreover have "set (List.map fst (env_dict env)) = dom (env_map env)"
    by (simp add: env_map_def dom_map_of_conv_image_fst)
  ultimately show ?thesis by (simp add: environment_iter_def env_map_def)
qed

lemma environment_iter_set:
  assumes "env_ok env"
  shows "set (environment_iter env) = {(k, v). env_map env k = Some v}"
proof -
  have "finite (dom (env_map env))" by (simp add: env_map_def finite_dom_map_of)
  then show ?thesis by (auto simp: environment_iter_map [OF assms] image_iff domIff)
qed

section \<open>What a hash context returns\<close>

text \<open>For every binding of a hash function: the context stands for the data appended so far.\<close>

lemma str_bytes_append [simp]: "str_bytes (a @ b) = str_bytes a @ str_bytes b" "str_bytes [] = []"
  by (simp_all add: str_bytes_def)

context hash_binding
begin

definition hc_holds :: "byte list \<Rightarrow> hctx \<Rightarrow> ('s, 'w) state \<Rightarrow> bool" where
  "hc_holds msg hc L \<longleftrightarrow> ready L \<and>
     (\<exists>d u m. hc = \<lparr>hc_data = Some d, hc_ctx = Some u\<rparr> \<and> length d < 65536 \<and> ctx m u L \<and> msg = m @ str_bytes d)"

lemma hash_start_holds:
  assumes "ready L" "mem_ok k"
  shows "\<exists>hc L'. hash_start stale (ini k) L = (Inr hc, L') \<and> hc_holds [] hc L'"
  using ini_law [OF assms, of stale] by (auto simp: hash_start_def hc_holds_def)

lemma hash_append_holds:
  assumes "hc_holds msg hc L" "\<And>s. length s < length data + 65536 \<Longrightarrow> limit s"
  shows "\<exists>hc' L'. hash_append stale upd hc data L = (Inr hc', L') \<and> hc_holds (msg @ str_bytes data) hc' L'"
proof -
  obtain d u m where hc: "hc = \<lparr>hc_data = Some d, hc_ctx = Some u\<rparr>" "length d < 65536" "ctx m u L" "msg = m @ str_bytes d" "ready L"
    using assms(1) by (auto simp: hc_holds_def)
  show ?thesis
  proof (cases "65536 \<le> length (d @ data)")
    case True
    have "limit (d @ data)" by (rule assms(2)) (use hc(2) in simp)
    then obtain L' where "call_c stale [LUserdata u, LString (d @ data)] upd L = ((Return 0, []), L')" "ready L'"
      "ctx (m @ str_bytes (d @ data)) u L'"
      using upd_law [OF hc(5,3), of "d @ data" stale] by blast
    then show ?thesis using hc True by (auto simp: hash_append_def sha1_update_call_def hc_holds_def)
  next
    case False
    then show ?thesis using hc by (auto simp: hash_append_def hc_holds_def)
  qed
qed

lemma hash_finish_returns:
  assumes "hc_holds msg hc L" "\<And>s. length s < 65536 \<Longrightarrow> limit s"
  shows "\<exists>L'. hash_finish stale upd fin hc L = (Inr (hex_loop (h msg), \<lparr>hc_data = None, hc_ctx = None\<rparr>), L')"
proof -
  obtain d u m where hc: "hc = \<lparr>hc_data = Some d, hc_ctx = Some u\<rparr>" "length d < 65536" "ctx m u L" "msg = m @ str_bytes d" "ready L"
    using assms(1) by (auto simp: hc_holds_def)
  obtain L1 where L1: "call_c stale [LUserdata u, LString d] upd L = ((Return 0, []), L1)" "ready L1" "ctx msg u L1"
    using upd_law [OF hc(5,3) assms(2) [OF hc(2)], of stale] hc(4) by blast
  obtain L2 where "call_c stale [LUserdata u] fin L1 = ((Return 1, [LString (hex_loop (h msg))]), L2)"
    using fin_law [OF L1(2,3), of stale] by blast
  then show ?thesis using hc(1) L1(1) by (simp add: hash_finish_def sha1_update_call_def Let_def)
qed

lemma envid_loop_holds:
  "hc_holds msg hc L \<Longrightarrow> (\<And>s. length s < N \<Longrightarrow> limit s) \<Longrightarrow> \<forall>(var, val) \<in> set d. length var + length val + 65536 \<le> N \<Longrightarrow>
   \<exists>hc' L'. envid_loop stale upd d hc L = (Inr hc', L') \<and> hc_holds (msg @ str_bytes (concat (List.map (\<lambda>(var, val). var @ val) d))) hc' L'"
proof (induction d arbitrary: msg hc L)
  case (Cons p d)
  obtain var val where p: "p = (var, val)" by fastforce
  obtain hc1 L1 where 1: "hash_append stale upd hc (var @ val) L = (Inr hc1, L1)" "hc_holds (msg @ str_bytes (var @ val)) hc1 L1"
    using hash_append_holds [OF Cons.prems(1), of "var @ val" stale] Cons.prems(2,3) p by fastforce
  show ?case using Cons.IH [OF 1(2) Cons.prems(2)] Cons.prems(3) 1(1) p by simp
qed simp

lemma environment_envid_returns:
  assumes "ready L" "mem_ok k" "\<And>s. length s < N \<Longrightarrow> limit s" "65536 \<le> N"
    and "\<forall>(var, val) \<in> set (environment_iter env). length var + length val + 65536 \<le> N"
  shows "fst (environment_envid stale (ini k) upd fin env L) =
    Inr (hex_loop (h (str_bytes (concat (List.map (\<lambda>(var, val). var @ val) (environment_iter env))))))"
proof -
  obtain hc0 L0 where 0: "hash_start stale (ini k) L = (Inr hc0, L0)" "hc_holds [] hc0 L0"
    using hash_start_holds [OF assms(1,2)] by blast
  obtain hc1 L1 where 1: "envid_loop stale upd (environment_iter env) hc0 L0 = (Inr hc1, L1)"
      "hc_holds (str_bytes (concat (List.map (\<lambda>(var, val). var @ val) (environment_iter env)))) hc1 L1"
    using envid_loop_holds [OF 0(2) assms(3) assms(5), of stale] by auto
  have "length s < N" if "length s < 65536" for s :: string using that assms(4) by simp
  then show ?thesis using hash_finish_returns [OF 1(2), of stale] assms(3) 0(1) 1(1) by (fastforce simp: environment_envid_def)
qed

end

section \<open>Properties\<close>

lemma sha1_blockf_ref: "md_hash 64 (sha1_blockf (bo = LITTLE_ENDIAN) bo) SHA1_IV sha1_length_field sha1_out = sha1_ref"
proof -
  have "md_blocks 64 (sha1_blockf (bo = LITTLE_ENDIAN) bo) SHA1_IV msg = md_blocks 64 compress1 SHA1_IV msg" for msg
    by (rule md_blocks_cong) (rule sha1_blockf_host)
  then show ?thesis by (simp add: fun_eq_iff md_hash_def sha1_ref_def)
qed

definition envid_text :: "(string \<rightharpoonup> string) \<Rightarrow> string" where
  "envid_text m = concat (List.map (\<lambda>k. k @ the (m k)) (sorted_list_of_set (dom m)))"

lemma envid_text_iter:
  "env_ok env \<Longrightarrow> concat (List.map (\<lambda>(var, val). var @ val) (environment_iter env)) = envid_text (env_map env)"
  by (simp add: environment_iter_map envid_text_def comp_def)

text \<open>
  C37 (functional): the identifier of an environment is the hexadecimal SHA-1 of its variables in alphabetical
  order, each followed by its value. It depends only on the variables and their values, not on the order
  in which they were set, nor on the pieces in which the data reaches the hash.
\<close>

theorem environment_envid_sha1:
  assumes "reg_ok TYPE_SHA1 L" "length (statics L) = 64" "length (buffer1 k) = 64" "env_ok env"
    and "\<forall>var val. env_map env var = Some val \<longrightarrow> length var + length val < 2 ^ 31"
  shows "fst (environment_envid stale (lsha1_init E k) (lsha1_update (bo = LITTLE_ENDIAN) bo E) (lsha1_final (bo = LITTLE_ENDIAN) bo E) env L) =
    Inr (hex_loop (sha1_ref (str_bytes (envid_text (env_map env)))))"
proof -
  have "\<forall>(var, val) \<in> set (environment_iter env). length var + length val + 65536 \<le> 2 ^ 32 - 63"
    using assms(5) by (fastforce simp: environment_iter_set [OF assms(4)])
  then show ?thesis
    using lsha1.environment_envid_returns [of L k "2 ^ 32 - 63" env stale E "bo = LITTLE_ENDIAN" bo] assms(1-3)
    by (simp add: envid_text_iter [OF assms(4)] sha1_blockf_ref)
qed

theorem environment_envid_sha1_witness:
  "fst (environment_envid (\<lambda>_. LNil) (lsha1_init test_env \<lparr>state1 = [], count1 = (7, 7), buffer1 = replicate 64 1\<rparr>)
     (lsha1_update True LITTLE_ENDIAN test_env) (lsha1_final True LITTLE_ENDIAN test_env)
     \<lparr>seqid = 1, env_dict = [(''b'', ''2''), (''a'', ''1'')]\<rparr> (test_state (replicate 64 9) ())) =
   Inr (hex_loop (sha1_ref (str_bytes ''a1b2'')))"
proof -
  let ?env = "\<lparr>seqid = 1, env_dict = [(''b'', ''2''), (''a'', ''1'')]\<rparr>"
  have "env_ok ?env" by (simp add: env_ok_def)
  moreover have "envid_text (env_map ?env) = ''a1b2''"
    using envid_text_iter [OF calculation] by (simp add: environment_iter_def Let_def less_char_def)
  ultimately show ?thesis
    using environment_envid_sha1 [of "test_state (replicate 64 9) ()" "\<lparr>state1 = [], count1 = (7, 7), buffer1 = replicate 64 1\<rparr>" ?env "\<lambda>_. LNil" test_env LITTLE_ENDIAN]
    by (simp add: test_state_def reg_ok_def env_map_def)
qed

text \<open>The text does not separate variables from values: different environments have the same identifier.\<close>

theorem envid_text_ambiguous: "envid_text [''a'' \<mapsto> ''bc''] = envid_text [''ab'' \<mapsto> ''c'']"
  by (simp add: envid_text_def)

text \<open>Merging, as an operation on maps: the other environment gives way unless it overrides.\<close>

lemma environment_merge_map:
  assumes "env_ok env" "env_ok other"
  shows "env_ok (environment_merge env other ov)"
    and "env_map (environment_merge env other ov) = (if ov then env_map env ++ env_map other else env_map other ++ env_map env)"
  using assms merge_loop_spec by (simp_all add: env_ok_def env_map_def environment_merge_def)

lemma environment_get_dict_copy:
  assumes "env_ok env"
  shows "map_of (environment_get_dict env) = env_map env"
proof -
  have "map_of (fold (\<lambda>(k, v). dict_put k v) kvs d) = map_of d ++ map_of (rev kvs)" for kvs d
    by (induction kvs arbitrary: d) (auto simp: map_add_def fun_eq_iff split: option.splits)
  then have "map_of (environment_get_dict env) = map_of (rev (environment_iter env))" by (simp add: environment_get_dict_def)
  moreover have d: "distinct (List.map fst (rev (environment_iter env)))"
    by (simp add: environment_iter_map [OF assms] comp_def rev_map)
  moreover have "map_of (rev (environment_iter env)) k = env_map env k" for k
  proof (cases "env_map env k")
    case None
    then have "k \<notin> fst ` set (rev (environment_iter env))" by (auto simp: environment_iter_set [OF assms])
    then show ?thesis using None by (simp add: map_of_eq_None_iff)
  next
    case (Some v)
    then have "(k, v) \<in> set (rev (environment_iter env))" by (simp add: environment_iter_set [OF assms])
    then show ?thesis using map_of_is_SomeI [OF d] Some by simp
  qed
  ultimately show ?thesis by (simp add: fun_eq_iff)
qed

end
