(* ===== verification/E2_Url.thy ===== *)
theory E2_Url
  imports E2_Lib
begin

text \<open>
  URLs, \<^verbatim>\<open>generic/url.lua\<close>: splitting an URL into transport, server and path, and the server into user, password,
  name and port, with the patterns of the code run by the matcher of \<open>Lstrlib\<close>.
\<close>

section \<open>Model\<close>

text \<open>The fields of the table; those that may be nil are options.\<close>

record url =
  u_url :: string
  u_transport :: "string option"
  u_server :: "string option"
  u_path :: "string option"
  u_servername :: "string option"
  u_user :: "string option"
  u_pass :: "string option"
  u_port :: "string option"

datatype url_err = Url_assertion | Cannot_parse_url string | Transport_mismatch | Path_empty

text \<open>User, password and name of the server.\<close>

definition parse_login :: "string \<Rightarrow> lua_err + string option \<times> string option \<times> string" where
  "parse_login server =
     ebind (str_match server ''(%S+):(%S+)@(%S+)'' 1) (\<lambda>up.
       if truthy (result_at up 0)
       then Inr (Some (as_string (result_at up 0)), Some (as_string (result_at up 1)), as_string (result_at up 2))
       else ebind (str_match server ''(%S+)@(%S+)'' 1) (\<lambda>us.
         if truthy (result_at us 0)
         then Inr (Some (as_string (result_at us 0)), None, as_string (result_at us 1))
         else Inr (None, None, server)))"

definition url_parse :: "(lua_Number \<Rightarrow> string) \<Rightarrow> string \<Rightarrow> lua_err + (url_err + url)" where
  "url_parse num url =
     (if url = [] then Inr (Inl Url_assertion)
      else
        ebind (str_match url ''(%S+)://([^/]*)(.*)'' 1) (\<lambda>vs.
          if \<not> truthy (result_at vs 0) then Inr (Inl (Cannot_parse_url url))
          else
            let transport = as_string (result_at vs 0); server = as_string (result_at vs 1); path = as_string (result_at vs 2) in
            ebind (str_match path ''^[/]*(.*)'' 1) (\<lambda>ps.
            ebind (parse_login server) (\<lambda>(user, pass, servername).
            ebind (str_match server '':(%d+)$'' 1) (\<lambda>po.
            let u = \<lparr>u_url = url, u_transport = Some transport, u_server = Some server, u_path = Some (as_string (result_at ps 0)),
                     u_servername = Some servername, u_user = user, u_pass = pass, u_port = None\<rparr> in
            if truthy (result_at po 0) then
              ebind (str_gsub num servername '':%d+$'' (Repl_str []) None) (\<lambda>(name, n).
                Inr (Inr (u\<lparr>u_servername := Some name, u_port := Some (as_string (result_at po 0))\<rparr>)))
            else Inr (Inr u))))))"

definition to_file_path :: "url \<Rightarrow> string option \<Rightarrow> bool \<Rightarrow> url_err + string" where
  "to_file_path u transport relative =
     (if transport \<noteq> None \<and> u_transport u \<noteq> transport then Inl Transport_mismatch
      else case u_path u of
        None \<Rightarrow> Inl Path_empty
      | Some p \<Rightarrow> if relative then Inr p else Inr (e2lib_join [''/'', p]))"

section \<open>Patterns\<close>

abbreviation not_space :: "char \<Rightarrow> bool" where "not_space c \<equiv> \<not> isspace c"

lemma url_items:
  "items ''(%S+)://([^/]*)(.*)'' 0 =
     [I_Open, I_Plus not_space, I_Close, I_One (\<lambda>c. c = CHR '':''), I_One (\<lambda>c. c = CHR ''/''), I_One (\<lambda>c. c = CHR ''/''),
      I_Open, I_Star (\<lambda>c. c \<noteq> CHR ''/''), I_Close, I_Open, I_Star (\<lambda>c. True), I_Close]"
  "items ''^[/]*(.*)'' (Suc 0) = [I_Star (\<lambda>c. c = CHR ''/''), I_Open, I_Star (\<lambda>c. True), I_Close]"
  "items ''(%S+):(%S+)@(%S+)'' 0 =
     [I_Open, I_Plus not_space, I_Close, I_One (\<lambda>c. c = CHR '':''), I_Open, I_Plus not_space, I_Close, I_One (\<lambda>c. c = CHR ''@''),
      I_Open, I_Plus not_space, I_Close]"
  "items ''(%S+)@(%S+)'' 0 =
     [I_Open, I_Plus not_space, I_Close, I_One (\<lambda>c. c = CHR ''@''), I_Open, I_Plus not_space, I_Close]"
  "items '':(%d+)$'' 0 = [I_One (\<lambda>c. c = CHR '':''), I_Open, I_Plus isdigit, I_Close, I_End]"
  "items '':%d+$'' 0 = [I_One (\<lambda>c. c = CHR '':''), I_Plus isdigit, I_End]"
  by (simp_all add: item_eval) (auto simp: class_eval)

lemma L: "length ([] :: Capture list) < LUA_MAXCAPTURES" "length [x :: Capture] < LUA_MAXCAPTURES" "length [x :: Capture, y] < LUA_MAXCAPTURES"
  by (simp_all add: LUA_MAXCAPTURES_def)

text \<open>The last capture takes everything up to the end.\<close>

lemma run_all: "run_length (\<lambda>c. True) S s = length S - s"
  by (simp add: run_length_def takeWhile_eq_all_conv [THEN iffD2])

lemma outs_rest:
  assumes "length cs < LUA_MAXCAPTURES" "s \<le> length S"
  shows "\<exists>ys. outs S [I_Open, I_Star (\<lambda>c. True), I_Close] cs s = Inr (length S, cs @ [\<lparr>c_init = s, c_len = int (length S - s)\<rparr>]) # ys"
  unfolding outs_capture_star [OF assms(1)]
  by (rule concat_rev_first [where k = "length S - s"]) (use assms(2) in \<open>auto simp: run_all outs_nil\<close>)

lemma occurs_separator:
  "occurs S ''://'' k \<longleftrightarrow> fits (\<lambda>c. c = CHR '':'') S k \<and> fits (\<lambda>c. c = CHR ''/'') S (k + 1) \<and> fits (\<lambda>c. c = CHR ''/'') S (k + 2)"
proof (cases "k + 2 < length S")
  case True
  then have "drop k S = S ! k # S ! (k + 1) # S ! (k + 2) # drop (k + 3) S" by (simp add: Cons_nth_drop_Suc numeral_3_eq_3)
  then show ?thesis using True by (simp add: occurs_def fits_def)
next
  case False
  then have "length (take 3 (drop k S)) < 3" by simp
  moreover have "length ''://'' = 3" by simp
  ultimately have "take (length ''://'') (drop k S) \<noteq> ''://''" by (metis less_irrefl)
  then have "\<not> occurs S ''://'' k" unfolding occurs_def .
  then show ?thesis using False by (simp add: fits_def)
qed

text \<open>The transport: greedy, up to the last \<^verbatim>\<open>://\<close> that non-space characters lead to.\<close>

lemma outs_url:
  assumes S: "S = t @ ''://'' @ server @ path" and t: "word t" and one: "\<And>k. occurs S ''://'' k \<Longrightarrow> k \<le> length t"
    and server: "CHR ''/'' \<notin> set server" and path: "path = [] \<or> hd path = CHR ''/''"
  shows "\<exists>ys. outs S [I_Open, I_Plus not_space, I_Close, I_One (\<lambda>c. c = CHR '':''), I_One (\<lambda>c. c = CHR ''/''), I_One (\<lambda>c. c = CHR ''/''),
      I_Open, I_Star (\<lambda>c. c \<noteq> CHR ''/''), I_Close, I_Open, I_Star (\<lambda>c. True), I_Close] [] 0 =
    Inr (length S, [\<lparr>c_init = 0, c_len = int (length t)\<rparr>, \<lparr>c_init = length t + 3, c_len = int (length server)\<rparr>,
      \<lparr>c_init = length t + 3 + length server, c_len = int (length path)\<rparr>]) # ys"
  (is "\<exists>ys. outs S (_ # _ # _ # _ # _ # _ # ?tail) [] 0 = ?out # ys")
proof -
  let ?c = "\<lparr>c_init = 0, c_len = int (length t)\<rparr>" and ?d = "\<lparr>c_init = length t + 3, c_len = int (length server)\<rparr>"
  have "takeWhile not_space S = t @ takeWhile not_space (''://'' @ server @ path)" using t by (simp add: S word_def)
  then have t1: "length t \<le> run_length not_space S 0" by (simp add: run_length_def)
  have t2: "1 \<le> length t" using t by (simp add: word_def Suc_le_eq)
  have sep: "occurs S ''://'' (length t)" by (simp add: S occurs_def)
  have r: "run_length (\<lambda>c. c \<noteq> CHR ''/'') S (length t + 3) = length server"
    by (rule run_length_prefix [where b = path]) (use server path in \<open>auto simp: S split: list.split\<close>)
  obtain ys where ys: "outs S [I_Open, I_Star (\<lambda>c. True), I_Close] [?c, ?d] (length t + 3 + length server) = ?out # ys"
    using outs_rest [OF L(3), of "length t + 3 + length server" S ?c ?d] by (auto simp: S simp del: outs.simps)
  have "\<exists>ys. outs S ?tail [?c] (length t + 3) = ?out # ys"
    unfolding outs_capture_star [OF L(2)]
    by (rule concat_rev_first [where k = "length server"]) (use r ys in \<open>auto simp del: outs.simps\<close>)
  then obtain ys where "outs S ?tail [?c] (length t + 3) = ?out # ys" by blast
  then have hit: "outs S (I_One (\<lambda>c. c = CHR '':'') # I_One (\<lambda>c. c = CHR ''/'') # I_One (\<lambda>c. c = CHR ''/'') # ?tail) ([] @ [?c]) (0 + length t) = ?out # ys"
    using sep by (simp add: outs_one occurs_separator numeral_3_eq_3 del: outs.simps)
  have miss: "outs S (I_One (\<lambda>c. c = CHR '':'') # I_One (\<lambda>c. c = CHR ''/'') # I_One (\<lambda>c. c = CHR ''/'') # ?tail) ([] @ [\<lparr>c_init = 0, c_len = int j\<rparr>]) (0 + j) = []"
    if "length t < j" for j
    using one [of j] that by (auto simp: outs_one occurs_separator simp del: outs.simps)
  show ?thesis unfolding outs_capture_plus [OF L(1)]
    by (rule concat_rev_first [where k = "length t" and xs = ys]) (use t1 t2 hit miss in auto)
qed

lemma tries_append: "tries S its (a @ b) = tries S its a @ tries S its b"
  by (simp add: tries_def)

lemma tries_Cons: "tries S its (s # b) = List.map (map_sum id (\<lambda>(e, cs). (s, e, cs))) (outs S its [] s) @ tries S its b"
  by (simp add: tries_def)

lemma tries_hit:
  assumes "outs S its [] s = Inr (e, cs) # ys" "\<And>k. k < s \<Longrightarrow> outs S its [] k = []" "s \<le> length S"
  shows "\<exists>zs. tries S its [0..<Suc (length S)] = Inr (s, e, cs) # zs"
proof -
  have "[0..<Suc (length S)] = [0..<s] @ s # [Suc s..<Suc (length S)]"
    using assms(3) upt_add_eq_append [of 0 s "Suc (length S) - s"] upt_conv_Cons [of s "Suc (length S)"] by (simp del: upt_Suc)
  moreover have "tries S its [0..<s] = []" using assms(2) by (auto simp: tries_def)
  ultimately show ?thesis using assms(1) by (simp only: tries_append tries_Cons append_Nil) simp
qed

lemma match_hit:
  assumes "c_str pat = pat" "char_at pat 0 \<noteq> CHR ''^''" "items pat 0 = its"
    and "outs S its [] s = Inr (e, cs) # ys" "\<And>k. k < s \<Longrightarrow> outs S its [] k = []" "s \<le> length S"
  shows "str_match S pat 1 = match_values S cs s e"
  using match_free_first [OF assms(1-3), of S] tries_hit [OF assms(4-6)] by (auto simp: first_try_def simp del: upt_Suc)

lemma match_miss:
  assumes "c_str pat = pat" "char_at pat 0 \<noteq> CHR ''^''" "items pat 0 = its" "\<And>k x. x \<notin> set (outs S its [] k)"
  shows "str_match S pat 1 = Inr [LNil]"
proof -
  have "tries S its [0..<Suc (length S)] = []" using assms(4) by (auto simp: tries_def simp del: upt_Suc) (metis list.set_intros(1) neq_Nil_conv)
  then show ?thesis using match_free_first [OF assms(1-3), of S] by (simp add: first_try_def del: upt_Suc)
qed

lemma match_url:
  assumes "S = t @ ''://'' @ server @ path" "word t" "\<And>k. occurs S ''://'' k \<Longrightarrow> k \<le> length t"
    "CHR ''/'' \<notin> set server" "path = [] \<or> hd path = CHR ''/''"
  shows "str_match S ''(%S+)://([^/]*)(.*)'' 1 = Inr [LString t, LString server, LString path]"
proof -
  obtain ys where "outs S (items ''(%S+)://([^/]*)(.*)'' 0) [] 0 =
    Inr (length S, [\<lparr>c_init = 0, c_len = int (length t)\<rparr>, \<lparr>c_init = length t + 3, c_len = int (length server)\<rparr>,
      \<lparr>c_init = length t + 3 + length server, c_len = int (length path)\<rparr>]) # ys"
    using outs_url [OF assms] unfolding url_items by blast
  from match_hit [OF _ _ refl this] show ?thesis
    by (simp add: c_str_def char_at_def match_values_def assms(1) slice_def numeral_3_eq_3)
qed

lemma match_path: "str_match path ''^[/]*(.*)'' 1 = Inr [LString (dropWhile (\<lambda>c. c = CHR ''/'') path)]"
proof -
  let ?n = "run_length (\<lambda>c. c = CHR ''/'') path 0"
  have n: "?n \<le> length path" using run_length_le [of 0 path] by simp
  obtain ys where "outs path [I_Open, I_Star (\<lambda>c. True), I_Close] [] (0 + ?n) = Inr (length path, [\<lparr>c_init = ?n, c_len = int (length path - ?n)\<rparr>]) # ys"
    using outs_rest [OF L(1) n] by auto
  then have "\<exists>ys. outs path [I_Star (\<lambda>c. c = CHR ''/''), I_Open, I_Star (\<lambda>c. True), I_Close] [] 0 =
      Inr (length path, [\<lparr>c_init = ?n, c_len = int (length path - ?n)\<rparr>]) # ys"
    unfolding outs_star [of path "\<lambda>c. c = CHR ''/''"] by (intro concat_rev_first [where k = ?n]) auto
  then have "str_match path ''^[/]*(.*)'' 1 = match_values path [\<lparr>c_init = ?n, c_len = int (length path - ?n)\<rparr>] 0 (length path)"
    using str_match_first [of path "''^[/]*(.*)''" 1] url_items(2)
    by (auto simp: Let_def c_str_def char_at_def start_at_def posrelat_def tries_def first_try_def simp del: outs.simps)
  moreover have "drop ?n path = dropWhile (\<lambda>c. c = CHR ''/'') path" by (simp add: run_length_def dropWhile_eq_drop)
  moreover then have "length (dropWhile (\<lambda>c. c = CHR ''/'') path) = length path - ?n" by (metis length_drop)
  ultimately show ?thesis by (simp add: match_values_def slice_def)
qed

section \<open>The server part\<close>

text \<open>A part of a server name without separators.\<close>

definition plain :: "string \<Rightarrow> bool" where
  "plain s \<longleftrightarrow> word s \<and> CHR '':'' \<notin> set s \<and> CHR ''@'' \<notin> set s \<and> CHR ''/'' \<notin> set s"

definition port_text :: "string option \<Rightarrow> string" where
  "port_text port = (case port of None \<Rightarrow> [] | Some q \<Rightarrow> CHR '':'' # q)"

definition port_ok :: "string option \<Rightarrow> bool" where
  "port_ok port \<longleftrightarrow> (case port of None \<Rightarrow> True | Some q \<Rightarrow> q \<noteq> [] \<and> (\<forall>c \<in> set q. isdigit c))"

datatype login = Nobody | User string | User_pass string string

definition login_text :: "login \<Rightarrow> string" where
  "login_text l = (case l of Nobody \<Rightarrow> [] | User u \<Rightarrow> u @ ''@'' | User_pass u p \<Rightarrow> u @ '':'' @ p @ ''@'')"

definition login_ok :: "login \<Rightarrow> bool" where
  "login_ok l \<longleftrightarrow> (case l of Nobody \<Rightarrow> True | User u \<Rightarrow> plain u | User_pass u p \<Rightarrow> plain u \<and> plain p)"

lemma digit_facts: "isdigit c \<Longrightarrow> \<not> isspace c \<and> c \<noteq> CHR '':'' \<and> c \<noteq> CHR ''@'' \<and> c \<noteq> CHR ''/''"
  by (auto simp: isdigit_def isspace_def less_eq_char_def)

lemma host_port:
  assumes "plain h" "port_ok q"
  shows "word (h @ port_text q)" "CHR ''@'' \<notin> set (h @ port_text q)" "CHR ''/'' \<notin> set (h @ port_text q)"
proof -
  have q: "\<forall>c \<in> set (port_text q). \<not> isspace c \<and> c \<noteq> CHR ''@'' \<and> c \<noteq> CHR ''/''"
  proof (cases q)
    case (Some d)
    then have "\<forall>c \<in> set d. \<not> isspace c \<and> c \<noteq> CHR ''@'' \<and> c \<noteq> CHR ''/''" using assms(2) digit_facts by (simp add: port_ok_def)
    moreover have "\<not> isspace CHR '':''" by (simp add: isspace_def less_eq_char_def)
    ultimately show ?thesis using Some by (simp add: port_text_def)
  qed (simp add: port_text_def)
  show "word (h @ port_text q)" using assms(1) q by (auto simp: plain_def word_def)
  show "CHR ''@'' \<notin> set (h @ port_text q)" "CHR ''/'' \<notin> set (h @ port_text q)" using assms(1) q by (auto simp: plain_def)
qed

text \<open>A user and a password need a colon before an at sign.\<close>

lemma match_user_pass_miss:
  assumes "\<And>i j. i < j \<Longrightarrow> j < length S \<Longrightarrow> S ! i = CHR '':'' \<Longrightarrow> S ! j \<noteq> CHR ''@''"
  shows "str_match S ''(%S+):(%S+)@(%S+)'' 1 = Inr [LNil]"
proof (rule match_miss [OF _ _ url_items(3)])
  show "x \<notin> set (outs S [I_Open, I_Plus not_space, I_Close, I_One (\<lambda>c. c = CHR '':''), I_Open, I_Plus not_space, I_Close, I_One (\<lambda>c. c = CHR ''@''),
      I_Open, I_Plus not_space, I_Close] [] k)" (is "_ \<notin> set ?o") for x k
  proof
    assume "x \<in> set ?o"
    then obtain i j where "fits (\<lambda>c. c = CHR '':'') S (k + i)" "fits (\<lambda>c. c = CHR ''@'') S (Suc (k + i) + j)"
      by (auto simp: outs_pattern LUA_MAXCAPTURES_def simp del: outs.simps upt_Suc split: if_splits)
    then show False using assms [of "k + i" "Suc (k + i) + j"] by (simp add: fits_def)
  qed
qed (simp_all add: c_str_def char_at_def)

lemma match_user_miss:
  assumes "CHR ''@'' \<notin> set S"
  shows "str_match S ''(%S+)@(%S+)'' 1 = Inr [LNil]"
proof (rule match_miss [OF _ _ url_items(4)])
  have "\<not> fits (\<lambda>c. c = CHR ''@'') S k" for k using assms by (auto simp: fits_def dest: nth_mem)
  then show "x \<notin> set (outs S [I_Open, I_Plus not_space, I_Close, I_One (\<lambda>c. c = CHR ''@''), I_Open, I_Plus not_space, I_Close] [] k)" for x k
    by (auto simp: outs_pattern LUA_MAXCAPTURES_def simp del: outs.simps upt_Suc)
qed (simp_all add: c_str_def char_at_def)

text \<open>A word up to the end, captured.\<close>

lemma run_word: "\<forall>c \<in> set (drop s S). \<not> isspace c \<Longrightarrow> run_length not_space S s = length S - s"
  by (simp add: run_length_def takeWhile_eq_all_conv [THEN iffD2])

lemma outs_last_word:
  assumes "length cs < LUA_MAXCAPTURES" "s < length S" "\<forall>c \<in> set (drop s S). \<not> isspace c"
  shows "\<exists>ys. outs S [I_Open, I_Plus not_space, I_Close] cs s = Inr (length S, cs @ [\<lparr>c_init = s, c_len = int (length S - s)\<rparr>]) # ys"
  unfolding outs_capture_plus [OF assms(1)]
  by (rule concat_rev_first [where k = "length S - s"]) (use assms(2,3) in \<open>auto simp: run_word outs_nil\<close>)

lemma match_user_hit:
  assumes S: "S = u @ ''@'' @ r" and u: "word u" and r: "word r" "CHR ''@'' \<notin> set r"
  shows "str_match S ''(%S+)@(%S+)'' 1 = Inr [LString u, LString r]"
proof -
  let ?c = "\<lparr>c_init = 0, c_len = int (length u)\<rparr>" and ?d = "\<lparr>c_init = length u + 1, c_len = int (length r)\<rparr>"
  have at: "\<not> isspace CHR ''@''" by (simp add: isspace_def less_eq_char_def)
  have ns: "\<forall>c \<in> set S. \<not> isspace c" using u r at by (auto simp: S word_def)
  obtain ys where "outs S [I_Open, I_Plus not_space, I_Close] [?c] (length u + 1) = Inr (length S, [?c, ?d]) # ys"
    using outs_last_word [OF L(2), of "length u + 1" S ?c] ns r(1) by (auto simp: S word_def dest: in_set_dropD)
  then have hit: "outs S [I_One (\<lambda>c. c = CHR ''@''), I_Open, I_Plus not_space, I_Close] ([] @ [?c]) (0 + length u) = Inr (length S, [?c, ?d]) # ys"
    by (simp add: outs_one fits_def S del: outs.simps)
  have miss: "\<not> fits (\<lambda>c. c = CHR ''@'') S j" if "length u < j" for j
  proof
    assume "fits (\<lambda>c. c = CHR ''@'') S j"
    then have "r ! (j - (length u + 1)) = CHR ''@''" "j - (length u + 1) < length r" using that by (auto simp: fits_def S nth_append)
    then show False using r(2) by (metis nth_mem)
  qed
  have "\<exists>ys. outs S [I_Open, I_Plus not_space, I_Close, I_One (\<lambda>c. c = CHR ''@''), I_Open, I_Plus not_space, I_Close] [] 0 = Inr (length S, [?c, ?d]) # ys"
    unfolding outs_capture_plus [OF L(1)]
  proof (rule concat_rev_first [where k = "length u" and xs = ys])
    show "length u \<le> run_length not_space S 0" using run_word [of 0 S] ns by (simp add: S)
  qed (use u hit miss in \<open>auto simp: word_def Suc_le_eq outs_one simp del: outs.simps\<close>)
  then have "str_match S ''(%S+)@(%S+)'' 1 = match_values S [?c, ?d] 0 (length S)"
    using match_hit [OF _ _ url_items(4), of S 0 "length S" "[?c, ?d]"] by (auto simp: c_str_def char_at_def simp del: outs.simps)
  then show ?thesis by (simp add: match_values_def slice_def S)
qed

lemma match_user_pass_hit:
  assumes S: "S = u @ '':'' @ p @ ''@'' @ r" and u: "word u" and p: "plain p" and r: "word r" "CHR ''@'' \<notin> set r"
  shows "str_match S ''(%S+):(%S+)@(%S+)'' 1 = Inr [LString u, LString p, LString r]"
proof -
  let ?c = "\<lparr>c_init = 0, c_len = int (length u)\<rparr>" and ?d = "\<lparr>c_init = length u + 1, c_len = int (length p)\<rparr>"
    and ?e = "\<lparr>c_init = length u + 1 + length p + 1, c_len = int (length r)\<rparr>"
  let ?last = "[I_Open, I_Plus not_space, I_Close]"
  let ?pass = "I_Open # I_Plus not_space # I_Close # I_One (\<lambda>c. c = CHR ''@'') # ?last"
  have sep: "\<not> isspace CHR ''@''" "\<not> isspace CHR '':''" by (simp_all add: isspace_def less_eq_char_def)
  have ns: "\<forall>c \<in> set S. \<not> isspace c" using u p r sep by (auto simp: S word_def plain_def)
  have no_at: "\<not> fits (\<lambda>c. c = CHR ''@'') S j" if "length u + 1 + length p < j" for j
  proof
    assume "fits (\<lambda>c. c = CHR ''@'') S j"
    then have "r ! (j - (length u + 1 + length p + 1)) = CHR ''@''" "j - (length u + 1 + length p + 1) < length r"
      using that by (auto simp: fits_def S nth_append nth_Cons' split: if_splits)
    then show False using r(2) by (metis nth_mem)
  qed
  have no_colon: "\<not> fits (\<lambda>c. c = CHR '':'') S j" if "length u < j" "j \<le> length u + 1 + length p" for j
  proof (cases "j = length u + 1 + length p")
    case False
    then have "j - (length u + 1) < length p" "S ! j = p ! (j - (length u + 1))" using that by (auto simp: S nth_append nth_Cons')
    then show ?thesis using p unfolding fits_def plain_def by (metis nth_mem)
  qed (simp add: fits_def S nth_append)
  obtain ys where "outs S ?last [?c, ?d] (length u + 1 + length p + 1) = Inr (length S, [?c, ?d, ?e]) # ys"
    using outs_last_word [OF L(3), of "length u + 1 + length p + 1" S ?c ?d] ns r(1) by (auto simp: S word_def dest: in_set_dropD)
  then have "outs S (I_One (\<lambda>c. c = CHR ''@'') # ?last) ([?c] @ [?d]) (length u + 1 + length p) = Inr (length S, [?c, ?d, ?e]) # ys"
    by (simp add: outs_one fits_def S nth_append del: outs.simps)
  then have "\<exists>ys. outs S ?pass [?c] (length u + 1) = Inr (length S, [?c, ?d, ?e]) # ys"
    unfolding outs_capture_plus [OF L(2)] using run_word [of "length u + 1" S] ns p no_at
    by (intro concat_rev_first [where k = "length p" and xs = ys])
      (auto simp: S plain_def word_def Suc_le_eq outs_one simp del: outs.simps dest: in_set_dropD)
  then obtain ys where hit: "outs S (I_One (\<lambda>c. c = CHR '':'') # ?pass) ([] @ [?c]) (0 + length u) = Inr (length S, [?c, ?d, ?e]) # ys"
    by (auto simp: outs_one fits_def S nth_append simp del: outs.simps)
  have miss: "outs S (I_One (\<lambda>c. c = CHR '':'') # ?pass) ([] @ [\<lparr>c_init = 0, c_len = int j\<rparr>]) (0 + j) = []" if "length u < j" for j
  proof (cases "j \<le> length u + 1 + length p")
    case True
    then show ?thesis using no_colon [OF that] by (simp add: outs_one del: outs.simps)
  next
    case False
    then have "outs S (I_One (\<lambda>c. c = CHR ''@'') # ?last) cs (j + 1 + i) = []" for cs i
      using no_at [of "j + 1 + i"] by (simp add: outs_one del: outs.simps)
    then show ?thesis by (simp add: outs_one [of S "\<lambda>c. c = CHR '':''"] outs_capture_plus L(2) LUA_MAXCAPTURES_def del: outs.simps upt_Suc)
  qed
  have "\<exists>ys. outs S (I_Open # I_Plus not_space # I_Close # I_One (\<lambda>c. c = CHR '':'') # ?pass) [] 0 = Inr (length S, [?c, ?d, ?e]) # ys"
    unfolding outs_capture_plus [OF L(1)]
  proof (rule concat_rev_first [where k = "length u" and xs = ys])
    show "length u \<le> run_length not_space S 0" using run_word [of 0 S] ns by (simp add: S)
  qed (use u hit miss in \<open>auto simp: word_def Suc_le_eq simp del: outs.simps\<close>)
  then have "str_match S ''(%S+):(%S+)@(%S+)'' 1 = match_values S [?c, ?d, ?e] 0 (length S)"
    using match_hit [OF _ _ url_items(3), of S 0 "length S" "[?c, ?d, ?e]"] by (auto simp: c_str_def char_at_def simp del: outs.simps)
  then show ?thesis by (simp add: match_values_def slice_def S)
qed

lemma run_length_stop: "s \<le> k \<Longrightarrow> k < length S \<Longrightarrow> \<not> f (S ! k) \<Longrightarrow> s + run_length f S s \<le> k"
proof (rule ccontr)
  assume a: "s \<le> k" "k < length S" "\<not> f (S ! k)" "\<not> s + run_length f S s \<le> k"
  then have "k - s < length (takeWhile f (drop s S))" by (simp add: run_length_def)
  then have "f (takeWhile f (drop s S) ! (k - s))" by (meson nth_mem set_takeWhileD)
  moreover have "takeWhile f (drop s S) ! (k - s) = S ! k" using \<open>k - s < length (takeWhile f (drop s S))\<close> a(1,2) by (simp add: takeWhile_nth)
  ultimately show False using a(3) by simp
qed

text \<open>The port, as the two patterns see it: with and without capture.\<close>

lemma outs_port_miss:
  assumes "s < k" "k < length S" "\<not> isdigit (S ! k)" "length cs < LUA_MAXCAPTURES"
  shows "outs S [I_One (\<lambda>c. c = CHR '':''), I_Open, I_Plus isdigit, I_Close, I_End] cs s = []"
    "outs S [I_One (\<lambda>c. c = CHR '':''), I_Plus isdigit, I_End] cs s = []"
  using run_length_stop [of "s + 1" k S isdigit] assms
  by (auto simp: outs_one outs_capture_plus outs_plus outs_end simp del: outs.simps upt_Suc)

lemma outs_port_hit:
  assumes S: "S = x @ CHR '':'' # q" and q: "q \<noteq> []" "\<forall>c \<in> set q. isdigit c"
  shows "\<exists>ys. outs S [I_One (\<lambda>c. c = CHR '':''), I_Open, I_Plus isdigit, I_Close, I_End] [] (length x) =
      Inr (length S, [\<lparr>c_init = length x + 1, c_len = int (length q)\<rparr>]) # ys"
    "\<exists>ys. outs S [I_One (\<lambda>c. c = CHR '':''), I_Plus isdigit, I_End] [] (length x) = Inr (length S, []) # ys"
proof -
  have f: "fits (\<lambda>c. c = CHR '':'') S (length x)" by (simp add: S fits_def)
  have r: "run_length isdigit S (length x + 1) = length q" by (rule run_length_prefix [where b = "[]"]) (use q(2) in \<open>simp_all add: S\<close>)
  have "\<exists>ys. outs S [I_Open, I_Plus isdigit, I_Close, I_End] [] (length x + 1) = Inr (length S, [\<lparr>c_init = length x + 1, c_len = int (length q)\<rparr>]) # ys"
    unfolding outs_capture_plus [OF L(1)]
    by (rule concat_rev_first [where k = "length q"]) (use r q(1) in \<open>auto simp: Suc_le_eq outs_end S simp del: outs.simps\<close>)
  then show "\<exists>ys. outs S [I_One (\<lambda>c. c = CHR '':''), I_Open, I_Plus isdigit, I_Close, I_End] [] (length x) =
      Inr (length S, [\<lparr>c_init = length x + 1, c_len = int (length q)\<rparr>]) # ys"
    using f by (simp add: outs_one del: outs.simps)
  have "\<exists>ys. outs S [I_Plus isdigit, I_End] [] (length x + 1) = Inr (length S, []) # ys"
    unfolding outs_plus by (rule concat_rev_first [where k = "length q"]) (use r q(1) in \<open>auto simp: Suc_le_eq outs_end S simp del: outs.simps\<close>)
  then show "\<exists>ys. outs S [I_One (\<lambda>c. c = CHR '':''), I_Plus isdigit, I_End] [] (length x) = Inr (length S, []) # ys"
    using f by (simp add: outs_one del: outs.simps)
qed

lemma match_port_hit:
  assumes S: "S = x @ CHR '':'' # q" and q: "q \<noteq> []" "\<forall>c \<in> set q. isdigit c"
  shows "str_match S '':(%d+)$'' 1 = Inr [LString q]"
proof -
  let ?c = "\<lparr>c_init = length x + 1, c_len = int (length q)\<rparr>"
  have "\<not> isdigit CHR '':''" by (simp add: isdigit_def less_eq_char_def)
  then have m: "outs S [I_One (\<lambda>c. c = CHR '':''), I_Open, I_Plus isdigit, I_Close, I_End] [] k = []" if "k < length x" for k
    by (intro outs_port_miss(1) [OF that] L(1)) (simp_all add: S)
  obtain ys where "outs S [I_One (\<lambda>c. c = CHR '':''), I_Open, I_Plus isdigit, I_Close, I_End] [] (length x) = Inr (length S, [?c]) # ys"
    using outs_port_hit(1) [OF assms] by blast
  then have "str_match S '':(%d+)$'' 1 = match_values S [?c] (length x) (length S)"
    using match_hit [OF _ _ url_items(5) _ m] by (simp add: c_str_def char_at_def S del: outs.simps)
  then show ?thesis by (simp add: match_values_def slice_def S)
qed

lemma match_port_miss:
  assumes "\<And>s. s < length S \<Longrightarrow> S ! s = CHR '':'' \<Longrightarrow> \<exists>k>s. k < length S \<and> \<not> isdigit (S ! k)"
  shows "str_match S '':(%d+)$'' 1 = Inr [LNil]"
proof (rule match_miss [OF _ _ url_items(5)])
  show "x \<notin> set (outs S [I_One (\<lambda>c. c = CHR '':''), I_Open, I_Plus isdigit, I_Close, I_End] [] s)" for x s
  proof (cases "fits (\<lambda>c. c = CHR '':'') S s")
    case True
    then obtain k where "s < k" "k < length S" "\<not> isdigit (S ! k)" using assms by (auto simp: fits_def)
    then show ?thesis using outs_port_miss(1) [OF _ _ _ L(1)] by simp
  qed (simp add: outs_one del: outs.simps)
qed (simp_all add: c_str_def char_at_def)

text \<open>Removing the port from the name.\<close>

lemma do_match_outs_nil:
  "outs S (items P p) [] s = [] \<Longrightarrow> ms_ok ms \<Longrightarrow> \<exists>ms'. do_match S P (ms\<lparr>level := 0\<rparr>) s p = Inr (None, ms') \<and> ms_ok ms'"
  using do_match_first [of ms S P s p] by (auto simp: delivers_def)

lemma do_match_outs_hit:
  "outs S (items P p) [] s = Inr (e, cs) # ys \<Longrightarrow> ms_ok ms \<Longrightarrow> \<exists>ms'. do_match S P (ms\<lparr>level := 0\<rparr>) s p = Inr (Some e, ms') \<and> ms_ok ms'"
  using do_match_first [of ms S P s p] by (auto simp: delivers_def)

lemma gsub_loop_port:
  fixes h q
  defines "S \<equiv> h @ CHR '':'' # q"
  assumes q: "q \<noteq> []" "\<forall>c \<in> set q. isdigit c" and h: "CHR '':'' \<notin> set h" and m: "int (length S) < max_s"
  shows "src \<le> length h \<Longrightarrow> ms_ok ms \<Longrightarrow>
    gsub_loop num S '':%d+$'' 0 False (Repl_str []) max_s ms b src 0 = Inr (b @ drop src h, length S, 1)"
proof (induction "length h - src" arbitrary: src b ms)
  case 0
  then have src: "src = length h" by simp
  obtain ms1 where 1: "do_match S '':%d+$'' (ms\<lparr>level := 0\<rparr>) (length h) 0 = Inr (Some (length S), ms1)" "ms_ok ms1"
    using outs_port_hit(2) [OF S_def [THEN meta_eq_to_obj_eq] q] do_match_outs_hit [OF _ 0(3)] unfolding url_items(6) [symmetric] by blast
  have "outs S (items '':%d+$'' 0) [] (length S) = []" by (simp add: url_items outs_one fits_def del: outs.simps)
  then obtain ms2 where 2: "do_match S '':%d+$'' (ms1\<lparr>level := 0\<rparr>) (length S) 0 = Inr (None, ms2)"
    using do_match_outs_nil [OF _ 1(2)] by blast
  have "gsub_loop num S '':%d+$'' 0 False (Repl_str []) max_s ms1 b (length S) 1 = Inr (b, length S, 1)"
    using 2 m by (subst gsub_loop.simps) (simp add: S_def)
  moreover have "length h < length S" by (simp add: S_def)
  ultimately show ?case using 1 m src by (subst gsub_loop.simps) (simp add: add_value_def add_s_plain)
next
  case (Suc n)
  then have src: "src < length h" by simp
  then have src: "src < length h" "src < length S" "S ! src = h ! src" by (simp_all add: S_def nth_append)
  then have "S ! src \<noteq> CHR '':''" using h by (metis nth_mem)
  then have "outs S (items '':%d+$'' 0) [] src = []" by (simp add: url_items outs_one fits_def del: outs.simps)
  then obtain ms1 where 1: "do_match S '':%d+$'' (ms\<lparr>level := 0\<rparr>) src 0 = Inr (None, ms1)" "ms_ok ms1"
    using do_match_outs_nil [OF _ Suc(4)] by blast
  have "gsub_loop num S '':%d+$'' 0 False (Repl_str []) max_s ms b src 0 = gsub_loop num S '':%d+$'' 0 False (Repl_str []) max_s ms1 (b @ [h ! src]) (src + 1) 0"
    using 1 src m by (subst gsub_loop.simps) (simp add: char_at_def)
  then show ?case using Suc(1) [of "src + 1" ms1 "b @ [h ! src]"] Suc(2) 1(2) src(1) by (simp add: Cons_nth_drop_Suc)
qed

lemma gsub_port:
  assumes "q \<noteq> []" "\<forall>c \<in> set q. isdigit c" "CHR '':'' \<notin> set h" "length h + length q + 2 < 2 ^ 31"
  shows "str_gsub num (h @ CHR '':'' # q) '':%d+$'' (Repl_str []) None = Inr (h, 1)"
  using gsub_loop_port [OF assms(1-3), of "int (length (h @ CHR '':'' # q)) + 1" 0 new_MatchState num "[]"] assms(4)
  by (simp add: str_gsub_def Let_def c_int_small c_str_def char_at_def)

section \<open>Properties\<close>

lemma parse_login_text:
  assumes l: "login_ok l" and h: "plain h" and q: "port_ok q"
  shows "parse_login (login_text l @ h @ port_text q) =
    Inr (case l of Nobody \<Rightarrow> None | User u \<Rightarrow> Some u | User_pass u p \<Rightarrow> Some u,
         case l of User_pass u p \<Rightarrow> Some p | _ \<Rightarrow> None, h @ port_text q)"
proof -
  let ?r = "h @ port_text q"
  note R = host_port [OF h q] and simps = parse_login_def ebind_def result_at_def truthy_def as_string_def login_text_def
  have at: "S ! j \<noteq> CHR ''@''" if "CHR ''@'' \<notin> set S" "j < length S" for S :: string and j using that by (metis nth_mem)
  show ?thesis
  proof (cases l)
    case Nobody
    then show ?thesis using match_user_pass_miss [of ?r] match_user_miss [OF R(2)] at [OF R(2)] by (simp add: simps)
  next
    case (User u)
    then have u: "plain u" using l by (simp add: login_ok_def)
    have "(u @ ''@'' @ ?r) ! j \<noteq> CHR ''@''" if "i < j" "j < length (u @ ''@'' @ ?r)" "(u @ ''@'' @ ?r) ! i = CHR '':''" for i j
    proof -
      have "\<not> i < length u"
      proof
        assume i: "i < length u"
        then have "u ! i = CHR '':''" using that(3) by (simp add: nth_append)
        then show False using u i unfolding plain_def by (metis nth_mem)
      qed
      moreover have "i \<noteq> length u" using that(3) by auto
      ultimately have "length u < i" by simp
      then have "(u @ ''@'' @ ?r) ! j = ?r ! (j - (length u + 1))" "j - (length u + 1) < length ?r"
        using that(1,2) by (auto simp: nth_append nth_Cons')
      then show ?thesis using at [OF R(2)] by simp
    qed
    then have "str_match (u @ ''@'' @ ?r) ''(%S+):(%S+)@(%S+)'' 1 = Inr [LNil]" by (rule match_user_pass_miss)
    then show ?thesis using User match_user_hit [OF refl _ R(1,2), of u] u by (simp add: simps plain_def)
  next
    case (User_pass u p)
    then show ?thesis using l match_user_pass_hit [OF refl _ _ R(1,2), of u p] by (simp add: simps login_ok_def plain_def)
  qed
qed

lemma match_port:
  assumes l: "login_ok l" and h: "plain h" and q: "port_ok q"
  shows "str_match (login_text l @ h @ port_text q) '':(%d+)$'' 1 = Inr [case q of None \<Rightarrow> LNil | Some d \<Rightarrow> LString d]"
proof (cases q)
  case (Some d)
  then show ?thesis using match_port_hit [of _ "login_text l @ h" d] q by (simp add: port_text_def port_ok_def)
next
  case None
  let ?S = "login_text l @ h"
  have "CHR '':'' \<notin> set h" "h \<noteq> []" using h by (auto simp: plain_def word_def)
  have last: "(case l of Nobody \<Rightarrow> login_text l = [] | _ \<Rightarrow> login_text l \<noteq> [] \<and> last (login_text l) = CHR ''@'')"
    by (simp add: login_text_def split: login.split)
  have "\<exists>k>s. k < length ?S \<and> \<not> isdigit (?S ! k)" if s: "s < length ?S" "?S ! s = CHR '':''" for s
  proof -
    have "s < length (login_text l)"
    proof (rule ccontr)
      assume "\<not> s < length (login_text l)"
      then have "h ! (s - length (login_text l)) = CHR '':''" "s - length (login_text l) < length h" using s by (auto simp: nth_append)
      then show False using \<open>CHR '':'' \<notin> set h\<close> by (metis nth_mem)
    qed
    moreover then have ne: "login_text l \<noteq> []" by auto
    then have "last (login_text l) = CHR ''@''" using last by (simp split: login.splits)
    then have at: "?S ! (length (login_text l) - 1) = CHR ''@''" using ne by (simp add: nth_append last_conv_nth)
    moreover have "s \<noteq> length (login_text l) - 1" using at s(2) by auto
    moreover have "\<not> isdigit CHR ''@''" by (simp add: isdigit_def less_eq_char_def)
    ultimately show ?thesis using ne by (intro exI [of _ "length (login_text l) - 1"]) auto
  qed
  then show ?thesis using match_port_miss [of ?S] None by (simp add: port_text_def)
qed

definition url_text :: "string \<Rightarrow> login \<Rightarrow> string \<Rightarrow> string option \<Rightarrow> string \<Rightarrow> string" where
  "url_text t l h q path = t @ ''://'' @ (login_text l @ h @ port_text q) @ path"

text \<open>
  C38 (roundtrip): an URL written from its parts is parsed to the same parts, with the leading slashes removed from
  the path, if the separator \<^verbatim>\<open>://\<close> occurs only once, the transport is not empty and has no white space, the
  host and the user and password are not empty and contain no white space, colon, slash or at sign, the port, if
  there is one, consists of digits, the path is empty or starts with a slash, and the URL is shorter than
  \<open>2 ^ 31 - 1\<close> characters.
\<close>

theorem url_parse_roundtrip:
  assumes "word t" "login_ok l" "plain h" "port_ok q" "path = [] \<or> hd path = CHR ''/''"
    and "\<forall>k. occurs (url_text t l h q path) ''://'' k \<longrightarrow> k \<le> length t" "length (url_text t l h q path) < 2 ^ 31 - 1"
  shows "url_parse num (url_text t l h q path) =
    Inr (Inr \<lparr>u_url = url_text t l h q path, u_transport = Some t, u_server = Some (login_text l @ h @ port_text q),
      u_path = Some (dropWhile (\<lambda>c. c = CHR ''/'') path), u_servername = Some h,
      u_user = (case l of Nobody \<Rightarrow> None | User u \<Rightarrow> Some u | User_pass u p \<Rightarrow> Some u),
      u_pass = (case l of User_pass u p \<Rightarrow> Some p | _ \<Rightarrow> None), u_port = q\<rparr>)"
proof -
  let ?server = "login_text l @ h @ port_text q" and ?url = "url_text t l h q path"
  have "CHR ''/'' \<notin> set (login_text l)" using assms(2) by (auto simp: login_text_def login_ok_def plain_def split: login.splits)
  then have sl: "CHR ''/'' \<notin> set ?server" using host_port(3) [OF assms(3,4)] by auto
  have m: "str_match ?url ''(%S+)://([^/]*)(.*)'' 1 = Inr [LString t, LString ?server, LString path]"
    by (rule match_url [OF _ assms(1) _ sl assms(5)]) (use assms(6) in \<open>simp_all add: url_text_def\<close>)
  have g: "str_gsub num (h @ port_text q) '':%d+$'' (Repl_str []) None = Inr (h, 1)" if "q \<noteq> None"
    using that assms(3,4,7) gsub_port [of "the q" h num] by (auto simp: port_text_def port_ok_def plain_def url_text_def)
  have ne: "?url \<noteq> []" by (simp add: url_text_def)
  show ?thesis
    using m match_path [of path] parse_login_text [OF assms(2-4)] match_port [OF assms(2-4)] g ne
    by (cases q) (simp_all add: url_parse_def ebind_def result_at_def truthy_def as_string_def Let_def port_text_def)
qed

theorem url_parse_roundtrip_witness:
  "\<exists>u. url_parse (\<lambda>_. []) ''ssh://git@host:22/srv/x'' = Inr (Inr u) \<and> u_servername u = Some ''host'' \<and> u_user u = Some ''git'' \<and>
     u_port u = Some ''22'' \<and> u_path u = Some ''srv/x''"
proof -
  let ?u = "url_text ''ssh'' (User ''git'') ''host'' (Some ''22'') ''/srv/x''"
  have u: "?u = ''ssh://git@host:22/srv/x''" by (simp add: url_text_def login_text_def port_text_def)
  have "list_all (\<lambda>k. occurs ''ssh://git@host:22/srv/x'' ''://'' k \<longrightarrow> k \<le> 3) [0..<23]" by code_simp
  then have "k \<le> 3" if "occurs ?u ''://'' k" "k < 23" for k using that unfolding u list_all_iff by auto
  moreover have "\<not> occurs ?u ''://'' k" if "\<not> k < 23" for k using that unfolding u occurs_def by simp
  ultimately have "\<forall>k. occurs ?u ''://'' k \<longrightarrow> k \<le> length ''ssh''" by (metis list.size(3,4) numeral_3_eq_3 One_nat_def add_Suc_right add_0_right)
  moreover have "word ''ssh''" "login_ok (User ''git'')" "plain ''host''" "port_ok (Some ''22'')"
    by (simp_all add: word_def plain_def login_ok_def port_ok_def isspace_def isdigit_def less_eq_char_def)
  moreover have "length ?u < 2 ^ 31 - 1" by (simp add: u)
  ultimately have "url_parse (\<lambda>_. []) ?u =
    Inr (Inr \<lparr>u_url = ?u, u_transport = Some ''ssh'', u_server = Some (login_text (User ''git'') @ ''host'' @ port_text (Some ''22'')),
      u_path = Some (dropWhile (\<lambda>c. c = CHR ''/'') ''/srv/x''), u_servername = Some ''host'',
      u_user = Some ''git'', u_pass = None, u_port = Some ''22''\<rparr>)"
    using url_parse_roundtrip [of "''ssh''" "User ''git''" "''host''" "Some ''22''" "''/srv/x''" "\<lambda>_. []"] by (simp del: length_append)
  then show ?thesis by (simp add: u)
qed

text \<open>With a second separator in the path the greedy pattern takes the last one.\<close>

theorem url_parse_last_separator:
  "str_match ''http://host/x?u=ftp://mirror/y'' ''(%S+)://([^/]*)(.*)'' 1 =
   Inr [LString ''http://host/x?u=ftp'', LString ''mirror'', LString ''/y'']"
  by code_simp

end
