(* ===== verification/E2_Digest.thy ===== *)
theory E2_Digest
  imports E2_Lib E2_Environment
begin

text \<open>
  Message digest files, \<^verbatim>\<open>local/digest.lua\<close>: parsing and writing the text, checking a table of entries, computing and
  verifying checksums. Characters are compared by their bytes, as \<open>l_strcmp_lexicographic\<close> shows for strings of
  one character. What computes the checksum of a file is an argument.
\<close>

section \<open>Entries\<close>

definition MD5 :: int where "MD5 = 1"
definition MD5_LEN :: nat where "MD5_LEN = 32"
definition SHA1 :: int where "SHA1 = 2"
definition SHA1_LEN :: nat where "SHA1_LEN = 40"
definition SHA256 :: int where "SHA256 = 3"
definition SHA256_LEN :: nat where "SHA256_LEN = 64"

text \<open>The fields may be nil.\<close>

record dt_entry =
  e_digest :: "int option"
  e_checksum :: "string option"
  e_name :: "string option"
  e_name2check :: "string option"

type_synonym dt = "dt_entry list"

datatype dg_err =
    Escaped_digest | Unexpected_character char nat string | Line_incomplete | Checksum_unknown_length | No_filename
  | Under_terminated | In_line nat dg_err | Unknown_type_in_line nat
  | Table_empty | Unknown_digest_type nat | Mixture | Entry_checksum_length nat nat | Entry_no_name nat
  | Name2check_unset | Md5_unsupported | Checksum_mismatch string | File_error string
  | Parsing dg_err | Writing dg_err | Checksuming dg_err | Verification dg_err | Lua_raise lua_err
  | Hash_raise hash_err | Hash_caught hash_err

section \<open>Parsing\<close>

definition ishex :: "char \<Rightarrow> bool" where
  "ishex c =
     (if CHR ''0'' \<le> c \<and> c \<le> CHR ''9'' then True
      else if CHR ''a'' \<le> c \<and> c \<le> CHR ''f'' then True
      else if CHR ''A'' \<le> c \<and> c \<le> CHR ''F'' then True
      else False)"

datatype line_state = St_checksum | St_space | St_filename | St_finish

text \<open>The loop over the characters of a line, from the position \<open>pos\<close> on.\<close>

fun line_loop :: "string \<Rightarrow> nat \<Rightarrow> line_state \<Rightarrow> string \<Rightarrow> string \<Rightarrow> string \<Rightarrow> dg_err + line_state \<times> string \<times> string" where
  "line_loop line pos st cs fn [] = Inr (st, cs, fn)"
| "line_loop line pos st cs fn (c # rest) =
     (case st of
        St_checksum \<Rightarrow>
          if pos = 1 \<and> c = CHR 0x5C then Inl Escaped_digest
          else if ishex c then line_loop line (pos + 1) St_checksum (cs @ [c]) fn rest
          else if c = CHR '' '' then line_loop line (pos + 1) St_space cs fn rest
          else Inl (Unexpected_character c pos line)
      | St_space \<Rightarrow>
          if c = CHR '' '' then line_loop line (pos + 1) St_filename cs fn rest
          else Inl (Unexpected_character c pos line)
      | St_filename \<Rightarrow>
          if c = CHR 0x0A then Inr (St_finish, cs, fn)
          else line_loop line (pos + 1) St_filename cs (fn @ [c]) rest
      | St_finish \<Rightarrow> line_loop line (pos + 1) St_finish cs fn rest)"

definition parse_line :: "string \<Rightarrow> dg_err + string \<times> string" where
  "parse_line line =
     (case line_loop line 1 St_checksum [] [] line of
        Inl e \<Rightarrow> Inl e
      | Inr (st, cs, fn) \<Rightarrow>
          if st \<noteq> St_finish then Inl Line_incomplete
          else if length cs \<noteq> MD5_LEN \<and> length cs \<noteq> SHA1_LEN \<and> length cs \<noteq> SHA256_LEN then Inl Checksum_unknown_length
          else if length fn = 0 then Inl No_filename
          else Inr (cs, fn))"

definition new_entry :: "dt \<Rightarrow> int option \<Rightarrow> string option \<Rightarrow> string option \<Rightarrow> string option \<Rightarrow> dt" where
  "new_entry dt dg cs nm nm2 = dt @ [\<lparr>e_digest = dg, e_checksum = cs, e_name = nm, e_name2check = nm2\<rparr>]"

text \<open>\<^verbatim>\<open>string.find(data, "\n", init, true)\<close>, with positions from 1; \<open>str_find_plain\<close> shows that the library gives this.\<close>

definition find_newline :: "string \<Rightarrow> nat \<Rightarrow> nat option" where
  "find_newline data init =
     (let i = (if length data < init - 1 then length data else init - 1) in
      map_option Suc (lmemfind data i (length data - i) [CHR 0x0A]))"

lemma find_newline_bounds:
  assumes "find_newline data init = Some pos"
  shows "init \<le> pos \<and> pos \<le> length data \<and> data ! (pos - 1) = CHR 0x0A \<and> (\<forall>k. init - 1 \<le> k \<and> k < pos - 1 \<longrightarrow> data ! k \<noteq> CHR 0x0A)"
proof -
  let ?i = "if length data < init - 1 then length data else init - 1"
  obtain j where j: "lmemfind data ?i (length data - ?i) [CHR 0x0A] = Some j" "pos = Suc j"
    using assms by (auto simp: find_newline_def Let_def)
  have f: "first_index (occurs data [CHR 0x0A]) ?i (Suc (length data)) (Some j)"
    using lmemfind_first [of ?i data "[CHR 0x0A]"] j(1) by simp
  then have "?i \<le> j" "j < length data" "data ! j = CHR 0x0A" "\<forall>k. ?i \<le> k \<and> k < j \<longrightarrow> data ! k \<noteq> CHR 0x0A"
    by (auto simp: first_index_def occurs_head char_at_def)
  then show ?thesis using j(2) by (auto split: if_splits)
qed

function parse_lines :: "string \<Rightarrow> nat \<Rightarrow> nat \<Rightarrow> dt \<Rightarrow> dg_err + dt" where
  "parse_lines data init linenr dt =
     (case find_newline data init of
        None \<Rightarrow> if init \<le> length data then Inl Under_terminated else Inr dt
      | Some pos \<Rightarrow>
          let line = str_sub data (int init) (int pos) in
          case parse_line line of
            Inl e \<Rightarrow> Inl (In_line linenr e)
          | Inr (checksum, filenm) \<Rightarrow>
              if length checksum = MD5_LEN then
                parse_lines data (pos + 1) (linenr + 1) (new_entry dt (Some MD5) (Some checksum) (Some filenm) None)
              else if length checksum = SHA1_LEN then
                parse_lines data (pos + 1) (linenr + 1) (new_entry dt (Some SHA1) (Some checksum) (Some filenm) None)
              else if length checksum = SHA256_LEN then
                parse_lines data (pos + 1) (linenr + 1) (new_entry dt (Some SHA256) (Some checksum) (Some filenm) None)
              else Inl (Unknown_type_in_line linenr))"
  by pat_completeness auto
termination
  by (relation "measure (\<lambda>(data, init, linenr, dt). Suc (length data) - init)") (auto dest!: find_newline_bounds)

declare parse_lines.simps [simp del]

definition parsestring :: "string \<Rightarrow> dg_err + dt" where
  "parsestring data = parse_lines data 1 1 []"

text \<open>The calls of \<^verbatim>\<open>eio.fread\<close> deliver one element each; behind the last one they deliver the empty string.\<close>

fun read_loop :: "(string + string) list \<Rightarrow> string \<Rightarrow> dg_err + string" where
  "read_loop [] data = Inr data"
| "read_loop (Inl e # fh) data = Inl (File_error e)"
| "read_loop (Inr buf # fh) data = (if buf = [] then Inr data else read_loop fh (data @ buf))"

text \<open>\<open>fopen\<close> is an error or the stream, \<open>fclose\<close> an error if closing it fails.\<close>

definition digest_parse :: "string + (string + string) list \<Rightarrow> string option \<Rightarrow> dg_err + dt" where
  "digest_parse fopen fclose =
     (case fopen of
        Inl e \<Rightarrow> Inl (Parsing (File_error e))
      | Inr fh \<Rightarrow>
          (case read_loop fh [] of
             Inl e \<Rightarrow> Inl (Parsing e)
           | Inr data \<Rightarrow>
               (case fclose of
                  Some e \<Rightarrow> Inl (Parsing (File_error e))
                | None \<Rightarrow> (case parsestring data of Inl e \<Rightarrow> Inl (Parsing e) | Inr dt \<Rightarrow> Inr dt))))"

section \<open>Writing\<close>

text \<open>An error that is raised passes the caller; the others are put under the caller's error.\<close>

definition under :: "(dg_err \<Rightarrow> dg_err) \<Rightarrow> dg_err \<Rightarrow> dg_err" where
  "under f e = (case e of Lua_raise _ \<Rightarrow> e | Hash_raise _ \<Rightarrow> e | _ \<Rightarrow> f e)"

definition checksum_fits :: "int \<Rightarrow> nat \<Rightarrow> bool" where
  "checksum_fits dg len \<longleftrightarrow> dg = MD5 \<and> len = MD5_LEN \<or> dg = SHA1 \<and> len = SHA1_LEN \<or> dg = SHA256 \<and> len = SHA256_LEN"

text \<open>Reading the length of a nil field raises an error.\<close>

fun sanity_loop :: "nat \<Rightarrow> int option \<Rightarrow> dt \<Rightarrow> dg_err + unit" where
  "sanity_loop pos digest_type [] = Inr ()"
| "sanity_loop pos digest_type (entry # dt) =
     (let digest_type = (if digest_type = None then e_digest entry else digest_type) in
      if e_digest entry \<notin> {Some MD5, Some SHA1, Some SHA256} then Inl (Unknown_digest_type pos)
      else if digest_type \<noteq> e_digest entry then Inl Mixture
      else case e_checksum entry of
        None \<Rightarrow> Inl (Lua_raise (Arg_error 1 ''string expected, got nil''))
      | Some cs \<Rightarrow>
          if \<not> checksum_fits (the (e_digest entry)) (length cs) then Inl (Entry_checksum_length pos (length cs))
          else case e_name entry of
            None \<Rightarrow> Inl (Lua_raise (Arg_error 1 ''string expected, got nil''))
          | Some nm \<Rightarrow> if length nm = 0 then Inl (Entry_no_name pos) else sanity_loop (pos + 1) digest_type dt)"

definition digest_count :: "dt \<Rightarrow> nat" where "digest_count dt = length dt"

definition sanity_check :: "dt \<Rightarrow> dg_err + unit" where
  "sanity_check dt = (if digest_count dt = 0 then Inl Table_empty else sanity_loop 1 None dt)"

text \<open>A line of the file, made by \<^verbatim>\<open>string.format\<close>; \<open>E\<close> has the conversions of the C library.\<close>

definition entry_line :: "fmt_env \<Rightarrow> dt_entry \<Rightarrow> lua_err + string" where
  "entry_line E entry =
     str_format E (''%s  %s'' @ [CHR 0x0A])
       [case e_checksum entry of None \<Rightarrow> LNil | Some s \<Rightarrow> LString s, case e_name entry of None \<Rightarrow> LNil | Some s \<Rightarrow> LString s]"

fun write_lines :: "fmt_env \<Rightarrow> dt \<Rightarrow> lua_err + string" where
  "write_lines E [] = Inr []"
| "write_lines E (entry # dt) = ebind (entry_line E entry) (\<lambda>l. ebind (write_lines E dt) (\<lambda>out. Inr (l @ out)))"

text \<open>The result is the text of the file; \<open>file_write\<close> gives the error of \<^verbatim>\<open>eio.file_write\<close>, if it fails.\<close>

definition digest_write :: "fmt_env \<Rightarrow> (string \<Rightarrow> string option) \<Rightarrow> dt \<Rightarrow> dg_err + string" where
  "digest_write E file_write dt =
     (case sanity_check dt of
        Inl e \<Rightarrow> Inl (under Writing e)
      | Inr _ \<Rightarrow>
          (case write_lines E dt of
             Inl e \<Rightarrow> Inl (Lua_raise e)
           | Inr out \<Rightarrow> (case file_write out of Some e \<Rightarrow> Inl (Writing (File_error e)) | None \<Rightarrow> Inr out)))"

section \<open>Checksums\<close>

text \<open>
  \<open>summer dg filename s\<close> computes a checksum of a file: an error or the checksum, and the new state, which is the
  checksum cache. The third argument of \<open>compute_checksum_entry\<close> is None for false.
\<close>

type_synonym 'c summer = "int \<Rightarrow> string \<Rightarrow> 'c \<Rightarrow> (dg_err + string) \<times> 'c"

definition checksum_filename :: "dt_entry \<Rightarrow> string option \<Rightarrow> dg_err + string" where
  "checksum_filename entry directory =
     (case directory of
        Some d \<Rightarrow> Inr (e2lib_join (case e_name entry of None \<Rightarrow> [d] | Some nm \<Rightarrow> [d, nm]))
      | None \<Rightarrow> (case e_name2check entry of None \<Rightarrow> Inl Name2check_unset | Some f \<Rightarrow> Inr f))"

definition compute_checksum_entry :: "'c summer \<Rightarrow> dt_entry \<Rightarrow> string option \<Rightarrow> bool \<Rightarrow> 'c \<Rightarrow> (dg_err + dt_entry) \<times> 'c" where
  "compute_checksum_entry summer entry directory verify s =
     (case checksum_filename entry directory of
        Inl e \<Rightarrow> (Inl e, s)
      | Inr filename \<Rightarrow>
          if e_digest entry = Some SHA1 \<or> e_digest entry = Some SHA256 then
            (case summer (the (e_digest entry)) filename s of
               (Inl e, s) \<Rightarrow> (Inl e, s)
             | (Inr computedcs, s) \<Rightarrow>
                 if verify then
                   case e_checksum entry of
                     None \<Rightarrow> (Inl (Lua_raise (Arg_error 1 ''string expected, got nil'')), s)
                   | Some cs \<Rightarrow>
                       if str_lower cs \<noteq> computedcs then (Inl (case e_name entry of None \<Rightarrow> Lua_raise (Arg_error 2 ''string expected, got nil'') | Some nm \<Rightarrow> Checksum_mismatch nm), s)
                       else (Inr entry, s)
                 else (Inr (entry\<lparr>e_checksum := Some computedcs\<rparr>), s))
          else if e_digest entry = Some MD5 then (Inl Md5_unsupported, s)
          else (Inl (Lua_raise (Run_error ''unsupported entry.digest type'')), s))"

text \<open>The entries are updated in place: the table comes back changed up to the entry that fails. None is success.\<close>

fun checksum_loop :: "'c summer \<Rightarrow> string option \<Rightarrow> bool \<Rightarrow> dt \<Rightarrow> 'c \<Rightarrow> dg_err option \<times> dt \<times> 'c" where
  "checksum_loop summer directory verify [] s = (None, [], s)"
| "checksum_loop summer directory verify (entry # dt) s =
     (case compute_checksum_entry summer entry directory verify s of
        (Inl e, s) \<Rightarrow> (Some e, entry # dt, s)
      | (Inr entry, s) \<Rightarrow> (case checksum_loop summer directory verify dt s of (r, dt, s) \<Rightarrow> (r, entry # dt, s)))"

definition digest_checksum :: "'c summer \<Rightarrow> dt \<Rightarrow> string option \<Rightarrow> 'c \<Rightarrow> dg_err option \<times> dt \<times> 'c" where
  "digest_checksum summer dt directory s = (case checksum_loop summer directory False dt s of (r, dt, s) \<Rightarrow> (map_option (under Checksuming) r, dt, s))"

definition digest_verify :: "'c summer \<Rightarrow> dt \<Rightarrow> string option \<Rightarrow> 'c \<Rightarrow> dg_err option \<times> dt \<times> 'c" where
  "digest_verify summer dt directory s = (case checksum_loop summer directory True dt s of (r, dt, s) \<Rightarrow> (map_option (under Verification) r, dt, s))"

definition type_to_string :: "int \<Rightarrow> dg_err + string" where
  "type_to_string dg =
     (if dg = SHA1 then Inr ''SHA1'' else if dg = SHA256 then Inr ''SHA256'' else Inl (Lua_raise (Run_error ''assertion failed!'')))"

text \<open>The assertions on checksum strings; the pattern starts at position 1 because it matches the empty string.\<close>

definition assertSha :: "nat \<Rightarrow> string \<Rightarrow> lua_err + bool" where
  "assertSha len dgst =
     (if length dgst \<noteq> len then Inr False
      else ebind (str_find dgst ''[a-f0-9]*'' 1 False)
        (\<lambda>vs. Inr (result_at vs 0 = pushinteger 1 \<and> result_at vs 1 = pushinteger (int len))))"

definition assertSha1 :: "string \<Rightarrow> lua_err + bool" where "assertSha1 dgst = assertSha SHA1_LEN dgst"
definition assertSha256 :: "string \<Rightarrow> lua_err + bool" where "assertSha256 dgst = assertSha SHA256_LEN dgst"

section \<open>Lines\<close>

lemma line_loop_hex:
  "\<forall>c \<in> set cs'. ishex c \<Longrightarrow> line_loop line pos St_checksum cs fn (cs' @ rest) = line_loop line (pos + length cs') St_checksum (cs @ cs') fn rest"
proof (induction cs' arbitrary: pos cs)
  case (Cons c cs')
  then have "ishex c" by simp
  moreover then have "c \<noteq> CHR 0x5C" by (auto simp: ishex_def less_eq_char_def)
  ultimately show ?case using Cons by simp
qed simp

lemma line_loop_name:
  "CHR 0x0A \<notin> set nm \<Longrightarrow> line_loop line pos St_filename cs fn (nm @ CHR 0x0A # rest) = Inr (St_finish, cs, fn @ nm)"
  by (induction nm arbitrary: pos fn) auto

lemma parse_line_text:
  assumes "\<forall>c \<in> set cs. ishex c" "length cs \<in> {MD5_LEN, SHA1_LEN, SHA256_LEN}" "nm \<noteq> []" "CHR 0x0A \<notin> set nm"
  shows "parse_line (cs @ ''  '' @ nm @ [CHR 0x0A]) = Inr (cs, nm)"
proof -
  have "\<not> ishex CHR '' ''" by (simp add: ishex_def less_eq_char_def)
  then have "line_loop line 1 St_checksum [] [] (cs @ ''  '' @ nm @ [CHR 0x0A]) = Inr (St_finish, cs, nm)" for line
    using line_loop_hex [OF assms(1), of line 1 "[]" "[]" "''  '' @ nm @ [CHR 0x0A]"] line_loop_name [OF assms(4)] by simp
  then show ?thesis using assms(2,3) by (auto simp: parse_line_def)
qed

lemma line_loop_sound:
  "line_loop line pos st cs fn rest = Inr (st', cs', fn') \<Longrightarrow> \<forall>c \<in> set cs. ishex c \<Longrightarrow> CHR 0x0A \<notin> set fn \<Longrightarrow>
   (\<forall>c \<in> set cs'. ishex c) \<and> CHR 0x0A \<notin> set fn'"
proof (induction rest arbitrary: pos st cs fn)
  case (Cons c rest)
  have IH: "line_loop line (pos + 1) st'' cs'' fn'' rest = Inr (st', cs', fn') \<Longrightarrow> \<forall>c \<in> set cs''. ishex c \<Longrightarrow> CHR 0x0A \<notin> set fn'' \<Longrightarrow> ?case" for st'' cs'' fn''
    by (rule Cons.IH)
  show ?case
  proof (cases st)
    case St_checksum
    then show ?thesis using Cons.prems IH [of St_checksum "cs @ [c]" fn] IH [of St_space cs fn] by (simp split: if_splits)
  next
    case St_space
    then show ?thesis using Cons.prems IH [of St_filename cs fn] by (simp split: if_splits)
  next
    case St_filename
    then show ?thesis using Cons.prems IH [of St_filename cs "fn @ [c]"] by (auto split: if_splits)
  next
    case St_finish
    then show ?thesis using Cons.prems IH [of St_finish cs fn] by simp
  qed
qed simp

lemma parse_line_sound:
  assumes "parse_line line = Inr (cs, nm)"
  shows "(\<forall>c \<in> set cs. ishex c) \<and> length cs \<in> {MD5_LEN, SHA1_LEN, SHA256_LEN} \<and> nm \<noteq> [] \<and> CHR 0x0A \<notin> set nm"
proof -
  obtain st where "line_loop line 1 St_checksum [] [] line = Inr (st, cs, nm)"
    "length cs \<in> {MD5_LEN, SHA1_LEN, SHA256_LEN}" "nm \<noteq> []"
    using assms unfolding parse_line_def by (auto split: sum.splits if_splits)
  then show ?thesis using line_loop_sound [of line 1 St_checksum "[]" "[]" line] by auto
qed

section \<open>The newlines\<close>

lemma str_find_plain:
  "str_find data [CHR 0x0A] (int (Suc k)) True =
   Inr (case find_newline data (Suc k) of None \<Rightarrow> [LNil] | Some pos \<Rightarrow> [pushinteger (int pos), pushinteger (int pos)])"
  by (auto simp: str_find_def str_find_aux_def find_newline_def posrelat_def Let_def add.commute split: option.splits)

lemma find_newline_some:
  assumes "CHR 0x0A \<notin> set l"
  shows "find_newline (pre @ l @ CHR 0x0A # rest) (Suc (length pre)) = Some (Suc (length pre + length l))"
proof -
  let ?d = "pre @ l @ CHR 0x0A # rest" and ?j = "length pre + length l"
  let ?o = "occurs ?d [CHR 0x0A]"
  have o: "?o k \<longleftrightarrow> k < length ?d \<and> ?d ! k = CHR 0x0A" for k by (auto simp: occurs_head char_at_def)
  have hit: "?o ?j" by (simp add: o nth_append)
  have no: "\<not> ?o k" if "length pre \<le> k" "k < ?j" for k
  proof
    assume "?o k"
    moreover have "k - length pre < length l" using that by linarith
    ultimately have "l ! (k - length pre) = CHR 0x0A" "k - length pre < length l" using that by (simp_all add: o nth_append)
    then show False using assms by (metis nth_mem)
  qed
  have f: "first_index ?o (length pre) (Suc (length ?d)) (lmemfind ?d (length pre) (length ?d - length pre) [CHR 0x0A])"
    by (rule lmemfind_first) simp
  have "lmemfind ?d (length pre) (length ?d - length pre) [CHR 0x0A] = Some ?j"
  proof (cases "lmemfind ?d (length pre) (length ?d - length pre) [CHR 0x0A]")
    case None
    then have "\<not> ?o ?j" using f by (simp only: first_index_def option.case) simp
    then show ?thesis using hit by simp
  next
    case (Some j)
    then have j: "length pre \<le> j" "?o j" "\<And>k. length pre \<le> k \<Longrightarrow> k < j \<Longrightarrow> \<not> ?o k"
      using f by (simp_all only: first_index_def option.case) blast+
    have "j = ?j" using no [of j] j(1,2) j(3) [of ?j] hit by (meson le_add1 linorder_neqE_nat)
    then show ?thesis using Some by simp
  qed
  then show ?thesis by (simp add: find_newline_def Let_def)
qed

lemma find_newline_end: "find_newline data (Suc (length data)) = None"
proof (cases "find_newline data (Suc (length data))")
  case (Some p)
  then have False using find_newline_bounds [OF Some] by linarith
  then show ?thesis ..
qed

lemma str_sub_line: "str_sub (pre @ l @ rest) (int (Suc (length pre))) (int (length pre + length l)) = l"
  by (subst str_sub_nat) simp_all

section \<open>Tables\<close>

definition parsed_entry :: "string \<Rightarrow> string \<Rightarrow> dt_entry" where
  "parsed_entry cs nm =
     \<lparr>e_digest = Some (if length cs = MD5_LEN then MD5 else if length cs = SHA1_LEN then SHA1 else SHA256),
      e_checksum = Some cs, e_name = Some nm, e_name2check = None\<rparr>"

lemma parse_lines_step:
  assumes "CHR 0x0A \<notin> set l" "parse_line (l @ [CHR 0x0A]) = Inr (cs, nm)"
  shows "parse_lines (pre @ l @ CHR 0x0A # rest) (Suc (length pre)) n dt =
    parse_lines (pre @ l @ CHR 0x0A # rest) (Suc (Suc (length pre + length l))) (n + 1) (dt @ [parsed_entry cs nm])"
proof -
  have "str_sub (pre @ l @ CHR 0x0A # rest) (int (Suc (length pre))) (int (Suc (length pre + length l))) = l @ [CHR 0x0A]"
    using str_sub_line [of pre "l @ [CHR 0x0A]" rest] by simp
  moreover have "length cs \<in> {MD5_LEN, SHA1_LEN, SHA256_LEN}" using parse_line_sound [OF assms(2)] by simp
  ultimately show ?thesis
    using assms find_newline_some [OF assms(1), of pre rest]
    by (subst parse_lines.simps) (auto simp: new_entry_def parsed_entry_def Let_def simp del: of_nat_Suc)
qed

lemma parse_lines_texts:
  assumes "\<And>cs nm. (cs, nm) \<in> set xs \<Longrightarrow> CHR 0x0A \<notin> set cs \<and> CHR 0x0A \<notin> set nm \<and> parse_line (cs @ ''  '' @ nm @ [CHR 0x0A]) = Inr (cs, nm)"
  shows "parse_lines (pre @ concat (List.map (\<lambda>(cs, nm). cs @ ''  '' @ nm @ [CHR 0x0A]) xs)) (Suc (length pre)) n dt =
    Inr (dt @ List.map (\<lambda>(cs, nm). parsed_entry cs nm) xs)"
  using assms
proof (induction xs arbitrary: pre n dt)
  case Nil
  then show ?case by (subst parse_lines.simps) (simp add: find_newline_end)
next
  case (Cons x xs)
  obtain cs nm where x: "x = (cs, nm)" by force
  let ?l = "cs @ ''  '' @ nm" and ?r = "concat (List.map (\<lambda>(cs, nm). cs @ ''  '' @ nm @ [CHR 0x0A]) xs)"
  have p: "CHR 0x0A \<notin> set ?l" "parse_line (?l @ [CHR 0x0A]) = Inr (cs, nm)" using Cons.prems [of cs nm] x by auto
  have "parse_lines (pre @ ?l @ CHR 0x0A # ?r) (Suc (length pre)) n dt =
      parse_lines ((pre @ ?l @ [CHR 0x0A]) @ ?r) (Suc (length (pre @ ?l @ [CHR 0x0A]))) (n + 1) (dt @ [parsed_entry cs nm])"
    using parse_lines_step [OF p, of pre ?r n dt] by simp
  also have "\<dots> = Inr ((dt @ [parsed_entry cs nm]) @ List.map (\<lambda>(cs, nm). parsed_entry cs nm) xs)"
    using Cons.prems by (intro Cons.IH) auto
  finally show ?case by (simp add: x)
qed

lemma parse_lines_sound:
  "parse_lines data init n dt = Inr dt' \<Longrightarrow>
   \<exists>xs. dt' = dt @ List.map (\<lambda>(cs, nm). parsed_entry cs nm) xs \<and> (\<forall>(cs, nm) \<in> set xs. \<exists>line. parse_line line = Inr (cs, nm))"
proof (induction data init n dt rule: parse_lines.induct)
  case (1 data init n dt)
  show ?case
  proof (cases "find_newline data init")
    case None
    then have "dt' = dt" using 1(4) by (simp add: parse_lines.simps [of data init n dt] split: if_splits)
    then show ?thesis by (intro exI [of _ "[]"]) simp
  next
    case (Some pos)
    let ?line = "str_sub data (int init) (int pos)"
    obtain cs nm where pl: "parse_line ?line = Inr (cs, nm)"
      using 1(4) Some by (simp add: parse_lines.simps [of data init n dt] Let_def split: sum.splits prod.splits)
    have "parse_lines data (pos + 1) (n + 1) (dt @ [parsed_entry cs nm]) = Inr dt'"
      using 1(4) Some pl by (simp add: parse_lines.simps [of data init n dt] Let_def new_entry_def parsed_entry_def split: if_splits)
    moreover have "\<exists>xs. dt' = (dt @ [parsed_entry cs nm]) @ List.map (\<lambda>(cs, nm). parsed_entry cs nm) xs \<and>
        (\<forall>(cs, nm) \<in> set xs. \<exists>line. parse_line line = Inr (cs, nm))"
      if "parse_lines data (pos + 1) (n + 1) (dt @ [parsed_entry cs nm]) = Inr dt'"
      using 1(1-3) [OF Some refl pl refl] that parse_line_sound [OF pl]
      by (auto simp: new_entry_def parsed_entry_def split: if_splits)
    ultimately obtain xs where "dt' = (dt @ [parsed_entry cs nm]) @ List.map (\<lambda>(cs, nm). parsed_entry cs nm) xs"
        "\<forall>(cs, nm) \<in> set xs. \<exists>line. parse_line line = Inr (cs, nm)" by blast
    then show ?thesis using pl by (intro exI [of _ "(cs, nm) # xs"]) auto
  qed
qed

section \<open>Written tables\<close>

definition plain_sprintf :: "fmt_env \<Rightarrow> bool" where
  "plain_sprintf E \<longleftrightarrow> (\<forall>s. NUL \<notin> set s \<longrightarrow> sprintf_str E ''%s'' s = s)"

lemma c_str_plain: "NUL \<notin> set s \<Longrightarrow> c_str s = s"
  by (induction s) (auto simp: c_str_def NUL_def)

lemma format_string_item:
  assumes "plain_sprintf E" "NUL \<notin> set s" "fmt_arg args n = LString s"
  shows "format_item E args n ''%s'' CHR ''s'' = Inr s"
  using assms by (simp add: format_item_def fmt_string_def capture_text_def plain_sprintf_def c_str_plain)

lemma entry_line_text:
  assumes "plain_sprintf E" "NUL \<notin> set cs" "NUL \<notin> set nm" "e_checksum entry = Some cs" "e_name entry = Some nm"
  shows "entry_line E entry = Inr (cs @ ''  '' @ nm @ [CHR 0x0A])"
proof -
  let ?F = "''%s  %s'' @ [CHR 0x0A]" and ?args = "[LString cs, LString nm]"
  have 1: "format_item E ?args 2 ''%s'' CHR ''s'' = Inr cs" "format_item E ?args 3 ''%s'' CHR ''s'' = Inr nm"
    using assms by (auto intro!: format_string_item simp: fmt_arg_def)
  have 2: "scanformat ?F (Suc 0) = Inr (''%s'', Suc 0)" "scanformat ?F 5 = Inr (''%s'', 5)"
    by code_simp+
  show ?thesis
    using 1 2 assms(4,5)
    by (simp add: entry_line_def str_format_def format_loop.simps [of _ _ _ _ "numeral _"] format_loop.simps [of _ _ _ _ 0]
        char_at_def L_ESC_def eval_nat_numeral format_loop.simps)
qed

lemma sanity_loop_entries:
  "sanity_loop pos d dt = Inr () \<Longrightarrow> e \<in> set dt \<Longrightarrow>
   \<exists>dg cs nm. e_digest e = Some dg \<and> e_checksum e = Some cs \<and> e_name e = Some nm \<and> nm \<noteq> [] \<and> checksum_fits dg (length cs)"
proof (induction pos d dt rule: sanity_loop.induct)
  case (2 pos d entry dt)
  then show ?case by (cases "e = entry") (auto simp: Let_def split: if_splits option.splits)
qed simp

lemma read_loop_blocks: "[] \<notin> set bs \<Longrightarrow> read_loop (List.map Inr bs) data = Inr (data @ concat bs)"
  by (induction bs arbitrary: data) auto

lemma sanity_checkD:
  assumes "sanity_check dt = Inr ()" "e \<in> set dt"
  shows "\<exists>dg cs nm. e_digest e = Some dg \<and> e_checksum e = Some cs \<and> e_name e = Some nm \<and> nm \<noteq> [] \<and> checksum_fits dg (length cs)"
  using assms sanity_loop_entries [of 1 None dt e] by (simp add: sanity_check_def split: if_splits)

text \<open>What the format of the lines needs besides: the checksum in hexadecimal, and a name without newlines and zeros.\<close>

definition plain_entry :: "dt_entry \<Rightarrow> bool" where
  "plain_entry e \<longleftrightarrow>
     e_name2check e = None \<and> list_all ishex (the (e_checksum e)) \<and> list_all (\<lambda>c. c \<noteq> CHR 0x0A \<and> c \<noteq> NUL) (the (e_name e))"

lemma ishex_plain: "ishex c \<Longrightarrow> c \<noteq> CHR 0x0A \<and> c \<noteq> NUL"
  by (auto simp: ishex_def NUL_def less_eq_char_def)

lemma checksum_fits_length: "checksum_fits dg n \<Longrightarrow> n \<in> {MD5_LEN, SHA1_LEN, SHA256_LEN}"
  by (auto simp: checksum_fits_def)

lemma entry_roundtrip:
  assumes "sanity_check dt = Inr ()" "e \<in> set dt" "plain_entry e" "plain_sprintf E"
  obtains cs nm where "e = parsed_entry cs nm" "entry_line E e = Inr (cs @ ''  '' @ nm @ [CHR 0x0A])"
    "CHR 0x0A \<notin> set cs" "CHR 0x0A \<notin> set nm" "parse_line (cs @ ''  '' @ nm @ [CHR 0x0A]) = Inr (cs, nm)"
proof -
  obtain dg cs nm where e: "e_digest e = Some dg" "e_checksum e = Some cs" "e_name e = Some nm" "nm \<noteq> []" and fits: "checksum_fits dg (length cs)"
    using sanity_checkD [OF assms(1,2)] by blast
  have cs: "\<forall>c \<in> set cs. ishex c" and nm: "CHR 0x0A \<notin> set nm" "NUL \<notin> set nm" and n2: "e_name2check e = None"
    using assms(3) e by (auto simp: plain_entry_def list_all_iff)
  have cs2: "CHR 0x0A \<notin> set cs" "NUL \<notin> set cs" using cs ishex_plain by blast+
  have "e = parsed_entry cs nm"
    using e n2 fits by (cases e) (auto simp: parsed_entry_def checksum_fits_def MD5_LEN_def SHA1_LEN_def SHA256_LEN_def)
  moreover have "entry_line E e = Inr (cs @ ''  '' @ nm @ [CHR 0x0A])"
    by (rule entry_line_text [OF assms(4) cs2(2) nm(2) e(2,3)])
  moreover have "parse_line (cs @ ''  '' @ nm @ [CHR 0x0A]) = Inr (cs, nm)"
    by (rule parse_line_text [OF cs checksum_fits_length [OF fits] e(4) nm(1)])
  ultimately show ?thesis using that cs2 nm by blast
qed

lemma write_lines_texts:
  assumes "\<And>e. e \<in> set dt \<Longrightarrow> e = parsed_entry (the (e_checksum e)) (the (e_name e)) \<and>
      entry_line E e = Inr (the (e_checksum e) @ ''  '' @ the (e_name e) @ [CHR 0x0A])"
  shows "write_lines E dt = Inr (concat (List.map (\<lambda>(cs, nm). cs @ ''  '' @ nm @ [CHR 0x0A]) (List.map (\<lambda>e. (the (e_checksum e), the (e_name e))) dt)))"
  using assms by (induction dt) auto

section \<open>Properties of digest files\<close>

text \<open>
  C31 (roundtrip): a table that \<open>digest_write\<close> accepts, with checksums in hexadecimal and names without newlines and
  zeros, is written, and parsing the file gives back the table, whatever the blocks are in which the file is read.
\<close>

theorem digest_write_parse:
  assumes "plain_sprintf E" and ok: "sanity_check dt = Inr ()" and "\<forall>e \<in> set dt. plain_entry e"
    and "\<And>out. file_write out = None"
  shows "\<exists>out. digest_write E file_write dt = Inr out \<and>
    (\<forall>blocks. [] \<notin> set blocks \<and> concat blocks = out \<longrightarrow> digest_parse (Inr (List.map Inr blocks)) None = Inr dt)"
proof -
  let ?xs = "List.map (\<lambda>e. (the (e_checksum e), the (e_name e))) dt"
  let ?out = "concat (List.map (\<lambda>(cs, nm). cs @ ''  '' @ nm @ [CHR 0x0A]) ?xs)"
  have e: "e = parsed_entry (the (e_checksum e)) (the (e_name e)) \<and>
      entry_line E e = Inr (the (e_checksum e) @ ''  '' @ the (e_name e) @ [CHR 0x0A]) \<and>
      CHR 0x0A \<notin> set (the (e_checksum e)) \<and> CHR 0x0A \<notin> set (the (e_name e)) \<and>
      parse_line (the (e_checksum e) @ ''  '' @ the (e_name e) @ [CHR 0x0A]) = Inr (the (e_checksum e), the (e_name e))"
    if e: "e \<in> set dt" for e
  proof -
    have "plain_entry e" using assms(3) e by blast
    then show ?thesis using assms(1) by (rule entry_roundtrip [OF ok e]) (auto simp: parsed_entry_def)
  qed
  have "write_lines E dt = Inr ?out" using e by (intro write_lines_texts) blast
  then have w: "digest_write E file_write dt = Inr ?out" using ok assms(4) by (simp add: digest_write_def)
  have "parse_lines ([] @ ?out) (Suc (length ([] :: string))) 1 [] = Inr ([] @ List.map (\<lambda>(cs, nm). parsed_entry cs nm) ?xs)"
    using e by (intro parse_lines_texts) auto
  moreover have "List.map (\<lambda>(cs, nm). parsed_entry cs nm) ?xs = dt" using e by (auto simp: comp_def intro!: map_idI)
  ultimately have "parsestring ?out = Inr dt" by (simp add: parsestring_def)
  then show ?thesis using w by (auto simp: digest_parse_def read_loop_blocks)
qed

definition test_fmt :: fmt_env where
  "test_fmt = \<lparr>num_text = \<lambda>_. [], to_number = \<lambda>_. None, sprintf_int = \<lambda>_ _. [], sprintf_double = \<lambda>_ _. [], sprintf_str = \<lambda>_ s. s\<rparr>"

definition test_dt :: dt where
  "test_dt = [\<lparr>e_digest = Some SHA1, e_checksum = Some ''da39a3ee5e6b4b0d3255bfef95601890afd80709'', e_name = Some ''an empty file'', e_name2check = None\<rparr>,
    \<lparr>e_digest = Some SHA1, e_checksum = Some ''A9993E364706816ABA3E25717850C26C9CD0D89D'', e_name = Some ''abc'', e_name2check = None\<rparr>]"

theorem digest_write_parse_witness:
  "\<exists>out. digest_write test_fmt (\<lambda>_. None) test_dt = Inr out \<and> parsestring out = Inr test_dt \<and>
    digest_parse (Inr [Inr (take 5 out), Inr (drop 5 out)]) None = Inr test_dt"
proof -
  have "plain_sprintf test_fmt" by (simp add: plain_sprintf_def test_fmt_def)
  moreover have "sanity_check test_dt = Inr ()" "\<forall>e \<in> set test_dt. plain_entry e" by code_simp+
  ultimately obtain out where w: "digest_write test_fmt (\<lambda>_. None) test_dt = Inr out"
    and p: "\<And>blocks. [] \<notin> set blocks \<Longrightarrow> concat blocks = out \<Longrightarrow> digest_parse (Inr (List.map Inr blocks)) None = Inr test_dt"
    using digest_write_parse [of test_fmt test_dt "\<lambda>_. None"] by blast
  have "digest_write test_fmt (\<lambda>_. None) test_dt = Inr (concat (List.map (\<lambda>e. the (e_checksum e) @ ''  '' @ the (e_name e) @ [CHR 0x0A]) test_dt))"
    by code_simp
  then have out: "out = concat (List.map (\<lambda>e. the (e_checksum e) @ ''  '' @ the (e_name e) @ [CHR 0x0A]) test_dt)" using w by simp
  have "take 5 out \<noteq> []" "drop 5 out \<noteq> []" "out \<noteq> []" unfolding out by code_simp+
  then have "digest_parse (Inr [Inr out]) None = Inr test_dt" "digest_parse (Inr [Inr (take 5 out), Inr (drop 5 out)]) None = Inr test_dt"
    using p [of "[out]"] p [of "[take 5 out, drop 5 out]"] by simp_all
  moreover have "parsestring out = Inr test_dt" if "digest_parse (Inr [Inr out]) None = Inr test_dt"
    using that \<open>out \<noteq> []\<close> by (simp add: digest_parse_def split: sum.splits)
  ultimately show ?thesis using w by blast
qed

text \<open>
  C34 (type): every entry of a parsed table has a known digest type that fits the length of its checksum, a checksum
  in hexadecimal and a name that is not empty and has no newline; \<open>name2check\<close> is not set.
\<close>

theorem parsestring_entry_type:
  assumes "parsestring data = Inr dt"
  shows "\<forall>e \<in> set dt. \<exists>dg cs nm. e = \<lparr>e_digest = Some dg, e_checksum = Some cs, e_name = Some nm, e_name2check = None\<rparr> \<and>
    checksum_fits dg (length cs) \<and> (\<forall>c \<in> set cs. ishex c) \<and> nm \<noteq> [] \<and> CHR 0x0A \<notin> set nm"
proof
  fix e
  assume "e \<in> set dt"
  then obtain cs nm line where e: "e = parsed_entry cs nm" and l: "parse_line line = Inr (cs, nm)"
    using parse_lines_sound [of data 1 1 "[]" dt] assms unfolding parsestring_def by fastforce
  show "\<exists>dg cs nm. e = \<lparr>e_digest = Some dg, e_checksum = Some cs, e_name = Some nm, e_name2check = None\<rparr> \<and>
    checksum_fits dg (length cs) \<and> (\<forall>c \<in> set cs. ishex c) \<and> nm \<noteq> [] \<and> CHR 0x0A \<notin> set nm"
    unfolding e parsed_entry_def using parse_line_sound [OF l]
    by (auto simp: checksum_fits_def MD5_LEN_def SHA1_LEN_def SHA256_LEN_def)
qed

theorem parsestring_entry_type_witness:
  "\<exists>dt. parsestring (''da39a3ee5e6b4b0d3255bfef95601890afd80709  a'' @ [CHR 0x0A]) = Inr dt \<and> length dt = 1 \<and>
    (\<exists>dg cs nm. hd dt = \<lparr>e_digest = Some dg, e_checksum = Some cs, e_name = Some nm, e_name2check = None\<rparr> \<and> checksum_fits dg (length cs))"
proof -
  have p: "parsestring (''da39a3ee5e6b4b0d3255bfef95601890afd80709  a'' @ [CHR 0x0A]) =
      Inr [parsed_entry ''da39a3ee5e6b4b0d3255bfef95601890afd80709'' ''a'']" by code_simp
  show ?thesis using p parsestring_entry_type [OF p] by auto
qed

text \<open>Without these conditions the written file need not parse: a name with a newline passes the check.\<close>

theorem sanity_check_accepts_newline:
  "let dt = [\<lparr>e_digest = Some SHA1, e_checksum = Some (replicate 40 CHR ''0''), e_name = Some (''a'' @ [CHR 0x0A] @ ''b''), e_name2check = None\<rparr>] in
   sanity_check dt = Inr () \<and>
   (case digest_write test_fmt (\<lambda>_. None) dt of Inl _ \<Rightarrow> False | Inr out \<Rightarrow> parsestring out = Inl (In_line 2 (Unexpected_character CHR 0x0A 2 (''b'' @ [CHR 0x0A]))))"
  by code_simp

section \<open>Checksums of a table\<close>

text \<open>When an entry agrees with its file; \<open>truth\<close> gives the checksum of a file.\<close>

definition verifies :: "(int \<Rightarrow> string \<Rightarrow> dg_err + string) \<Rightarrow> string option \<Rightarrow> dt_entry \<Rightarrow> bool" where
  "verifies truth directory e \<longleftrightarrow>
     (\<exists>dg filename cs. checksum_filename e directory = Inr filename \<and> e_digest e = Some dg \<and> dg \<in> {SHA1, SHA256} \<and>
        e_checksum e = Some cs \<and> truth dg filename = Inr (str_lower cs))"

definition absolute :: "string option \<Rightarrow> dt_entry \<Rightarrow> bool" where
  "absolute directory e \<longleftrightarrow> (case checksum_filename e directory of Inl _ \<Rightarrow> True | Inr filename \<Rightarrow> take 1 filename = ''/'')"

text \<open>
  A source of checksums with a state, which in every good state delivers the checksums of the files. It may refuse a
  file that is not named by an absolute path.
\<close>

locale checksum_source =
  fixes summer :: "'c summer" and good :: "'c \<Rightarrow> bool" and truth :: "int \<Rightarrow> string \<Rightarrow> dg_err + string"
  assumes summer_law: "good s \<Longrightarrow> dg \<in> {SHA1, SHA256} \<Longrightarrow>
      \<exists>r s'. summer dg filename s = (r, s') \<and> good s' \<and> (r = truth dg filename \<or> take 1 filename \<noteq> ''/'' \<and> (\<exists>e. r = Inl e))"
begin

lemma entry_verify:
  assumes "good s"
  shows "\<exists>r s'. compute_checksum_entry summer e directory True s = (r, s') \<and> good s' \<and>
    (case r of Inl _ \<Rightarrow> absolute directory e \<longrightarrow> \<not> verifies truth directory e | Inr e' \<Rightarrow> e' = e \<and> verifies truth directory e)"
proof (cases "checksum_filename e directory")
  case (Inr filename)
  show ?thesis
  proof (cases "e_digest e \<in> {Some SHA1, Some SHA256}")
    case True
    then obtain dg where dg: "e_digest e = Some dg" "dg \<in> {SHA1, SHA256}" by auto
    obtain r s' where 1: "summer dg filename s = (r, s')" "good s'" "r = truth dg filename \<or> take 1 filename \<noteq> ''/'' \<and> (\<exists>e. r = Inl e)"
      using summer_law [OF assms dg(2)] by blast
    show ?thesis
    proof (cases "r = truth dg filename")
      case True
      then show ?thesis
        using Inr dg 1(1,2) by (auto simp: compute_checksum_entry_def verifies_def split: sum.split option.split)
    next
      case False
      then obtain err where "r = Inl err" "\<not> absolute directory e" using 1(3) Inr by (auto simp: absolute_def)
      then show ?thesis using Inr dg 1(1,2) by (auto simp: compute_checksum_entry_def)
    qed
  qed (use Inr assms in \<open>auto simp: compute_checksum_entry_def verifies_def\<close>)
qed (use assms in \<open>simp add: compute_checksum_entry_def verifies_def\<close>)

lemma loop_verify:
  assumes "good s"
  shows "\<exists>r s'. checksum_loop summer directory True dt s = (r, dt, s') \<and> good s' \<and>
    (r = None \<longrightarrow> (\<forall>e \<in> set dt. verifies truth directory e)) \<and>
    ((\<forall>e \<in> set dt. absolute directory e \<and> verifies truth directory e) \<longrightarrow> r = None)"
  using assms
proof (induction dt arbitrary: s)
  case (Cons e dt)
  obtain r s' where 1: "compute_checksum_entry summer e directory True s = (r, s')" "good s'"
      "case r of Inl _ \<Rightarrow> absolute directory e \<longrightarrow> \<not> verifies truth directory e | Inr e' \<Rightarrow> e' = e \<and> verifies truth directory e"
    using entry_verify [OF Cons.prems, of e directory] by blast
  obtain r2 s2 where "checksum_loop summer directory True dt s' = (r2, dt, s2)" "good s2"
      "r2 = None \<longrightarrow> (\<forall>e \<in> set dt. verifies truth directory e)"
      "(\<forall>e \<in> set dt. absolute directory e \<and> verifies truth directory e) \<longrightarrow> r2 = None"
    using Cons.IH [OF 1(2)] by blast
  then show ?case using 1 by (cases r) auto
qed simp

lemma verify_iff:
  assumes "good s"
  shows "\<exists>r s'. digest_verify summer dt directory s = (r, dt, s') \<and> good s' \<and>
    (r = None \<longrightarrow> (\<forall>e \<in> set dt. verifies truth directory e)) \<and>
    ((\<forall>e \<in> set dt. absolute directory e \<and> verifies truth directory e) \<longrightarrow> r = None)"
  using loop_verify [OF assms, of directory dt] by (elim exE conjE) (simp add: digest_verify_def)

lemma entry_checksum:
  assumes "good s" "compute_checksum_entry summer e directory False s = (Inr e', s')"
    "\<And>dg filename cs. truth dg filename = Inr cs \<Longrightarrow> str_lower cs = cs"
  shows "good s' \<and> verifies truth directory e' \<and> absolute directory e' = absolute directory e \<and> (\<exists>cs. e' = e\<lparr>e_checksum := Some cs\<rparr>)"
proof -
  obtain filename dg where f: "checksum_filename e directory = Inr filename" and dg: "e_digest e = Some dg" "dg \<in> {SHA1, SHA256}"
    using assms(2) by (auto simp: compute_checksum_entry_def split: sum.splits if_splits)
  obtain r s2 where 1: "summer dg filename s = (r, s2)" "good s2" "r = truth dg filename \<or> (\<exists>e. r = Inl e)"
    using summer_law [OF assms(1) dg(2)] by blast
  obtain cs where cs: "r = Inr cs" "e' = e\<lparr>e_checksum := Some cs\<rparr>" "s' = s2"
    using assms(2) f dg 1(1) by (auto simp: compute_checksum_entry_def split: sum.splits)
  moreover have "truth dg filename = Inr cs" using 1(3) cs(1) by auto
  moreover have "checksum_filename (e\<lparr>e_checksum := Some cs\<rparr>) directory = Inr filename" for cs using f by (simp add: checksum_filename_def split: option.splits)
  ultimately show ?thesis using assms(3) 1(2) f dg by (auto simp: verifies_def absolute_def)
qed

lemma checksum_verifies:
  assumes "good s" "digest_checksum summer dt directory s = (None, dt', s')"
    "\<And>dg filename cs. truth dg filename = Inr cs \<Longrightarrow> str_lower cs = cs"
  shows "good s' \<and> List.map e_name dt' = List.map e_name dt \<and> (\<forall>e \<in> set dt'. verifies truth directory e) \<and>
    ((\<forall>e \<in> set dt. absolute directory e) \<longrightarrow> (\<forall>e \<in> set dt'. absolute directory e))"
proof -
  have "checksum_loop summer directory False dt s = (None, dt', s')" using assms(2) by (simp add: digest_checksum_def split: prod.splits)
  then show ?thesis using assms(1)
  proof (induction dt arbitrary: s dt')
    case (Cons e dt)
    obtain e1 s1 where 1: "compute_checksum_entry summer e directory False s = (Inr e1, s1)"
      using Cons.prems(1) by (simp split: prod.splits sum.splits)
    then obtain dt1 where 2: "checksum_loop summer directory False dt s1 = (None, dt1, s')" "dt' = e1 # dt1"
      using Cons.prems(1) by (auto split: prod.splits)
    have e1: "good s1 \<and> verifies truth directory e1 \<and> absolute directory e1 = absolute directory e \<and> (\<exists>cs. e1 = e\<lparr>e_checksum := Some cs\<rparr>)"
      by (rule entry_checksum [OF Cons.prems(2) 1]) (rule assms(3))
    then show ?case using Cons.IH [OF 2(1)] 2(2) by auto
  qed simp
qed

end

end
