(* ===== verification/E2_Cscache.thy ===== *)
theory E2_Cscache
  imports E2_Digest
begin

text \<open>
  The checksum cache, \<^verbatim>\<open>local/cscache.lua\<close>, and the functions of \<^verbatim>\<open>local/digest.lua\<close> that sum a file with it. What the
  operating system answers at one moment is an argument, \<open>env\<close>; a trace has one such argument per call.
  Log output and the file that \<^verbatim>\<open>store_cache\<close> writes at exit are left out; the file that \<^verbatim>\<open>load_cache\<close> reads is
  part of \<open>env\<close>.
\<close>

section \<open>Model of the cache\<close>

text \<open>The members of the table that \<^verbatim>\<open>e2lib.stat\<close> returns which the cache reads.\<close>

record sb =
  sb_mtime :: lua_Number
  sb_mtime_nsec :: lua_Number
  sb_ctime :: lua_Number
  sb_ctime_nsec :: lua_Number
  sb_size :: lua_Number
  sb_dev :: lua_Number
  sb_ino :: lua_Number

record hce =
  hce_sha1 :: "string option"
  hce_sha256 :: "string option"
  hce_mtime :: lua_Number
  hce_mtime_nsec :: lua_Number
  hce_ctime :: lua_Number
  hce_ctime_nsec :: lua_Number
  hce_size :: lua_Number
  hce_dev :: lua_Number
  hce_ino :: lua_Number
  hce_use :: lua_Number
  hce_logged :: bool

record cs_cache =
  csdict :: "(string \<rightharpoonup> hce) option"
  cleanup_registered :: bool

text \<open>
  A file is opened with an error or gives the results of the calls that read it. The cache file is absent, or
  running it raises an error, or it gives a value that is no table, or the entries of a table: a key and a value
  that can be indexed or not.
\<close>

type_synonym raw_entry = "lua_value \<times> (string \<Rightarrow> lua_value) option"

record cs_env =
  fs_exists :: "string \<Rightarrow> bool"
  fs_stat :: "string \<Rightarrow> sb option"
  fs_open :: "string \<Rightarrow> string + (string + string) list"
  os_time :: lua_Number
  build_mode :: string
  hashcache :: "(lua_err + raw_entry list option) option"

definition cs_assert :: lua_err where "cs_assert = Run_error ''assertion failed!''"

definition is_number :: "lua_value \<Rightarrow> bool" where
  "is_number v = (case v of LNumber _ \<Rightarrow> True | _ \<Rightarrow> False)"

definition num_field :: "(string \<Rightarrow> lua_value) \<Rightarrow> string \<Rightarrow> lua_Number" where
  "num_field g k = (case g k of LNumber x \<Rightarrow> x | _ \<Rightarrow> 0)"

definition sum_field :: "(string \<Rightarrow> lua_value) \<Rightarrow> string \<Rightarrow> nat \<Rightarrow> string option" where
  "sum_field g k len = (case g k of LString s \<Rightarrow> if length s \<noteq> len then None else Some s | _ \<Rightarrow> None)"

text \<open>An entry of the cache file, None if it is not taken over.\<close>

definition load_entry :: "(string \<Rightarrow> lua_value) \<Rightarrow> hce option" where
  "load_entry g =
     (if is_number (g ''mtime'') \<and> is_number (g ''mtime_nsec'') \<and> is_number (g ''ctime'') \<and> is_number (g ''ctime_nsec'') \<and>
         is_number (g ''size'') \<and> is_number (g ''dev'') \<and> is_number (g ''ino'') \<and> is_number (g ''use'')
      then let sha1 = sum_field g ''sha1'' SHA1_LEN; sha256 = sum_field g ''sha256'' SHA256_LEN in
        if sha1 \<noteq> None \<or> sha256 \<noteq> None then
          Some \<lparr>hce_sha1 = sha1, hce_sha256 = sha256, hce_mtime = num_field g ''mtime'', hce_mtime_nsec = num_field g ''mtime_nsec'',
            hce_ctime = num_field g ''ctime'', hce_ctime_nsec = num_field g ''ctime_nsec'', hce_size = num_field g ''size'',
            hce_dev = num_field g ''dev'', hce_ino = num_field g ''ino'', hce_use = num_field g ''use'', hce_logged = False\<rparr>
        else None
      else None)"

fun load_loop :: "raw_entry list \<Rightarrow> (string \<rightharpoonup> hce) \<Rightarrow> (lua_err + unit) \<times> (string \<rightharpoonup> hce)" where
  "load_loop [] d = (Inr (), d)"
| "load_loop ((k, v) # tab) d =
     (case k of
        LString path \<Rightarrow>
          if path = [] then load_loop tab d
          else (case v of
                  None \<Rightarrow> (Inl (Run_error ''attempt to index local hce''), d)
                | Some g \<Rightarrow> (case load_entry g of None \<Rightarrow> load_loop tab d | Some hce \<Rightarrow> load_loop tab (d(path \<mapsto> hce))))
      | _ \<Rightarrow> load_loop tab d)"

definition load_cache :: "cs_env \<Rightarrow> cs_cache \<Rightarrow> (lua_err + unit) \<times> cs_cache" where
  "load_cache env c =
     (let c = c\<lparr>csdict := Some Map.empty\<rparr> in
      if build_mode env = ''release'' then (Inr (), c)
      else
        let c = c\<lparr>cleanup_registered := True\<rparr> in
        case hashcache env of
          None \<Rightarrow> (Inr (), c)
        | Some (Inl e) \<Rightarrow> (Inl e, c)
        | Some (Inr None) \<Rightarrow> (Inr (), c)
        | Some (Inr (Some tab)) \<Rightarrow> (case load_loop tab Map.empty of (r, d) \<Rightarrow> (r, c\<lparr>csdict := Some d\<rparr>)))"

definition loaded :: "cs_env \<Rightarrow> cs_cache \<Rightarrow> (lua_err + (string \<rightharpoonup> hce)) \<times> cs_cache" where
  "loaded env c =
     (case csdict c of
        Some d \<Rightarrow> (Inr d, c)
      | None \<Rightarrow>
          (case load_cache env c of
             (Inl e, c) \<Rightarrow> (Inl e, c)
           | (Inr _, c) \<Rightarrow> (case csdict c of None \<Rightarrow> (Inl cs_assert, c) | Some d \<Rightarrow> (Inr d, c))))"

definition hce_differs :: "hce \<Rightarrow> sb \<Rightarrow> bool" where
  "hce_differs hce sb \<longleftrightarrow>
     hce_mtime hce \<noteq> sb_mtime sb \<or> hce_mtime_nsec hce \<noteq> sb_mtime_nsec sb \<or> hce_ctime hce \<noteq> sb_ctime sb \<or>
     hce_ctime_nsec hce \<noteq> sb_ctime_nsec sb \<or> hce_size hce \<noteq> sb_size sb \<or> hce_dev hce \<noteq> sb_dev sb \<or> hce_ino hce \<noteq> sb_ino sb"

text \<open>The result None is false.\<close>

definition cs_lookup :: "cs_env \<Rightarrow> string \<Rightarrow> int \<Rightarrow> cs_cache \<Rightarrow> (lua_err + string option) \<times> cs_cache" where
  "cs_lookup env filename digest_type c =
     (if filename = [] \<or> digest_type \<notin> {SHA1, SHA256} then (Inl cs_assert, c)
      else case loaded env c of
        (Inl e, c) \<Rightarrow> (Inl e, c)
      | (Inr d, c) \<Rightarrow>
          (case d filename of
             None \<Rightarrow> (Inr None, c)
           | Some hce \<Rightarrow>
               (case (if digest_type = SHA1 then hce_sha1 hce else hce_sha256 hce) of
                  None \<Rightarrow> (Inr None, c)
                | Some cs \<Rightarrow>
                    if \<not> fs_exists env filename then (Inr None, c\<lparr>csdict := Some (d(filename := None))\<rparr>)
                    else case fs_stat env filename of
                      None \<Rightarrow> (Inr None, c\<lparr>csdict := Some (d(filename := None))\<rparr>)
                    | Some sb \<Rightarrow>
                        if hce_differs hce sb then (Inr None, c\<lparr>csdict := Some (d(filename := None))\<rparr>)
                        else (Inr (Some cs), c\<lparr>csdict := Some (d(filename \<mapsto> hce\<lparr>hce_use := os_time env, hce_logged := True\<rparr>))\<rparr>))))"

definition cs_store :: "cs_env \<Rightarrow> string \<Rightarrow> string option \<Rightarrow> string option \<Rightarrow> cs_cache \<Rightarrow> cs_cache" where
  "cs_store env filename sha1 sha256 c =
     (if \<not> fs_exists env filename then c
      else case fs_stat env filename of
        None \<Rightarrow> c
      | Some sb \<Rightarrow>
          c\<lparr>csdict := map_option (\<lambda>d. d(filename \<mapsto>
            \<lparr>hce_sha1 = sha1, hce_sha256 = sha256, hce_mtime = sb_mtime sb, hce_mtime_nsec = sb_mtime_nsec sb,
             hce_ctime = sb_ctime sb, hce_ctime_nsec = sb_ctime_nsec sb, hce_size = sb_size sb, hce_dev = sb_dev sb,
             hce_ino = sb_ino sb, hce_use = 0, hce_logged = True\<rparr>)) (csdict c)\<rparr>)"

definition cs_insert :: "cs_env \<Rightarrow> string \<Rightarrow> string \<Rightarrow> int \<Rightarrow> cs_cache \<Rightarrow> (lua_err + unit) \<times> cs_cache" where
  "cs_insert env filename checksum digest_type c =
     (if take 1 filename \<noteq> ''/'' \<or> checksum = [] \<or> digest_type \<notin> {SHA1, SHA256} then (Inl cs_assert, c)
      else case loaded env c of
        (Inl e, c) \<Rightarrow> (Inl e, c)
      | (Inr _, c) \<Rightarrow>
          if digest_type = SHA1 then
            if length checksum \<noteq> SHA1_LEN then (Inl cs_assert, c)
            else (case cs_lookup env filename SHA256 c of
                    (Inl e, c) \<Rightarrow> (Inl e, c)
                  | (Inr sha256, c) \<Rightarrow> (Inr (), cs_store env filename (Some checksum) sha256 c))
          else
            if length checksum \<noteq> SHA256_LEN then (Inl cs_assert, c)
            else (case cs_lookup env filename SHA1 c of
                    (Inl e, c) \<Rightarrow> (Inl e, c)
                  | (Inr sha1, c) \<Rightarrow> (Inr (), cs_store env filename sha1 (Some checksum) c)))"

section \<open>Summing a file\<close>

text \<open>
  The loop that feeds a context; the protected call turns an error of the binding into a result.
\<close>

fun update_loop :: "(nat \<Rightarrow> lua_value) \<Rightarrow> ('s, 'w) handler \<Rightarrow> nat \<Rightarrow> (string + string) list \<Rightarrow> ('s, 'w) state \<Rightarrow> (dg_err + unit) \<times> ('s, 'w) state" where
  "update_loop stale upd u [] L = (Inr (), L)"
| "update_loop stale upd u (Inl e # fh) L = (Inl (File_error e), L)"
| "update_loop stale upd u (Inr buf # fh) L =
     (if buf = [] then (Inr (), L)
      else case sha1_update_call stale upd (LUserdata u) (LString buf) L of
        (Inl e, L) \<Rightarrow> (Inl (Hash_caught e), L)
      | (Inr _, L) \<Rightarrow> update_loop stale upd u fh L)"

definition compute_file_checksum :: "(nat \<Rightarrow> lua_value) \<Rightarrow> ('s, 'w) handler \<Rightarrow> ('s, 'w) handler \<Rightarrow> ('s, 'w) handler \<Rightarrow> nat \<Rightarrow>
    string + (string + string) list \<Rightarrow> ('s, 'w) state \<Rightarrow> (dg_err + string) \<times> ('s, 'w) state" where
  "compute_file_checksum stale ini upd fin len fopen L =
     (case fopen of
        Inl e \<Rightarrow> (Inl (File_error e), L)
      | Inr f \<Rightarrow>
          (case call_c stale [] ini L of
             ((Return _, LUserdata u # _), L) \<Rightarrow>
               (case update_loop stale upd u f L of
                  (Inl e, L) \<Rightarrow> (Inl e, L)
                | (Inr _, L) \<Rightarrow>
                    (case call_c stale [LUserdata u] fin L of
                       ((Return _, LString cs # _), L) \<Rightarrow>
                         if length cs = len then (Inr cs, L) else (Inl (Lua_raise cs_assert), L)
                     | (r, L) \<Rightarrow> (Inl (Hash_raise (Call_failed r)), L)))
           | (r, L) \<Rightarrow> (Inl (Hash_raise (Call_failed r)), L)))"

text \<open>The two functions are written alike.\<close>

definition compute_sha1_checksum :: "(nat \<Rightarrow> lua_value) \<Rightarrow> ('s, 'w) handler \<Rightarrow> ('s, 'w) handler \<Rightarrow> ('s, 'w) handler \<Rightarrow>
    string + (string + string) list \<Rightarrow> ('s, 'w) state \<Rightarrow> (dg_err + string) \<times> ('s, 'w) state" where
  "compute_sha1_checksum stale ini upd fin = compute_file_checksum stale ini upd fin SHA1_LEN"

definition compute_sha256_checksum :: "(nat \<Rightarrow> lua_value) \<Rightarrow> ('s, 'w) handler \<Rightarrow> ('s, 'w) handler \<Rightarrow> ('s, 'w) handler \<Rightarrow>
    string + (string + string) list \<Rightarrow> ('s, 'w) state \<Rightarrow> (dg_err + string) \<times> ('s, 'w) state" where
  "compute_sha256_checksum stale ini upd fin = compute_file_checksum stale ini upd fin SHA256_LEN"

text \<open>\<open>env'\<close> is what the operating system answers after the file has been summed.\<close>

definition compute_once :: "cs_env \<Rightarrow> cs_env \<Rightarrow> (string + (string + string) list \<Rightarrow> 'l \<Rightarrow> (dg_err + string) \<times> 'l) \<Rightarrow> int \<Rightarrow> string \<Rightarrow>
    cs_cache \<times> 'l \<Rightarrow> (dg_err + string) \<times> cs_cache \<times> 'l" where
  "compute_once env env' compute digest_type filename s =
     (case s of (c, L) \<Rightarrow>
        (case cs_lookup env filename digest_type c of
           (Inl e, c) \<Rightarrow> (Inl (Lua_raise e), c, L)
         | (Inr (Some cs), c) \<Rightarrow> (Inr cs, c, L)
         | (Inr None, c) \<Rightarrow>
             (case compute (fs_open env filename) L of
                (Inl e, L) \<Rightarrow> (Inl e, c, L)
              | (Inr cs, L) \<Rightarrow>
                  (case cs_insert env' filename cs digest_type c of
                     (Inl e, c) \<Rightarrow> (Inl (Lua_raise e), c, L)
                   | (Inr _, c) \<Rightarrow> (Inr cs, c, L)))))"

text \<open>Both functions, with the binding of \<^verbatim>\<open>lsha\<close>; \<open>k\<close> and \<open>k'\<close> are the uninitialised memory of new contexts.\<close>

definition file_summer :: "(nat \<Rightarrow> lua_value) \<Rightarrow> (byte list, 'w) env \<Rightarrow> bool \<Rightarrow> byte_order \<Rightarrow> SHA1_CTX \<Rightarrow> SHA256_CTX \<Rightarrow> cs_env \<Rightarrow> cs_env \<Rightarrow>
    (cs_cache \<times> (byte list, 'w) state) summer" where
  "file_summer stale E le bo k k' env env' digest_type =
     (if digest_type = SHA1
      then compute_once env env' (compute_sha1_checksum stale (lsha1_init E k) (lsha1_update le bo E) (lsha1_final le bo E)) SHA1
      else compute_once env env' (compute_sha256_checksum stale (lsha256_init E k') (lsha256_update bo E) (lsha256_final bo E)) SHA256)"

section \<open>Bindings with a frame\<close>

text \<open>
  Both bindings work on one Lua state. What every call must leave to the other binding is the frame: the
  names of both context types are free or name a metatable, and the workspace of SHA-1 has its size.
\<close>

locale framed_binding = hash_binding ini upd fin ctx ready mem_ok limit h
  for ini :: "'m \<Rightarrow> ('s, 'w) handler" and upd fin ctx ready mem_ok limit h +
  fixes frame :: "('s, 'w) state \<Rightarrow> bool"
  assumes frame_ready: "frame L \<Longrightarrow> ready L"
    and ini_frame: "frame L \<Longrightarrow> mem_ok k \<Longrightarrow> frame (snd (call_c stale [] (ini k) L))"
    and upd_frame: "frame L \<Longrightarrow> ctx msg u L \<Longrightarrow> limit s \<Longrightarrow> frame (snd (call_c stale [LUserdata u, LString s] upd L))"
    and fin_frame: "frame L \<Longrightarrow> ctx msg u L \<Longrightarrow> frame (snd (call_c stale [LUserdata u] fin L))"
begin

lemma update_loop_reads:
  assumes "frame L" "ctx msg u L" "\<And>buf. Inr buf \<in> set fh \<Longrightarrow> limit buf" "msg = str_bytes data"
  shows "\<exists>L'. frame L' \<and>
    (case read_loop fh data of
       Inl e \<Rightarrow> update_loop stale upd u fh L = (Inl e, L')
     | Inr data' \<Rightarrow> update_loop stale upd u fh L = (Inr (), L') \<and> ctx (str_bytes data') u L')"
  using assms
proof (induction fh data arbitrary: L msg rule: read_loop.induct)
  case (3 buf fh data)
  show ?case
  proof (cases "buf = []")
    case False
    have lim: "limit buf" using 3(4) by simp
    obtain L1 where L1: "call_c stale [LUserdata u, LString buf] upd L = ((Return 0, []), L1)" "ctx (msg @ str_bytes buf) u L1"
      using upd_law [OF frame_ready [OF 3(2)] 3(3) lim, of stale] by blast
    have "frame L1" using upd_frame [OF 3(2,3) lim, of stale] L1(1) by simp
    then obtain L2 where "frame L2" "case read_loop fh (data @ buf) of
        Inl e \<Rightarrow> update_loop stale upd u fh L1 = (Inl e, L2)
      | Inr data' \<Rightarrow> update_loop stale upd u fh L1 = (Inr (), L2) \<and> ctx (str_bytes data') u L2"
      using 3(1) [OF False, of L1 "msg @ str_bytes buf"] L1(2) 3(4,5) by auto
    then show ?thesis using False L1(1) by (intro exI [of _ L2]) (auto simp: sha1_update_call_def split: sum.splits)
  qed (use 3 in auto)
qed auto

lemma compute_file_checksum_sums:
  assumes "frame L" "mem_ok k" "\<And>f buf. fopen = Inr f \<Longrightarrow> Inr buf \<in> set f \<Longrightarrow> limit buf" "\<And>msg. 2 * length (h msg) = len"
  shows "\<exists>L'. frame L' \<and>
    compute_file_checksum stale (ini k) upd fin len fopen L =
      (case fopen of
         Inl e \<Rightarrow> Inl (File_error e)
       | Inr f \<Rightarrow> (case read_loop f [] of Inl e \<Rightarrow> Inl e | Inr data \<Rightarrow> Inr (hex_loop (h (str_bytes data)))), L')"
proof (cases fopen)
  case (Inr f)
  obtain u L0 where 0: "call_c stale [] (ini k) L = ((Return 1, [LUserdata u]), L0)" "ctx [] u L0"
    using ini_law [OF frame_ready [OF assms(1)] assms(2), of stale] by blast
  have f0: "frame L0" using ini_frame [OF assms(1,2), of stale] 0(1) by simp
  obtain L1 where 1: "frame L1" "case read_loop f [] of
        Inl e \<Rightarrow> update_loop stale upd u f L0 = (Inl e, L1)
      | Inr data \<Rightarrow> update_loop stale upd u f L0 = (Inr (), L1) \<and> ctx (str_bytes data) u L1"
    using update_loop_reads [OF f0 0(2), of f "[]" stale] assms(3) [OF Inr] by auto
  show ?thesis
  proof (cases "read_loop f []")
    case (Inl e)
    then show ?thesis using Inr 0 1 by (auto simp: compute_file_checksum_def)
  next
    case (Inr data)
    then have c: "ctx (str_bytes data) u L1" using 1 by simp
    obtain L2 where 2: "call_c stale [LUserdata u] fin L1 = ((Return 1, [LString (hex_loop (h (str_bytes data)))]), L2)"
      using fin_law [OF frame_ready [OF 1(1)] c, of stale] by blast
    moreover have "frame L2" using fin_frame [OF 1(1) c, of stale] 2 by simp
    ultimately show ?thesis
      using Inr \<open>fopen = Inr f\<close> 0 1(2) assms(4) [of "str_bytes data"] by (intro exI [of _ L2]) (auto simp: compute_file_checksum_def)
  qed
qed (use assms(1) in \<open>auto simp: compute_file_checksum_def\<close>)

end

definition sha_ready :: "(byte list, 'w) state \<Rightarrow> bool" where
  "sha_ready L \<longleftrightarrow> reg_ok TYPE_SHA1 L \<and> reg_ok TYPE_SHA256 L \<and> length (statics L) = 64"

lemma sha_ready_block: "sha_ready L \<Longrightarrow> sha_ready (set_block u b L)" "sha_ready L \<Longrightarrow> length ws = 64 \<Longrightarrow> sha_ready ((set_block u b L)\<lparr>statics := ws\<rparr>)"
  by (simp_all add: sha_ready_def)

lemma sha_ready_frame: "sha_ready (L\<lparr>slots := sl, top := t, ci_top := ct\<rparr>) = sha_ready L"
  by (simp add: sha_ready_def)

lemma init_ready:
  assumes "sha_ready L" "name = TYPE_SHA1 \<or> name = TYPE_SHA256" "lua_newuserdata mem sz (enter_c stale [] L) = (u, L1)"
  shows "\<exists>b L2. luaL_newmetatable E name L1 = (Inr b, L2) \<and> sha_ready (set_block u c (lua_setmetatable 1 L2))"
proof -
  have "reg_ok name L" using assms(1,2) by (auto simp: sha_ready_def)
  from init_userdata [OF this assms(3), of E c] show ?thesis using assms(1) by (auto simp: sha_ready_def)
qed

lemma lsha256_init_ready:
  assumes "sha_ready L"
  shows "sha_ready (snd (call_c stale [] (lsha256_init E k) L))"
proof -
  obtain u L1 where L1: "lua_newuserdata (Sha256_block k) sizeof_SHA256_CTX (enter_c stale [] L) = (u, L1)" by fastforce
  obtain b L2 where "luaL_newmetatable E TYPE_SHA256 L1 = (Inr b, L2)" "sha_ready (set_block u (Sha256_block (sha256_init_ctx k)) (lua_setmetatable 1 L2))"
    using init_ready [OF assms _ L1, of TYPE_SHA256 E] by blast
  then show ?thesis by (simp add: call_c_def lsha256_init_def L1 SHA256_Init_def sha_ready_frame)
qed

lemma lsha1_init_ready:
  assumes "sha_ready L"
  shows "sha_ready (snd (call_c stale [] (lsha1_init E k) L))"
proof -
  obtain u L1 where L1: "lua_newuserdata (Sha1_block k) sizeof_SHA1_CTX (enter_c stale [] L) = (u, L1)" by fastforce
  obtain b L2 where "luaL_newmetatable E TYPE_SHA1 L1 = (Inr b, L2)" "sha_ready (set_block u (Sha1_block (SHA1Init k)) (lua_setmetatable 1 L2))"
    using init_ready [OF assms _ L1, of TYPE_SHA1 E] by blast
  then show ?thesis by (simp add: call_c_def lsha1_init_def L1 sha_ready_frame)
qed

interpretation framed256: framed_binding "lsha256_init E" "lsha256_update bo E" "lsha256_final bo E"
  sha256_ctx "reg_ok TYPE_SHA256" "\<lambda>_. True" "\<lambda>s. length s < 2 ^ 64" sha256_ref sha_ready for E bo
proof unfold_locales
  fix L :: "(byte list, 'a) state"
  show "sha_ready L \<Longrightarrow> reg_ok TYPE_SHA256 L" by (simp add: sha_ready_def)
next
  fix L :: "(byte list, 'a) state" and k stale
  show "sha_ready L \<Longrightarrow> sha_ready (snd (call_c stale [] (lsha256_init E k) L))" by (rule lsha256_init_ready)
next
  fix L :: "(byte list, 'a) state" and msg u and s :: string and stale
  assume L: "sha_ready L" "sha256_ctx msg u L" "length s < 2 ^ 64"
  then obtain c where c: "holds TYPE_SHA256 u (Sha256_block c) L" "sha256_absorbed msg (Some c)" by (auto simp: sha256_ctx_def)
  from sha256.absorbed_upd [OF c(2), of "str_bytes s" bo] L(3) obtain c'
    where "sha256_feed bo (Some c) (str_bytes s) = Inr (Some c')" by (auto simp: md_absorbed_def)
  then show "sha_ready (snd (call_c stale [LUserdata u, LString s] (lsha256_update bo E) L))"
    using lsha256_update_call [OF c(1), of bo s c' stale E] L(1) by (simp add: sha_ready_block)
next
  fix L :: "(byte list, 'a) state" and msg u and stale
  assume L: "sha_ready L" "sha256_ctx msg u L"
  then obtain c where c: "holds TYPE_SHA256 u (Sha256_block c) L" "sha256_absorbed msg (Some c)" by (auto simp: sha256_ctx_def)
  have "SHA256_End bo True (Some c) = Inr (Some (hex_loop (sha256_ref msg), 64), Some sha256_zero)"
    using sha256.absorbed_fin [OF c(2), of bo] SHA256_End_Final length_sha256_ref [of msg]
    by (fastforce simp: sha256_ref_def md_hash_def hex_store_def)
  then show "sha_ready (snd (call_c stale [LUserdata u] (lsha256_final bo E) L))"
    using lsha256_final_call [OF c(1), of bo _ _ _ stale E] L(1) by (simp add: sha_ready_block)
qed

interpretation framed1: framed_binding "lsha1_init E" "lsha1_update le bo E" "lsha1_final le bo E"
  "sha1_ctx le bo" "\<lambda>L. reg_ok TYPE_SHA1 L \<and> length (statics L) = 64" "\<lambda>k. length (buffer1 k) = 64"
  "\<lambda>s. length s + 63 < 2 ^ 32" "md_hash 64 (sha1_blockf le bo) SHA1_IV sha1_length_field sha1_out" sha_ready for E le bo
proof unfold_locales
  fix L :: "(byte list, 'a) state"
  show "sha_ready L \<Longrightarrow> reg_ok TYPE_SHA1 L \<and> length (statics L) = 64" by (simp add: sha_ready_def)
next
  fix L :: "(byte list, 'a) state" and k stale
  show "sha_ready L \<Longrightarrow> sha_ready (snd (call_c stale [] (lsha1_init E k) L))" by (rule lsha1_init_ready)
next
  fix L :: "(byte list, 'a) state" and msg u and s :: string and stale
  assume L: "sha_ready L" "sha1_ctx le bo msg u L" "length s + 63 < 2 ^ 32"
  then obtain c where c: "holds TYPE_SHA1 u (Sha1_block c) L"
    and ab: "md_absorbed 64 (sha1_blockf le bo) SHA1_IV sha1_view sha1_inv msg (c, statics L)" by (auto simp: sha1_ctx_def)
  from sha1.absorbed_upd [OF ab, of "str_bytes s"] L(3) obtain c' ws
    where c': "sha1_feed le bo (c, statics L) (str_bytes s) = Inr (c', ws)"
      "md_absorbed 64 (sha1_blockf le bo) SHA1_IV sha1_view sha1_inv (msg @ str_bytes s) (c', ws)" by auto
  then show "sha_ready (snd (call_c stale [LUserdata u, LString s] (lsha1_update le bo E) L))"
    using lsha1_update_call [OF c _ c'(1), of stale E] L sha1_absorbed_length [OF c'(2)] by (simp add: sha_ready_block)
next
  fix L :: "(byte list, 'a) state" and msg u and stale
  assume L: "sha_ready L" "sha1_ctx le bo msg u L"
  then obtain c where c: "holds TYPE_SHA1 u (Sha1_block c) L"
    and ab: "md_absorbed 64 (sha1_blockf le bo) SHA1_IV sha1_view sha1_inv msg (c, statics L)" by (auto simp: sha1_ctx_def)
  obtain c' ws where w: "sha1_wiped le bo (replicate 64 0) = (c', ws)" by fastforce
  have "SHA1Final le bo (c, statics L) = Inr (md_hash 64 (sha1_blockf le bo) SHA1_IV sha1_length_field sha1_out msg, c', ws)"
    using sha1.absorbed_fin [OF ab] w by (simp add: md_hash_def)
  then show "sha_ready (snd (call_c stale [LUserdata u] (lsha1_final le bo E) L))"
    using lsha1_final_call [OF c, of le bo _ _ _ stale E] L length_wiped_workspace [of le bo] w by (simp add: sha_ready_block)
qed

section \<open>What the cache holds\<close>

definition content :: "cs_env \<Rightarrow> string \<Rightarrow> dg_err + string" where
  "content env filename = (case fs_open env filename of Inl e \<Rightarrow> Inl (File_error e) | Inr f \<Rightarrow> read_loop f [])"

definition file_sum :: "cs_env \<Rightarrow> int \<Rightarrow> string \<Rightarrow> dg_err + string" where
  "file_sum env dg filename =
     (case content env filename of
        Inl e \<Rightarrow> Inl e
      | Inr data \<Rightarrow> Inr (hex_loop ((if dg = SHA1 then sha1_ref else sha256_ref) (str_bytes data))))"

text \<open>
  The entries of the cache are valid if every checksum is permitted, by \<open>V\<close>, for the file, the digest type and the
  recorded status.
\<close>

type_synonym permitted = "string \<Rightarrow> int \<Rightarrow> sb \<Rightarrow> string \<Rightarrow> bool"

definition valid :: "permitted \<Rightarrow> (string \<rightharpoonup> hce) \<Rightarrow> bool" where
  "valid V d \<longleftrightarrow> (\<forall>f hce sb. d f = Some hce \<and> \<not> hce_differs hce sb \<longrightarrow>
     (\<forall>cs. hce_sha1 hce = Some cs \<longrightarrow> V f SHA1 sb cs) \<and> (\<forall>cs. hce_sha256 hce = Some cs \<longrightarrow> V f SHA256 sb cs))"

definition cache_ok :: "permitted \<Rightarrow> cs_cache \<Rightarrow> bool" where
  "cache_ok V c \<longleftrightarrow> (case csdict c of None \<Rightarrow> True | Some d \<Rightarrow> valid V d)"

text \<open>Loading the cache file raises no error, and its entries are valid.\<close>

definition loads_ok :: "permitted \<Rightarrow> cs_env \<Rightarrow> bool" where
  "loads_ok V env \<longleftrightarrow> (\<forall>c. fst (load_cache env c) = Inr () \<and> valid V (the (csdict (snd (load_cache env c)))))"

lemma valid_mono: "valid V d \<Longrightarrow> (\<And>f dg sb cs. V f dg sb cs \<Longrightarrow> W f dg sb cs) \<Longrightarrow> valid W d"
  unfolding valid_def by blast

lemma cache_ok_mono: "cache_ok V c \<Longrightarrow> (\<And>f dg sb cs. V f dg sb cs \<Longrightarrow> W f dg sb cs) \<Longrightarrow> cache_ok W c"
  by (auto simp: cache_ok_def split: option.splits intro: valid_mono)

lemma loads_ok_mono: "loads_ok V env \<Longrightarrow> (\<And>f dg sb cs. V f dg sb cs \<Longrightarrow> W f dg sb cs) \<Longrightarrow> loads_ok W env"
  unfolding loads_ok_def by (blast intro: valid_mono)

lemma load_cache_some: "\<exists>d. csdict (snd (load_cache env c)) = Some d"
  by (auto simp: load_cache_def Let_def split: option.splits sum.splits prod.splits)

lemma loaded_ok:
  assumes "cache_ok V c" "loads_ok V env"
  shows "\<exists>d c'. loaded env c = (Inr d, c') \<and> csdict c' = Some d \<and> valid V d"
proof (cases "csdict c")
  case None
  obtain d where d: "csdict (snd (load_cache env c)) = Some d" using load_cache_some by blast
  then have "fst (load_cache env c) = Inr () \<and> valid V d" using assms(2) unfolding loads_ok_def by (metis option.sel)
  then show ?thesis using None d by (cases "load_cache env c") (auto simp: loaded_def)
qed (use assms in \<open>auto simp: loaded_def cache_ok_def\<close>)

lemma hce_same: "\<not> hce_differs hce sb \<Longrightarrow> \<not> hce_differs hce sb' \<Longrightarrow> sb = sb'"
  by (simp add: hce_differs_def)

lemma valid_drop: "valid V d \<Longrightarrow> valid V (d(f := None))"
  by (auto simp: valid_def)

lemma valid_add:
  assumes "valid V d" "\<And>sb cs. \<not> hce_differs hce sb \<Longrightarrow> hce_sha1 hce = Some cs \<Longrightarrow> V f SHA1 sb cs"
    "\<And>sb cs. \<not> hce_differs hce sb \<Longrightarrow> hce_sha256 hce = Some cs \<Longrightarrow> V f SHA256 sb cs"
  shows "valid V (d(f \<mapsto> hce))"
  using assms by (auto simp: valid_def)

lemma cs_lookup_loaded:
  assumes "cache_ok V c" "csdict c = Some d" "f \<noteq> []" "dg \<in> {SHA1, SHA256}"
  shows "\<exists>r c'. cs_lookup env f dg c = (Inr r, c') \<and> cache_ok V c' \<and> csdict c' \<noteq> None \<and>
    (\<forall>cs. r = Some cs \<longrightarrow> (\<exists>sb. fs_stat env f = Some sb \<and> V f dg sb cs))"
proof -
  have 1: "loaded env c = (Inr d, c)" "csdict c = Some d" "valid V d" using assms(1,2) by (simp_all add: loaded_def cache_ok_def)
  note eval = cs_lookup_def 1 cache_ok_def
  have guard: "\<not> (f = [] \<or> dg \<notin> {SHA1, SHA256})" using assms(3,4) by simp
  show ?thesis
  proof (cases "d f")
    case None
    then show ?thesis using guard by (simp add: eval)
  next
    case (Some hce)
    show ?thesis
    proof (cases "if dg = SHA1 then hce_sha1 hce else hce_sha256 hce")
      case None
      then show ?thesis using guard Some by (simp add: eval)
    next
      case cs: (Some cs)
      show ?thesis
      proof (cases "fs_exists env f \<and> (\<exists>sb. fs_stat env f = Some sb \<and> \<not> hce_differs hce sb)")
        case True
        then obtain sb where sb: "fs_stat env f = Some sb" "\<not> hce_differs hce sb" by blast
        have V: "V f dg sb cs" using 1(3) Some sb(2) cs assms(4) by (auto simp: valid_def split: if_splits)
        have "valid V (d(f \<mapsto> hce\<lparr>hce_use := os_time env, hce_logged := True\<rparr>))"
          by (rule valid_add [OF 1(3)]) (use 1(3) Some in \<open>auto simp: valid_def hce_differs_def\<close>)
        then show ?thesis using guard Some cs True sb V by (simp add: eval)
      next
        case False
        then show ?thesis using guard Some cs valid_drop [OF 1(3), of f] by (auto simp: eval split: option.split)
      qed
    qed
  qed
qed

lemma cs_lookup_ok:
  assumes "cache_ok V c" "loads_ok V env" "f \<noteq> []" "dg \<in> {SHA1, SHA256}"
  shows "\<exists>r c'. cs_lookup env f dg c = (Inr r, c') \<and> cache_ok V c' \<and> csdict c' \<noteq> None \<and>
    (\<forall>cs. r = Some cs \<longrightarrow> (\<exists>sb. fs_stat env f = Some sb \<and> V f dg sb cs))"
proof -
  obtain d c1 where 1: "loaded env c = (Inr d, c1)" "csdict c1 = Some d" "valid V d" using loaded_ok [OF assms(1,2)] by blast
  then have "cs_lookup env f dg c = cs_lookup env f dg c1" using assms(3,4) by (auto simp: cs_lookup_def loaded_def [of env c1])
  then show ?thesis using cs_lookup_loaded [OF _ 1(2) assms(3,4), of V env] 1 by (simp add: cache_ok_def)
qed

lemma cs_store_ok:
  assumes "cache_ok V c" "\<And>sb cs. fs_stat env f = Some sb \<Longrightarrow> s1 = Some cs \<Longrightarrow> V f SHA1 sb cs"
    "\<And>sb cs. fs_stat env f = Some sb \<Longrightarrow> s2 = Some cs \<Longrightarrow> V f SHA256 sb cs"
  shows "cache_ok V (cs_store env f s1 s2 c)"
proof (cases "fs_stat env f")
  case (Some sb)
  let ?hce = "\<lparr>hce_sha1 = s1, hce_sha256 = s2, hce_mtime = sb_mtime sb, hce_mtime_nsec = sb_mtime_nsec sb,
    hce_ctime = sb_ctime sb, hce_ctime_nsec = sb_ctime_nsec sb, hce_size = sb_size sb, hce_dev = sb_dev sb,
    hce_ino = sb_ino sb, hce_use = 0, hce_logged = True\<rparr>"
  have same: "sb' = sb" if "\<not> hce_differs ?hce sb'" for sb' by (rule hce_same [OF that]) (simp add: hce_differs_def)
  have "valid V (d(f \<mapsto> ?hce))" if "valid V d" for d
    by (rule valid_add [OF that]) (use assms(2,3) [OF Some] same in auto)
  then show ?thesis using assms(1) Some by (auto simp: cs_store_def cache_ok_def split: option.splits)
qed (use assms(1) in \<open>simp add: cs_store_def\<close>)

lemma cs_insert_ok:
  assumes "cache_ok V c" "csdict c \<noteq> None" "take 1 f = ''/''" "dg \<in> {SHA1, SHA256}"
    "length cs = (if dg = SHA1 then SHA1_LEN else SHA256_LEN)" "\<And>sb. fs_stat env f = Some sb \<Longrightarrow> V f dg sb cs"
  shows "\<exists>c'. cs_insert env f cs dg c = (Inr (), c') \<and> cache_ok V c'"
proof -
  obtain d where d: "csdict c = Some d" using assms(2) by blast
  have 1: "loaded env c = (Inr d, c)" using d by (simp add: loaded_def)
  have f: "f \<noteq> []" "cs \<noteq> []" using assms(3,5) by (auto simp: SHA1_LEN_def SHA256_LEN_def split: if_splits)
  have neq: "SHA256 \<noteq> SHA1" by (simp add: SHA1_def SHA256_def)
  let ?other = "if dg = SHA1 then SHA256 else SHA1"
  have "\<exists>r c'. cs_lookup env f ?other c = (Inr r, c') \<and> cache_ok V c' \<and> csdict c' \<noteq> None \<and> (\<forall>cs. r = Some cs \<longrightarrow> (\<exists>sb. fs_stat env f = Some sb \<and> V f ?other sb cs))"
    by (rule cs_lookup_loaded [OF assms(1) d f(1)]) simp
  then obtain r c2 where 2: "cs_lookup env f ?other c = (Inr r, c2)" "cache_ok V c2"
      "\<forall>cs. r = Some cs \<longrightarrow> (\<exists>sb. fs_stat env f = Some sb \<and> V f ?other sb cs)" by blast
  show ?thesis
  proof (cases "dg = SHA1")
    case True
    have "cache_ok V (cs_store env f (Some cs) r c2)" by (rule cs_store_ok [OF 2(2)]) (use True assms(6) 2(3) in auto)
    then show ?thesis using True assms(3,5) f 1 2(1) by (simp add: cs_insert_def)
  next
    case False
    then have dg: "dg = SHA256" using assms(4) by simp
    have "cache_ok V (cs_store env f r (Some cs) c2)" by (rule cs_store_ok [OF 2(2)]) (use dg False assms(6) 2(3) in auto)
    then show ?thesis using dg neq assms(3,5) f 1 2(1) by (simp add: cs_insert_def)
  qed
qed

section \<open>The sums of files\<close>

lemma length_sha1_ref: "length (sha1_ref msg) = 20"
  using md_blocks_keeps [of "\<lambda>h. length h = 5" compress1 SHA1_IV 64]
  by (simp add: sha1_ref_def md_hash_def sha1_out_def length_concat_be compress1_def SHA1_IV_def)

lemma length_file_sum: "file_sum env dg f = Inr cs \<Longrightarrow> length cs = (if dg = SHA1 then SHA1_LEN else SHA256_LEN)"
  by (auto simp: file_sum_def length_sha1_ref length_sha256_ref SHA1_LEN_def SHA256_LEN_def split: sum.splits)

text \<open>\<^verbatim>\<open>eio.fread(f, 262144)\<close> returns no more than it is asked for.\<close>

definition blocks_ok :: "cs_env \<Rightarrow> bool" where
  "blocks_ok env \<longleftrightarrow> (\<forall>f fh buf. fs_open env f = Inr fh \<and> Inr buf \<in> set fh \<longrightarrow> length buf \<le> 262144)"

text \<open>What a call returns: the checksum of the file, or one from the cache, or an error for a path that is not absolute.\<close>

definition sum_result :: "permitted \<Rightarrow> cs_env \<Rightarrow> int \<Rightarrow> string \<Rightarrow> dg_err + string \<Rightarrow> bool" where
  "sum_result V env dg f r \<longleftrightarrow>
     r = file_sum env dg f \<or> (\<exists>cs sb. r = Inr cs \<and> fs_stat env f = Some sb \<and> V f dg sb cs) \<or> take 1 f \<noteq> ''/'' \<and> (\<exists>e. r = Inl e)"

lemma compute_once_ok:
  assumes "cache_ok V c" "loads_ok V env" "dg \<in> {SHA1, SHA256}"
    and new: "\<And>cs sb. file_sum env dg f = Inr cs \<Longrightarrow> fs_stat env' f = Some sb \<Longrightarrow> V f dg sb cs"
    and L: "compute (fs_open env f) L = (file_sum env dg f, L')" "sha_ready L" "sha_ready L'"
  shows "\<exists>r c' L''. compute_once env env' compute dg f (c, L) = (r, c', L'') \<and> cache_ok V c' \<and> sha_ready L'' \<and> sum_result V env dg f r"
proof (cases "f = []")
  case True
  then show ?thesis using assms(1) L(2) by (simp add: compute_once_def cs_lookup_def sum_result_def)
next
  case False
  obtain r c1 where 1: "cs_lookup env f dg c = (Inr r, c1)" "cache_ok V c1" "csdict c1 \<noteq> None"
      "\<forall>cs. r = Some cs \<longrightarrow> (\<exists>sb. fs_stat env f = Some sb \<and> V f dg sb cs)"
    using cs_lookup_ok [OF assms(1,2) False assms(3)] by blast
  show ?thesis
  proof (cases r)
    case None
    show ?thesis
    proof (cases "file_sum env dg f")
      case (Inl e)
      then show ?thesis using 1 None L by (simp add: compute_once_def sum_result_def)
    next
      case (Inr cs)
      show ?thesis
      proof (cases "take 1 f = ''/''")
        case True
        then obtain c2 where "cs_insert env' f cs dg c1 = (Inr (), c2)" "cache_ok V c2"
          using cs_insert_ok [OF 1(2,3) True assms(3) length_file_sum [OF Inr]] new [OF Inr] by blast
        then show ?thesis using 1 None L Inr by (simp add: compute_once_def sum_result_def)
      next
        case False
        then have "cs_insert env' f cs dg c1 = (Inl cs_assert, c1)" by (simp add: cs_insert_def)
        then show ?thesis using 1 None L Inr False by (simp add: compute_once_def sum_result_def)
      qed
    qed
  qed (use 1 L in \<open>simp add: compute_once_def sum_result_def\<close>)
qed

definition sum_good :: "permitted \<Rightarrow> cs_env \<Rightarrow> SHA1_CTX \<Rightarrow> cs_cache \<times> (byte list, 'w) state \<Rightarrow> bool" where
  "sum_good V env k s \<longleftrightarrow> blocks_ok env \<and> loads_ok V env \<and> length (buffer1 k) = 64 \<and> cache_ok V (fst s) \<and> sha_ready (snd s)"

lemma file_summer_ok:
  assumes "sum_good V env k s" "dg \<in> {SHA1, SHA256}"
    and new: "\<And>cs sb. file_sum env dg f = Inr cs \<Longrightarrow> fs_stat env' f = Some sb \<Longrightarrow> V f dg sb cs"
  shows "\<exists>r s'. file_summer stale E (bo = LITTLE_ENDIAN) bo k k' env env' dg f s = (r, s') \<and> sum_good V env k s' \<and> sum_result V env dg f r"
proof -
  obtain c L where s: "s = (c, L)" by (cases s)
  have g: "cache_ok V c" "loads_ok V env" "sha_ready L" "length (buffer1 k) = 64" and b: "\<And>fh buf. fs_open env f = Inr fh \<Longrightarrow> Inr buf \<in> set fh \<Longrightarrow> length buf \<le> 262144"
    using assms(1) by (auto simp: sum_good_def blocks_ok_def s)
  have sum: "file_sum env SHA1 f = (case fs_open env f of Inl e \<Rightarrow> Inl (File_error e) | Inr fh \<Rightarrow>
      (case read_loop fh [] of Inl e \<Rightarrow> Inl e | Inr data \<Rightarrow> Inr (hex_loop (sha1_ref (str_bytes data)))))"
    "dg \<noteq> SHA1 \<Longrightarrow> file_sum env dg f = (case fs_open env f of Inl e \<Rightarrow> Inl (File_error e) | Inr fh \<Rightarrow>
      (case read_loop fh [] of Inl e \<Rightarrow> Inl e | Inr data \<Rightarrow> Inr (hex_loop (sha256_ref (str_bytes data)))))"
    by (simp_all add: file_sum_def content_def split: sum.split)
  define compute where "compute = (if dg = SHA1
      then compute_sha1_checksum stale (lsha1_init E k) (lsha1_update (bo = LITTLE_ENDIAN) bo E) (lsha1_final (bo = LITTLE_ENDIAN) bo E)
      else compute_sha256_checksum stale (lsha256_init E k') (lsha256_update bo E) (lsha256_final bo E))"
  have "\<exists>L'. sha_ready L' \<and> compute (fs_open env f) L = (file_sum env dg f, L')"
  proof (cases "dg = SHA1")
    case True
    have "length buf + 63 < 2 ^ 32" if "fs_open env f = Inr fh" "Inr buf \<in> set fh" for fh buf using b [OF that] by simp
    then show ?thesis
      using framed1.compute_file_checksum_sums [OF g(3,4), of "fs_open env f" "bo = LITTLE_ENDIAN" bo SHA1_LEN stale E, unfolded sha1_blockf_ref] True
      by (simp add: compute_def sum(1) compute_sha1_checksum_def length_sha1_ref SHA1_LEN_def)
  next
    case False
    have "length buf < 2 ^ 64" if "fs_open env f = Inr fh" "Inr buf \<in> set fh" for fh buf using b [OF that] by simp
    then show ?thesis
      using framed256.compute_file_checksum_sums [OF g(3), where fopen = "fs_open env f" and len = SHA256_LEN and stale = stale and E = E and bo = bo and k = k'] False
      by (simp add: compute_def sum(2) compute_sha256_checksum_def length_sha256_ref SHA256_LEN_def)
  qed
  then obtain L' where L': "sha_ready L'" "compute (fs_open env f) L = (file_sum env dg f, L')" by blast
  have "dg = SHA256" if "dg \<noteq> SHA1" using that assms(2) by simp
  then have "file_summer stale E (bo = LITTLE_ENDIAN) bo k k' env env' dg = compute_once env env' compute dg"
    by (auto simp: file_summer_def compute_def)
  then show ?thesis
    using compute_once_ok [where compute = compute and env' = env', OF g(1,2) assms(2) new L'(2) g(3) L'(1)] assms(1) by (auto simp: sum_good_def s)
qed

text \<open>At one moment, a checksum is permitted if it is true of the file as it is, should it have that status.\<close>

definition current :: "cs_env \<Rightarrow> permitted" where
  "current env f dg sb cs \<longleftrightarrow> (fs_stat env f = Some sb \<longrightarrow> file_sum env dg f = Inr cs)"

interpretation cached: checksum_source "file_summer stale E (bo = LITTLE_ENDIAN) bo k k' env env" "sum_good (current env) env k" "file_sum env"
  for stale and E :: "(byte list, 'w) env" and bo k k' env
proof unfold_locales
  fix s :: "cs_cache \<times> (byte list, 'w) state" and dg filename
  assume "sum_good (current env) env k s" "dg \<in> {SHA1, SHA256}"
  then obtain r s' where "file_summer stale E (bo = LITTLE_ENDIAN) bo k k' env env dg filename s = (r, s')" "sum_good (current env) env k s'"
      "sum_result (current env) env dg filename r"
    using file_summer_ok [of "current env" env k s dg filename env stale E bo k'] by (auto simp: current_def)
  then show "\<exists>r s'. file_summer stale E (bo = LITTLE_ENDIAN) bo k k' env env dg filename s = (r, s') \<and> sum_good (current env) env k s' \<and>
      (r = file_sum env dg filename \<or> take 1 filename \<noteq> ''/'' \<and> (\<exists>e. r = Inl e))"
    by (auto simp: sum_result_def current_def)
qed

section \<open>Properties of checksums\<close>

text \<open>
  A trace of calls: what the operating system answers while the file is looked up and read, and afterwards, when the
  checksum is recorded, then the digest type and the file.
\<close>

type_synonym sum_call = "cs_env \<times> cs_env \<times> int \<times> string"

primrec sum_trace :: "(nat \<Rightarrow> lua_value) \<Rightarrow> (byte list, 'w) env \<Rightarrow> byte_order \<Rightarrow> SHA1_CTX \<Rightarrow> SHA256_CTX \<Rightarrow> sum_call list \<Rightarrow>
    cs_cache \<times> (byte list, 'w) state \<Rightarrow> (dg_err + string) list" where
  "sum_trace stale E bo k k' [] s = []"
| "sum_trace stale E bo k k' (x # xs) s =
     (case x of (env, env', dg, f) \<Rightarrow>
        (case file_summer stale E (bo = LITTLE_ENDIAN) bo k k' env env' dg f s of (r, s) \<Rightarrow> r # sum_trace stale E bo k k' xs s))"

text \<open>Checksums that a call of \<open>H\<close> computed, with the status of the file after that call.\<close>

definition summed :: "sum_call set \<Rightarrow> permitted" where
  "summed H f dg sb cs \<longleftrightarrow> (\<exists>env env'. (env, env', dg, f) \<in> H \<and> fs_stat env' f = Some sb \<and> file_sum env dg f = Inr cs)"

lemma summed_mono: "summed H f dg sb cs \<Longrightarrow> H \<subseteq> H' \<Longrightarrow> summed H' f dg sb cs"
  unfolding summed_def by blast

lemma sum_trace_history:
  assumes "cache_ok (summed H) (fst s)" "sha_ready (snd s)" "length (buffer1 k) = 64"
    "\<forall>(env, env', dg, f) \<in> set xs. blocks_ok env \<and> loads_ok (summed H) env \<and> dg \<in> {SHA1, SHA256}"
  shows "length (sum_trace stale E bo k k' xs s) = length xs \<and>
    (\<forall>i < length xs. case xs ! i of (env, env', dg, f) \<Rightarrow> sum_result (summed (H \<union> set (take i xs))) env dg f (sum_trace stale E bo k k' xs s ! i))"
  using assms
proof (induction xs arbitrary: H s)
  case (Cons x xs)
  obtain env env' dg f where x: "x = (env, env', dg, f)" by (cases x)
  let ?H = "insert x H"
  have mono: "summed ?H f dg sb cs" if "summed H f dg sb cs" for f dg sb cs using that by (rule summed_mono) blast
  have x4: "blocks_ok env" "loads_ok (summed H) env" "dg \<in> {SHA1, SHA256}" using Cons.prems(4) x by auto
  have g: "sum_good (summed ?H) env k s"
    using Cons.prems(1-3) x4 cache_ok_mono [of "summed H" "fst s" "summed ?H"] loads_ok_mono [of "summed H" env "summed ?H"] mono
    by (auto simp: sum_good_def)
  obtain r s' where 1: "file_summer stale E (bo = LITTLE_ENDIAN) bo k k' env env' dg f s = (r, s')" "sum_good (summed ?H) env k s'"
      "sum_result (summed ?H) env dg f r"
    using file_summer_ok [OF g x4(3), of f env' stale E bo k'] by (auto simp: summed_def x)
  have r: "sum_result (summed H) env dg f r" using 1(3) by (auto simp: sum_result_def summed_def x)
  have l: "\<forall>(env, env', dg, f) \<in> set xs. blocks_ok env \<and> loads_ok (summed ?H) env \<and> dg \<in> {SHA1, SHA256}"
    using Cons.prems(4) loads_ok_mono [of "summed H" _ "summed ?H"] mono by fastforce
  have IH: "length (sum_trace stale E bo k k' xs s') = length xs \<and>
    (\<forall>i < length xs. case xs ! i of (env, env', dg, f) \<Rightarrow> sum_result (summed (?H \<union> set (take i xs))) env dg f (sum_trace stale E bo k k' xs s' ! i))"
    by (rule Cons.IH) (use 1(2) l in \<open>simp_all add: sum_good_def\<close>)
  have eq: "sum_trace stale E bo k k' (x # xs) s = r # sum_trace stale E bo k k' xs s'" using 1(1) by (simp add: x)
  show ?case
  proof (intro conjI allI impI)
    show "length (sum_trace stale E bo k k' (x # xs) s) = length (x # xs)" using IH by (simp only: eq list.size)
    fix i
    assume "i < length (x # xs)"
    then show "case (x # xs) ! i of (env, env', dg, f) \<Rightarrow>
        sum_result (summed (H \<union> set (take i (x # xs)))) env dg f (sum_trace stale E bo k k' (x # xs) s ! i)"
      using r IH unfolding eq by (cases i) (simp_all add: x)
  qed
qed simp


definition test_fs :: "lua_Number \<Rightarrow> string list \<Rightarrow> cs_env" where
  "test_fs ino blocks = \<lparr>fs_exists = \<lambda>f. f = ''/a'', fs_stat = \<lambda>f. if f = ''/a'' then Some \<lparr>sb_mtime = 5, sb_mtime_nsec = 0, sb_ctime = 5,
       sb_ctime_nsec = 0, sb_size = 3, sb_dev = 1, sb_ino = ino\<rparr> else None,
     fs_open = \<lambda>f. if f = ''/a'' then Inr (List.map Inr blocks) else Inl ''No such file or directory'', os_time = 9, build_mode = ''tag'', hashcache = None\<rparr>"

lemma test_fs_ok: "loads_ok V (test_fs i bs)" "csdict c = None \<Longrightarrow> cache_ok V c" "\<forall>b \<in> set bs. length b \<le> 262144 \<Longrightarrow> blocks_ok (test_fs i bs)"
  by (auto simp: loads_ok_def load_cache_def Let_def test_fs_def valid_def cache_ok_def blocks_ok_def split: if_splits)

lemma test_fs_content: "content (test_fs i bs) ''/a'' = read_loop (List.map Inr bs) []"
  by (simp add: content_def test_fs_def)


text \<open>So the cache is transparent as far as the status of a file tells its content.\<close>

corollary checksum_cache_transparent:
  assumes "cache_ok (summed H) c" "sha_ready L" "length (buffer1 k) = 64"
    and "\<forall>(env, env', dg, f) \<in> set xs. blocks_ok env \<and> loads_ok (summed H) env \<and> dg \<in> {SHA1, SHA256} \<and> take 1 f = ''/''"
    and "\<And>env0 env0' dg f env. (env0, env0', dg, f) \<in> H \<union> set xs \<Longrightarrow> env \<in> fst ` set xs \<Longrightarrow> fs_stat env0' f = fs_stat env f \<Longrightarrow> content env0 f = content env f"
  shows "sum_trace stale E bo k k' xs (c, L) = List.map (\<lambda>(env, env', dg, f). file_sum env dg f) xs"
proof (rule nth_equalityI)
  have h: "\<forall>(env, env', dg, f) \<in> set xs. blocks_ok env \<and> loads_ok (summed H) env \<and> dg \<in> {SHA1, SHA256}" using assms(4) by auto
  note T = sum_trace_history [of H "(c, L)" k xs stale E bo k', simplified fst_conv snd_conv, OF assms(1-3) h]
  show "length (sum_trace stale E bo k k' xs (c, L)) = length (List.map (\<lambda>(env, env', dg, f). file_sum env dg f) xs)" using T by simp
  fix i
  assume "i < length (sum_trace stale E bo k k' xs (c, L))"
  then have i: "i < length xs" using T by simp
  obtain env env' dg f where x: "xs ! i = (env, env', dg, f)" by (cases "xs ! i")
  then have mem: "(env, env', dg, f) \<in> set xs" using i by (metis nth_mem)
  have "env \<in> fst ` set xs" using mem by force
  moreover have "take 1 f = ''/''" using assms(4) mem by auto
  moreover have "sum_result (summed (H \<union> set (take i xs))) env dg f (sum_trace stale E bo k k' xs (c, L) ! i)" using T i x by fastforce
  moreover have "set (take i xs) \<subseteq> set xs" by (rule set_take_subset)
  ultimately have "sum_trace stale E bo k k' xs (c, L) ! i = file_sum env dg f"
    using assms(5) unfolding sum_result_def summed_def file_sum_def by (smt (verit) Un_iff subsetD)
  then show "sum_trace stale E bo k k' xs (c, L) ! i = List.map (\<lambda>(env, env', dg, f). file_sum env dg f) xs ! i" using i x by simp
qed

lemma str_lower_hex_loop: "str_lower (hex_loop ds) = hex_loop ds"
proof -
  have "\<forall>i < 16. tolower (sha2_hex_digits ! i) = sha2_hex_digits ! i" by code_simp
  moreover have "unat (drop_bit 4 (d AND 0xf0)) < 16" "unat (d AND 0x0f) < 16" for d :: byte
    using unsigned_less [of d, where 'a = nat] by (simp_all only: byte_nibbles) (simp_all add: less_mult_imp_div_less)
  ultimately show ?thesis by (induction ds) (auto simp: str_lower_def)
qed

lemma file_sum_lower: "file_sum env dg f = Inr cs \<Longrightarrow> str_lower cs = cs"
  by (auto simp: file_sum_def str_lower_hex_loop split: sum.splits)

text \<open>An entry that has a supported digest type and, in either letter case, the checksum of the content of its file.\<close>

definition entry_matches :: "cs_env \<Rightarrow> string option \<Rightarrow> dt_entry \<Rightarrow> bool" where
  "entry_matches env directory e \<longleftrightarrow>
     (\<exists>dg f cs data. checksum_filename e directory = Inr f \<and> e_digest e = Some dg \<and> dg \<in> {SHA1, SHA256} \<and> e_checksum e = Some cs \<and>
        content env f = Inr data \<and> str_lower cs = hex_loop ((if dg = SHA1 then sha1_ref else sha256_ref) (str_bytes data)))"

lemma entry_matches_verifies: "verifies (file_sum env) directory e = entry_matches env directory e"
  unfolding verifies_def entry_matches_def file_sum_def by (fastforce split: sum.splits)

text \<open>
  C33 (safety): verifying a digest table, while the files do not change, with checksums from the cache. If it succeeds,
  every entry has a supported digest type and, in either letter case, the checksum of the content of the file it
  names. If every entry has that and names its file by an absolute path, it succeeds. The table is not changed.
  Assumed of the cache, and of the cache file if it is not loaded yet, is that a checksum recorded with the
  present status of a file is the checksum of its present content; an empty cache satisfies this. Loading the cache
  file raises no error, and a read returns at most the 262144 bytes asked for.
\<close>

theorem digest_verify_files:
  assumes "blocks_ok env" "loads_ok (current env) env" "cache_ok (current env) c" "sha_ready L" "length (buffer1 k) = 64"
  shows "\<exists>r s'. digest_verify (file_summer stale E (bo = LITTLE_ENDIAN) bo k k' env env) dt directory (c, L) = (r, dt, s') \<and>
    (r = None \<longrightarrow> (\<forall>e \<in> set dt. entry_matches env directory e)) \<and>
    ((\<forall>e \<in> set dt. absolute directory e \<and> entry_matches env directory e) \<longrightarrow> r = None)"
proof -
  have "sum_good (current env) env k (c, L)" using assms by (simp add: sum_good_def)
  from cached.verify_iff [OF this, of stale E bo k' dt directory] show ?thesis unfolding entry_matches_verifies by blast
qed

theorem digest_verify_files_witness:
  "\<exists>s'. digest_verify (file_summer (\<lambda>_. LNil) test_env True LITTLE_ENDIAN \<lparr>state1 = [], count1 = (7, 7), buffer1 = replicate 64 1\<rparr> sha256_zero (test_fs 1 [''abc'']) (test_fs 1 [''abc'']))
      [\<lparr>e_digest = Some SHA1, e_checksum = Some (hex_loop (sha1_ref (str_bytes ''abc''))), e_name = Some ''a'', e_name2check = Some ''/a''\<rparr>] None
      (\<lparr>csdict = None, cleanup_registered = False\<rparr>, test_state (replicate 64 9) ()) =
    (None, [\<lparr>e_digest = Some SHA1, e_checksum = Some (hex_loop (sha1_ref (str_bytes ''abc''))), e_name = Some ''a'', e_name2check = Some ''/a''\<rparr>], s')"
proof -
  let ?env = "test_fs 1 [''abc'']" and ?k = "\<lparr>state1 = [], count1 = (7, 7), buffer1 = replicate 64 1\<rparr>"
  let ?c = "\<lparr>csdict = None, cleanup_registered = False\<rparr>" and ?L = "test_state (replicate 64 9) ()"
  let ?e = "\<lparr>e_digest = Some SHA1, e_checksum = Some (hex_loop (sha1_ref (str_bytes ''abc''))), e_name = Some ''a'', e_name2check = Some ''/a''\<rparr>"
  have g: "blocks_ok ?env" "loads_ok (current ?env) ?env" "cache_ok (current ?env) ?c" "sha_ready ?L" "length (buffer1 ?k) = 64"
    by (simp_all add: test_fs_ok sha_ready_def)
  have "absolute None ?e" "entry_matches ?env None ?e"
    by (simp_all add: absolute_def entry_matches_def checksum_filename_def test_fs_content str_lower_hex_loop)
  then show ?thesis
    using digest_verify_files [OF g, of "\<lambda>_. LNil" test_env LITTLE_ENDIAN sha256_zero "[?e]" None] by auto
qed

text \<open>A table whose checksums were computed verifies, at the same moment.\<close>

theorem digest_checksum_verifies:
  assumes "sum_good (current env) env k s" "\<forall>e \<in> set dt. absolute directory e"
    and "digest_checksum (file_summer stale E (bo = LITTLE_ENDIAN) bo k k' env env) dt directory s = (None, dt', s')"
  shows "List.map e_name dt' = List.map e_name dt \<and>
    (\<exists>s''. digest_verify (file_summer stale E (bo = LITTLE_ENDIAN) bo k k' env env) dt' directory s' = (None, dt', s''))"
proof -
  have 1: "sum_good (current env) env k s' \<and> List.map e_name dt' = List.map e_name dt \<and> (\<forall>e \<in> set dt'. verifies (file_sum env) directory e) \<and>
      ((\<forall>e \<in> set dt. absolute directory e) \<longrightarrow> (\<forall>e \<in> set dt'. absolute directory e))"
    by (rule cached.checksum_verifies [OF assms(1,3) file_sum_lower])
  then show ?thesis using cached.verify_iff [of env k s' stale E bo k' dt' directory] assms(2) by auto
qed

text \<open>A file with a relative path is summed, but its checksum cannot be recorded: the call raises an error.\<close>

theorem checksum_relative_raises:
  assumes "f \<noteq> []" "take 1 f \<noteq> ''/''" "dg \<in> {SHA1, SHA256}" "csdict c = Some Map.empty" "compute (fs_open env f) L = (Inr cs, L')"
  shows "fst (compute_once env env' compute dg f (c, L)) = Inl (Lua_raise cs_assert)"
  using assms by (auto simp: compute_once_def cs_lookup_def loaded_def cs_insert_def)

text \<open>
  The cache reads the status of a file after the file was summed: if the file changes in between, the
  old checksum is recorded for the new content, and the next call returns it.
\<close>

theorem checksum_cache_race:
  "let old = test_fs 1 [''abc'']; new = test_fs 2 [''x'', ''yz'']; c = \<lparr>csdict = None, cleanup_registered = False\<rparr>;
       compute = (\<lambda>fopen L. (case fopen of Inl e \<Rightarrow> Inl (File_error e) | Inr f \<Rightarrow> (case read_loop f [] of Inl e \<Rightarrow> Inl e | Inr data \<Rightarrow> Inr (replicate 37 CHR ''0'' @ data)), L))
   in case compute_once old new compute SHA1 ''/a'' (c, ()) of (r, s) \<Rightarrow> fst (compute_once new new compute SHA1 ''/a'' s) = Inr (replicate 37 CHR ''0'' @ ''abc'')"
  by (simp add: compute_once_def cs_lookup_def cs_insert_def cs_store_def loaded_def load_cache_def hce_differs_def test_fs_def SHA1_def SHA256_def SHA1_LEN_def)

end
