(* ===== verification/Spec2Isabelle.thy ===== *)
theory Spec2Isabelle
  imports Sha256 Sha512 Sha1 Lsha Leio E2su Le2lib_Correct Ltable_Correct E2_Dlist E2_Environment E2_Url E2_Cscache
begin

text \<open>
  \<^bold>\<open>e2factory: a verification development.\<close>

  e2factory builds software in chroot environments. Its programs are written in Lua and run on a bundled
  Lua 5.1.3; the parts written in C are a binding of hash functions (\<^verbatim>\<open>generic/lsha.c\<close> over \<^verbatim>\<open>generic/sha1.c\<close>
  and \<^verbatim>\<open>generic/sha2.c\<close>), two modules that give Lua programs access to files, descriptors, processes
  and signals (\<^verbatim>\<open>generic/leio.c\<close>, \<^verbatim>\<open>generic/le2lib.c\<close>), the setuid helper \<^verbatim>\<open>global/e2-su-2.2.c\<close> and the
  wrapper \<^verbatim>\<open>local/linux32.c\<close>. The modules reach the Lua values through the C interface of the
  interpreter (\<^verbatim>\<open>lapi.c\<close>, \<^verbatim>\<open>lauxlib.c\<close>), the interpreter keeps them in tables (\<^verbatim>\<open>ltable.c\<close>). Of the Lua programs,
  those parts are modelled that compute: strings, paths, URLs, digests, environments, the build order.

  \<^bold>\<open>Theories.\<close>
  \<^item> \<open>E2_Prelude\<close>: machine types, words as bytes in both byte orders, buffers, hexadecimal text.
  \<^item> \<open>Md_Stream\<close>: the contract of a streaming hash, as the locales \<open>md_stream\<close> and \<open>md_digest\<close>: absorbing
    chunks is absorbing their concatenation. The locale is interpreted on the operations of each hash.
  \<^item> \<open>Sha2_Core\<close>, \<open>Sha256\<close>, \<open>Sha512\<close>, \<open>Sha1\<close>: contexts as records, every macro and operation of the two C files.
    The compression functions of FIPS 180-4 with the full message schedule are the reference; the code
    keeps the schedule in sixteen words of the context's own buffer. Shown: hashing in any chunking is the
    reference hash, the unrolled and the rolled transform agree, the block may be the context's own
    buffer, when the SHA-1 update overruns its buffer, what the final operations wipe.
  \<^item> \<open>LuaApi\<close>: values, the stack frame of a C function, tables, userdata and metatables, and the functions
    of the C interface that the modules call. \<open>Lsha\<close>: the binding of the hashes. Shown: traces of calls on
    any number of contexts return the digests of what each context was fed; arguments of a wrong type are
    rejected; where \<^verbatim>\<open>sha1_init\<close> with an argument confuses context types.
  \<^item> \<open>Posix\<close>: the C library and the kernel as a record of functions, a parameter of everything above it; what a
    theorem relies on is a hypothesis about this record, and a witness instantiates it.
  \<^item> \<open>Leio\<close>, \<open>Le2lib\<close>, \<open>Le2lib_Correct\<close>: every function of the two modules. Shown: the shared read buffer is large
    enough for every read in every order of calls, streams are read completely, the Lua stack is not
    exceeded, directory loops end, exit statuses are decoded, the interrupt hook runs at most once.
  \<^item> \<open>E2su\<close>: the helper and the wrapper as programs over the record of system calls. Shown: whatever the
    arguments and whatever the system calls return, root rights are taken and a tool is run only for a
    well-formed command on a marked chroot, with the documented argument vector; marker and root directory are
    the documented names if the base path leaves room for them, and those names cut to \<^verbatim>\<open>PATH_MAX\<close> otherwise.
  \<^item> \<open>Lobject\<close>, \<open>Ltable\<close>: integer helpers, the string hash, and the tables of the interpreter with their array
    part and their chained scatter table. \<open>Ltable_Nodes\<close>, \<open>Ltable_Map\<close>, \<open>Ltable_Resize\<close>, \<open>Ltable_Rehash\<close>,
    \<open>Ltable_Correct\<close>: the chain invariant (locale \<open>scatter\<close>), the abstraction of a table to a map, resizing, the
    counting of keys in a rehash, and the map contract (locale \<open>value_map\<close>). Shown: a table is a map under
    every hash function, every table that can be built satisfies the invariant, a traversal delivers every
    entry once.

  \<^item> \<open>Ltablib\<close>, \<open>Ltablib_Correct\<close>: the order of strings and values (\<^verbatim>\<open>lvm.c\<close>) and the table library (\<^verbatim>\<open>ltablib.c\<close>). Shown:
    strings are ordered by their bytes, \<^verbatim>\<open>table.sort\<close> returns and sorts.
  \<^item> \<open>Lstrlib\<close>, \<open>Lstrlib_Correct\<close>: the string library (\<^verbatim>\<open>lstrlib.c\<close>) with the backtracking pattern matcher, \<^verbatim>\<open>gsub\<close> and
    \<^verbatim>\<open>format\<close>. Patterns are parsed to a list of items, and a list of items has an ordered list of outcomes;
    shown: the matcher delivers the first outcome. The theories on Lua programs run their patterns with it.
  \<^item> \<open>E2_Lib\<close>, \<open>E2_Url\<close>: the functions on strings of \<^verbatim>\<open>generic/e2lib.lua\<close> and \<^verbatim>\<open>local/e2tool.lua\<close>, and \<^verbatim>\<open>generic/url.lua\<close>. Shown:
    shell quoting and URLs round trip, server locations stay below the server's directory, how
    \<^verbatim>\<open>dirname\<close> and \<^verbatim>\<open>basename\<close> split every path, \<^verbatim>\<open>format_replace\<close> returns and what it replaces.
  \<^item> \<open>E2_Sl\<close>, \<open>E2_Dlist\<close>: string lists (\<^verbatim>\<open>local/sl.lua\<close>), with all their methods, answer as finite sets do; the build order that \<^verbatim>\<open>dlist_recursive\<close> of
    \<^verbatim>\<open>local/e2tool.lua\<close> computes is a topological order, and it fails exactly on cycles.
  \<^item> \<open>E2_Environment\<close>: \<^verbatim>\<open>local/hash.lua\<close> and \<^verbatim>\<open>local/environment.lua\<close> on top of \<open>Lsha\<close>: the identifier of an environment.
  \<^item> \<open>E2_Digest\<close>: \<^verbatim>\<open>local/digest.lua\<close>: parsing, checking, writing and verifying message digest files. Shown: a
    written file parses back in whatever blocks it is read, and what every parsed entry satisfies. What a
    source of checksums promises is the locale \<open>checksum_source\<close>.
  \<^item> \<open>E2_Cscache\<close>: the checksum cache \<^verbatim>\<open>local/cscache.lua\<close> and the functions of \<^verbatim>\<open>local/digest.lua\<close> that sum files with
    both bindings of \<open>Lsha\<close> on one Lua state (locale \<open>framed_binding\<close>). Shown, while files change between the calls and
    during them: every call returns the checksum of the present content of the file, or of the content
    it had in an earlier call after which it had its present status. If the cache is right for the present
    files, a table that verifies has their checksums, and one that has them verifies if its file names are
    absolute; a relative name makes the cache raise an error. The writing of the cache file at exit
    (\<^verbatim>\<open>store_cache\<close>) is not modelled.

  \<^bold>\<open>Conventions.\<close> A C structure is a record, a function that can raise a Lua error or reach undefined
  behaviour returns a sum, static variables are part of the state. Machine integers are words where they
  wrap and integers with their range where they do not. Lua numbers are finite doubles, as rationals;
  \<^verbatim>\<open>cast_num\<close> rounds. Pointers to table values are references (\<open>tv_ref\<close>), nodes are indices.

  \<^bold>\<open>Bounds and fuel.\<close> \<^verbatim>\<open>newkey\<close> counts the depth of its recursion through \<^verbatim>\<open>rehash\<close>; two levels are enough
  because a rehashed table has room for the new key (\<open>put_refers\<close>). \<open>visit\<close>, the depth-first search for
  the build order, counts its depth, and the number of results plus one is enough, since no result is visited
  within its own visit; the theorems show that it never runs out. The linear search of \<^verbatim>\<open>unbound_search\<close>
  is bounded by \<^verbatim>\<open>MAX_INT\<close>, where the index wraps, and the tag-method chains by \<^verbatim>\<open>MAXTAGLOOP\<close>, as in the code.
  Loops along the links of nodes, over directory entries and over the elements of a Lua
  array are partial functions: None is a call that does not return, and the theorems show that
  they return.

  \<^bold>\<open>Not modelled.\<close> The compiler, the loop of the virtual machine, coroutines, the collector, and the base, I/O,
  mathematics, operating system, package and debug libraries of the bundled interpreter, its command line
  programs, and LuaFileSystem, which only the build of the documentation uses. Values are not collected, so
  dead keys do not occur in tables; NaN is not a value of the model, so the error for NaN keys does not occur
  either; allocation succeeds. The Lua programs that move files, call version control systems and servers,
  load project configurations or handle options are not modelled: they consist of calls of other programs.
\<close>

end
